(* ===== verification/Cmpp_Prelude.thy ===== *)
theory Cmpp_Prelude
  imports Main "HOL-Library.Word"
begin

text \<open>
  Shared vocabulary of the development: machine integers at their width, byte strings, the outcome
  of a Rust computation that may return an error or panic, checked slicing and indexing, big-endian
  conversions, and the collections of facts the component theories extend.
\<close>

unbundle bit_operations_syntax

named_theorems wire_simps
named_theorems parses_intro
named_theorems no_panic_intro

section \<open>Machine integers and byte strings\<close>

type_synonym u8 = "8 word"
type_synonym u16 = "16 word"
type_synonym u32 = "32 word"
type_synonym u64 = "64 word"
type_synonym bytes = "u8 list"

text \<open>
  A value of Rust's \<open>usize\<close> is a \<^typ>\<open>nat\<close>; the places where the source guards against
  overflow compare with the largest 64-bit value.
\<close>

definition usize_max :: nat where
  "usize_max = 18446744073709551615"

definition usize_saturating_add :: "nat \<Rightarrow> nat \<Rightarrow> nat" where
  "usize_saturating_add a b = min (a + b) usize_max"

definition usize_saturating_mul :: "nat \<Rightarrow> nat \<Rightarrow> nat" where
  "usize_saturating_mul a b = min (a * b) usize_max"

definition usize_checked_add :: "nat \<Rightarrow> nat \<Rightarrow> nat option" where
  "usize_checked_add a b = (if a + b \<le> usize_max then Some (a + b) else None)"

definition usize_checked_mul :: "nat \<Rightarrow> nat \<Rightarrow> nat option" where
  "usize_checked_mul a b = (if a * b \<le> usize_max then Some (a * b) else None)"

definition u8_try_from :: "nat \<Rightarrow> u8 option" where
  "u8_try_from n = (if n \<le> 255 then Some (of_nat n) else None)"

definition u32_checked_add1 :: "u32 \<Rightarrow> u32 option" where
  "u32_checked_add1 a = (if a = - 1 then None else Some (a + 1))"

definition div_ceil :: "nat \<Rightarrow> nat \<Rightarrow> nat" where
  "div_ceil a b = (a + b - 1) div b"

lemma usize_checked_add_le [simp]:
  "a + b \<le> usize_max \<Longrightarrow> usize_checked_add a b = Some (a + b)"
  by (simp add: usize_checked_add_def)

lemma usize_checked_mul_le [simp]:
  "a * b \<le> usize_max \<Longrightarrow> usize_checked_mul a b = Some (a * b)"
  by (simp add: usize_checked_mul_def)

lemma u8_try_from_le [simp]: "n \<le> 255 \<Longrightarrow> u8_try_from n = Some (of_nat n)"
  by (simp add: u8_try_from_def)

lemma u8_try_from_None_iff [simp]: "u8_try_from n = None \<longleftrightarrow> 255 < n"
  by (simp add: u8_try_from_def)

lemma u8_try_from_SomeD: "u8_try_from n = Some w \<Longrightarrow> n \<le> 255 \<and> w = of_nat n"
  by (simp add: u8_try_from_def split: if_splits)

lemma unat_of_nat_u8 [simp]: "n \<le> 255 \<Longrightarrow> unat (of_nat n :: u8) = n"
  by (simp add: unat_of_nat take_bit_nat_eq_self)

lemma unat_u8_less [simp]: "unat (w :: u8) < 256"
  using unsigned_less [of w, where 'a = nat] by simp

lemma unat_u8_le [simp]: "unat (w :: u8) \<le> 255"
  using unat_u8_less [of w] by linarith

lemma u32_checked_add1_Some:
  "u32_checked_add1 a = Some b \<longleftrightarrow> a \<noteq> - 1 \<and> b = a + 1"
  by (auto simp: u32_checked_add1_def)

lemma unat_u32_less: "unat (w :: u32) < 4294967296"
  using unsigned_less [of w, where 'a = nat] by simp

lemma u32_neq_max: "(a :: u32) \<noteq> - 1 \<longleftrightarrow> unat a < 4294967295"
proof -
  have m: "unat (- 1 :: u32) = 4294967295"
    by (simp add: unsigned_minus_1_eq_mask mask_eq_exp_minus_1)
  have "a = - 1 \<longleftrightarrow> unat a = 4294967295"
    by (metis m word_unat_eq_iff)
  then show ?thesis
    using unat_u32_less [of a] by linarith
qed

lemma unat_u32_Suc: "(a :: u32) \<noteq> - 1 \<Longrightarrow> unat (a + 1) = Suc (unat a)"
  using unatSuc [of a] by (simp add: add.commute eq_neg_iff_add_eq_0)

section \<open>Outcome of a computation\<close>

text \<open>
  \<open>Result<T, E>\<close> together with the third way a Rust function can end, a panic (a failed
  \<open>unwrap\<close> or \<open>expect\<close>, an index or slice out of range, \<open>unreachable!\<close>). The operator
  \<open>?\<close> is \<open>res_bind\<close>.
\<close>

datatype ('e, 'a) res = Ok 'a | Err 'e | Panic

primrec res_bind :: "('e, 'a) res \<Rightarrow> ('a \<Rightarrow> ('e, 'b) res) \<Rightarrow> ('e, 'b) res" where
  "res_bind (Ok x) f = f x"
| "res_bind (Err e) f = Err e"
| "res_bind Panic f = Panic"

primrec map_ok :: "('a \<Rightarrow> 'b) \<Rightarrow> ('e, 'a) res \<Rightarrow> ('e, 'b) res" where
  "map_ok f (Ok x) = Ok (f x)"
| "map_ok f (Err e) = Err e"
| "map_ok f Panic = Panic"

definition expect :: "'a option \<Rightarrow> ('e, 'a) res" where
  "expect x = (case x of None \<Rightarrow> Panic | Some y \<Rightarrow> Ok y)"

primrec res_ok :: "('e, 'a) res \<Rightarrow> 'a option" where
  "res_ok (Ok x) = Some x"
| "res_ok (Err e) = None"
| "res_ok Panic = None"

text \<open>\<open>iter.map(f).collect::<Result<Vec<_>>>()\<close>: stops at the first error.\<close>

primrec collect_res :: "('a \<Rightarrow> ('e, 'b) res) \<Rightarrow> 'a list \<Rightarrow> ('e, 'b list) res" where
  "collect_res f [] = Ok []"
| "collect_res f (x # xs) = res_bind (f x) (\<lambda>y. map_ok ((#) y) (collect_res f xs))"

lemma res_bind_Ok_iff: "res_bind m f = Ok y \<longleftrightarrow> (\<exists>x. m = Ok x \<and> f x = Ok y)"
  by (cases m) auto

lemma res_bind_Panic_iff: "res_bind m f = Panic \<longleftrightarrow> m = Panic \<or> (\<exists>x. m = Ok x \<and> f x = Panic)"
  by (cases m) auto

lemma map_ok_Ok_iff: "map_ok f m = Ok y \<longleftrightarrow> (\<exists>x. m = Ok x \<and> y = f x)"
  by (cases m) auto

lemma map_ok_Panic_iff [simp]: "map_ok f m = Panic \<longleftrightarrow> m = Panic"
  by (cases m) auto

lemma map_ok_Err_iff [simp]: "map_ok f m = Err e \<longleftrightarrow> m = Err e"
  by (cases m) auto

lemma expect_Some [simp]: "expect (Some y) = Ok y"
  by (simp add: expect_def)

lemma expect_Panic_iff [simp]: "expect x = Panic \<longleftrightarrow> x = None"
  by (simp add: expect_def split: option.splits)

lemma collect_res_all_Ok:
  "(\<And>x. x \<in> set xs \<Longrightarrow> f x = Ok (g x)) \<Longrightarrow> collect_res f xs = Ok (map g xs)"
  by (induction xs) auto

section \<open>Slices and indexing\<close>

definition slice_get :: "'a list \<Rightarrow> nat \<Rightarrow> nat \<Rightarrow> ('e, 'a list) res" where
  "slice_get xs i j = (if i \<le> j \<and> j \<le> length xs then Ok (take (j - i) (drop i xs)) else Panic)"

definition index_get :: "'a list \<Rightarrow> nat \<Rightarrow> ('e, 'a) res" where
  "index_get xs i = (if i < length xs then Ok (xs ! i) else Panic)"

lemma slice_get_Ok [simp]:
  "i \<le> j \<Longrightarrow> j \<le> length xs \<Longrightarrow> slice_get xs i j = Ok (take (j - i) (drop i xs))"
  by (simp add: slice_get_def)

lemma index_get_Ok [simp]: "i < length xs \<Longrightarrow> index_get xs i = Ok (xs ! i)"
  by (simp add: index_get_def)

text \<open>\<open>slice.chunks(n)\<close>.\<close>

function chunks :: "nat \<Rightarrow> 'a list \<Rightarrow> 'a list list" where
  "chunks n xs = (if xs = [] \<or> n = 0 then [] else take n xs # chunks n (drop n xs))"
  by pat_completeness auto
termination
  by (relation "measure (\<lambda>(n, xs). length xs)") auto

declare chunks.simps [simp del]

lemma chunks_Nil [simp]: "chunks n [] = []"
  by (simp add: chunks.simps)

lemma concat_chunks: "0 < n \<Longrightarrow> concat (chunks n xs) = xs"
proof (induction n xs rule: chunks.induct)
  case (1 n xs)
  then show ?case by (cases "xs = []") (auto simp: chunks.simps [of n xs])
qed

lemma length_chunks: "0 < n \<Longrightarrow> length (chunks n xs) = div_ceil (length xs) n"
proof (induction n xs rule: chunks.induct)
  case (1 n xs)
  show ?case
  proof (cases "xs = []")
    case True
    with 1 show ?thesis by (simp add: div_ceil_def)
  next
    case False
    have IH: "length (chunks n (drop n xs)) = div_ceil (length xs - n) n"
      using 1 False by simp
    have "Suc (div_ceil (length xs - n) n) = div_ceil (length xs) n"
    proof (cases "n \<le> length xs")
      case True
      then have "length xs + n - 1 = (length xs - n + n - 1) + n" using 1(2) by linarith
      then show ?thesis using 1(2) by (simp only: div_ceil_def div_add_self2)
    next
      case small: False
      have "0 < length xs" using False by simp
      then have "n * 1 \<le> length xs + n - 1" by linarith
      moreover have "length xs + n - 1 < n * Suc 1" using small by simp
      ultimately have "(length xs + n - 1) div n = 1"
        by (metis div_nat_eqI)
      then show ?thesis using small 1(2) by (simp add: div_ceil_def)
    qed
    then show ?thesis using False 1(2) IH by (simp add: chunks.simps [of n xs])
  qed
qed

lemma chunks_props: "c \<in> set (chunks n xs) \<Longrightarrow> c \<noteq> [] \<and> length c \<le> n"
proof (induction n xs rule: chunks.induct)
  case (1 n xs)
  then show ?case by (auto simp: chunks.simps [of n xs] split: if_splits)
qed

section \<open>Big-endian integers\<close>

definition u16_to_be_bytes :: "u16 \<Rightarrow> bytes" where
  "u16_to_be_bytes w = [ucast (drop_bit 8 w), ucast w]"

definition u16_from_be_bytes :: "u8 \<Rightarrow> u8 \<Rightarrow> u16" where
  "u16_from_be_bytes a b = push_bit 8 (ucast a) OR ucast b"

definition u32_to_be_bytes :: "u32 \<Rightarrow> bytes" where
  "u32_to_be_bytes w =
     [ucast (drop_bit 24 w), ucast (drop_bit 16 w), ucast (drop_bit 8 w), ucast w]"

definition u32_from_be_bytes :: "u8 \<Rightarrow> u8 \<Rightarrow> u8 \<Rightarrow> u8 \<Rightarrow> u32" where
  "u32_from_be_bytes a b c d =
     push_bit 24 (ucast a) OR push_bit 16 (ucast b) OR push_bit 8 (ucast c) OR ucast d"

lemma length_u32_to_be_bytes [simp]: "length (u32_to_be_bytes w) = 4"
  by (simp add: u32_to_be_bytes_def)

lemma length_u16_to_be_bytes [simp]: "length (u16_to_be_bytes w) = 2"
  by (simp add: u16_to_be_bytes_def)

lemma u16_from_to_be:
  "u16_from_be_bytes (ucast (drop_bit 8 w)) (ucast (w :: u16)) = w"
  by (rule bit_word_eqI) (auto simp: u16_from_be_bytes_def bit_simps)

lemma u32_from_to_be:
  "u32_from_be_bytes (ucast (drop_bit 24 w)) (ucast (drop_bit 16 w)) (ucast (drop_bit 8 w))
     (ucast (w :: u32)) = w"
proof (rule bit_word_eqI)
  fix n
  assume n: "n < LENGTH(32)"
  have e: "16 \<le> n \<Longrightarrow> 16 + (n - 16) = n" "24 \<le> n \<Longrightarrow> 24 + (n - 24) = n"
    "8 \<le> n \<Longrightarrow> 8 + (n - 8) = n"
    by simp_all
  consider "n < 8" | "8 \<le> n" "n < 16" | "16 \<le> n" "n < 24" | "24 \<le> n" by linarith
  then show "bit (u32_from_be_bytes (ucast (drop_bit 24 w)) (ucast (drop_bit 16 w))
      (ucast (drop_bit 8 w)) (ucast w)) n = bit w n"
    using n by cases (auto simp: u32_from_be_bytes_def bit_simps e)
qed

lemma u32_be_roundtrip [wire_simps]:
  "u32_from_be_bytes (u32_to_be_bytes w ! 0) (u32_to_be_bytes w ! Suc 0)
     (u32_to_be_bytes w ! 2) (u32_to_be_bytes w ! 3) = w"
  by (simp add: u32_to_be_bytes_def u32_from_to_be)

section \<open>Prefix helpers\<close>

lemma length_Suc_conv_take:
  "length xs = n \<Longrightarrow> take n (xs @ ys) = xs" "length xs = n \<Longrightarrow> drop n (xs @ ys) = ys"
  by auto

lemma nth_append_left: "i < length xs \<Longrightarrow> (xs @ ys) ! i = xs ! i"
  by (simp add: nth_append)

end
