(* ===== verification/Cmpp_Strings.thy ===== *)
theory Cmpp_Strings
  imports Cmpp_Prelude
begin

text \<open>
  The part of Rust's \<open>str\<close>/\<open>String\<close>/\<open>char\<close> the program uses. A string is the list of its Unicode
  scalar values (what \<open>chars()\<close> yields); \<open>as_bytes\<close> is its UTF-8 encoding, \<open>len\<close> the number of
  those bytes. \<open>from_utf8_lossy\<close> replaces every maximal ill-formed prefix by U+FFFD, exactly as
  \<open>core::str::Utf8Chunks\<close> splits the input; \<open>from_utf16_lossy\<close> replaces every unpaired surrogate.
  The main facts are the two round trips \<open>from_utf8_lossy_utf8\<close> and \<open>from_utf16_lossy_utf16\<close>.
\<close>

section \<open>Scalar values\<close>

type_synonym rstr = "nat list"

definition is_scalar :: "nat \<Rightarrow> bool" where
  "is_scalar c \<longleftrightarrow> c < 55296 \<or> 57344 \<le> c \<and> c < 1114112"

definition valid_str :: "rstr \<Rightarrow> bool" where
  "valid_str s \<longleftrightarrow> (\<forall>c \<in> set s. is_scalar c)"

text \<open>A literal of the source, from an ASCII literal of HOL.\<close>

definition str_lit :: "string \<Rightarrow> rstr" where
  "str_lit s = map of_char s"

lemma valid_str_simps [simp]:
  "valid_str []"
  "valid_str (c # s) \<longleftrightarrow> is_scalar c \<and> valid_str s"
  "valid_str (s @ t) \<longleftrightarrow> valid_str s \<and> valid_str t"
  by (auto simp: valid_str_def)

lemma valid_str_take_drop: "valid_str s \<Longrightarrow> valid_str (take n s) \<and> valid_str (drop n s)"
  by (auto simp: valid_str_def dest: in_set_takeD in_set_dropD)

lemma is_scalar_less: "is_scalar c \<Longrightarrow> c < 1114112"
  by (auto simp: is_scalar_def)

lemma valid_str_lit [simp]: "valid_str (str_lit s)"
proof -
  have "(of_char c :: nat) < 256" for c :: char
    by simp
  then have "(of_char c :: nat) < 55296" for c :: char
    by (rule less_trans) simp
  then show ?thesis by (auto simp: valid_str_def str_lit_def is_scalar_def)
qed

section \<open>UTF-8\<close>

definition utf8_char :: "nat \<Rightarrow> nat list" where
  "utf8_char c =
     (if c < 128 then [c]
      else if c < 2048 then [192 + c div 64, 128 + c mod 64]
      else if c < 65536 then [224 + c div 4096, 128 + c div 64 mod 64, 128 + c mod 64]
      else [240 + c div 262144, 128 + c div 4096 mod 64, 128 + c div 64 mod 64, 128 + c mod 64])"

definition len_utf8 :: "nat \<Rightarrow> nat" where
  "len_utf8 c = (if c < 128 then 1 else if c < 2048 then 2 else if c < 65536 then 3 else 4)"

definition str_nats :: "rstr \<Rightarrow> nat list" where
  "str_nats s = concat (map utf8_char s)"

definition as_bytes :: "rstr \<Rightarrow> bytes" where
  "as_bytes s = map of_nat (str_nats s)"

definition str_len :: "rstr \<Rightarrow> nat" where
  "str_len s = length (as_bytes s)"

definition is_ascii :: "rstr \<Rightarrow> bool" where
  "is_ascii s = list_all (\<lambda>b. b < 128) (as_bytes s)"

definition is_cont :: "nat \<Rightarrow> bool" where
  "is_cont b \<longleftrightarrow> b div 64 = 2"

definition safe_get :: "nat list \<Rightarrow> nat \<Rightarrow> nat" where
  "safe_get bs i = (if i < length bs then bs ! i else 0)"

text \<open>
  One scalar value of the lossy decoding: from the first byte \<open>b\<close> and the bytes after it, the value
  (U+FFFD for an ill-formed sequence) and how many of the following bytes belong to it.
\<close>

definition utf8_step :: "nat \<Rightarrow> nat list \<Rightarrow> nat \<times> nat" where
  "utf8_step b bs =
     (let b1 = safe_get bs 0; b2 = safe_get bs 1; b3 = safe_get bs 2 in
      if b < 128 then (b, 0)
      else if 194 \<le> b \<and> b \<le> 223 then
        (if is_cont b1 then ((b - 192) * 64 + (b1 - 128), 1) else (65533, 0))
      else if 224 \<le> b \<and> b \<le> 239 then
        (if b = 224 \<and> 160 \<le> b1 \<and> b1 \<le> 191 \<or> 225 \<le> b \<and> b \<le> 236 \<and> 128 \<le> b1 \<and> b1 \<le> 191 \<or>
            b = 237 \<and> 128 \<le> b1 \<and> b1 \<le> 159 \<or> 238 \<le> b \<and> 128 \<le> b1 \<and> b1 \<le> 191
         then (if is_cont b2 then ((b - 224) * 4096 + (b1 - 128) * 64 + (b2 - 128), 2) else (65533, 1))
         else (65533, 0))
      else if 240 \<le> b \<and> b \<le> 244 then
        (if b = 240 \<and> 144 \<le> b1 \<and> b1 \<le> 191 \<or> 241 \<le> b \<and> b \<le> 243 \<and> 128 \<le> b1 \<and> b1 \<le> 191 \<or>
            b = 244 \<and> 128 \<le> b1 \<and> b1 \<le> 143
         then (if is_cont b2
               then (if is_cont b3
                     then ((b - 240) * 262144 + (b1 - 128) * 4096 + (b2 - 128) * 64 + (b3 - 128), 3)
                     else (65533, 2))
               else (65533, 1))
         else (65533, 0))
      else (65533, 0))"

function utf8_lossy :: "nat list \<Rightarrow> rstr" where
  "utf8_lossy [] = []"
| "utf8_lossy (b # bs) = fst (utf8_step b bs) # utf8_lossy (drop (snd (utf8_step b bs)) bs)"
  by pat_completeness auto
termination
  by (relation "measure length") auto

definition from_utf8_lossy :: "bytes \<Rightarrow> rstr" where
  "from_utf8_lossy bs = utf8_lossy (map unat bs)"

lemma length_utf8_char [simp]: "length (utf8_char c) = len_utf8 c"
  by (simp add: utf8_char_def len_utf8_def)

lemma len_utf8_pos [simp]: "0 < len_utf8 c"
  by (simp add: len_utf8_def)

lemma as_bytes_simps [simp]:
  "as_bytes [] = []"
  "as_bytes (s @ t) = as_bytes s @ as_bytes t"
  by (simp_all add: as_bytes_def str_nats_def)

lemma as_bytes_Cons: "as_bytes (c # s) = map of_nat (utf8_char c) @ as_bytes s"
  by (simp add: as_bytes_def str_nats_def)

lemma str_len_simps [simp]:
  "str_len [] = 0"
  "str_len (c # s) = len_utf8 c + str_len s"
  "str_len (s @ t) = str_len s + str_len t"
  by (simp_all add: str_len_def as_bytes_Cons)

lemma length_as_bytes: "length (as_bytes s) = str_len s"
  by (simp add: str_len_def)

lemma utf8_char_bytes: "is_scalar c \<Longrightarrow> b \<in> set (utf8_char c) \<Longrightarrow> b < 256"
  by (auto simp: utf8_char_def is_scalar_def split: if_splits)

lemma is_cont_add: "x < 64 \<Longrightarrow> is_cont (128 + x)"
  by (simp add: is_cont_def)

lemma split_64:
  "c = c div 4096 * 4096 + c div 64 mod 64 * 64 + c mod (64 :: nat)"
  "c = c div 262144 * 262144 + c div 4096 mod 64 * 4096 + c div 64 mod 64 * 64 + c mod (64 :: nat)"
proof -
  have d: "c div 4096 = c div 64 div 64" "c div 262144 = c div 64 div 64 div 64"
    using div_mult2_eq [of c 64 64] div_mult2_eq [of c 64 4096] div_mult2_eq [of "c div 64" 64 64]
    by simp_all
  have e: "c = c div 64 * 64 + c mod 64" "c div 64 = c div 64 div 64 * 64 + c div 64 mod 64"
    "c div 64 div 64 = c div 64 div 64 div 64 * 64 + c div 64 div 64 mod 64"
    by (simp_all only: div_mult_mod_eq)
  show "c = c div 4096 * 4096 + c div 64 mod 64 * 64 + c mod 64" using d e by linarith
  show "c = c div 262144 * 262144 + c div 4096 mod 64 * 4096 + c div 64 mod 64 * 64 + c mod 64"
    unfolding d using e by linarith
qed

lemma utf8_step_3:
  assumes "q \<le> 15" "r < 64" "m < 64" "q = 0 \<Longrightarrow> 32 \<le> r" "q = 13 \<Longrightarrow> r < 32"
  shows "utf8_step (224 + q) ((128 + r) # (128 + m) # rest) = (q * 4096 + r * 64 + m, 2)"
proof -
  consider "q = 0" | "1 \<le> q" "q \<le> 12" | "q = 13" | "14 \<le> q" by linarith
  then show ?thesis
    using assms by cases (simp_all add: utf8_step_def safe_get_def is_cont_add Let_def)
qed

lemma utf8_step_4:
  assumes "p \<le> 4" "q < 64" "r < 64" "m < 64" "p = 0 \<Longrightarrow> 16 \<le> q" "p = 4 \<Longrightarrow> q < 16"
  shows "utf8_step (240 + p) ((128 + q) # (128 + r) # (128 + m) # rest) =
    (p * 262144 + q * 4096 + r * 64 + m, 3)"
proof -
  consider "p = 0" | "1 \<le> p" "p \<le> 3" | "p = 4" using assms(1) by linarith
  then show ?thesis
    using assms by cases (simp_all add: utf8_step_def safe_get_def is_cont_add Let_def)
qed

lemma utf8_step_char:
  assumes "is_scalar c"
  shows "\<exists>b bs. utf8_char c = b # bs \<and> utf8_step b (bs @ rest) = (c, length bs)"
proof -
  consider "c < 128" | "128 \<le> c" "c < 2048" | "2048 \<le> c" "c < 65536" | "65536 \<le> c"
    by linarith
  then show ?thesis
  proof cases
    case 1
    then show ?thesis by (simp add: utf8_char_def utf8_step_def)
  next
    case 2
    have "(192 + c div 64 - 192) * 64 + (128 + c mod 64 - 128) = c" by simp
    moreover have "c div 64 \<le> 31" "2 \<le> c div 64" using 2 by linarith+
    ultimately show ?thesis using 2
      by (simp add: utf8_char_def utf8_step_def safe_get_def is_cont_add)
  next
    case 3
    let ?q = "c div 4096" and ?r = "c div 64 mod 64"
    have q: "?q \<le> 15" "c = ?q * 4096 + ?r * 64 + c mod 64"
      using 3 split_64(1) [of c] by simp_all
    have m: "c mod 64 < 64" by simp
    have "?q = 0 \<Longrightarrow> 32 \<le> ?r" using 3 q m by linarith
    moreover have "?q = 13 \<Longrightarrow> ?r < 32"
      using assms q m unfolding is_scalar_def by (elim disjE) linarith+
    ultimately have "utf8_step (224 + ?q) ((128 + ?r) # (128 + c mod 64) # rest) = (c, 2)"
      using q(1) by (subst utf8_step_3) (simp_all add: q(2) [symmetric])
    then show ?thesis using 3 by (simp add: utf8_char_def)
  next
    case 4
    let ?p = "c div 262144" and ?q = "c div 4096 mod 64" and ?r = "c div 64 mod 64"
    have c: "c < 1114112" using assms by (rule is_scalar_less)
    have p: "?p \<le> 4" "c = ?p * 262144 + ?q * 4096 + ?r * 64 + c mod 64"
      using c split_64(2) [of c] by simp_all
    have m: "c mod 64 < 64" "?r < 64" by simp_all
    have "?p = 0 \<Longrightarrow> 16 \<le> ?q" using 4 p m by linarith
    moreover have "?p = 4 \<Longrightarrow> ?q < 16" using c p m by linarith
    ultimately have
      "utf8_step (240 + ?p) ((128 + ?q) # (128 + ?r) # (128 + c mod 64) # rest) = (c, 3)"
      using p(1) by (subst utf8_step_4) (simp_all add: p(2) [symmetric])
    then show ?thesis using 4 by (simp add: utf8_char_def)
  qed
qed

lemma utf8_lossy_str_nats: "valid_str s \<Longrightarrow> utf8_lossy (str_nats s @ rest) = s @ utf8_lossy rest"
proof (induction s)
  case Nil
  then show ?case by (simp add: str_nats_def)
next
  case (Cons c s)
  obtain b bs where "utf8_char c = b # bs"
    and "utf8_step b (bs @ (str_nats s @ rest)) = (c, length bs)"
    using utf8_step_char [of c "str_nats s @ rest"] Cons.prems by auto
  then show ?case using Cons by (simp add: str_nats_def)
qed

lemma map_unat_as_bytes:
  assumes "valid_str s"
  shows "map unat (as_bytes s) = str_nats s"
proof -
  have "\<forall>b \<in> set (str_nats s). b < 256"
    using assms by (auto simp: str_nats_def valid_str_def dest: utf8_char_bytes)
  then show ?thesis
    by (auto simp: as_bytes_def intro!: map_idI)
qed

lemma from_utf8_lossy_utf8 [simp]: "valid_str s \<Longrightarrow> from_utf8_lossy (as_bytes s) = s"
  using utf8_lossy_str_nats [of s "[]"] by (simp add: from_utf8_lossy_def map_unat_as_bytes)

lemma is_cont_bounds: "is_cont b \<Longrightarrow> 128 \<le> b \<and> b \<le> 191"
  unfolding is_cont_def by linarith

lemma utf8_step_scalar: "is_scalar (fst (utf8_step b bs))"
proof -
  have three: "is_scalar ((b - 224) * 4096 + (x - 128) * 64 + (y - 128))"
    if "b \<le> 239" "128 \<le> y" "y \<le> 191" and "b = 224 \<and> 160 \<le> x \<and> x \<le> 191 \<or> 225 \<le> b \<and> b \<le> 236 \<and> 128 \<le> x \<and> x \<le> 191 \<or>
      b = 237 \<and> 128 \<le> x \<and> x \<le> 159 \<or> 238 \<le> b \<and> 128 \<le> x \<and> x \<le> 191" for x y
    using that by (auto simp: is_scalar_def)
  have four: "is_scalar ((b - 240) * 262144 + (x - 128) * 4096 + (y - 128) * 64 + (z - 128))"
    if "128 \<le> y" "y \<le> 191" "128 \<le> z" "z \<le> 191" and
      "b = 240 \<and> 144 \<le> x \<and> x \<le> 191 \<or> 241 \<le> b \<and> b \<le> 243 \<and> 128 \<le> x \<and> x \<le> 191 \<or>
       b = 244 \<and> 128 \<le> x \<and> x \<le> 143" for x y z
    using that by (auto simp: is_scalar_def)
  have two: "is_scalar ((b - 192) * 64 + (x - 128))" if "b \<le> 223" "128 \<le> x" "x \<le> 191" for x
    using that unfolding is_scalar_def by linarith
  have bad: "is_scalar 65533" by (simp add: is_scalar_def)
  have one: "is_scalar b" if "b < 128" using that by (simp add: is_scalar_def)
  have split: "(c \<Longrightarrow> P) \<Longrightarrow> (\<not> c \<Longrightarrow> Q) \<Longrightarrow> (if c then P else Q)" for c P Q by simp
  show ?thesis
    unfolding utf8_step_def Let_def if_distrib [of fst] if_distrib [of is_scalar] fst_conv
    by (intro split bad one two three four) (blast dest: is_cont_bounds)+
qed

lemma valid_str_utf8_lossy: "valid_str (utf8_lossy bs)"
  by (induction bs rule: utf8_lossy.induct) (simp_all add: utf8_step_scalar)

lemma valid_str_from_utf8_lossy [simp]: "valid_str (from_utf8_lossy bs)"
  by (simp add: from_utf8_lossy_def valid_str_utf8_lossy)

section \<open>UTF-16\<close>

definition len_utf16 :: "nat \<Rightarrow> nat" where
  "len_utf16 c = (if c < 65536 then 1 else 2)"

definition utf16_char :: "nat \<Rightarrow> u16 list" where
  "utf16_char c =
     (if c < 65536 then [of_nat c]
      else [of_nat (55296 + (c - 65536) div 1024), of_nat (56320 + (c - 65536) mod 1024)])"

definition encode_utf16 :: "rstr \<Rightarrow> u16 list" where
  "encode_utf16 s = concat (map utf16_char s)"

text \<open>\<open>char::decode_utf16\<close> with unpaired surrogates replaced.\<close>

fun utf16_lossy :: "nat list \<Rightarrow> rstr" where
  "utf16_lossy [] = []"
| "utf16_lossy (u # us) =
     (if u < 55296 \<or> 57343 < u then u # utf16_lossy us
      else if 56320 \<le> u then 65533 # utf16_lossy us
      else case us of
          [] \<Rightarrow> [65533]
        | v # vs \<Rightarrow>
            (if v < 56320 \<or> 57343 < v then 65533 # utf16_lossy us
             else (65536 + (u - 55296) * 1024 + (v - 56320)) # utf16_lossy vs))"

definition from_utf16_lossy :: "u16 list \<Rightarrow> rstr" where
  "from_utf16_lossy us = utf16_lossy (map unat us)"

lemma length_utf16_char [simp]: "length (utf16_char c) = len_utf16 c"
  by (simp add: utf16_char_def len_utf16_def)

lemma len_utf16_bounds [simp]: "0 < len_utf16 c" "len_utf16 c \<le> 2"
  by (simp_all add: len_utf16_def)

lemma encode_utf16_simps [simp]:
  "encode_utf16 [] = []"
  "encode_utf16 (c # s) = utf16_char c @ encode_utf16 s"
  "encode_utf16 (s @ t) = encode_utf16 s @ encode_utf16 t"
  by (simp_all add: encode_utf16_def)

lemma unat_of_nat_u16: "n < 65536 \<Longrightarrow> unat (of_nat n :: u16) = n"
  by (simp add: unat_of_nat take_bit_nat_eq_self)

lemma utf16_lossy_char:
  assumes "is_scalar c"
  shows "utf16_lossy (map unat (utf16_char c) @ rest) = c # utf16_lossy rest"
proof (cases "c < 65536")
  case True
  then show ?thesis using assms
    by (auto simp: utf16_char_def unat_of_nat_u16 is_scalar_def)
next
  case False
  let ?d = "c - 65536"
  have d: "?d < 1048576" using assms by (auto simp: is_scalar_def)
  have q: "?d div 1024 < 1024" using d by linarith
  have "map unat (utf16_char c) = [55296 + ?d div 1024, 56320 + ?d mod 1024]"
    using False q by (simp add: utf16_char_def unat_of_nat_u16 del: of_nat_add)
  moreover have "65536 + ?d div 1024 * 1024 + ?d mod 1024 = c" using False by simp
  ultimately show ?thesis using q by simp
qed

lemma from_utf16_lossy_utf16 [simp]: "valid_str s \<Longrightarrow> from_utf16_lossy (encode_utf16 s) = s"
  by (induction s) (simp_all add: from_utf16_lossy_def utf16_lossy_char)

section \<open>ASCII\<close>

lemma ascii_char_byte:
  "is_scalar c \<Longrightarrow> list_all (\<lambda>b. b < 128) (map (of_nat :: nat \<Rightarrow> u8) (utf8_char c)) \<longleftrightarrow> c < 128"
proof (cases "c < 128")
  case True
  then show ?thesis by (simp add: utf8_char_def word_less_nat_alt)
next
  case False
  assume c: "is_scalar c"
  obtain b bs where u: "utf8_char c = b # bs" by (cases "utf8_char c") (auto simp: utf8_char_def split: if_splits)
  then have "192 \<le> b" using False by (auto simp: utf8_char_def split: if_splits)
  moreover have "b < 256" using utf8_char_bytes [OF c] u by simp
  ultimately have "\<not> (of_nat b :: u8) < 128" by (simp add: word_less_nat_alt)
  then show ?thesis using u False by simp
qed

lemma is_ascii_iff: "valid_str s \<Longrightarrow> is_ascii s \<longleftrightarrow> (\<forall>c \<in> set s. c < 128)"
proof (induction s)
  case Nil
  then show ?case by (simp add: is_ascii_def)
next
  case (Cons c s)
  then show ?case using ascii_char_byte [of c] by (simp add: is_ascii_def as_bytes_Cons)
qed

lemma ascii_as_bytes: "\<forall>c \<in> set s. c < 128 \<Longrightarrow> as_bytes s = map of_nat s"
  by (induction s) (auto simp: as_bytes_Cons utf8_char_def)

end
