(* ===== verification/Cmpp_Types.thy ===== *)
theory Cmpp_Types
  imports Cmpp_Strings
begin

text \<open>
  The constants and the message header of \<open>src/types.rs\<close>, and the error type of \<open>src/error.rs\<close>.
  The source's error variants carry formatted \<open>String\<close>s; here a variant carries the values that are
  formatted into the text (a length, a count, a command id), one constructor per message.
\<close>

section \<open>Constants (src/types.rs)\<close>

definition CMPP_MAX_MESSAGE_LENGTH :: nat where "CMPP_MAX_MESSAGE_LENGTH = 65536"
definition CMPP_HEADER_LENGTH :: nat where "CMPP_HEADER_LENGTH = 12"
definition SEND_CHANNEL_CAPACITY :: nat where "SEND_CHANNEL_CAPACITY = 1000"
definition INCOMING_CHANNEL_CAPACITY :: nat where "INCOMING_CHANNEL_CAPACITY = 1000"
definition CMPP_VERSION_20 :: u8 where "CMPP_VERSION_20 = 0x20"

definition CMPP_CONNECT :: u32 where "CMPP_CONNECT = 0x00000001"
definition CMPP_CONNECT_RESP :: u32 where "CMPP_CONNECT_RESP = 0x80000001"
definition CMPP_TERMINATE :: u32 where "CMPP_TERMINATE = 0x00000002"
definition CMPP_TERMINATE_RESP :: u32 where "CMPP_TERMINATE_RESP = 0x80000002"
definition CMPP_SUBMIT :: u32 where "CMPP_SUBMIT = 0x00000004"
definition CMPP_SUBMIT_RESP :: u32 where "CMPP_SUBMIT_RESP = 0x80000004"
definition CMPP_DELIVER :: u32 where "CMPP_DELIVER = 0x00000005"
definition CMPP_DELIVER_RESP :: u32 where "CMPP_DELIVER_RESP = 0x80000005"
definition CMPP_ACTIVE_TEST :: u32 where "CMPP_ACTIVE_TEST = 0x00000008"
definition CMPP_ACTIVE_TEST_RESP :: u32 where "CMPP_ACTIVE_TEST_RESP = 0x80000008"

lemmas command_defs =
  CMPP_CONNECT_def CMPP_CONNECT_RESP_def CMPP_TERMINATE_def CMPP_TERMINATE_RESP_def
  CMPP_SUBMIT_def CMPP_SUBMIT_RESP_def CMPP_DELIVER_def CMPP_DELIVER_RESP_def
  CMPP_ACTIVE_TEST_def CMPP_ACTIVE_TEST_RESP_def

lemmas framing_defs = CMPP_MAX_MESSAGE_LENGTH_def CMPP_HEADER_LENGTH_def

record cmpp_header =
  total_length :: u32
  command_id :: u32
  sequence_id :: u32

section \<open>Errors (src/error.rs)\<close>

text \<open>\<open>std::io::Error\<close> as the program makes or forwards it.\<close>

datatype io_error = Io_write_timed_out | Io_bytes_remaining | Io_os nat

datatype decode_error =
    Frame_length nat
  | Unknown_command u32
  | Body_offset_overflow
  | Body_unexpected_end nat nat nat
  | Body_trailing string nat
  | Body_length string nat nat
  | Submit_dest_overflow
  | Submit_dest_mismatch nat

datatype connect_error =
    Tcp_timeout u64
  | Tcp_failed io_error
  | Connect_write_timeout
  | Connect_resp_timeout
  | Handshake_closed
  | Unexpected_command u32

datatype config_error =
    Heartbeat_interval_zero
  | Response_timeout_zero
  | Retry_count_zero
  | Window_size_range
  | Connect_timeout_zero
  | Read_idle_timeout_zero
  | Event_backpressure_zero
  | Event_spool_range
  | Write_batch_frames_range
  | Write_batch_bytes_zero
  | Tcp_keepalive_range
  | Host_empty
  | Port_range
  | Account_empty
  | Account_too_long
  | Password_empty
  | Version_unsupported
  | Udh_cooldown_range
  | Submit_destinations
  | Submit_content_length
  | Deliver_content_length
  | Segment_index
  | Segment_total
  | Segment_number
  | Segment_reference
  | Long_sms_udh
  | Base_sequence_range

datatype error =
    Error_Io io_error
  | Error_Decode decode_error
  | Error_Connect connect_error
  | Error_Auth u8
  | Error_AuthenticatorMismatch
  | Error_Timeout
  | Error_Closed
  | Error_ChannelClosed
  | Error_Terminated
  | Error_PartialSubmit "u32 list" error
  | Error_ResourceExhausted
  | Error_Config config_error

type_synonym 'a result = "(error, 'a) res"

fun is_retryable :: "error \<Rightarrow> bool" where
  "is_retryable (Error_Io _) = True"
| "is_retryable (Error_Connect _) = True"
| "is_retryable Error_Timeout = True"
| "is_retryable Error_Closed = True"
| "is_retryable Error_ChannelClosed = True"
| "is_retryable Error_Terminated = True"
| "is_retryable Error_ResourceExhausted = True"
| "is_retryable (Error_PartialSubmit _ source) = is_retryable source"
| "is_retryable (Error_Auth _) = False"
| "is_retryable Error_AuthenticatorMismatch = False"
| "is_retryable (Error_Decode _) = False"
| "is_retryable (Error_Config _) = False"

text \<open>The error at the bottom of a chain of \<open>PartialSubmit\<close>s.\<close>

fun root_cause :: "error \<Rightarrow> error" where
  "root_cause (Error_PartialSubmit _ source) = root_cause source"
| "root_cause e = e"

lemma is_retryable_root_cause: "is_retryable (root_cause e) = is_retryable e"
  by (induction e) auto

end
