(* ===== verification/Cmpp_Wire.thy ===== *)
theory Cmpp_Wire
  imports Cmpp_Types
begin

text \<open>
  The binary helpers of \<open>src/pdu.rs\<close>: fixed-width octet strings, the bounds-checked cursor
  \<open>BodyReader\<close> and \<open>encode_frame_into\<close>. A parser is a function from the cursor to a value and the
  moved cursor. Two judgements carry the proofs about the PDU decoders: \<open>parses p xs a\<close> (on input
  that continues with \<open>xs\<close>, \<open>p\<close> consumes exactly \<open>xs\<close> and returns \<open>a\<close>) and \<open>yields p P\<close> (on every
  input \<open>p\<close> does not panic, stays inside the buffer, and a returned value with the number of bytes
  consumed satisfies \<open>P\<close>). The locale \<open>wire_body\<close> is the contract of one PDU body.
\<close>

section \<open>Octet strings\<close>

definition put_octet_str :: "bytes \<Rightarrow> rstr \<Rightarrow> nat \<Rightarrow> bytes" where
  "put_octet_str buf s len =
     (let bytes = as_bytes s; n = min (length bytes) len in
      (buf @ take n bytes) @ replicate (len - n) 0)"

definition rposition :: "('a \<Rightarrow> bool) \<Rightarrow> 'a list \<Rightarrow> nat option" where
  "rposition P xs =
     (let n = length (dropWhile (\<lambda>x. \<not> P x) (rev xs)) in if n = 0 then None else Some (n - 1))"

definition read_octet_str :: "bytes \<Rightarrow> rstr" where
  "read_octet_str bytes =
     (let end_ix = (case rposition (\<lambda>b. b \<noteq> 0 \<and> b \<noteq> 32) bytes of None \<Rightarrow> 0 | Some i \<Rightarrow> i + 1) in
      from_utf8_lossy (take end_ix bytes))"

definition octet_str :: "rstr \<Rightarrow> nat \<Rightarrow> bytes" where
  "octet_str s len = put_octet_str [] s len"

definition octet_ok :: "nat \<Rightarrow> rstr \<Rightarrow> bool" where
  "octet_ok len s \<longleftrightarrow>
     valid_str s \<and> str_len s \<le> len \<and> (s = [] \<or> last s \<noteq> 0 \<and> last s \<noteq> 32)"

lemma put_octet_str_append: "put_octet_str buf s len = buf @ octet_str s len"
  by (simp add: octet_str_def put_octet_str_def Let_def)

lemma length_octet_str [simp]: "length (octet_str s len) = len"
  by (simp add: octet_str_def put_octet_str_def Let_def)

lemma octet_str_fits:
  "str_len s \<le> len \<Longrightarrow> octet_str s len = as_bytes s @ replicate (len - str_len s) 0"
  by (simp add: octet_str_def put_octet_str_def length_as_bytes)

lemma take_rposition_end:
  assumes "xs = [] \<or> P (last xs)" and "\<forall>y \<in> set ys. \<not> P y"
  shows "take (case rposition P (xs @ ys) of None \<Rightarrow> 0 | Some i \<Rightarrow> i + 1) (xs @ ys) = xs"
proof -
  have "dropWhile (\<lambda>x. \<not> P x) (rev (xs @ ys)) = dropWhile (\<lambda>x. \<not> P x) (rev xs)"
    using assms(2) by (simp add: dropWhile_append)
  also have "\<dots> = rev xs"
  proof (cases xs rule: rev_cases)
    case Nil
    then show ?thesis by simp
  next
    case (snoc zs z)
    then show ?thesis using assms(1) by simp
  qed
  finally have "length (dropWhile (\<lambda>x. \<not> P x) (rev (xs @ ys))) = length xs" by simp
  then show ?thesis by (simp add: rposition_def Let_def)
qed

lemma last_as_bytes:
  assumes "valid_str s" "s \<noteq> []"
  shows "last (as_bytes s) = 0 \<longleftrightarrow> last s = 0" "last (as_bytes s) = 32 \<longleftrightarrow> last s = 32"
proof -
  obtain t c where s: "s = t @ [c]" using assms(2) by (cases s rule: rev_cases) auto
  have c: "is_scalar c" using assms(1) s by simp
  obtain us b where u: "utf8_char c = us @ [b]"
    by (cases "utf8_char c" rule: rev_cases) (auto simp: utf8_char_def split: if_splits)
  have b: "b < 256" "b = c \<or> 128 \<le> b \<and> 128 \<le> c"
    using utf8_char_bytes [OF c] u by (auto simp: utf8_char_def split: if_splits)
  have "last (as_bytes s) = of_nat b" using s u by (simp add: as_bytes_Cons)
  moreover have "(of_nat b :: u8) = 0 \<longleftrightarrow> b = 0" "(of_nat b :: u8) = 32 \<longleftrightarrow> b = 32"
    using b(1) by (simp_all add: word_unat_eq_iff)
  ultimately show "last (as_bytes s) = 0 \<longleftrightarrow> last s = 0" "last (as_bytes s) = 32 \<longleftrightarrow> last s = 32"
    using b(2) s by auto
qed

lemma as_bytes_Nil_iff [simp]: "as_bytes s = [] \<longleftrightarrow> s = []"
  by (cases s) (auto simp: as_bytes_Cons utf8_char_def)

lemma read_octet_str_roundtrip:
  assumes "octet_ok len s"
  shows "read_octet_str (octet_str s len) = s"
proof -
  let ?P = "\<lambda>b :: u8. b \<noteq> 0 \<and> b \<noteq> 32"
  have v: "valid_str s" and l: "str_len s \<le> len" and e: "s = [] \<or> last s \<noteq> 0 \<and> last s \<noteq> 32"
    using assms by (simp_all add: octet_ok_def)
  have "as_bytes s = [] \<or> ?P (last (as_bytes s))"
    using e last_as_bytes [OF v] by auto
  then have "take (case rposition ?P (as_bytes s @ replicate (len - str_len s) 0) of
      None \<Rightarrow> 0 | Some i \<Rightarrow> i + 1) (as_bytes s @ replicate (len - str_len s) 0) = as_bytes s"
    by (rule take_rposition_end) simp
  then show ?thesis
    by (simp add: read_octet_str_def octet_str_fits [OF l] Let_def v)
qed

lemma valid_str_read_octet_str [simp]: "valid_str (read_octet_str bs)"
  by (simp add: read_octet_str_def Let_def)

section \<open>The body cursor\<close>

record body_reader =
  rd_buf :: bytes
  rd_pos :: nat

type_synonym 'a parser = "body_reader \<Rightarrow> (error, 'a \<times> body_reader) res"

definition preturn :: "'a \<Rightarrow> 'a parser" where
  "preturn a r = Ok (a, r)"

definition ppanic :: "'a parser" where
  "ppanic r = Panic"

definition pfail :: "decode_error \<Rightarrow> 'a parser" where
  "pfail e r = Err (Error_Decode e)"

definition pbind :: "'a parser \<Rightarrow> ('a \<Rightarrow> 'b parser) \<Rightarrow> 'b parser" where
  "pbind p f r = res_bind (p r) (\<lambda>(a, r'). f a r')"

definition body_reader_new :: "bytes \<Rightarrow> body_reader" where
  "body_reader_new buf = \<lparr>rd_buf = buf, rd_pos = 0\<rparr>"

definition reader_take :: "nat \<Rightarrow> bytes parser" where
  "reader_take n r =
     (case usize_checked_add (rd_pos r) n of
        None \<Rightarrow> Err (Error_Decode Body_offset_overflow)
      | Some end_pos \<Rightarrow>
          if length (rd_buf r) < end_pos
          then Err (Error_Decode (Body_unexpected_end n (rd_pos r) (length (rd_buf r))))
          else res_bind (slice_get (rd_buf r) (rd_pos r) end_pos)
                 (\<lambda>b. Ok (b, r\<lparr>rd_pos := end_pos\<rparr>)))"

definition reader_u8 :: "u8 parser" where
  "reader_u8 = pbind (reader_take 1) (\<lambda>b. case b of [] \<Rightarrow> ppanic | x # _ \<Rightarrow> preturn x)"

definition reader_u32 :: "u32 parser" where
  "reader_u32 = pbind (reader_take 4)
     (\<lambda>b. case b of [a, b, c, d] \<Rightarrow> preturn (u32_from_be_bytes a b c d) | _ \<Rightarrow> ppanic)"

definition reader_remaining :: "body_reader \<Rightarrow> nat" where
  "reader_remaining r = length (rd_buf r) - rd_pos r"

definition reader_finish :: "string \<Rightarrow> unit parser" where
  "reader_finish pdu r =
     (if rd_pos r \<noteq> length (rd_buf r)
      then Err (Error_Decode (Body_trailing pdu (length (rd_buf r) - rd_pos r)))
      else Ok ((), r))"

text \<open>\<open>r.take(n)?.try_into().unwrap()\<close> and \<open>read_octet_str(r.take(n)?)\<close>.\<close>

definition reader_array :: "nat \<Rightarrow> bytes parser" where
  "reader_array n = pbind (reader_take n) (\<lambda>b. if length b = n then preturn b else ppanic)"

definition reader_str :: "nat \<Rightarrow> rstr parser" where
  "reader_str n = pbind (reader_take n) (\<lambda>b. preturn (read_octet_str b))"

text \<open>\<open>for _ in 0..n { xs.push(p?) }\<close>.\<close>

primrec preplicate :: "nat \<Rightarrow> 'a parser \<Rightarrow> 'a list parser" where
  "preplicate 0 p = preturn []"
| "preplicate (Suc n) p = pbind p (\<lambda>x. pbind (preplicate n p) (\<lambda>xs. preturn (x # xs)))"

definition run_reader :: "string \<Rightarrow> 'a parser \<Rightarrow> bytes \<Rightarrow> 'a result" where
  "run_reader pdu p body =
     map_ok fst (pbind p (\<lambda>a. pbind (reader_finish pdu) (\<lambda>_. preturn a)) (body_reader_new body))"

definition require_body_len :: "bytes \<Rightarrow> nat \<Rightarrow> string \<Rightarrow> unit result" where
  "require_body_len body expected pdu =
     (if length body \<noteq> expected
      then Err (Error_Decode (Body_length pdu expected (length body))) else Ok ())"

section \<open>Exact parsing\<close>

definition parses :: "'a parser \<Rightarrow> bytes \<Rightarrow> 'a \<Rightarrow> bool" where
  "parses p xs a \<longleftrightarrow> (\<forall>pre rest. length (pre @ xs @ rest) \<le> usize_max \<longrightarrow>
     p \<lparr>rd_buf = pre @ xs @ rest, rd_pos = length pre\<rparr> =
       Ok (a, \<lparr>rd_buf = pre @ xs @ rest, rd_pos = length (pre @ xs)\<rparr>))"

lemma parsesD:
  "parses p xs a \<Longrightarrow> length (pre @ xs @ rest) \<le> usize_max \<Longrightarrow>
   p \<lparr>rd_buf = pre @ xs @ rest, rd_pos = length pre\<rparr> =
     Ok (a, \<lparr>rd_buf = pre @ xs @ rest, rd_pos = length (pre @ xs)\<rparr>)"
  unfolding parses_def by blast

lemma parses_return: "parses (preturn a) [] a"
  by (simp add: parses_def preturn_def)

lemma parses_return_eq [parses_intro]: "a = b \<Longrightarrow> parses (preturn a) [] b"
  by (simp add: parses_return)

lemma parses_bind:
  assumes "parses p xs a" "parses (f a) ys b"
  shows "parses (pbind p f) (xs @ ys) b"
  unfolding parses_def
proof (intro allI impI)
  fix pre rest
  assume l: "length (pre @ (xs @ ys) @ rest) \<le> usize_max"
  have "p \<lparr>rd_buf = pre @ xs @ (ys @ rest), rd_pos = length pre\<rparr> =
      Ok (a, \<lparr>rd_buf = pre @ xs @ (ys @ rest), rd_pos = length (pre @ xs)\<rparr>)"
    by (rule parsesD [OF assms(1)]) (use l in simp)
  moreover have "f a \<lparr>rd_buf = (pre @ xs) @ ys @ rest, rd_pos = length (pre @ xs)\<rparr> =
      Ok (b, \<lparr>rd_buf = (pre @ xs) @ ys @ rest, rd_pos = length ((pre @ xs) @ ys)\<rparr>)"
    by (rule parsesD [OF assms(2)]) (use l in simp)
  ultimately show "pbind p f \<lparr>rd_buf = pre @ (xs @ ys) @ rest, rd_pos = length pre\<rparr> =
      Ok (b, \<lparr>rd_buf = pre @ (xs @ ys) @ rest, rd_pos = length (pre @ xs @ ys)\<rparr>)"
    by (simp add: pbind_def)
qed

lemma parses_bind_last: "parses p xs a \<Longrightarrow> parses (f a) [] b \<Longrightarrow> parses (pbind p f) xs b"
  using parses_bind [of p xs a f "[]" b] by simp

lemma parses_take: "length xs = n \<Longrightarrow> parses (reader_take n) xs xs"
  by (auto simp: parses_def reader_take_def)

lemma parses_array: "length xs = n \<Longrightarrow> parses (reader_array n) xs xs"
  unfolding reader_array_def
  by (rule parses_bind_last [OF parses_take]) (auto intro: parses_return)

lemma parses_u8: "parses reader_u8 [b] b"
  unfolding reader_u8_def
  by (rule parses_bind_last [OF parses_take]) (auto intro: parses_return)

lemma parses_u32: "parses reader_u32 (u32_to_be_bytes w) w"
proof -
  have "parses (reader_take 4) (u32_to_be_bytes w) (u32_to_be_bytes w)"
    by (rule parses_take) simp
  then show ?thesis
    unfolding reader_u32_def
    by (rule parses_bind_last)
      (use parses_return [of w] in \<open>simp add: u32_to_be_bytes_def u32_from_to_be\<close>)
qed

lemma parses_str: "octet_ok n s \<Longrightarrow> parses (reader_str n) (octet_str s n) s"
  unfolding reader_str_def
  by (rule parses_bind_last [OF parses_take])
    (simp_all add: read_octet_str_roundtrip parses_return)

lemma parses_replicate:
  "(\<And>x. x \<in> set xs \<Longrightarrow> parses p (w x) x) \<Longrightarrow>
   parses (preplicate (length xs) p) (concat (map w xs)) xs"
proof (induction xs)
  case Nil
  then show ?case by (simp add: parses_return)
next
  case (Cons x xs)
  have "parses (pbind (preplicate (length xs) p) (\<lambda>ys. preturn (x # ys)))
      (concat (map w xs)) (x # xs)"
    by (rule parses_bind_last [OF Cons.IH]) (auto intro: Cons.prems parses_return)
  then show ?case
    using parses_bind [of p "w x" x "\<lambda>x. pbind (preplicate (length xs) p) (\<lambda>ys. preturn (x # ys))"]
      Cons.prems by simp
qed

text \<open>The rules in the form the decoders need: one per field, the rest of the input last.\<close>

lemma parses_fields [parses_intro]:
  "length xs = n \<Longrightarrow> parses (f xs) ys b \<Longrightarrow> parses (pbind (reader_take n) f) (xs @ ys) b"
  "length xs = n \<Longrightarrow> parses (f xs) ys b \<Longrightarrow> parses (pbind (reader_array n) f) (xs @ ys) b"
  "parses (g w) ys b \<Longrightarrow> parses (pbind reader_u8 g) ([w] @ ys) b"
  "parses (h u) ys b \<Longrightarrow> parses (pbind reader_u32 h) (u32_to_be_bytes u @ ys) b"
  "octet_ok n s \<Longrightarrow> parses (k s) ys b \<Longrightarrow> parses (pbind (reader_str n) k) (octet_str s n @ ys) b"
  by (blast intro: parses_bind parses_take parses_array parses_u8 parses_u32 parses_str)+

lemma parses_strs [parses_intro]:
  assumes "k = length ss" "\<forall>s \<in> set ss. octet_ok n s" "parses (f ss) ys b"
  shows "parses (pbind (preplicate k (reader_str n)) f)
     (concat (map (\<lambda>s. octet_str s n) ss) @ ys) b"
  unfolding assms(1)
  by (rule parses_bind [OF parses_replicate]) (use assms in \<open>auto intro: parses_str\<close>)

lemma run_reader_parses:
  assumes "parses p xs a" "length xs \<le> usize_max"
  shows "run_reader pdu p xs = Ok a"
proof -
  show ?thesis
    using parsesD [OF assms(1), of "[]" "[]"] assms(2)
    by (simp add: run_reader_def body_reader_new_def pbind_def reader_finish_def preturn_def)
qed

section \<open>What a parser can return\<close>

definition in_bounds :: "body_reader \<Rightarrow> bool" where
  "in_bounds r \<longleftrightarrow> rd_pos r \<le> length (rd_buf r)"

definition yields :: "'a parser \<Rightarrow> ('a \<Rightarrow> nat \<Rightarrow> bool) \<Rightarrow> bool" where
  "yields p P \<longleftrightarrow> (\<forall>r. in_bounds r \<longrightarrow> (case p r of
      Ok (a, r') \<Rightarrow> rd_buf r' = rd_buf r \<and> rd_pos r \<le> rd_pos r' \<and> in_bounds r' \<and>
        P a (rd_pos r' - rd_pos r)
    | Err e \<Rightarrow> True
    | Panic \<Rightarrow> False))"

lemma yieldsI:
  assumes "\<And>r. in_bounds r \<Longrightarrow> p r \<noteq> Panic"
    and "\<And>r a r'. in_bounds r \<Longrightarrow> p r = Ok (a, r') \<Longrightarrow> rd_buf r' = rd_buf r \<and> rd_pos r \<le> rd_pos r' \<and>
      in_bounds r' \<and> P a (rd_pos r' - rd_pos r)"
  shows "yields p P"
  unfolding yields_def
proof (intro allI impI)
  fix r assume r: "in_bounds r"
  show "case p r of Ok (a, r') \<Rightarrow> rd_buf r' = rd_buf r \<and> rd_pos r \<le> rd_pos r' \<and>
      in_bounds r' \<and> P a (rd_pos r' - rd_pos r) | Err e \<Rightarrow> True | Panic \<Rightarrow> False"
  proof (cases "p r")
    case (Ok x)
    then show ?thesis using assms(2) [OF r, of "fst x" "snd x"] by (simp add: case_prod_unfold)
  qed (use assms(1) [OF r] in simp_all)
qed

lemma yields_not_Panic: "yields p P \<Longrightarrow> in_bounds r \<Longrightarrow> p r \<noteq> Panic"
  unfolding yields_def by (erule allE [of _ r]) auto

lemma yieldsD:
  assumes "yields p P" "in_bounds r" "p r = Ok (a, r')"
  shows "rd_buf r' = rd_buf r" "rd_pos r \<le> rd_pos r'" "in_bounds r'" "P a (rd_pos r' - rd_pos r)"
proof -
  have "case p r of Ok (a, r') \<Rightarrow> rd_buf r' = rd_buf r \<and> rd_pos r \<le> rd_pos r' \<and>
      in_bounds r' \<and> P a (rd_pos r' - rd_pos r) | Err e \<Rightarrow> True | Panic \<Rightarrow> False"
    using assms(1,2) unfolding yields_def by blast
  then show "rd_buf r' = rd_buf r" "rd_pos r \<le> rd_pos r'" "in_bounds r'" "P a (rd_pos r' - rd_pos r)"
    by (simp_all add: assms(3))
qed

lemma yields_return: "P a 0 \<Longrightarrow> yields (preturn a) P"
  by (simp add: yields_def preturn_def)

lemma yields_fail: "yields (pfail e) P"
  by (simp add: yields_def pfail_def)

lemma yields_bind:
  assumes p: "yields p P" and f: "\<And>a k. P a k \<Longrightarrow> yields (f a) (\<lambda>b m. Q b (k + m))"
  shows "yields (pbind p f) Q"
proof (rule yieldsI)
  fix r assume r: "in_bounds r"
  show "pbind p f r \<noteq> Panic"
  proof (cases "p r")
    case (Ok x)
    then obtain a r1 where x: "p r = Ok (a, r1)" by (cases x) auto
    show ?thesis
      using yields_not_Panic [OF f [OF yieldsD(4) [OF p r x]] yieldsD(3) [OF p r x]] x
      by (simp add: pbind_def)
  qed (use yields_not_Panic [OF p r] in \<open>auto simp: pbind_def\<close>)
next
  fix r b r' assume r: "in_bounds r" and b: "pbind p f r = Ok (b, r')"
  obtain a r1 where x: "p r = Ok (a, r1)" and y: "f a r1 = Ok (b, r')"
    using b by (auto simp: pbind_def res_bind_Ok_iff)
  note 1 = yieldsD [OF p r x]
  note 2 = yieldsD [OF f [OF 1(4)] 1(3) y]
  show "rd_buf r' = rd_buf r \<and> rd_pos r \<le> rd_pos r' \<and> in_bounds r' \<and> Q b (rd_pos r' - rd_pos r)"
    using 1 2 by simp
qed

lemma yields_take: "yields (reader_take n) (\<lambda>b k. length b = n \<and> k = n)"
  by (rule yieldsI)
    (auto simp: reader_take_def in_bounds_def usize_checked_add_def split: if_splits)

lemma yields_array: "yields (reader_array n) (\<lambda>b k. length b = n \<and> k = n)"
  unfolding reader_array_def
  by (rule yields_bind [OF yields_take]) (auto intro: yields_return)

lemma yields_str: "yields (reader_str n) (\<lambda>s k. valid_str s \<and> k = n)"
  unfolding reader_str_def
  by (rule yields_bind [OF yields_take]) (auto intro: yields_return)

lemma yields_u8: "yields reader_u8 (\<lambda>_ k. k = 1)"
  unfolding reader_u8_def
  by (rule yields_bind [OF yields_take]) (auto intro: yields_return split: list.split)

lemma yields_u32: "yields reader_u32 (\<lambda>_ k. k = 4)"
  unfolding reader_u32_def
proof (rule yields_bind [OF yields_take], elim conjE)
  fix b :: bytes and k :: nat
  assume "length b = 4" "k = 4"
  then show "yields (case b of [a, b, c, d] \<Rightarrow> preturn (u32_from_be_bytes a b c d) | _ \<Rightarrow> ppanic)
      (\<lambda>_ m. k + m = 4)"
    by (auto simp: numeral_eq_Suc length_Suc_conv intro: yields_return)
qed

lemma yields_finish: "yields (reader_finish pdu) (\<lambda>_ k. k = 0)"
  by (rule yieldsI) (auto simp: reader_finish_def split: if_splits)

lemma yields_replicate:
  "yields p (\<lambda>x k. R x \<and> k = w) \<Longrightarrow>
   yields (preplicate n p) (\<lambda>xs k. length xs = n \<and> (\<forall>x \<in> set xs. R x) \<and> k = n * w)"
proof (induction n)
  case 0
  then show ?case by (auto intro: yields_return)
next
  case (Suc n)
  show ?case
    unfolding preplicate.simps
    by (rule yields_bind [OF Suc.prems], rule yields_bind [OF Suc.IH [OF Suc.prems]])
      (rule yields_return, auto)
qed

lemmas yields_fields [no_panic_intro] =
  yields_bind [OF yields_take] yields_bind [OF yields_array] yields_bind [OF yields_str]
  yields_bind [OF yields_u8] yields_bind [OF yields_u32]
  yields_bind [OF yields_replicate [OF yields_str]] yields_return

lemma run_reader_yields:
  assumes "yields p P"
  shows "run_reader pdu p body \<noteq> Panic"
    and "run_reader pdu p body = Ok a \<Longrightarrow> P a (length body)"
proof -
  have i: "in_bounds (body_reader_new body)" by (simp add: in_bounds_def body_reader_new_def)
  have "yields (pbind p (\<lambda>a. pbind (reader_finish pdu) (\<lambda>_. preturn a))) P"
    by (rule yields_bind [OF assms], rule yields_bind [OF yields_finish])
      (rule yields_return, simp)
  from yields_not_Panic [OF this i] show "run_reader pdu p body \<noteq> Panic"
    by (simp add: run_reader_def)
  assume "run_reader pdu p body = Ok a"
  then obtain r' where a: "p (body_reader_new body) = Ok (a, r')" and e: "rd_pos r' = length (rd_buf r')"
    by (auto simp: run_reader_def pbind_def reader_finish_def preturn_def map_ok_Ok_iff
        res_bind_Ok_iff split: if_splits)
  show "P a (length body)"
    using yieldsD [OF assms i a] e by (simp add: body_reader_new_def)
qed

text \<open>\<open>decodes d P\<close>: the decoder \<open>d\<close> never panics and \<open>P\<close> holds of a decoded value and the body length.\<close>

definition decodes :: "(bytes \<Rightarrow> 'a result) \<Rightarrow> ('a \<Rightarrow> nat \<Rightarrow> bool) \<Rightarrow> bool" where
  "decodes d P \<longleftrightarrow> (\<forall>body. d body \<noteq> Panic \<and> (\<forall>a. d body = Ok a \<longrightarrow> P a (length body)))"

lemma run_reader_decodes: "yields p P \<Longrightarrow> decodes (run_reader pdu p) P"
  by (auto simp: decodes_def run_reader_yields)

section \<open>Frames\<close>

text \<open>
  The closure \<open>encode_body\<close> appends to the buffer (and may panic); the four length bytes written
  first are patched once the frame is complete.
\<close>

definition encode_frame_into ::
    "bytes \<Rightarrow> u32 \<Rightarrow> u32 \<Rightarrow> (bytes \<Rightarrow> bytes result) \<Rightarrow> bytes result" where
  "encode_frame_into dst command seq encode_body =
     (let start = length dst;
          dst1 = dst @ u32_to_be_bytes 0 @ u32_to_be_bytes command @ u32_to_be_bytes seq
      in res_bind (encode_body dst1) (\<lambda>dst2.
           let total = of_nat (length dst2 - start) :: u32
           in Ok (take start dst2 @ u32_to_be_bytes total @ drop (start + 4) dst2)))"

definition frame_bytes :: "u32 \<Rightarrow> u32 \<Rightarrow> bytes \<Rightarrow> bytes" where
  "frame_bytes command seq body =
     u32_to_be_bytes (of_nat (12 + length body)) @ u32_to_be_bytes command @
     u32_to_be_bytes seq @ body"

lemma length_frame_bytes [simp]: "length (frame_bytes command seq body) = 12 + length body"
  by (simp add: frame_bytes_def)

lemma drop_frame_bytes [simp]: "drop 12 (frame_bytes command seq body) = body"
  by (simp add: frame_bytes_def)

lemma encode_frame_into_append:
  assumes "\<And>buf. encode_body buf = Ok (buf @ body)"
  shows "encode_frame_into dst command seq encode_body = Ok (dst @ frame_bytes command seq body)"
  by (simp add: encode_frame_into_def assms Let_def frame_bytes_def)

section \<open>The contract of a PDU body\<close>

locale wire_body =
  fixes wire :: "'a \<Rightarrow> bytes"
    and decode :: "bytes \<Rightarrow> 'a result"
    and well_formed :: "'a \<Rightarrow> bool"
    and size_ok :: "'a \<Rightarrow> nat \<Rightarrow> bool"
  assumes decode_wire: "well_formed x \<Longrightarrow> decode (wire x) = Ok x"
    and decode_total: "decode body \<noteq> Panic"
    and decode_size: "decode body = Ok x \<Longrightarrow> size_ok x (length body)"
begin

lemma wire_inj: "well_formed x \<Longrightarrow> well_formed y \<Longrightarrow> wire x = wire y \<Longrightarrow> x = y"
  by (metis decode_wire res.inject(1))

lemma frame_inj:
  assumes "well_formed x" "well_formed y" "frame_bytes c s (wire x) = frame_bytes c t (wire y)"
  shows "x = y"
proof (rule wire_inj [OF assms(1,2)])
  show "wire x = wire y"
    using arg_cong [OF assms(3), of "drop 12"] by simp
qed

lemma decode_frame: "well_formed x \<Longrightarrow> decode (drop 12 (frame_bytes c s (wire x))) = Ok x"
  by (simp add: decode_wire)

lemma wire_size: "well_formed x \<Longrightarrow> size_ok x (length (wire x))"
  using decode_size decode_wire by blast

lemma decode_cases: "(\<exists>x. decode body = Ok x \<and> size_ok x (length body)) \<or> (\<exists>e. decode body = Err e)"
  using decode_total decode_size by (cases "decode body") auto

end

lemma wire_bodyI:
  "(\<And>x. well_formed x \<Longrightarrow> decode (wire x) = Ok x) \<Longrightarrow> decodes decode P \<Longrightarrow> wire_body wire decode well_formed P"
  by (simp add: wire_body_def decodes_def)

end
