(* ===== verification/Cmpp_Pdu.thy ===== *)
theory Cmpp_Pdu
  imports Cmpp_Wire
begin

text \<open>
  The protocol data units of \<open>src/pdu.rs\<close>: one record per body, its encoder and decoder, the sum
  type \<open>pdu\<close> with the dispatch over command ids, frames, the status report and the authenticators.
  MD5 (crate \<open>md-5\<close>) is the parameter \<open>md5\<close>. Each body is an instance of the contract \<open>wire_body\<close>.
  A fixed-size array field is a byte list whose length the \<open>wf\<close> predicate fixes.
\<close>

section \<open>CONNECT and CONNECT_RESP\<close>

record connect =
  cn_source_addr :: rstr
  cn_authenticator_source :: bytes
  cn_version :: u8
  cn_timestamp :: u32

definition connect_encode_body :: "connect \<Rightarrow> bytes \<Rightarrow> bytes result" where
  "connect_encode_body c buf =
     Ok (put_octet_str buf (cn_source_addr c) 6 @ cn_authenticator_source c @ [cn_version c] @
         u32_to_be_bytes (cn_timestamp c))"

definition connect_decode :: "bytes \<Rightarrow> connect result" where
  "connect_decode = run_reader ''CMPP_CONNECT''
     (pbind (reader_str 6) (\<lambda>source_addr.
      pbind (reader_array 16) (\<lambda>authenticator_source.
      pbind reader_u8 (\<lambda>version.
      pbind reader_u32 (\<lambda>timestamp.
      preturn \<lparr>cn_source_addr = source_addr, cn_authenticator_source = authenticator_source,
               cn_version = version, cn_timestamp = timestamp\<rparr>)))))"

definition connect_wire :: "connect \<Rightarrow> bytes" where
  "connect_wire c = octet_str (cn_source_addr c) 6 @ cn_authenticator_source c @ [cn_version c] @
     u32_to_be_bytes (cn_timestamp c) @ []"

definition connect_wf :: "connect \<Rightarrow> bool" where
  "connect_wf c \<longleftrightarrow> octet_ok 6 (cn_source_addr c) \<and> length (cn_authenticator_source c) = 16"

record connect_resp =
  cr_status :: u8
  cr_authenticator_ismg :: bytes
  cr_version :: u8

definition connect_resp_encode_body :: "connect_resp \<Rightarrow> bytes \<Rightarrow> bytes result" where
  "connect_resp_encode_body c buf =
     Ok (buf @ [cr_status c] @ cr_authenticator_ismg c @ [cr_version c])"

definition connect_resp_decode :: "bytes \<Rightarrow> connect_resp result" where
  "connect_resp_decode = run_reader ''CMPP_CONNECT_RESP''
     (pbind reader_u8 (\<lambda>status.
      pbind (reader_array 16) (\<lambda>authenticator_ismg.
      pbind reader_u8 (\<lambda>version.
      preturn \<lparr>cr_status = status, cr_authenticator_ismg = authenticator_ismg,
               cr_version = version\<rparr>))))"

definition connect_resp_wire :: "connect_resp \<Rightarrow> bytes" where
  "connect_resp_wire c = [cr_status c] @ cr_authenticator_ismg c @ [cr_version c] @ []"

definition connect_resp_wf :: "connect_resp \<Rightarrow> bool" where
  "connect_resp_wf c \<longleftrightarrow> length (cr_authenticator_ismg c) = 16"

section \<open>SUBMIT and SUBMIT_RESP\<close>

record submit =
  sm_msg_id :: bytes
  sm_pk_total :: u8
  sm_pk_number :: u8
  sm_registered_delivery :: u8
  sm_msg_level :: u8
  sm_service_id :: rstr
  sm_fee_user_type :: u8
  sm_fee_terminal_id :: rstr
  sm_tp_pid :: u8
  sm_tp_udhi :: u8
  sm_msg_fmt :: u8
  sm_msg_src :: rstr
  sm_fee_type :: rstr
  sm_fee_code :: rstr
  sm_valid_time :: rstr
  sm_at_time :: rstr
  sm_src_id :: rstr
  sm_dest_terminal_ids :: "rstr list"
  sm_msg_content :: bytes

definition submit_validate_encode :: "submit \<Rightarrow> unit result" where
  "submit_validate_encode s =
     (if 255 < length (sm_dest_terminal_ids s) then Err (Error_Config Submit_destinations)
      else if 255 < length (sm_msg_content s) then Err (Error_Config Submit_content_length)
      else Ok ())"

definition submit_body_len_hint :: "submit \<Rightarrow> nat" where
  "submit_body_len_hint s =
     usize_saturating_add
       (usize_saturating_add 126 (usize_saturating_mul (length (sm_dest_terminal_ids s)) 21))
       (length (sm_msg_content s))"

definition submit_encode_body :: "submit \<Rightarrow> bytes \<Rightarrow> bytes result" where
  "submit_encode_body s buf =
     (let buf = buf @ sm_msg_id s @ [sm_pk_total s] @ [sm_pk_number s] @
            [sm_registered_delivery s] @ [sm_msg_level s];
          buf = put_octet_str buf (sm_service_id s) 10 @ [sm_fee_user_type s];
          buf = put_octet_str buf (sm_fee_terminal_id s) 21 @
            [sm_tp_pid s] @ [sm_tp_udhi s] @ [sm_msg_fmt s];
          buf = put_octet_str buf (sm_msg_src s) 6;
          buf = put_octet_str buf (sm_fee_type s) 2;
          buf = put_octet_str buf (sm_fee_code s) 6;
          buf = put_octet_str buf (sm_valid_time s) 17;
          buf = put_octet_str buf (sm_at_time s) 17;
          buf = put_octet_str buf (sm_src_id s) 21
      in res_bind (expect (u8_try_from (length (sm_dest_terminal_ids s)))) (\<lambda>dest_count.
         let buf = fold (\<lambda>d buf. put_octet_str buf d 21) (sm_dest_terminal_ids s)
                     (buf @ [dest_count])
         in res_bind (expect (u8_try_from (length (sm_msg_content s)))) (\<lambda>msg_length.
            Ok (buf @ [msg_length] @ sm_msg_content s @ replicate 8 0))))"

definition submit_dest_check :: "u8 \<Rightarrow> unit parser" where
  "submit_dest_check dest_count r =
     (case Option.bind (usize_checked_mul (unat dest_count) 21)
             (\<lambda>dest_bytes. usize_checked_add dest_bytes (1 + 8)) of
        None \<Rightarrow> Err (Error_Decode Submit_dest_overflow)
      | Some minimum_remaining \<Rightarrow>
          if reader_remaining r < minimum_remaining
          then Err (Error_Decode (Submit_dest_mismatch (unat dest_count)))
          else Ok ((), r))"

definition submit_decode :: "bytes \<Rightarrow> submit result" where
  "submit_decode = run_reader ''CMPP_SUBMIT''
     (pbind (reader_array 8) (\<lambda>msg_id.
      pbind reader_u8 (\<lambda>pk_total.
      pbind reader_u8 (\<lambda>pk_number.
      pbind reader_u8 (\<lambda>registered_delivery.
      pbind reader_u8 (\<lambda>msg_level.
      pbind (reader_str 10) (\<lambda>service_id.
      pbind reader_u8 (\<lambda>fee_user_type.
      pbind (reader_str 21) (\<lambda>fee_terminal_id.
      pbind reader_u8 (\<lambda>tp_pid.
      pbind reader_u8 (\<lambda>tp_udhi.
      pbind reader_u8 (\<lambda>msg_fmt.
      pbind (reader_str 6) (\<lambda>msg_src.
      pbind (reader_str 2) (\<lambda>fee_type.
      pbind (reader_str 6) (\<lambda>fee_code.
      pbind (reader_str 17) (\<lambda>valid_time.
      pbind (reader_str 17) (\<lambda>at_time.
      pbind (reader_str 21) (\<lambda>src_id.
      pbind reader_u8 (\<lambda>dest_count.
      pbind (submit_dest_check dest_count) (\<lambda>_.
      pbind (preplicate (unat dest_count) (reader_str 21)) (\<lambda>dest_terminal_ids.
      pbind reader_u8 (\<lambda>msg_length.
      pbind (reader_take (unat msg_length)) (\<lambda>msg_content.
      pbind (reader_take 8) (\<lambda>_.
      preturn \<lparr>sm_msg_id = msg_id, sm_pk_total = pk_total, sm_pk_number = pk_number,
        sm_registered_delivery = registered_delivery, sm_msg_level = msg_level,
        sm_service_id = service_id, sm_fee_user_type = fee_user_type,
        sm_fee_terminal_id = fee_terminal_id, sm_tp_pid = tp_pid, sm_tp_udhi = tp_udhi,
        sm_msg_fmt = msg_fmt, sm_msg_src = msg_src, sm_fee_type = fee_type,
        sm_fee_code = fee_code, sm_valid_time = valid_time, sm_at_time = at_time,
        sm_src_id = src_id, sm_dest_terminal_ids = dest_terminal_ids,
        sm_msg_content = msg_content\<rparr>))))))))))))))))))))))))"

definition submit_wire :: "submit \<Rightarrow> bytes" where
  "submit_wire s =
     sm_msg_id s @ [sm_pk_total s] @ [sm_pk_number s] @ [sm_registered_delivery s] @
     [sm_msg_level s] @ octet_str (sm_service_id s) 10 @ [sm_fee_user_type s] @
     octet_str (sm_fee_terminal_id s) 21 @ [sm_tp_pid s] @ [sm_tp_udhi s] @ [sm_msg_fmt s] @
     octet_str (sm_msg_src s) 6 @ octet_str (sm_fee_type s) 2 @ octet_str (sm_fee_code s) 6 @
     octet_str (sm_valid_time s) 17 @ octet_str (sm_at_time s) 17 @ octet_str (sm_src_id s) 21 @
     [of_nat (length (sm_dest_terminal_ids s))] @
     concat (map (\<lambda>d. octet_str d 21) (sm_dest_terminal_ids s)) @
     [of_nat (length (sm_msg_content s))] @ sm_msg_content s @ replicate 8 0 @ []"

definition submit_wf :: "submit \<Rightarrow> bool" where
  "submit_wf s \<longleftrightarrow>
     length (sm_msg_id s) = 8 \<and> octet_ok 10 (sm_service_id s) \<and> octet_ok 21 (sm_fee_terminal_id s) \<and>
     octet_ok 6 (sm_msg_src s) \<and> octet_ok 2 (sm_fee_type s) \<and> octet_ok 6 (sm_fee_code s) \<and>
     octet_ok 17 (sm_valid_time s) \<and> octet_ok 17 (sm_at_time s) \<and> octet_ok 21 (sm_src_id s) \<and>
     (\<forall>d \<in> set (sm_dest_terminal_ids s). octet_ok 21 d) \<and>
     length (sm_dest_terminal_ids s) \<le> 255 \<and> length (sm_msg_content s) \<le> 255"

definition submit_size :: "submit \<Rightarrow> nat" where
  "submit_size s = 126 + length (sm_dest_terminal_ids s) * 21 + length (sm_msg_content s)"

record submit_resp =
  sr_msg_id :: bytes
  sr_result :: u8

definition submit_resp_encode_body :: "submit_resp \<Rightarrow> bytes \<Rightarrow> bytes result" where
  "submit_resp_encode_body s buf = Ok (buf @ sr_msg_id s @ [sr_result s])"

definition submit_resp_decode :: "bytes \<Rightarrow> submit_resp result" where
  "submit_resp_decode = run_reader ''CMPP_SUBMIT_RESP''
     (pbind (reader_array 8) (\<lambda>msg_id.
      pbind reader_u8 (\<lambda>result.
      preturn \<lparr>sr_msg_id = msg_id, sr_result = result\<rparr>)))"

definition submit_resp_wire :: "submit_resp \<Rightarrow> bytes" where
  "submit_resp_wire s = sr_msg_id s @ [sr_result s] @ []"

definition submit_resp_wf :: "submit_resp \<Rightarrow> bool" where
  "submit_resp_wf s \<longleftrightarrow> length (sr_msg_id s) = 8"

section \<open>DELIVER and DELIVER_RESP\<close>

record deliver =
  dl_msg_id :: bytes
  dl_dest_id :: rstr
  dl_service_id :: rstr
  dl_tp_pid :: u8
  dl_tp_udhi :: u8
  dl_msg_fmt :: u8
  dl_src_terminal_id :: rstr
  dl_registered_delivery :: u8
  dl_msg_content :: bytes

definition deliver_body_len_hint :: "deliver \<Rightarrow> nat" where
  "deliver_body_len_hint d = usize_saturating_add 73 (length (dl_msg_content d))"

definition deliver_validate_encode :: "deliver \<Rightarrow> unit result" where
  "deliver_validate_encode d =
     (if 255 < length (dl_msg_content d) then Err (Error_Config Deliver_content_length) else Ok ())"

definition deliver_encode_body :: "deliver \<Rightarrow> bytes \<Rightarrow> bytes result" where
  "deliver_encode_body d buf =
     (let buf = put_octet_str (buf @ dl_msg_id d) (dl_dest_id d) 21;
          buf = put_octet_str buf (dl_service_id d) 10 @ [dl_tp_pid d] @ [dl_tp_udhi d] @
            [dl_msg_fmt d];
          buf = put_octet_str buf (dl_src_terminal_id d) 21 @ [dl_registered_delivery d]
      in res_bind (expect (u8_try_from (length (dl_msg_content d)))) (\<lambda>msg_length.
         Ok (buf @ [msg_length] @ dl_msg_content d @ replicate 8 0)))"

definition deliver_decode :: "bytes \<Rightarrow> deliver result" where
  "deliver_decode = run_reader ''CMPP_DELIVER''
     (pbind (reader_array 8) (\<lambda>msg_id.
      pbind (reader_str 21) (\<lambda>dest_id.
      pbind (reader_str 10) (\<lambda>service_id.
      pbind reader_u8 (\<lambda>tp_pid.
      pbind reader_u8 (\<lambda>tp_udhi.
      pbind reader_u8 (\<lambda>msg_fmt.
      pbind (reader_str 21) (\<lambda>src_terminal_id.
      pbind reader_u8 (\<lambda>registered_delivery.
      pbind reader_u8 (\<lambda>msg_length.
      pbind (reader_take (unat msg_length)) (\<lambda>msg_content.
      pbind (reader_take 8) (\<lambda>_.
      preturn \<lparr>dl_msg_id = msg_id, dl_dest_id = dest_id, dl_service_id = service_id,
        dl_tp_pid = tp_pid, dl_tp_udhi = tp_udhi, dl_msg_fmt = msg_fmt,
        dl_src_terminal_id = src_terminal_id, dl_registered_delivery = registered_delivery,
        dl_msg_content = msg_content\<rparr>))))))))))))"

definition deliver_wire :: "deliver \<Rightarrow> bytes" where
  "deliver_wire d =
     dl_msg_id d @ octet_str (dl_dest_id d) 21 @ octet_str (dl_service_id d) 10 @
     [dl_tp_pid d] @ [dl_tp_udhi d] @ [dl_msg_fmt d] @ octet_str (dl_src_terminal_id d) 21 @
     [dl_registered_delivery d] @ [of_nat (length (dl_msg_content d))] @ dl_msg_content d @
     replicate 8 0 @ []"

definition deliver_wf :: "deliver \<Rightarrow> bool" where
  "deliver_wf d \<longleftrightarrow>
     length (dl_msg_id d) = 8 \<and> octet_ok 21 (dl_dest_id d) \<and> octet_ok 10 (dl_service_id d) \<and>
     octet_ok 21 (dl_src_terminal_id d) \<and> length (dl_msg_content d) \<le> 255"

record deliver_resp =
  dr_msg_id :: bytes
  dr_result :: u8

definition deliver_resp_encode_body :: "deliver_resp \<Rightarrow> bytes \<Rightarrow> bytes result" where
  "deliver_resp_encode_body s buf = Ok (buf @ dr_msg_id s @ [dr_result s])"

definition deliver_resp_decode :: "bytes \<Rightarrow> deliver_resp result" where
  "deliver_resp_decode = run_reader ''CMPP_DELIVER_RESP''
     (pbind (reader_array 8) (\<lambda>msg_id.
      pbind reader_u8 (\<lambda>result.
      preturn \<lparr>dr_msg_id = msg_id, dr_result = result\<rparr>)))"

definition deliver_resp_wire :: "deliver_resp \<Rightarrow> bytes" where
  "deliver_resp_wire s = dr_msg_id s @ [dr_result s] @ []"

definition deliver_resp_wf :: "deliver_resp \<Rightarrow> bool" where
  "deliver_resp_wf s \<longleftrightarrow> length (dr_msg_id s) = 8"

section \<open>The bodies meet their contract\<close>

lemma length_concat_octet [simp]: "length (concat (map (\<lambda>d. octet_str d n) ds)) = length ds * n"
  by (induction ds) auto

lemma fold_put_octet_str:
  "fold (\<lambda>d buf. buf @ octet_str d n) ds buf = buf @ concat (map (\<lambda>d. octet_str d n) ds)"
  by (induction ds arbitrary: buf) simp_all

lemma connect_encode_wire: "connect_encode_body c buf = Ok (buf @ connect_wire c)"
  by (simp add: connect_encode_body_def connect_wire_def put_octet_str_append)

lemma connect_resp_encode_wire: "connect_resp_encode_body c buf = Ok (buf @ connect_resp_wire c)"
  by (simp add: connect_resp_encode_body_def connect_resp_wire_def)

lemma submit_resp_encode_wire: "submit_resp_encode_body c buf = Ok (buf @ submit_resp_wire c)"
  by (simp add: submit_resp_encode_body_def submit_resp_wire_def)

lemma deliver_resp_encode_wire: "deliver_resp_encode_body c buf = Ok (buf @ deliver_resp_wire c)"
  by (simp add: deliver_resp_encode_body_def deliver_resp_wire_def)

lemma submit_encode_wire:
  assumes "submit_validate_encode s = Ok ()"
  shows "submit_encode_body s buf = Ok (buf @ submit_wire s)"
proof -
  have "length (sm_dest_terminal_ids s) \<le> 255" "length (sm_msg_content s) \<le> 255"
    using assms by (auto simp: submit_validate_encode_def split: if_splits)
  then show ?thesis
    by (simp add: submit_encode_body_def submit_wire_def put_octet_str_append fold_put_octet_str
        Let_def)
qed

lemma deliver_encode_wire:
  assumes "deliver_validate_encode d = Ok ()"
  shows "deliver_encode_body d buf = Ok (buf @ deliver_wire d)"
proof -
  have "length (dl_msg_content d) \<le> 255"
    using assms by (auto simp: deliver_validate_encode_def split: if_splits)
  then show ?thesis
    by (simp add: deliver_encode_body_def deliver_wire_def put_octet_str_append Let_def)
qed

lemma u8_dest_bytes: "unat (n :: u8) * 21 + 9 \<le> usize_max"
proof -
  have "unat n \<le> 255" by simp
  then show ?thesis unfolding usize_max_def by linarith
qed

lemma submit_dest_check_eq:
  "submit_dest_check n r =
     (if reader_remaining r < unat n * 21 + 9
      then Err (Error_Decode (Submit_dest_mismatch (unat n))) else Ok ((), r))"
  using u8_dest_bytes [of n] by (simp add: submit_dest_check_def)

lemma parses_dest_check [parses_intro]:
  assumes "unat n * 21 + 9 \<le> length xs" "parses (f ()) xs b"
  shows "parses (pbind (submit_dest_check n) f) xs b"
  using assms unfolding parses_def
  by (simp add: pbind_def submit_dest_check_eq reader_remaining_def)

lemma yields_dest_check: "yields (submit_dest_check n) (\<lambda>_ k. k = 0)"
  by (rule yieldsI) (auto simp: submit_dest_check_eq split: if_splits)

lemmas yields_submit = no_panic_intro yields_bind [OF yields_dest_check]

lemma connect_parse: "connect_wf c \<Longrightarrow> connect_decode (connect_wire c) = Ok c"
  unfolding connect_decode_def connect_wire_def connect_wf_def
  by (rule run_reader_parses, intro parses_intro) (simp_all add: usize_max_def)

lemma connect_resp_parse:
  "connect_resp_wf c \<Longrightarrow> connect_resp_decode (connect_resp_wire c) = Ok c"
  unfolding connect_resp_decode_def connect_resp_wire_def connect_resp_wf_def
  by (rule run_reader_parses, intro parses_intro) (simp_all add: usize_max_def)

lemma submit_parse: "submit_wf s \<Longrightarrow> submit_decode (submit_wire s) = Ok s"
  unfolding submit_decode_def submit_wire_def submit_wf_def
  by (rule run_reader_parses, intro parses_intro) (simp_all add: usize_max_def)

lemma submit_resp_parse: "submit_resp_wf s \<Longrightarrow> submit_resp_decode (submit_resp_wire s) = Ok s"
  unfolding submit_resp_decode_def submit_resp_wire_def submit_resp_wf_def
  by (rule run_reader_parses, intro parses_intro) (simp_all add: usize_max_def)

lemma deliver_parse: "deliver_wf d \<Longrightarrow> deliver_decode (deliver_wire d) = Ok d"
  unfolding deliver_decode_def deliver_wire_def deliver_wf_def
  by (rule run_reader_parses, intro parses_intro) (simp_all add: usize_max_def)

lemma deliver_resp_parse: "deliver_resp_wf s \<Longrightarrow> deliver_resp_decode (deliver_resp_wire s) = Ok s"
  unfolding deliver_resp_decode_def deliver_resp_wire_def deliver_resp_wf_def
  by (rule run_reader_parses, intro parses_intro) (simp_all add: usize_max_def)

text \<open>
  What a decoder can return: the exact body length, and the shape of every field.
\<close>

definition connect_shape :: "connect \<Rightarrow> nat \<Rightarrow> bool" where
  "connect_shape c n \<longleftrightarrow> n = 27 \<and> valid_str (cn_source_addr c) \<and> length (cn_authenticator_source c) = 16"

definition connect_resp_shape :: "connect_resp \<Rightarrow> nat \<Rightarrow> bool" where
  "connect_resp_shape c n \<longleftrightarrow> n = 18 \<and> connect_resp_wf c"

definition submit_shape :: "submit \<Rightarrow> nat \<Rightarrow> bool" where
  "submit_shape s n \<longleftrightarrow>
     n = submit_size s \<and> length (sm_msg_id s) = 8 \<and> length (sm_dest_terminal_ids s) \<le> 255 \<and>
     length (sm_msg_content s) \<le> 255 \<and> list_all valid_str (sm_dest_terminal_ids s) \<and>
     list_all (\<lambda>f. valid_str (f s)) [sm_service_id, sm_fee_terminal_id, sm_msg_src, sm_fee_type,
       sm_fee_code, sm_valid_time, sm_at_time, sm_src_id]"

definition submit_resp_shape :: "submit_resp \<Rightarrow> nat \<Rightarrow> bool" where
  "submit_resp_shape s n \<longleftrightarrow> n = 9 \<and> submit_resp_wf s"

definition deliver_shape :: "deliver \<Rightarrow> nat \<Rightarrow> bool" where
  "deliver_shape d n \<longleftrightarrow>
     n = 73 + length (dl_msg_content d) \<and> length (dl_msg_id d) = 8 \<and>
     length (dl_msg_content d) \<le> 255 \<and>
     list_all (\<lambda>f. valid_str (f d)) [dl_dest_id, dl_service_id, dl_src_terminal_id]"

definition deliver_resp_shape :: "deliver_resp \<Rightarrow> nat \<Rightarrow> bool" where
  "deliver_resp_shape s n \<longleftrightarrow> n = 9 \<and> deliver_resp_wf s"

lemma connect_decodes: "decodes connect_decode connect_shape"
  unfolding connect_decode_def connect_shape_def
  by (rule run_reader_decodes, intro no_panic_intro) auto

lemma connect_resp_decodes: "decodes connect_resp_decode connect_resp_shape"
  unfolding connect_resp_decode_def connect_resp_shape_def connect_resp_wf_def
  by (rule run_reader_decodes, intro no_panic_intro) auto

lemma submit_decodes: "decodes submit_decode submit_shape"
  unfolding submit_decode_def submit_shape_def submit_size_def
  by (rule run_reader_decodes, intro yields_submit) (auto simp: list_all_iff)

lemma submit_resp_decodes: "decodes submit_resp_decode submit_resp_shape"
  unfolding submit_resp_decode_def submit_resp_shape_def submit_resp_wf_def
  by (rule run_reader_decodes, intro no_panic_intro) auto

lemma deliver_decodes: "decodes deliver_decode deliver_shape"
  unfolding deliver_decode_def deliver_shape_def
  by (rule run_reader_decodes, intro no_panic_intro) auto

lemma deliver_resp_decodes: "decodes deliver_resp_decode deliver_resp_shape"
  unfolding deliver_resp_decode_def deliver_resp_shape_def deliver_resp_wf_def
  by (rule run_reader_decodes, intro no_panic_intro) auto

interpretation connect_body: wire_body connect_wire connect_decode connect_wf connect_shape
  by (rule wire_bodyI [OF connect_parse connect_decodes])

interpretation connect_resp_body:
  wire_body connect_resp_wire connect_resp_decode connect_resp_wf connect_resp_shape
  by (rule wire_bodyI [OF connect_resp_parse connect_resp_decodes])

interpretation submit_body: wire_body submit_wire submit_decode submit_wf submit_shape
  by (rule wire_bodyI [OF submit_parse submit_decodes])

interpretation submit_resp_body:
  wire_body submit_resp_wire submit_resp_decode submit_resp_wf submit_resp_shape
  by (rule wire_bodyI [OF submit_resp_parse submit_resp_decodes])

interpretation deliver_body: wire_body deliver_wire deliver_decode deliver_wf deliver_shape
  by (rule wire_bodyI [OF deliver_parse deliver_decodes])

interpretation deliver_resp_body:
  wire_body deliver_resp_wire deliver_resp_decode deliver_resp_wf deliver_resp_shape
  by (rule wire_bodyI [OF deliver_resp_parse deliver_resp_decodes])

text \<open>
  The SUBMIT decoder accepts a body only at its exact length (no missing and no trailing byte), and
  whatever it accepts is a value the encoder accepts again at the same length, all of whose text fields
  are proper strings even when the wire bytes were not.
\<close>

lemma submit_decode_exact:
  assumes "submit_decode body = Ok s"
  shows "length body = 126 + 21 * length (sm_dest_terminal_ids s) + length (sm_msg_content s) \<and>
    submit_validate_encode s = Ok () \<and>
    (\<exists>out. submit_encode_body s [] = Ok out \<and> length out = length body) \<and>
    list_all valid_str (sm_dest_terminal_ids s) \<and> valid_str (sm_src_id s) \<and> valid_str (sm_service_id s)"
proof -
  have sh: "submit_shape s (length body)" using submit_body.decode_size [OF assms] .
  then have v: "length (sm_dest_terminal_ids s) \<le> 255" "length (sm_msg_content s) \<le> 255"
    by (simp_all add: submit_shape_def)
  then have e: "submit_validate_encode s = Ok ()" by (simp add: submit_validate_encode_def)
  show ?thesis
    using sh e submit_encode_wire [OF e, of "[]"]
    by (simp add: submit_shape_def submit_size_def submit_wire_def)
qed

end
