(* ===== verification/Cmpp_Frame.thy ===== *)
theory Cmpp_Frame
  imports Cmpp_Pdu
begin

text \<open>
  The sum type \<open>Pdu\<close> and \<open>Frame\<close> of \<open>src/pdu.rs\<close> with their encoders and the decoder that
  dispatches on the command id.
\<close>

section \<open>Pdu and Frame (src/pdu.rs)\<close>

datatype pdu =
    Pdu_Connect connect
  | Pdu_ConnectResp connect_resp
  | Pdu_Submit submit
  | Pdu_SubmitResp submit_resp
  | Pdu_Deliver deliver
  | Pdu_DeliverResp deliver_resp
  | Pdu_ActiveTest
  | Pdu_ActiveTestResp
  | Pdu_Terminate
  | Pdu_TerminateResp

record frame =
  fr_sequence_id :: u32
  fr_pdu :: pdu

definition frame_new :: "u32 \<Rightarrow> pdu \<Rightarrow> frame" where
  "frame_new seq p = \<lparr>fr_sequence_id = seq, fr_pdu = p\<rparr>"

fun pdu_command_id :: "pdu \<Rightarrow> u32" where
  "pdu_command_id (Pdu_Connect _) = CMPP_CONNECT"
| "pdu_command_id (Pdu_ConnectResp _) = CMPP_CONNECT_RESP"
| "pdu_command_id (Pdu_Submit _) = CMPP_SUBMIT"
| "pdu_command_id (Pdu_SubmitResp _) = CMPP_SUBMIT_RESP"
| "pdu_command_id (Pdu_Deliver _) = CMPP_DELIVER"
| "pdu_command_id (Pdu_DeliverResp _) = CMPP_DELIVER_RESP"
| "pdu_command_id Pdu_ActiveTest = CMPP_ACTIVE_TEST"
| "pdu_command_id Pdu_ActiveTestResp = CMPP_ACTIVE_TEST_RESP"
| "pdu_command_id Pdu_Terminate = CMPP_TERMINATE"
| "pdu_command_id Pdu_TerminateResp = CMPP_TERMINATE_RESP"

fun pdu_validate_encode :: "pdu \<Rightarrow> unit result" where
  "pdu_validate_encode (Pdu_Submit p) = submit_validate_encode p"
| "pdu_validate_encode (Pdu_Deliver p) = deliver_validate_encode p"
| "pdu_validate_encode _ = Ok ()"

fun pdu_body_len_hint :: "pdu \<Rightarrow> nat" where
  "pdu_body_len_hint (Pdu_Connect _) = 27"
| "pdu_body_len_hint (Pdu_ConnectResp _) = 18"
| "pdu_body_len_hint (Pdu_Submit p) = submit_body_len_hint p"
| "pdu_body_len_hint (Pdu_SubmitResp _) = 9"
| "pdu_body_len_hint (Pdu_DeliverResp _) = 9"
| "pdu_body_len_hint (Pdu_Deliver p) = deliver_body_len_hint p"
| "pdu_body_len_hint Pdu_ActiveTest = 0"
| "pdu_body_len_hint Pdu_Terminate = 0"
| "pdu_body_len_hint Pdu_TerminateResp = 0"
| "pdu_body_len_hint Pdu_ActiveTestResp = 1"

definition pdu_encode_into_unchecked :: "pdu \<Rightarrow> u32 \<Rightarrow> bytes \<Rightarrow> bytes result" where
  "pdu_encode_into_unchecked p seq dst =
     encode_frame_into dst (pdu_command_id p) seq
       (\<lambda>body. case p of
          Pdu_Connect c \<Rightarrow> connect_encode_body c body
        | Pdu_ConnectResp c \<Rightarrow> connect_resp_encode_body c body
        | Pdu_Submit s \<Rightarrow> submit_encode_body s body
        | Pdu_SubmitResp s \<Rightarrow> submit_resp_encode_body s body
        | Pdu_Deliver d \<Rightarrow> deliver_encode_body d body
        | Pdu_DeliverResp d \<Rightarrow> deliver_resp_encode_body d body
        | Pdu_ActiveTest \<Rightarrow> Ok body
        | Pdu_Terminate \<Rightarrow> Ok body
        | Pdu_TerminateResp \<Rightarrow> Ok body
        | Pdu_ActiveTestResp \<Rightarrow> Ok (body @ [0]))"

definition pdu_try_encode :: "pdu \<Rightarrow> u32 \<Rightarrow> bytes result" where
  "pdu_try_encode p seq =
     res_bind (pdu_validate_encode p) (\<lambda>_. pdu_encode_into_unchecked p seq [])"

definition pdu_try_encode_into :: "pdu \<Rightarrow> u32 \<Rightarrow> bytes \<Rightarrow> bytes result" where
  "pdu_try_encode_into p seq dst =
     res_bind (pdu_validate_encode p) (\<lambda>_. pdu_encode_into_unchecked p seq dst)"

definition pdu_encode :: "pdu \<Rightarrow> u32 \<Rightarrow> bytes result" where
  "pdu_encode p seq = expect (res_ok (pdu_try_encode p seq))"

definition submit_try_encode :: "submit \<Rightarrow> u32 \<Rightarrow> bytes result" where
  "submit_try_encode s seq =
     res_bind (submit_validate_encode s)
       (\<lambda>_. encode_frame_into [] CMPP_SUBMIT seq (submit_encode_body s))"

definition frame_try_encode :: "frame \<Rightarrow> bytes result" where
  "frame_try_encode f = pdu_try_encode (fr_pdu f) (fr_sequence_id f)"

definition frame_try_encode_into :: "frame \<Rightarrow> bytes \<Rightarrow> bytes result" where
  "frame_try_encode_into f dst = pdu_try_encode_into (fr_pdu f) (fr_sequence_id f) dst"

definition frame_encode :: "frame \<Rightarrow> bytes result" where
  "frame_encode f = expect (res_ok (frame_try_encode f))"

definition pdu_decode :: "cmpp_header \<Rightarrow> bytes \<Rightarrow> pdu result" where
  "pdu_decode header body =
     (let c = command_id header in
      if c = CMPP_CONNECT then map_ok Pdu_Connect (connect_decode body)
      else if c = CMPP_CONNECT_RESP then map_ok Pdu_ConnectResp (connect_resp_decode body)
      else if c = CMPP_SUBMIT then map_ok Pdu_Submit (submit_decode body)
      else if c = CMPP_SUBMIT_RESP then map_ok Pdu_SubmitResp (submit_resp_decode body)
      else if c = CMPP_DELIVER then map_ok Pdu_Deliver (deliver_decode body)
      else if c = CMPP_DELIVER_RESP then map_ok Pdu_DeliverResp (deliver_resp_decode body)
      else if c = CMPP_ACTIVE_TEST then
        res_bind (require_body_len body 0 ''CMPP_ACTIVE_TEST'') (\<lambda>_. Ok Pdu_ActiveTest)
      else if c = CMPP_ACTIVE_TEST_RESP then
        res_bind (require_body_len body 1 ''CMPP_ACTIVE_TEST_RESP'') (\<lambda>_. Ok Pdu_ActiveTestResp)
      else if c = CMPP_TERMINATE then
        res_bind (require_body_len body 0 ''CMPP_TERMINATE'') (\<lambda>_. Ok Pdu_Terminate)
      else if c = CMPP_TERMINATE_RESP then
        res_bind (require_body_len body 0 ''CMPP_TERMINATE_RESP'') (\<lambda>_. Ok Pdu_TerminateResp)
      else Err (Error_Decode (Unknown_command c)))"

text \<open>The bytes of a body, and the values whose fields fit the wire format.\<close>

fun pdu_wire :: "pdu \<Rightarrow> bytes" where
  "pdu_wire (Pdu_Connect c) = connect_wire c"
| "pdu_wire (Pdu_ConnectResp c) = connect_resp_wire c"
| "pdu_wire (Pdu_Submit s) = submit_wire s"
| "pdu_wire (Pdu_SubmitResp s) = submit_resp_wire s"
| "pdu_wire (Pdu_Deliver d) = deliver_wire d"
| "pdu_wire (Pdu_DeliverResp d) = deliver_resp_wire d"
| "pdu_wire Pdu_ActiveTest = []"
| "pdu_wire Pdu_ActiveTestResp = [0]"
| "pdu_wire Pdu_Terminate = []"
| "pdu_wire Pdu_TerminateResp = []"

fun pdu_wf :: "pdu \<Rightarrow> bool" where
  "pdu_wf (Pdu_Connect c) = connect_wf c"
| "pdu_wf (Pdu_ConnectResp c) = connect_resp_wf c"
| "pdu_wf (Pdu_Submit s) = submit_wf s"
| "pdu_wf (Pdu_SubmitResp s) = submit_resp_wf s"
| "pdu_wf (Pdu_Deliver d) = deliver_wf d"
| "pdu_wf (Pdu_DeliverResp d) = deliver_resp_wf d"
| "pdu_wf _ = True"

text \<open>The type invariant: every fixed-size array field has its length.\<close>

fun pdu_arrays :: "pdu \<Rightarrow> bool" where
  "pdu_arrays (Pdu_Connect c) = (length (cn_authenticator_source c) = 16)"
| "pdu_arrays (Pdu_ConnectResp c) = (length (cr_authenticator_ismg c) = 16)"
| "pdu_arrays (Pdu_Submit s) = (length (sm_msg_id s) = 8)"
| "pdu_arrays (Pdu_SubmitResp s) = (length (sr_msg_id s) = 8)"
| "pdu_arrays (Pdu_Deliver d) = (length (dl_msg_id d) = 8)"
| "pdu_arrays (Pdu_DeliverResp d) = (length (dr_msg_id d) = 8)"
| "pdu_arrays _ = True"

lemma submit_validate_iff:
  "submit_validate_encode s = Ok () \<longleftrightarrow>
     length (sm_dest_terminal_ids s) \<le> 255 \<and> length (sm_msg_content s) \<le> 255"
  by (auto simp: submit_validate_encode_def)

lemma deliver_validate_iff: "deliver_validate_encode d = Ok () \<longleftrightarrow> length (dl_msg_content d) \<le> 255"
  by (auto simp: deliver_validate_encode_def)

lemma validate_not_Panic [simp]:
  "submit_validate_encode s \<noteq> Panic" "deliver_validate_encode d \<noteq> Panic"
  by (simp_all add: submit_validate_encode_def deliver_validate_encode_def)

lemma pdu_validate_not_Panic [simp]: "pdu_validate_encode p \<noteq> Panic"
  by (cases p) simp_all

lemma pdu_encode_wire:
  assumes "pdu_validate_encode p = Ok ()"
  shows "pdu_encode_into_unchecked p seq dst = Ok (dst @ frame_bytes (pdu_command_id p) seq (pdu_wire p))"
  unfolding pdu_encode_into_unchecked_def
  by (rule encode_frame_into_append)
    (use assms in \<open>cases p; simp add: connect_encode_wire connect_resp_encode_wire
       submit_encode_wire submit_resp_encode_wire deliver_encode_wire deliver_resp_encode_wire\<close>)

lemma pdu_wf_valid: "pdu_wf p \<Longrightarrow> pdu_validate_encode p = Ok ()"
  by (cases p) (simp_all add: submit_validate_iff deliver_validate_iff submit_wf_def deliver_wf_def)

lemma pdu_try_encode_cases:
  "pdu_try_encode p seq =
     (case pdu_validate_encode p of
        Ok _ \<Rightarrow> Ok (frame_bytes (pdu_command_id p) seq (pdu_wire p))
      | Err e \<Rightarrow> Err e | Panic \<Rightarrow> Panic)"
  by (auto simp: pdu_try_encode_def pdu_encode_wire split: res.split)

lemma pdu_try_encode_wf:
  "pdu_wf p \<Longrightarrow> pdu_try_encode p seq = Ok (frame_bytes (pdu_command_id p) seq (pdu_wire p))"
  by (simp add: pdu_try_encode_cases pdu_wf_valid)

lemma pdu_decode_wire:
  assumes "pdu_wf p" "command_id h = pdu_command_id p"
  shows "pdu_decode h (pdu_wire p) = Ok p"
  using assms
  by (cases p) (simp_all add: pdu_decode_def Let_def command_defs require_body_len_def
      connect_body.decode_wire connect_resp_body.decode_wire submit_body.decode_wire
      submit_resp_body.decode_wire deliver_body.decode_wire deliver_resp_body.decode_wire)

lemma pdu_decode_not_Panic: "pdu_decode h body \<noteq> Panic"
  by (simp add: pdu_decode_def Let_def require_body_len_def connect_body.decode_total
      connect_resp_body.decode_total submit_body.decode_total submit_resp_body.decode_total
      deliver_body.decode_total deliver_resp_body.decode_total)

lemma pdu_wire_length:
  assumes "pdu_validate_encode p = Ok ()" "pdu_arrays p"
  shows "length (pdu_wire p) = pdu_body_len_hint p" "length (pdu_wire p) \<le> 5736"
proof -
  have "length (pdu_wire p) = pdu_body_len_hint p \<and> length (pdu_wire p) \<le> 5736"
  proof (cases p)
    case (Pdu_Submit s)
    then have "length (sm_dest_terminal_ids s) \<le> 255" "length (sm_msg_content s) \<le> 255"
      using assms by (simp_all add: submit_validate_iff)
    then show ?thesis using Pdu_Submit assms
      by (simp add: submit_wire_def submit_body_len_hint_def usize_saturating_add_def
          usize_saturating_mul_def usize_max_def)
  next
    case (Pdu_Deliver d)
    then have "length (dl_msg_content d) \<le> 255"
      using assms by (simp add: deliver_validate_iff)
    then show ?thesis using Pdu_Deliver assms
      by (simp add: deliver_wire_def deliver_body_len_hint_def usize_saturating_add_def usize_max_def)
  qed (use assms in \<open>simp_all add: connect_wire_def connect_resp_wire_def submit_resp_wire_def
      deliver_resp_wire_def\<close>)
  then show "length (pdu_wire p) = pdu_body_len_hint p" "length (pdu_wire p) \<le> 5736" by simp_all
qed

lemma pdu_wf_arrays: "pdu_wf p \<Longrightarrow> pdu_arrays p"
  by (cases p) (simp_all add: connect_wf_def connect_resp_wf_def submit_wf_def submit_resp_wf_def
      deliver_wf_def deliver_resp_wf_def)

section \<open>Properties\<close>

lemma frame_bytes_header:
  "take 4 (frame_bytes c s body) = u32_to_be_bytes (of_nat (12 + length body))"
  "take 4 (drop 4 (frame_bytes c s body)) = u32_to_be_bytes c"
  "take 4 (drop 8 (frame_bytes c s body)) = u32_to_be_bytes s"
  by (simp_all add: frame_bytes_def)

text \<open>
  An encoded PDU is as long as the capacity hint promises and its header states that length,
  its command and its sequence number; the largest PDU is far below the frame limit, so that the
  length field cannot wrap.
\<close>

lemma encoded_pdu_header:
  assumes "pdu_arrays p" and "pdu_try_encode p seq = Ok out"
  shows "length out = 12 + pdu_body_len_hint p \<and> length out \<le> 5748 \<and>
    take 4 out = u32_to_be_bytes (of_nat (length out)) \<and>
    take 4 (drop 4 out) = u32_to_be_bytes (pdu_command_id p) \<and>
    take 4 (drop 8 out) = u32_to_be_bytes seq"
proof -
  have v: "pdu_validate_encode p = Ok ()" and out: "out = frame_bytes (pdu_command_id p) seq (pdu_wire p)"
    using assms(2) by (auto simp: pdu_try_encode_cases split: res.splits)
  show ?thesis
    unfolding out using pdu_wire_length [OF v assms(1)] by (simp add: frame_bytes_header)
qed

lemma encoded_pdu_header_sample:
  "length [0,0,0,13,128,0,0,8,0,0,0,2,0 :: u8] = 12 + pdu_body_len_hint Pdu_ActiveTestResp \<and>
   length [0,0,0,13,128,0,0,8,0,0,0,2,0 :: u8] \<le> 5748 \<and>
   take 4 [0,0,0,13,128,0,0,8,0,0,0,2,0] =
     u32_to_be_bytes (of_nat (length [0,0,0,13,128,0,0,8,0,0,0,2,0 :: u8])) \<and>
   take 4 (drop 4 [0,0,0,13,128,0,0,8,0,0,0,2,0]) = u32_to_be_bytes (pdu_command_id Pdu_ActiveTestResp) \<and>
   take 4 (drop 8 [0,0,0,13,128,0,0,8,0,0,0,2,0]) = u32_to_be_bytes 2"
  by (rule encoded_pdu_header)
    (simp_all add: pdu_try_encode_def pdu_encode_into_unchecked_def encode_frame_into_def
      u32_to_be_bytes_def command_defs)

text \<open>The PDUs whose count and length fields fit one byte.\<close>

fun pdu_encodable :: "pdu \<Rightarrow> bool" where
  "pdu_encodable (Pdu_Submit s) \<longleftrightarrow>
     length (sm_dest_terminal_ids s) \<le> 255 \<and> length (sm_msg_content s) \<le> 255"
| "pdu_encodable (Pdu_Deliver d) \<longleftrightarrow> length (dl_msg_content d) \<le> 255"
| "pdu_encodable _ \<longleftrightarrow> True"

text \<open>
  C39: encoding succeeds exactly when the one-byte count and length fields can hold the number of
  recipients and the content length; otherwise it returns a configuration error and never panics.
\<close>

theorem pdu_try_encode_total:
  "if pdu_encodable p then \<exists>out. pdu_try_encode p seq = Ok out
   else \<exists>e. pdu_try_encode p seq = Err (Error_Config e)"
  by (cases p) (auto simp: pdu_try_encode_cases submit_validate_encode_def deliver_validate_encode_def)

text \<open>The type of the text fields: sequences of Unicode scalar values.\<close>

fun pdu_texts :: "pdu \<Rightarrow> rstr list" where
  "pdu_texts (Pdu_Connect c) = [cn_source_addr c]"
| "pdu_texts (Pdu_Submit s) =
     [sm_service_id s, sm_fee_terminal_id s, sm_msg_src s, sm_fee_type s, sm_fee_code s, sm_valid_time s,
      sm_at_time s, sm_src_id s] @ sm_dest_terminal_ids s"
| "pdu_texts (Pdu_Deliver d) = [dl_dest_id d, dl_service_id d, dl_src_terminal_id d]"
| "pdu_texts _ = []"

lemmas body_decode_size =
  connect_body.decode_size connect_resp_body.decode_size submit_body.decode_size
  submit_resp_body.decode_size deliver_body.decode_size deliver_resp_body.decode_size

lemmas body_shape_defs =
  connect_shape_def connect_resp_shape_def connect_resp_wf_def submit_shape_def submit_size_def
  submit_resp_shape_def submit_resp_wf_def deliver_shape_def deliver_resp_shape_def deliver_resp_wf_def

lemma pdu_decode_shape:
  assumes "pdu_decode h body = Ok p"
  shows "pdu_arrays p \<and> list_all valid_str (pdu_texts p) \<and> pdu_command_id p = command_id h \<and>
    pdu_validate_encode p = Ok () \<and> length body = length (pdu_wire p)"
  using assms
  by (auto simp: pdu_decode_def Let_def map_ok_Ok_iff res_bind_Ok_iff require_body_len_def
      body_shape_defs submit_validate_iff deliver_validate_iff connect_wire_def connect_resp_wire_def
      submit_wire_def submit_resp_wire_def deliver_wire_def deliver_resp_wire_def
      dest!: body_decode_size split: if_splits)

text \<open>
  C38: whatever the bytes are, a decoded PDU is well typed: its array fields have their lengths, its text
  fields are proper strings, its command is that of the header, and the body was exactly as long as the
  PDU says, without a missing or a trailing byte; so it can be encoded again, at the same length.
\<close>

theorem decoded_pdu_typed:
  assumes "pdu_decode h body = Ok p"
  shows "pdu_arrays p \<and> list_all valid_str (pdu_texts p) \<and> pdu_command_id p = command_id h \<and>
    length body = pdu_body_len_hint p \<and>
    (\<exists>out. pdu_try_encode p seq = Ok out \<and> length out = 12 + length body)"
  using pdu_decode_shape[OF assms] pdu_wire_length(1)[of p] by (simp add: pdu_try_encode_cases)

theorem decoded_pdu_typed_witness:
  "\<exists>p. pdu_decode \<lparr>total_length = 30, command_id = CMPP_CONNECT_RESP, sequence_id = 1\<rparr> (replicate 18 0) = Ok p \<and>
     pdu_command_id p = CMPP_CONNECT_RESP \<and> pdu_body_len_hint p = 18 \<and> pdu_arrays p"
proof -
  let ?p = "Pdu_ConnectResp \<lparr>cr_status = 0, cr_authenticator_ismg = replicate 16 0, cr_version = 0\<rparr>"
  let ?h = "\<lparr>total_length = 30, command_id = CMPP_CONNECT_RESP, sequence_id = 1\<rparr>"
  have "pdu_decode ?h (pdu_wire ?p) = Ok ?p" by (rule pdu_decode_wire) (simp_all add: connect_resp_wf_def)
  then have d: "pdu_decode ?h (replicate 18 0) = Ok ?p" by (simp add: connect_resp_wire_def numeral_eq_Suc)
  then show ?thesis using decoded_pdu_typed[OF d] by auto
qed

end
