(* ===== verification/Cmpp_Codec.thy ===== *)
theory Cmpp_Codec
  imports Cmpp_Frame
begin

text \<open>
  The stream codec of \<open>src/codec.rs\<close>. The locale \<open>framing\<close> is the contract between a frame decoder
  and the reader loop of \<open>src/connection.rs\<close>, which appends whatever the socket delivers to a
  buffer and drains the complete frames: how the stream is cut into reads does not matter.
\<close>

section \<open>Decoder and encoder\<close>

definition codec_decode :: "bytes \<Rightarrow> (frame option) result \<times> bytes" where
  "codec_decode src =
     (if length src < CMPP_HEADER_LENGTH then (Ok None, src)
      else
        let total_length =
              unat (u32_from_be_bytes (src ! 0) (src ! 1) (src ! 2) (src ! 3))
        in if \<not> (CMPP_HEADER_LENGTH \<le> total_length \<and> total_length \<le> CMPP_MAX_MESSAGE_LENGTH)
           then (Err (Error_Decode (Frame_length total_length)), src)
           else if length src < total_length then (Ok None, src)
           else
             let header = \<lparr>total_length = of_nat total_length,
                   command_id = u32_from_be_bytes (src ! 4) (src ! 5) (src ! 6) (src ! 7),
                   sequence_id = u32_from_be_bytes (src ! 8) (src ! 9) (src ! 10) (src ! 11)\<rparr>;
                 raw = take total_length src;
                 src' = drop total_length src
             in (res_bind (slice_get raw CMPP_HEADER_LENGTH (length raw)) (\<lambda>body.
                   map_ok (\<lambda>p. Some (frame_new (sequence_id header) p)) (pdu_decode header body)),
                 src'))"

definition codec_encode :: "frame \<Rightarrow> bytes \<Rightarrow> bytes result" where
  "codec_encode item dst = frame_try_encode_into item dst"

section \<open>Draining a buffer\<close>

text \<open>
  The inner loop of \<open>reader_task\<close>: decode frames until the decoder asks for more data or fails.
  Every frame consumes input, so the fuel \<open>Suc (length buf)\<close> is enough (\<open>drain_step\<close> below).
\<close>

fun drain_fuel :: "nat \<Rightarrow> (bytes \<Rightarrow> ('e, 'f option) res \<times> bytes) \<Rightarrow> bytes \<Rightarrow>
    'f list \<times> ('e, unit) res \<times> bytes" where
  "drain_fuel 0 dec buf = ([], Ok (), buf)"
| "drain_fuel (Suc n) dec buf =
     (case dec buf of
        (Ok None, buf') \<Rightarrow> ([], Ok (), buf')
      | (Ok (Some f), buf') \<Rightarrow> (case drain_fuel n dec buf' of (fs, e, b) \<Rightarrow> (f # fs, e, b))
      | (Err e, buf') \<Rightarrow> ([], Err e, buf')
      | (Panic, buf') \<Rightarrow> ([], Panic, buf'))"

definition drain :: "(bytes \<Rightarrow> ('e, 'f option) res \<times> bytes) \<Rightarrow> bytes \<Rightarrow>
    'f list \<times> ('e, unit) res \<times> bytes" where
  "drain dec buf = drain_fuel (Suc (length buf)) dec buf"

text \<open>One read after another, each followed by a drain; an error ends the loop.\<close>

fun feed :: "(bytes \<Rightarrow> ('e, 'f option) res \<times> bytes) \<Rightarrow> bytes \<Rightarrow> bytes list \<Rightarrow>
    'f list \<times> ('e, unit) res" where
  "feed dec buf [] = ([], Ok ())"
| "feed dec buf (chunk # reads) =
     (case drain dec (buf @ chunk) of
        (fs, Ok _, buf') \<Rightarrow> (case feed dec buf' reads of (gs, e) \<Rightarrow> (fs @ gs, e))
      | (fs, e, buf') \<Rightarrow> (fs, e))"

locale framing =
  fixes dec :: "bytes \<Rightarrow> ('e, 'f option) res \<times> bytes"
  assumes dec_wait: "dec buf = (Ok None, buf') \<Longrightarrow> buf' = buf"
    and dec_frame: "dec buf = (Ok (Some f), buf') \<Longrightarrow>
      length buf' < length buf \<and> dec (buf @ ext) = (Ok (Some f), buf' @ ext)"
    and dec_error: "dec buf = (Err e, buf') \<Longrightarrow> \<exists>b. dec (buf @ ext) = (Err e, b)"
    and dec_total: "fst (dec buf) \<noteq> Panic"
begin

lemma drain_fuel_enough:
  "length buf < n \<Longrightarrow> length buf < m \<Longrightarrow> drain_fuel n dec buf = drain_fuel m dec buf"
proof (induction n arbitrary: m buf)
  case 0
  then show ?case by simp
next
  case (Suc n)
  obtain k where m: "m = Suc k" using Suc.prems(2) by (cases m) auto
  show ?case
  proof (cases "\<exists>f buf'. dec buf = (Ok (Some f), buf')")
    case True
    then obtain f buf' where d: "dec buf = (Ok (Some f), buf')" by blast
    have "length buf' < length buf" using dec_frame [OF d] by blast
    then have "drain_fuel n dec buf' = drain_fuel k dec buf'"
      using Suc.prems m by (intro Suc.IH) simp_all
    then show ?thesis using d m by simp
  next
    case False
    then show ?thesis using m
      by (auto split: res.split option.split prod.split)
  qed
qed

lemma drain_step:
  "drain dec buf =
     (case dec buf of
        (Ok None, buf') \<Rightarrow> ([], Ok (), buf')
      | (Ok (Some f), buf') \<Rightarrow> (case drain dec buf' of (fs, e, b) \<Rightarrow> (f # fs, e, b))
      | (Err e, buf') \<Rightarrow> ([], Err e, buf')
      | (Panic, buf') \<Rightarrow> ([], Panic, buf'))"
proof (cases "\<exists>f buf'. dec buf = (Ok (Some f), buf')")
  case True
  then obtain f buf' where d: "dec buf = (Ok (Some f), buf')" by blast
  have "length buf' < length buf" using dec_frame [OF d] by blast
  then have "drain_fuel (length buf) dec buf' = drain dec buf'"
    unfolding drain_def by (intro drain_fuel_enough) simp_all
  then show ?thesis using d by (simp add: drain_def)
next
  case False
  then show ?thesis by (auto simp: drain_def split: res.split option.split prod.split)
qed

lemma drain_wait: "dec buf = (Ok None, b) \<Longrightarrow> drain dec buf = ([], Ok (), buf)"
  using dec_wait [of buf b] by (simp add: drain_step)

lemma drain_frame:
  "dec buf = (Ok (Some f), b) \<Longrightarrow>
   drain dec buf = (case drain dec b of (fs, e, c) \<Rightarrow> (f # fs, e, c))"
  by (subst drain_step) simp

lemma drain_error: "dec buf = (Err e, b) \<Longrightarrow> drain dec buf = ([], Err e, b)"
  by (subst drain_step) simp

lemma dec_cases:
  obtains (wait) "dec buf = (Ok None, buf)"
    | (frame) f b where "dec buf = (Ok (Some f), b)"
    | (error) e b where "dec buf = (Err e, b)"
proof (cases "dec buf")
  case (Pair r b)
  show ?thesis
  proof (cases r)
    case (Ok x)
    then show ?thesis using Pair dec_wait that(1,2) by (cases x) auto
  next
    case (Err e)
    then show ?thesis using Pair that(3) by simp
  next
    case Panic
    then show ?thesis using Pair dec_total [of buf] by simp
  qed
qed

lemma drain_append:
  assumes "drain dec buf = (fs, r, b)"
  shows "(r = Ok () \<longrightarrow> drain dec (buf @ ext) =
      (case drain dec (b @ ext) of (gs, e, c) \<Rightarrow> (fs @ gs, e, c))) \<and>
    (\<forall>e. r = Err e \<longrightarrow> (\<exists>c. drain dec (buf @ ext) = (fs, Err e, c))) \<and> r \<noteq> Panic"
  using assms
proof (induction "length buf" arbitrary: buf fs rule: less_induct)
  case less
  show ?case
  proof (cases buf rule: dec_cases)
    case wait
    then show ?thesis using less.prems by (auto simp: drain_wait split: prod.split)
  next
    case (frame f b1)
    note d = dec_frame [OF frame, of ext]
    obtain gs where g: "drain dec b1 = (gs, r, b)" "fs = f # gs"
      using less.prems by (auto simp: drain_frame [OF frame] split: prod.splits)
    note IH = less.hyps [OF conjunct1 [OF d] g(1)]
    have "drain dec (buf @ ext) = (case drain dec (b1 @ ext) of (fs, e, c) \<Rightarrow> (f # fs, e, c))"
      using d by (intro drain_frame) blast
    then show ?thesis using IH g(2) by (auto split: prod.splits)
  next
    case (error e b1)
    then obtain c where "dec (buf @ ext) = (Err e, c)" using dec_error by blast
    then show ?thesis using less.prems error by (auto simp: drain_error)
  qed
qed

lemma drain_residue:
  "drain dec buf = (fs, Ok u, b) \<Longrightarrow> drain dec b = ([], Ok (), b)"
proof (induction "length buf" arbitrary: buf fs rule: less_induct)
  case less
  show ?case
  proof (cases buf rule: dec_cases)
    case wait
    then show ?thesis using less.prems by (auto simp: drain_wait)
  next
    case (frame f b1)
    obtain gs where g: "drain dec b1 = (gs, Ok u, b)"
      using less.prems by (auto simp: drain_frame [OF frame] split: prod.splits)
    show ?thesis by (rule less.hyps [OF _ g]) (use dec_frame [OF frame] in blast)
  next
    case (error e b1)
    then show ?thesis using less.prems by (simp add: drain_error)
  qed
qed

text \<open>The frames and the outcome depend on the stream, not on how it was cut into reads.\<close>

lemma feed_concat:
  assumes "drain dec buf = ([], Ok (), buf)"
  shows "feed dec buf reads =
    (case drain dec (buf @ concat reads) of (fs, e, _) \<Rightarrow> (fs, e))"
  using assms
proof (induction reads arbitrary: buf)
  case Nil
  then show ?case by simp
next
  case (Cons c cs)
  obtain fs r b where d: "drain dec (buf @ c) = (fs, r, b)" by (cases "drain dec (buf @ c)")
  note a = drain_append [OF d, of "concat cs"]
  show ?case
  proof (cases r)
    case (Ok u)
    have "feed dec b cs = (case drain dec (b @ concat cs) of (fs, e, _) \<Rightarrow> (fs, e))"
      by (rule Cons.IH [OF drain_residue [OF d [unfolded Ok]]])
    then show ?thesis using a d Ok by (auto split: prod.splits)
  next
    case (Err e)
    then show ?thesis using a d by auto
  qed (use a in simp)
qed

end

section \<open>The codec meets the contract\<close>

lemma nth_be_append:
  "12 \<le> length src \<Longrightarrow> i < 12 \<Longrightarrow> (src @ ext) ! i = src ! i"
  by (simp add: nth_append)

lemma codec_decode_not_Panic: "fst (codec_decode src) \<noteq> Panic"
  by (auto simp: codec_decode_def Let_def framing_defs pdu_decode_not_Panic res_bind_Panic_iff
      slice_get_def)

lemma codec_decode_append:
  assumes "codec_decode src = (r, src')" "r \<noteq> Ok None"
  shows "\<exists>b. codec_decode (src @ ext) = (r, b) \<and> (\<forall>f. r = Ok (Some f) \<longrightarrow> b = src' @ ext)"
proof -
  have "12 \<le> length src"
    using assms by (auto simp: codec_decode_def framing_defs split: if_splits)
  then show ?thesis using assms
    by (auto simp: codec_decode_def Let_def framing_defs nth_be_append split: if_splits)
qed

lemma codec_decode_consumes:
  "codec_decode src = (Ok (Some f), src') \<Longrightarrow> length src' < length src"
  by (auto simp: codec_decode_def Let_def framing_defs split: if_splits)

lemma codec_decode_waits: "codec_decode src = (Ok None, src') \<Longrightarrow> src' = src"
  by (auto simp: codec_decode_def Let_def res_bind_Ok_iff map_ok_Ok_iff split: if_splits)

interpretation codec: framing codec_decode
proof unfold_locales
  fix buf buf' ext :: bytes and f e
  show "codec_decode buf = (Ok None, buf') \<Longrightarrow> buf' = buf" by (rule codec_decode_waits)
  show "codec_decode buf = (Ok (Some f), buf') \<Longrightarrow>
      length buf' < length buf \<and> codec_decode (buf @ ext) = (Ok (Some f), buf' @ ext)"
    using codec_decode_append [of buf "Ok (Some f)" buf' ext] codec_decode_consumes by auto
  show "codec_decode buf = (Err e, buf') \<Longrightarrow> \<exists>b. codec_decode (buf @ ext) = (Err e, b)"
    using codec_decode_append [of buf "Err e" buf' ext] by auto
  show "fst (codec_decode buf) \<noteq> Panic" by (rule codec_decode_not_Panic)
qed

section \<open>Round trip\<close>

lemma be_head:
  "u32_from_be_bytes ((u32_to_be_bytes w @ xs) ! 0) ((u32_to_be_bytes w @ xs) ! 1)
     ((u32_to_be_bytes w @ xs) ! 2) ((u32_to_be_bytes w @ xs) ! 3) = w"
  by (simp add: u32_to_be_bytes_def u32_from_to_be)

lemma codec_decode_frame_bytes:
  assumes "length body \<le> 65524"
  shows "codec_decode (frame_bytes c s body @ rest) =
    (map_ok (\<lambda>p. Some (frame_new s p))
       (pdu_decode \<lparr>total_length = of_nat (12 + length body), command_id = c, sequence_id = s\<rparr> body),
     rest)"
proof -
  have u: "unat (of_nat (12 + length body) :: u32) = 12 + length body"
    using assms by (simp add: unat_of_nat take_bit_nat_eq_self del: of_nat_add)
  have t: "u32_from_be_bytes ((frame_bytes c s body @ rest) ! 0) ((frame_bytes c s body @ rest) ! 1)
      ((frame_bytes c s body @ rest) ! 2) ((frame_bytes c s body @ rest) ! 3) = of_nat (12 + length body)"
    "u32_from_be_bytes ((frame_bytes c s body @ rest) ! 4) ((frame_bytes c s body @ rest) ! 5)
      ((frame_bytes c s body @ rest) ! 6) ((frame_bytes c s body @ rest) ! 7) = c"
    "u32_from_be_bytes ((frame_bytes c s body @ rest) ! 8) ((frame_bytes c s body @ rest) ! 9)
      ((frame_bytes c s body @ rest) ! 10) ((frame_bytes c s body @ rest) ! 11) = s"
    by (simp_all add: frame_bytes_def u32_to_be_bytes_def u32_from_to_be del: of_nat_add)
  show ?thesis
    unfolding codec_decode_def Let_def t u
    using assms by (simp add: framing_defs del: of_nat_add)
qed

lemma codec_roundtrip:
  assumes "pdu_wf p"
  shows "codec_encode (frame_new s p) dst = Ok (dst @ frame_bytes (pdu_command_id p) s (pdu_wire p))"
    and "codec_decode (frame_bytes (pdu_command_id p) s (pdu_wire p) @ rest) =
      (Ok (Some (frame_new s p)), rest)"
proof -
  show "codec_encode (frame_new s p) dst = Ok (dst @ frame_bytes (pdu_command_id p) s (pdu_wire p))"
    using pdu_wf_valid [OF assms]
    by (simp add: codec_encode_def frame_try_encode_into_def pdu_try_encode_into_def frame_new_def
        pdu_encode_wire)
  have "length (pdu_wire p) \<le> 65524"
    using pdu_wire_length(2) [OF pdu_wf_valid [OF assms] pdu_wf_arrays [OF assms]] by simp
  then show "codec_decode (frame_bytes (pdu_command_id p) s (pdu_wire p) @ rest) =
      (Ok (Some (frame_new s p)), rest)"
    by (simp add: codec_decode_frame_bytes pdu_decode_wire assms)
qed

section \<open>Properties\<close>

text \<open>
  C1: a frame whose fields fit the wire format survives the codec. Encoding appends one frame to
  the output buffer; decoding it from the front of an input buffer returns the same frame and leaves
  the bytes that follow it.
\<close>

theorem codec_frame_roundtrip:
  assumes "pdu_wf p"
  shows "\<exists>wire. codec_encode (frame_new seq p) dst = Ok (dst @ wire) \<and>
    codec_decode (wire @ rest) = (Ok (Some (frame_new seq p)), rest)"
  using codec_roundtrip [OF assms] by blast

theorem codec_frame_roundtrip_witness:
  "\<exists>wire. codec_encode (frame_new 7 (Pdu_SubmitResp \<lparr>sr_msg_id = [1,2,3,4,5,6,7,8], sr_result = 0\<rparr>)) [9] =
      Ok ([9] @ wire) \<and>
    codec_decode (wire @ [1, 2]) =
      (Ok (Some (frame_new 7 (Pdu_SubmitResp \<lparr>sr_msg_id = [1,2,3,4,5,6,7,8], sr_result = 0\<rparr>))), [1, 2])"
  by (rule codec_frame_roundtrip) (simp add: submit_resp_wf_def)

lemma frame_new_fields [simp]: "frame_new (fr_sequence_id f) (fr_pdu f) = f"
  by (simp add: frame_new_def)

lemma drain_frames:
  assumes "\<forall>f \<in> set fs. pdu_wf (fr_pdu f)"
  shows "drain codec_decode
     (concat (map (\<lambda>f. frame_bytes (pdu_command_id (fr_pdu f)) (fr_sequence_id f) (pdu_wire (fr_pdu f))) fs)) =
   (fs, Ok (), [])"
  using assms
proof (induction fs)
  case Nil
  have "codec_decode [] = (Ok None, [])" by (simp add: codec_decode_def CMPP_HEADER_LENGTH_def)
  then show ?case by (simp add: codec.drain_wait)
next
  case (Cons f fs)
  then have "pdu_wf (fr_pdu f)" by simp
  from codec_roundtrip(2) [OF this] Cons show ?case
    by (simp add: codec.drain_frame)
qed

lemma fold_encode_frames:
  assumes "\<forall>f \<in> set fs. pdu_wf (fr_pdu f)"
  shows "fold (\<lambda>f out. res_bind out (codec_encode f)) fs (Ok buf) =
     Ok (buf @ concat (map (\<lambda>f. frame_bytes (pdu_command_id (fr_pdu f)) (fr_sequence_id f)
        (pdu_wire (fr_pdu f))) fs))"
  using assms
proof (induction fs arbitrary: buf)
  case Nil
  then show ?case by simp
next
  case (Cons f fs)
  then have "pdu_wf (fr_pdu f)" by simp
  from codec_roundtrip(1) [OF this, of "fr_sequence_id f"] Cons show ?case by simp
qed

text \<open>
  C2: however the transport cuts the byte stream into reads, the reader decodes exactly the frames
  the peer encoded, in order, without an error, when their fields fit the wire format.
\<close>

theorem stream_delivers_frames:
  assumes "\<forall>f \<in> set fs. pdu_wf (fr_pdu f)"
    and "fold (\<lambda>f out. res_bind out (codec_encode f)) fs (Ok []) = Ok (concat reads)"
  shows "feed codec_decode [] reads = (fs, Ok ())"
proof -
  have "codec_decode [] = (Ok None, [])" by (simp add: codec_decode_def CMPP_HEADER_LENGTH_def)
  then have "feed codec_decode [] reads = (case drain codec_decode (concat reads) of (fs, e, _) \<Rightarrow> (fs, e))"
    using codec.feed_concat [of "[]" reads] codec.drain_wait by simp
  then show ?thesis
    using drain_frames [OF assms(1)] fold_encode_frames [OF assms(1), of "[]"] assms(2) by simp
qed

theorem stream_delivers_frames_witness:
  "feed codec_decode [] [[0,0,0], [12,0,0,0,8,0,0,0,1,0,0], [0,13,128,0,0,8,0,0,0,2,0]] =
    ([frame_new 1 Pdu_ActiveTest, frame_new 2 Pdu_ActiveTestResp], Ok ())"
  by (rule stream_delivers_frames)
    (simp_all add: frame_new_def codec_encode_def frame_try_encode_into_def pdu_try_encode_into_def
      pdu_encode_into_unchecked_def encode_frame_into_def u32_to_be_bytes_def command_defs)

text \<open>
  C3: the decoder is total on arbitrary input and takes exactly the message that the length field of the
  header announces. It never panics; it waits, and leaves the buffer alone, exactly while the header or
  the announced message is incomplete and the announced length is admissible; and a decoded frame takes as
  many bytes as its length field says, between 12 and 65536, and has the sequence id of its header.
\<close>

theorem codec_decode_safe:
  assumes "codec_decode src = (r, src')"
  shows "let n = unat (u32_from_be_bytes (src ! 0) (src ! 1) (src ! 2) (src ! 3)) in
    r \<noteq> Panic \<and> (\<exists>k \<le> length src. src' = drop k src) \<and>
    (r = Ok None \<longleftrightarrow> length src < 12 \<or> 12 \<le> n \<and> n \<le> 65536 \<and> length src < n) \<and>
    (r = Ok None \<longrightarrow> src' = src) \<and>
    (\<forall>f. r = Ok (Some f) \<longrightarrow> 12 \<le> n \<and> n \<le> 65536 \<and> n \<le> length src \<and> src' = drop n src \<and>
       fr_sequence_id f = u32_from_be_bytes (src ! 8) (src ! 9) (src ! 10) (src ! 11))"
proof -
  let ?n = "unat (u32_from_be_bytes (src ! 0) (src ! 1) (src ! 2) (src ! 3))"
  have "\<exists>k \<le> length src. snd (codec_decode src) = drop k src"
    unfolding codec_decode_def Let_def framing_defs by (auto intro: exI [of _ 0] exI [of _ ?n])
  moreover have "fst (codec_decode src) = Ok None \<longleftrightarrow> length src < 12 \<or> 12 \<le> ?n \<and> ?n \<le> 65536 \<and> length src < ?n"
    unfolding codec_decode_def Let_def framing_defs by (auto simp: res_bind_Ok_iff map_ok_Ok_iff not_less)
  moreover have "12 \<le> ?n \<and> ?n \<le> 65536 \<and> ?n \<le> length src \<and> snd (codec_decode src) = drop ?n src \<and>
      fr_sequence_id f = u32_from_be_bytes (src ! 8) (src ! 9) (src ! 10) (src ! 11)"
    if "fst (codec_decode src) = Ok (Some f)" for f
    using that unfolding codec_decode_def Let_def framing_defs
    by (auto simp: res_bind_Ok_iff map_ok_Ok_iff not_less frame_new_def split: if_splits)
  ultimately show ?thesis using assms codec_decode_not_Panic [of src] codec_decode_waits[of src] by (auto simp: Let_def)
qed

theorem codec_decode_safe_witness:
  "let src = [0, 0, 0, 12, 0, 0, 0, 8, 0, 0, 0, 7, 1, 2] :: bytes in
     codec_decode src = (Ok (Some (frame_new 7 Pdu_ActiveTest)), [1, 2]) \<and>
     unat (u32_from_be_bytes 0 0 0 12) \<le> 14 \<and> [1, 2] = drop (unat (u32_from_be_bytes 0 0 0 12)) src"
proof -
  let ?src = "[0, 0, 0, 12, 0, 0, 0, 8, 0, 0, 0, 7, 1, 2] :: bytes"
  have f: "?src = frame_bytes (pdu_command_id Pdu_ActiveTest) 7 (pdu_wire Pdu_ActiveTest) @ [1, 2]"
    by (simp add: frame_bytes_def u32_to_be_bytes_def command_defs)
  have d: "codec_decode ?src = (Ok (Some (frame_new 7 Pdu_ActiveTest)), [1, 2])"
    unfolding f by (rule codec_roundtrip(2)) simp
  then show ?thesis using codec_decode_safe[OF d] d by (simp add: Let_def)
qed

end
