(* ===== verification/Cmpp_Auth.thy ===== *)
theory Cmpp_Auth
  imports Cmpp_Frame
begin

text \<open>
  The remaining operations of \<open>src/pdu.rs\<close>: the login authenticators and the CONNECT built from the
  clock, the status report inside a DELIVER, and the hexadecimal message id. MD5 is the parameter
  \<open>md5\<close>; the hasher's \<open>update\<close> calls concatenate. The clock (crate \<open>chrono\<close>) is the record of the
  calendar fields the code reads.
\<close>

section \<open>Authenticators\<close>

text \<open>\<open>format!("{:010}", n)\<close>.\<close>

fun dec_digits :: "nat \<Rightarrow> nat list" where
  "dec_digits n = (if n < 10 then [n] else dec_digits (n div 10) @ [n mod 10])"

declare dec_digits.simps [simp del]

definition fmt_zero_padded :: "nat \<Rightarrow> nat \<Rightarrow> nat list" where
  "fmt_zero_padded width n =
     (let ds = dec_digits n in map (\<lambda>d. 48 + d) (replicate (width - length ds) 0 @ ds))"

definition copy_16 :: "bytes \<Rightarrow> bytes result" where
  "copy_16 digest = (if length digest = 16 then Ok digest else Panic)"

definition compute_authenticator_source ::
    "(bytes \<Rightarrow> bytes) \<Rightarrow> rstr \<Rightarrow> rstr \<Rightarrow> u32 \<Rightarrow> bytes result" where
  "compute_authenticator_source md5 source_addr shared_secret timestamp =
     copy_16 (md5 (as_bytes source_addr @ replicate 9 0 @ as_bytes shared_secret @
       as_bytes (fmt_zero_padded 10 (unat timestamp))))"

definition compute_authenticator_ismg ::
    "(bytes \<Rightarrow> bytes) \<Rightarrow> u8 \<Rightarrow> bytes \<Rightarrow> rstr \<Rightarrow> bytes result" where
  "compute_authenticator_ismg md5 status authenticator_source shared_secret =
     copy_16 (md5 ([status] @ authenticator_source @ as_bytes shared_secret))"

record utc_now =
  now_month :: u32
  now_day :: u32
  now_hour :: u32
  now_minute :: u32
  now_second :: u32

definition connect_timestamp :: "utc_now \<Rightarrow> u32" where
  "connect_timestamp now =
     now_month now * 100000000 + now_day now * 1000000 + now_hour now * 10000 +
     now_minute now * 100 + now_second now"

definition connect_new ::
    "(bytes \<Rightarrow> bytes) \<Rightarrow> utc_now \<Rightarrow> rstr \<Rightarrow> rstr \<Rightarrow> u8 \<Rightarrow> connect result" where
  "connect_new md5 now source_addr shared_secret version =
     (let timestamp = connect_timestamp now in
      res_bind (compute_authenticator_source md5 source_addr shared_secret timestamp)
        (\<lambda>authenticator_source.
          Ok \<lparr>cn_source_addr = source_addr, cn_authenticator_source = authenticator_source,
              cn_version = version, cn_timestamp = timestamp\<rparr>))"

definition calendar :: "utc_now \<Rightarrow> bool" where
  "calendar now \<longleftrightarrow> 1 \<le> unat (now_month now) \<and> unat (now_month now) \<le> 12 \<and>
     1 \<le> unat (now_day now) \<and> unat (now_day now) \<le> 31 \<and> unat (now_hour now) \<le> 23 \<and>
     unat (now_minute now) \<le> 59 \<and> unat (now_second now) \<le> 59"

text \<open>Two decimal digits, as ASCII.\<close>

definition two_digits :: "nat \<Rightarrow> nat list" where
  "two_digits n = [48 + n div 10, 48 + n mod 10]"

lemma length_dec_digits: "n < 10 ^ k \<Longrightarrow> 0 < k \<Longrightarrow> length (dec_digits n) \<le> k"
proof (induction n arbitrary: k rule: dec_digits.induct)
  case (1 n)
  show ?case
  proof (cases "n < 10")
    case True
    then show ?thesis using 1 by (simp add: dec_digits.simps [of n])
  next
    case False
    obtain j where j: "k = Suc j" "0 < j"
      using 1 False by (cases k; cases "k - 1") auto
    have "n div 10 < 10 ^ j" using "1.prems"(1) j by (simp add: less_mult_imp_div_less mult.commute)
    then show ?thesis using 1 False j by (simp add: dec_digits.simps [of n])
  qed
qed

lemma fmt_zero_padded_step:
  assumes "n < 10 ^ Suc k" "0 < k"
  shows "fmt_zero_padded (Suc k) n = fmt_zero_padded k (n div 10) @ [48 + n mod 10]"
proof (cases "n < 10")
  case True
  obtain j where "k = Suc j" using assms(2) by (cases k) auto
  then show ?thesis
    using True by (simp add: fmt_zero_padded_def dec_digits.simps [of n]
        dec_digits.simps [of 0] replicate_app_Cons_same)
next
  case False
  have "n div 10 < 10 ^ k" using assms(1) by (simp add: less_mult_imp_div_less mult.commute)
  then have "length (dec_digits (n div 10)) \<le> k" using length_dec_digits assms(2) by blast
  then show ?thesis
    using False by (simp add: fmt_zero_padded_def dec_digits.simps [of n] Let_def Suc_diff_le)
qed

lemma fmt_zero_padded_pair:
  assumes "n < 10 ^ Suc (Suc k)" "0 < k"
  shows "fmt_zero_padded (Suc (Suc k)) n = fmt_zero_padded k (n div 100) @ two_digits (n mod 100)"
proof -
  have d: "n div 10 < 10 ^ Suc k" using assms(1) by (simp add: less_mult_imp_div_less mult.commute)
  have e: "n div 10 div 10 = n div 100" by (simp flip: div_mult2_eq)
  have m: "n div 10 mod 10 = n mod 100 div 10" "n mod 10 = n mod 100 mod 10"
    by (simp_all add: mod_mult2_eq [of n 10 10, simplified])
  have "fmt_zero_padded (Suc (Suc k)) n = fmt_zero_padded (Suc k) (n div 10) @ [48 + n mod 10]"
    using assms(1) by (rule fmt_zero_padded_step) simp
  also have "fmt_zero_padded (Suc k) (n div 10) =
      fmt_zero_padded k (n div 100) @ [48 + n mod 100 div 10]"
    using fmt_zero_padded_step [OF d assms(2)] by (simp only: e m)
  finally show ?thesis by (simp add: two_digits_def m(2) [symmetric])
qed

lemma fmt_zero_padded_2:
  assumes "n < 100"
  shows "fmt_zero_padded 2 n = two_digits n"
proof (cases "n < 10")
  case True
  then show ?thesis
    by (simp add: fmt_zero_padded_def dec_digits.simps [of n] two_digits_def)
next
  case False
  moreover have "n div 10 < 10" using assms by linarith
  ultimately have "dec_digits n = [n div 10, n mod 10]"
    by (simp add: dec_digits.simps [of n] dec_digits.simps [of "n div 10"])
  then show ?thesis by (simp add: fmt_zero_padded_def two_digits_def)
qed

lemma connect_timestamp_exact:
  assumes "calendar now"
  shows "unat (connect_timestamp now) =
    unat (now_month now) * 100000000 + unat (now_day now) * 1000000 + unat (now_hour now) * 10000 +
    unat (now_minute now) * 100 + unat (now_second now)"
proof -
  let ?n = "unat (now_month now) * 100000000 + unat (now_day now) * 1000000 +
    unat (now_hour now) * 10000 + unat (now_minute now) * 100 + unat (now_second now)"
  have "connect_timestamp now = of_nat ?n"
    by (simp add: connect_timestamp_def)
  moreover have "?n < 4294967296" using assms unfolding calendar_def by linarith
  ultimately show ?thesis
    by (simp add: unat_of_nat take_bit_nat_eq_self del: of_nat_add of_nat_mult)
qed

lemma timestamp_digits:
  assumes "mo < 100" "d < 100" "h < 100" "mi < 100" "s < (100 :: nat)"
  shows "fmt_zero_padded 10 (mo * 100000000 + d * 1000000 + h * 10000 + mi * 100 + s) =
    two_digits mo @ two_digits d @ two_digits h @ two_digits mi @ two_digits s"
proof -
  have dm: "(a * 100 + b) div 100 = a" "(a * 100 + b) mod 100 = b" if "b < 100" for a b :: nat
    using that by simp_all
  let ?n1 = "mo * 100 + d"
  let ?n2 = "?n1 * 100 + h"
  let ?n3 = "?n2 * 100 + mi"
  let ?n4 = "?n3 * 100 + s"
  have "fmt_zero_padded (Suc (Suc 8)) ?n4 = fmt_zero_padded 8 ?n3 @ two_digits s"
    using fmt_zero_padded_pair [of ?n4 8] assms by (simp only: dm) simp
  moreover have "fmt_zero_padded (Suc (Suc 6)) ?n3 = fmt_zero_padded 6 ?n2 @ two_digits mi"
    using fmt_zero_padded_pair [of ?n3 6] assms by (simp only: dm) simp
  moreover have "fmt_zero_padded (Suc (Suc 4)) ?n2 = fmt_zero_padded 4 ?n1 @ two_digits h"
    using fmt_zero_padded_pair [of ?n2 4] assms by (simp only: dm) simp
  moreover have "fmt_zero_padded (Suc (Suc 2)) ?n1 = fmt_zero_padded 2 mo @ two_digits d"
    using fmt_zero_padded_pair [of ?n1 2] assms by (simp only: dm) simp
  ultimately have "fmt_zero_padded 10 ?n4 =
      two_digits mo @ two_digits d @ two_digits h @ two_digits mi @ two_digits s"
    using assms(1) by (simp add: fmt_zero_padded_2)
  then show ?thesis by (simp add: distrib_right mult.assoc)
qed

section \<open>Status reports\<close>

record deliver_report =
  rp_msg_id :: bytes
  rp_stat :: rstr
  rp_submit_time :: rstr
  rp_done_time :: rstr
  rp_dest_terminal_id :: rstr
  rp_smsc_sequence :: u32

definition report_parse :: "bytes \<Rightarrow> (error, deliver_report option) res" where
  "report_parse content =
     (if length content < 60 then Ok None
      else
        res_bind (slice_get content 0 8) (\<lambda>msg_id.
        res_bind (slice_get content 8 15) (\<lambda>stat.
        res_bind (slice_get content 15 25) (\<lambda>submit_time.
        res_bind (slice_get content 25 35) (\<lambda>done_time.
        res_bind (slice_get content 35 56) (\<lambda>dest_terminal_id.
        res_bind (index_get content 56) (\<lambda>b0.
        res_bind (index_get content 57) (\<lambda>b1.
        res_bind (index_get content 58) (\<lambda>b2.
        res_bind (index_get content 59) (\<lambda>b3.
          Ok (Some \<lparr>rp_msg_id = msg_id, rp_stat = read_octet_str stat,
            rp_submit_time = read_octet_str submit_time, rp_done_time = read_octet_str done_time,
            rp_dest_terminal_id = read_octet_str dest_terminal_id,
            rp_smsc_sequence = u32_from_be_bytes b0 b1 b2 b3\<rparr>)))))))))))"

definition deliver_report_of :: "deliver \<Rightarrow> (error, deliver_report option) res" where
  "deliver_report_of d =
     (if dl_registered_delivery d = 1 then report_parse (dl_msg_content d) else Ok None)"

text \<open>The report layout of the gateway, the inverse of \<open>report_parse\<close>.\<close>

definition report_wire :: "deliver_report \<Rightarrow> bytes" where
  "report_wire r = rp_msg_id r @ octet_str (rp_stat r) 7 @ octet_str (rp_submit_time r) 10 @
     octet_str (rp_done_time r) 10 @ octet_str (rp_dest_terminal_id r) 21 @
     u32_to_be_bytes (rp_smsc_sequence r)"

definition report_wf :: "deliver_report \<Rightarrow> bool" where
  "report_wf r \<longleftrightarrow> length (rp_msg_id r) = 8 \<and> octet_ok 7 (rp_stat r) \<and>
     octet_ok 10 (rp_submit_time r) \<and> octet_ok 10 (rp_done_time r) \<and>
     octet_ok 21 (rp_dest_terminal_id r)"

lemma report_parse_wire:
  assumes "report_wf r"
  shows "report_parse (report_wire r @ extra) = Ok (Some r)"
proof -
  have "u32_to_be_bytes w = [ucast (drop_bit 24 w), ucast (drop_bit 16 w), ucast (drop_bit 8 w),
      ucast w]" for w
    by (rule u32_to_be_bytes_def)
  then show ?thesis
    using assms
    by (simp add: report_parse_def report_wire_def report_wf_def read_octet_str_roundtrip
        nth_append u32_from_to_be)
qed

lemma report_parse_total: "report_parse content \<noteq> Panic"
  by (simp add: report_parse_def)

lemma report_parse_None_iff: "report_parse content = Ok None \<longleftrightarrow> length content < 60"
  by (simp add: report_parse_def)

section \<open>Hexadecimal message id\<close>

definition hex_table :: "nat list" where
  "hex_table = str_lit ''0123456789abcdef''"

definition hex_byte :: "u8 \<Rightarrow> (error, rstr) res" where
  "hex_byte byte =
     res_bind (index_get hex_table (unat (drop_bit 4 byte))) (\<lambda>hi.
     res_bind (index_get hex_table (unat (byte AND 0x0f))) (\<lambda>lo. Ok [hi, lo]))"

definition msg_id_hex :: "bytes \<Rightarrow> (error, rstr) res" where
  "msg_id_hex msg_id = map_ok concat (collect_res hex_byte msg_id)"

text \<open>Reading a lower-case hexadecimal digit back.\<close>

definition hex_value :: "nat \<Rightarrow> nat" where
  "hex_value c = (if c < 58 then c - 48 else c - 87)"

fun hex_read :: "rstr \<Rightarrow> bytes" where
  "hex_read (hi # lo # cs) = of_nat (16 * hex_value hi + hex_value lo) # hex_read cs"
| "hex_read _ = []"

lemma hex_table_nth: "n < 16 \<Longrightarrow> hex_table ! n = (if n < 10 then 48 + n else 87 + n)"
proof -
  assume "n < 16"
  then have "n \<in> set [0..<16]" by simp
  moreover have "list_all (\<lambda>n. hex_table ! n = (if n < 10 then 48 + n else 87 + n)) [0..<16]"
    by (simp add: hex_table_def str_lit_def upt_rec)
  ultimately show ?thesis by (simp only: list_all_iff)
qed

lemma length_hex_table: "length hex_table = 16"
  by (simp add: hex_table_def str_lit_def)

lemma nibbles:
  "unat (drop_bit 4 (b :: u8)) = unat b div 16" "unat (b AND 0x0f) = unat b mod 16"
proof -
  show "unat (drop_bit 4 b) = unat b div 16"
    by (simp add: drop_bit_eq_div unat_div)
  have "b AND 0x0f = take_bit 4 b" by (simp add: take_bit_eq_mask mask_eq_exp_minus_1)
  then show "unat (b AND 0x0f) = unat b mod 16"
    by (simp only: unsigned_take_bit_eq) (simp add: take_bit_eq_mod)
qed

lemma hex_byte_ok:
  "hex_byte b = Ok [hex_table ! (unat b div 16), hex_table ! (unat b mod 16)]"
proof -
  have "unat b < 256" by simp
  then have "unat b div 16 < 16" by linarith
  then show ?thesis by (simp add: hex_byte_def nibbles length_hex_table)
qed

lemma msg_id_hex_ok:
  "msg_id_hex bs = Ok (concat (map (\<lambda>b. [hex_table ! (unat b div 16), hex_table ! (unat b mod 16)]) bs))"
proof -
  have "collect_res hex_byte bs =
      Ok (map (\<lambda>b. [hex_table ! (unat b div 16), hex_table ! (unat b mod 16)]) bs)"
    by (rule collect_res_all_Ok) (rule hex_byte_ok)
  then show ?thesis by (simp add: msg_id_hex_def)
qed

lemma hex_value_table: "n < 16 \<Longrightarrow> hex_value (hex_table ! n) = n"
  by (simp add: hex_table_nth hex_value_def)

lemma hex_read_concat:
  "hex_read (concat (map (\<lambda>b. [hex_table ! (unat b div 16), hex_table ! (unat b mod 16)]) bs)) = bs"
proof (induction bs)
  case Nil
  then show ?case by simp
next
  case (Cons b bs)
  have "unat b < 256" by simp
  then have "unat b div 16 < 16" by linarith
  then have "16 * hex_value (hex_table ! (unat b div 16)) + hex_value (hex_table ! (unat b mod 16)) = unat b"
    by (simp add: hex_value_table)
  then show ?case using Cons by simp
qed

section \<open>Properties\<close>

lemma two_digits_ascii: "n < 100 \<Longrightarrow> \<forall>c \<in> set (two_digits n). c < 128"
  by (auto simp: two_digits_def)

text \<open>
  At a calendar date the login digest is taken over the account, nine zero bytes, the shared
  secret and the ten ASCII digits MMDDHHMMSS, and the timestamp field carries the same ten digits
  (the \<open>u32\<close> arithmetic does not wrap).
\<close>

lemma connect_new_authenticator:
  assumes "calendar now" and "\<forall>x. length (md5 x) = 16"
  shows "\<exists>c. connect_new md5 now source_addr shared_secret version = Ok c \<and>
    cn_source_addr c = source_addr \<and> cn_version c = version \<and>
    unat (cn_timestamp c) = unat (now_month now) * 100000000 + unat (now_day now) * 1000000 +
      unat (now_hour now) * 10000 + unat (now_minute now) * 100 + unat (now_second now) \<and>
    cn_authenticator_source c = md5 (as_bytes source_addr @ replicate 9 0 @ as_bytes shared_secret @
      map of_nat (two_digits (unat (now_month now)) @ two_digits (unat (now_day now)) @
        two_digits (unat (now_hour now)) @ two_digits (unat (now_minute now)) @
        two_digits (unat (now_second now))))"
proof -
  have b: "unat (now_month now) < 100" "unat (now_day now) < 100" "unat (now_hour now) < 100"
    "unat (now_minute now) < 100" "unat (now_second now) < 100"
    using assms(1) unfolding calendar_def by linarith+
  let ?ds = "two_digits (unat (now_month now)) @ two_digits (unat (now_day now)) @
        two_digits (unat (now_hour now)) @ two_digits (unat (now_minute now)) @
        two_digits (unat (now_second now))"
  have "fmt_zero_padded 10 (unat (connect_timestamp now)) = ?ds"
    by (simp only: connect_timestamp_exact [OF assms(1)] timestamp_digits [OF b])
  moreover have "as_bytes ?ds = map of_nat ?ds"
    using b by (intro ascii_as_bytes) (auto dest: two_digits_ascii)
  ultimately show ?thesis
    using assms(2) connect_timestamp_exact [OF assms(1)]
    by (simp add: connect_new_def compute_authenticator_source_def copy_16_def Let_def)
qed

text \<open>
  C40: a status report written in the gateway's layout is parsed back field by field, whatever
  follows it; a content of fewer than 60 bytes, and only such a content, is no report.
\<close>

theorem deliver_report_parse:
  assumes "report_wf r" and "dl_registered_delivery d = 1"
  shows "(dl_msg_content d = report_wire r @ extra \<longrightarrow> deliver_report_of d = Ok (Some r)) \<and>
    (deliver_report_of d = Ok None \<longleftrightarrow> length (dl_msg_content d) < 60) \<and> deliver_report_of d \<noteq> Panic"
  using assms by (simp add: deliver_report_of_def report_parse_wire report_parse_None_iff report_parse_total)

theorem deliver_report_parse_witness:
  "\<exists>r d. dl_registered_delivery d = 1 \<and> deliver_report_of d = Ok (Some r) \<and> rp_smsc_sequence r = 9"
proof -
  let ?r = "\<lparr>rp_msg_id = [1,2,3,4,5,6,7,8], rp_stat = [68, 69], rp_submit_time = [50],
    rp_done_time = [51], rp_dest_terminal_id = [49, 51], rp_smsc_sequence = 9\<rparr>"
  let ?d = "\<lparr>dl_msg_id = replicate 8 0, dl_dest_id = [], dl_service_id = [], dl_tp_pid = 0,
    dl_tp_udhi = 0, dl_msg_fmt = 0, dl_src_terminal_id = [], dl_registered_delivery = 1,
    dl_msg_content = report_wire ?r @ [0]\<rparr>"
  have "report_wf ?r" by (simp add: report_wf_def octet_ok_def is_scalar_def len_utf8_def)
  then have "deliver_report_of ?d = Ok (Some ?r)"
    using deliver_report_parse [where r = ?r and d = ?d and extra = "[0]"] by simp
  then show ?thesis by (intro exI [of _ ?r] exI [of _ ?d] conjI) simp_all
qed

text \<open>
  The hexadecimal message id is total, has two digits per byte and determines the message id.
\<close>

theorem msg_id_hex_roundtrip:
  "\<exists>s. msg_id_hex msg_id = Ok s \<and> length s = 2 * length msg_id \<and> hex_read s = msg_id"
proof -
  have "length (concat (map (\<lambda>b. [hex_table ! (unat b div 16), hex_table ! (unat b mod 16)]) msg_id)) =
      2 * length msg_id"
    by (induction msg_id) simp_all
  then show ?thesis by (simp add: msg_id_hex_ok hex_read_concat)
qed

end
