(* ===== verification/Cmpp_Config.thy ===== *)
theory Cmpp_Config
  imports Cmpp_Types
begin

text \<open>
  \<open>src/config.rs\<close>: the protocol parameters with their defaults, and the validation that
  \<open>connect\<close> runs before it opens a socket. The error text of each branch is a constructor of
  \<^typ>\<open>config_error\<close>.
\<close>

type_synonym i32 = "32 word"

definition MAX_WINDOW_SIZE :: nat where "MAX_WINDOW_SIZE = 16384"
definition WINDOW_SIZE_ADVISORY_MAX :: nat where "WINDOW_SIZE_ADVISORY_MAX = 256"

record cmpp_protocol_params =
  heartbeat_interval :: u64
  response_timeout :: u64
  retry_count :: u32
  window_size :: nat
  connect_timeout :: u64
  read_idle_timeout :: u64
  verify_authenticator :: bool
  event_backpressure_timeout_ms :: u64
  event_spool_capacity :: nat
  write_batch_max_frames :: nat
  write_batch_max_bytes :: nat
  tcp_nodelay :: bool
  tcp_keepalive_secs :: "u64 option"
  tcp_keepalive_interval_secs :: u64

definition params_default :: cmpp_protocol_params where
  "params_default =
     \<lparr>heartbeat_interval = 180, response_timeout = 60, retry_count = 3, window_size = 16,
      connect_timeout = 10, read_idle_timeout = 300, verify_authenticator = True,
      event_backpressure_timeout_ms = 1000, event_spool_capacity = 256,
      write_batch_max_frames = 64, write_batch_max_bytes = 64 * 1024, tcp_nodelay = True,
      tcp_keepalive_secs = Some 60, tcp_keepalive_interval_secs = 10\<rparr>"

text \<open>\<open>u64::from(u32::MAX) / 1000\<close>.\<close>

definition keepalive_secs_max :: u64 where
  "keepalive_secs_max = 4294967295 div 1000"

definition params_validate :: "cmpp_protocol_params \<Rightarrow> (config_error, unit) res" where
  "params_validate p =
     (if heartbeat_interval p = 0 then Err Heartbeat_interval_zero
      else if response_timeout p = 0 then Err Response_timeout_zero
      else if retry_count p = 0 then Err Retry_count_zero
      else if window_size p = 0 \<or> MAX_WINDOW_SIZE < window_size p then Err Window_size_range
      else if connect_timeout p = 0 then Err Connect_timeout_zero
      else if read_idle_timeout p = 0 then Err Read_idle_timeout_zero
      else if event_backpressure_timeout_ms p = 0 then Err Event_backpressure_zero
      else if \<not> (1 \<le> event_spool_capacity p \<and> event_spool_capacity p \<le> MAX_WINDOW_SIZE)
        then Err Event_spool_range
      else if \<not> (1 \<le> write_batch_max_frames p \<and> write_batch_max_frames p \<le> MAX_WINDOW_SIZE)
        then Err Write_batch_frames_range
      else if write_batch_max_bytes p = 0 then Err Write_batch_bytes_zero
      else
        (case tcp_keepalive_secs p of
           Some idle \<Rightarrow>
             (if idle = 0 \<or> keepalive_secs_max < idle \<or> tcp_keepalive_interval_secs p = 0 \<or>
                 keepalive_secs_max < tcp_keepalive_interval_secs p
              then Err Tcp_keepalive_range
              else Ok ())
         | None \<Rightarrow> Ok ()))"

record cmpp_config =
  cfg_host :: rstr
  cfg_port :: i32
  cfg_account :: rstr
  cfg_password :: rstr
  cfg_version :: u8
  cfg_protocol_params :: cmpp_protocol_params

definition config_validate :: "cmpp_config \<Rightarrow> (config_error, unit) res" where
  "config_validate c =
     (if cfg_host c = [] then Err Host_empty
      else if sint (cfg_port c) < 1 \<or> 65535 < sint (cfg_port c) then Err Port_range
      else if cfg_account c = [] then Err Account_empty
      else if 6 < str_len (cfg_account c) then Err Account_too_long
      else if cfg_password c = [] then Err Password_empty
      else if cfg_version c \<noteq> CMPP_VERSION_20 then Err Version_unsupported
      else res_bind (params_validate (cfg_protocol_params c)) (\<lambda>_. Ok ()))"

text \<open>What a valid configuration promises to the connection that runs on it.\<close>

definition params_in_range :: "cmpp_protocol_params \<Rightarrow> bool" where
  "params_in_range p \<longleftrightarrow>
     0 < heartbeat_interval p \<and> 0 < response_timeout p \<and> 0 < retry_count p \<and>
     0 < connect_timeout p \<and> 0 < read_idle_timeout p \<and> 0 < event_backpressure_timeout_ms p \<and>
     0 < write_batch_max_bytes p \<and>
     window_size p \<in> {1..16384} \<and> event_spool_capacity p \<in> {1..16384} \<and>
     write_batch_max_frames p \<in> {1..16384} \<and>
     (\<forall>idle. tcp_keepalive_secs p = Some idle \<longrightarrow>
        unat idle \<in> {1..4294967} \<and> unat (tcp_keepalive_interval_secs p) \<in> {1..4294967})"

definition config_in_range :: "cmpp_config \<Rightarrow> bool" where
  "config_in_range c \<longleftrightarrow>
     cfg_host c \<noteq> [] \<and> sint (cfg_port c) \<in> {1..65535} \<and> cfg_account c \<noteq> [] \<and>
     length (as_bytes (cfg_account c)) \<le> 6 \<and> cfg_password c \<noteq> [] \<and> cfg_version c = 0x20 \<and>
     params_in_range (cfg_protocol_params c)"

lemma keepalive_range:
  "\<not> (idle = 0 \<or> keepalive_secs_max < idle) \<longleftrightarrow> unat idle \<in> {1..4294967}"
  by (auto simp: keepalive_secs_max_def word_less_nat_alt unat_eq_zero [symmetric] Suc_le_eq)

lemma params_validate_Ok_iff: "params_validate p = Ok () \<longleftrightarrow> params_in_range p"
proof (cases "tcp_keepalive_secs p")
  case None
  then show ?thesis
    by (auto simp: params_validate_def params_in_range_def MAX_WINDOW_SIZE_def word_gt_0)
next
  case (Some idle)
  have "\<not> (idle = 0 \<or> keepalive_secs_max < idle \<or> tcp_keepalive_interval_secs p = 0 \<or>
      keepalive_secs_max < tcp_keepalive_interval_secs p) \<longleftrightarrow>
      unat idle \<in> {1..4294967} \<and> unat (tcp_keepalive_interval_secs p) \<in> {1..4294967}"
    using keepalive_range by blast
  with Some show ?thesis
    by (simp add: params_validate_def params_in_range_def MAX_WINDOW_SIZE_def word_gt_0) auto
qed

lemma params_validate_not_Panic: "params_validate p \<noteq> Panic"
  by (simp add: params_validate_def split: option.splits)

lemma config_validate_Ok_iff: "config_validate c = Ok () \<longleftrightarrow> config_in_range c"
  by (auto simp: config_validate_def config_in_range_def res_bind_Ok_iff params_validate_Ok_iff
      CMPP_VERSION_20_def str_len_def)

lemma config_validate_not_Panic: "config_validate c \<noteq> Panic"
  using params_validate_not_Panic by (auto simp: config_validate_def res_bind_Panic_iff)

section \<open>Properties\<close>

text \<open>
  Validation accepts exactly the configurations in range, and the default parameters are in
  range. An account that passes fits the six octets of \<open>Source_Addr\<close>, so CONNECT does not truncate it.
\<close>

theorem config_validate_exact:
  "(config_validate c = Ok ()) = config_in_range c \<and> config_validate c \<noteq> Panic \<and>
   params_validate params_default = Ok ()"
proof -
  have "params_in_range params_default"
    by (simp add: params_in_range_def params_default_def)
  then show ?thesis
    using config_validate_Ok_iff config_validate_not_Panic params_validate_Ok_iff by simp
qed

end
