(* ===== verification/Cmpp_Encoding.thy ===== *)
theory Cmpp_Encoding
  imports Cmpp_Types
begin

text \<open>
  \<open>src/encoding.rs\<close>: the character sets, the plan that cuts a message into segments, the segments
  with their user data header, and the decoder of message contents. The GBK coder (crate
  \<open>encoding_rs\<close>) is the parameter \<open>gbk\<close>, a function from text to bytes, respectively from bytes to
  text. The process-wide \<open>UDH_REF_COUNTER\<close> is a \<^typ>\<open>u32\<close> passed through the operations.
\<close>

section \<open>Character sets\<close>

definition MSG_FMT_ASCII :: u8 where "MSG_FMT_ASCII = 0"
definition MSG_FMT_UCS2 :: u8 where "MSG_FMT_UCS2 = 8"
definition MSG_FMT_GBK :: u8 where "MSG_FMT_GBK = 15"
definition SINGLE_MAX_BYTES :: nat where "SINGLE_MAX_BYTES = 140"
definition MULTIPART_MAX_BYTES :: nat where "MULTIPART_MAX_BYTES = 134"

lemmas msg_fmt_defs = MSG_FMT_ASCII_def MSG_FMT_UCS2_def MSG_FMT_GBK_def
lemmas max_bytes_defs = SINGLE_MAX_BYTES_def MULTIPART_MAX_BYTES_def

datatype sms_encoding = Ascii | Ucs2 | Gbk

fun msg_fmt :: "sms_encoding \<Rightarrow> u8" where
  "msg_fmt Ascii = MSG_FMT_ASCII"
| "msg_fmt Ucs2 = MSG_FMT_UCS2"
| "msg_fmt Gbk = MSG_FMT_GBK"

record sms_segment =
  seg_msg_fmt :: u8
  seg_tp_udhi :: u8
  seg_pk_total :: u8
  seg_pk_number :: u8
  seg_content :: bytes

definition choose_encoding :: "rstr \<Rightarrow> sms_encoding" where
  "choose_encoding content = (if is_ascii content then Ascii else Ucs2)"

fun encode_content :: "(rstr \<Rightarrow> bytes) \<Rightarrow> rstr \<Rightarrow> sms_encoding \<Rightarrow> bytes" where
  "encode_content gbk content Ascii = map of_nat content"
| "encode_content gbk content Ucs2 = concat (map u16_to_be_bytes (encode_utf16 content))"
| "encode_content gbk content Gbk = gbk content"

text \<open>\<open>payload.chunks_exact(2).map(u16::from_be_bytes)\<close>.\<close>

fun be_units :: "bytes \<Rightarrow> u16 list" where
  "be_units (a # b # rest) = u16_from_be_bytes a b # be_units rest"
| "be_units _ = []"

definition decode_msg_content :: "(bytes \<Rightarrow> rstr) \<Rightarrow> u8 \<Rightarrow> u8 \<Rightarrow> bytes \<Rightarrow> rstr" where
  "decode_msg_content gbk fmt tp_udhi content =
     (let payload = (if tp_udhi = 1 \<and> 6 < length content then drop 6 content else content) in
      if fmt = MSG_FMT_ASCII then from_utf8_lossy payload
      else if fmt = MSG_FMT_UCS2 then
        (if length payload mod 2 \<noteq> 0 then from_utf8_lossy payload
         else from_utf16_lossy (be_units payload))
      else if fmt = MSG_FMT_GBK then gbk payload
      else from_utf8_lossy payload)"

section \<open>Slicing a string by byte offsets\<close>

text \<open>
  \<open>&s[i..j]\<close> panics unless both offsets are character boundaries. \<open>split_at_byte n s\<close> cuts \<open>s\<close>
  after its first \<open>n\<close> bytes.
\<close>

fun split_at_byte :: "nat \<Rightarrow> rstr \<Rightarrow> (rstr \<times> rstr) option" where
  "split_at_byte n [] = (if n = 0 then Some ([], []) else None)"
| "split_at_byte n (c # s) =
     (if n = 0 then Some ([], c # s)
      else if n < len_utf8 c then None
      else map_option (\<lambda>(a, b). (c # a, b)) (split_at_byte (n - len_utf8 c) s))"

definition str_slice :: "rstr \<Rightarrow> nat \<Rightarrow> nat \<Rightarrow> ('e, rstr) res" where
  "str_slice s i j =
     (if i \<le> j then
        res_bind (expect (split_at_byte i s)) (\<lambda>(_, t).
        res_bind (expect (split_at_byte (j - i) t)) (\<lambda>(u, _). Ok u))
      else Panic)"

lemma split_at_byte_append: "split_at_byte (str_len a) (a @ b) = Some (a, b)"
proof (induction a)
  case Nil
  then show ?case by (cases b) simp_all
next
  case (Cons c a)
  have "0 < len_utf8 c" by simp
  then show ?case using Cons by simp
qed

lemma str_slice_middle: "str_slice (a @ b @ c) (str_len a) (str_len a + str_len b) = Ok b"
  using split_at_byte_append [of a "b @ c"] split_at_byte_append [of b c] by (simp add: str_slice_def)

section \<open>The content plan\<close>

record submit_content_plan =
  pl_content :: rstr
  pl_encoding :: sms_encoding
  pl_ranges :: "(nat \<times> nat) list"
  pl_preferred_ref :: "u8 option"

definition plan_segment_count :: "submit_content_plan \<Rightarrow> nat" where
  "plan_segment_count plan = length (pl_ranges plan)"

definition plan_segment ::
    "(rstr \<Rightarrow> bytes) \<Rightarrow> submit_content_plan \<Rightarrow> nat \<Rightarrow> u8 option \<Rightarrow> sms_segment result" where
  "plan_segment gbk plan index reference =
     (if length (pl_ranges plan) \<le> index then Err (Error_Config Segment_index)
      else
        res_bind (str_slice (pl_content plan) (fst (pl_ranges plan ! index))
                    (snd (pl_ranges plan ! index))) (\<lambda>piece.
        let encoded = encode_content gbk piece (pl_encoding plan) in
        if length (pl_ranges plan) = 1 then
          Ok \<lparr>seg_msg_fmt = msg_fmt (pl_encoding plan), seg_tp_udhi = 0, seg_pk_total = 1,
              seg_pk_number = 1, seg_content = encoded\<rparr>
        else
          (case u8_try_from (length (pl_ranges plan)) of
             None \<Rightarrow> Err (Error_Config Segment_total)
           | Some pk_total \<Rightarrow>
               (case u8_try_from (index + 1) of
                  None \<Rightarrow> Err (Error_Config Segment_number)
                | Some seqn \<Rightarrow>
                    (case (case reference of Some r \<Rightarrow> Some r | None \<Rightarrow> pl_preferred_ref plan) of
                       None \<Rightarrow> Err (Error_Config Segment_reference)
                     | Some r \<Rightarrow>
                         Ok \<lparr>seg_msg_fmt = msg_fmt (pl_encoding plan), seg_tp_udhi = 1,
                             seg_pk_total = pk_total, seg_pk_number = seqn,
                             seg_content = [0x05, 0x00, 0x03, r, pk_total, seqn] @ encoded\<rparr>)))))"

text \<open>
  \<open>prepare_submit_content\<close> passes over the content twice: once to count the segments before it
  allocates, once to record the byte ranges. Both passes are folds over the characters; the second
  one also sees each character's byte offset (\<open>char_indices\<close>).
\<close>

fun char_indices :: "nat \<Rightarrow> rstr \<Rightarrow> (nat \<times> nat) list" where
  "char_indices off [] = []"
| "char_indices off (c # s) = (off, c) # char_indices (off + len_utf8 c) s"

definition count_step :: "nat \<Rightarrow> nat \<times> nat \<Rightarrow> nat \<times> nat" where
  "count_step character = (\<lambda>(count, current_bytes).
     let encoded_len = len_utf16 character * 2;
         (count, current_bytes) =
           (if current_bytes \<noteq> 0 \<and> MULTIPART_MAX_BYTES < current_bytes + encoded_len
            then (count + 1, 0) else (count, current_bytes))
     in (count, current_bytes + encoded_len))"

definition ucs2_segment_count :: "rstr \<Rightarrow> nat" where
  "ucs2_segment_count content = fst (fold count_step content (1, 0))"

definition range_step ::
    "nat \<times> nat \<Rightarrow> (nat \<times> nat) list \<times> nat \<times> nat \<Rightarrow> (nat \<times> nat) list \<times> nat \<times> nat" where
  "range_step = (\<lambda>(offset, character) (ranges, start, current_bytes).
     let encoded_len = len_utf16 character * 2;
         (ranges, start, current_bytes) =
           (if current_bytes \<noteq> 0 \<and> MULTIPART_MAX_BYTES < current_bytes + encoded_len
            then (ranges @ [(start, offset)], offset, 0) else (ranges, start, current_bytes))
     in (ranges, start, current_bytes + encoded_len))"

definition ucs2_ranges :: "rstr \<Rightarrow> (nat \<times> nat) list" where
  "ucs2_ranges content =
     (case fold range_step (char_indices 0 content) ([], 0, 0) of
        (ranges, start, _) \<Rightarrow> ranges @ [(start, str_len content)])"

definition ascii_ranges :: "rstr \<Rightarrow> (nat \<times> nat) list" where
  "ascii_ranges content =
     fst (fold (\<lambda>chunk (ranges, start). (ranges @ [(start, start + length chunk)], start + length chunk))
            (chunks MULTIPART_MAX_BYTES (as_bytes content)) ([], 0))"

definition prepare_submit_content :: "u32 \<Rightarrow> rstr \<Rightarrow> submit_content_plan result \<times> u32" where
  "prepare_submit_content counter content =
     (let enc = choose_encoding content;
          outcome =
            res_bind (case enc of
                Ascii \<Rightarrow> Ok (str_len content)
              | Ucs2 \<Rightarrow> Ok (sum_list (map (\<lambda>c. len_utf16 c * 2) content))
              | Gbk \<Rightarrow> Panic) (\<lambda>total_bytes.
            res_bind (if total_bytes \<le> SINGLE_MAX_BYTES then Ok 1
              else case enc of
                Ascii \<Rightarrow> Ok (div_ceil total_bytes MULTIPART_MAX_BYTES)
              | Ucs2 \<Rightarrow> Ok (ucs2_segment_count content)
              | Gbk \<Rightarrow> Panic) (\<lambda>segment_count.
            if 255 < segment_count then Err (Error_Config Segment_total)
            else if total_bytes \<le> SINGLE_MAX_BYTES then Ok [(0, str_len content)]
            else case enc of
                Ascii \<Rightarrow> Ok (ascii_ranges content)
              | Ucs2 \<Rightarrow> Ok (ucs2_ranges content)
              | Gbk \<Rightarrow> Panic))
      in case outcome of
           Ok ranges \<Rightarrow>
             (let (preferred_ref, counter') =
                    (if 1 < length ranges then (Some (ucast (counter AND 0xFF)), counter + 1)
                     else (None, counter))
              in (Ok \<lparr>pl_content = content, pl_encoding = enc, pl_ranges = ranges,
                      pl_preferred_ref = preferred_ref\<rparr>, counter'))
         | Err e \<Rightarrow> (Err e, counter)
         | Panic \<Rightarrow> (Panic, counter))"

definition try_split_content ::
    "(rstr \<Rightarrow> bytes) \<Rightarrow> u32 \<Rightarrow> rstr \<Rightarrow> sms_segment list result \<times> u32" where
  "try_split_content gbk counter content =
     (let (outcome, counter') = prepare_submit_content counter content in
      (res_bind outcome (\<lambda>plan.
         collect_res (\<lambda>index. plan_segment gbk plan index (pl_preferred_ref plan))
           [0..<plan_segment_count plan]), counter'))"

definition split_content ::
    "(rstr \<Rightarrow> bytes) \<Rightarrow> u32 \<Rightarrow> rstr \<Rightarrow> sms_segment list result \<times> u32" where
  "split_content gbk counter content =
     (let (outcome, counter') = try_split_content gbk counter content in
      (expect (res_ok outcome), counter'))"

section \<open>The pieces of a message\<close>

text \<open>
  The specification of the plan: the content is cut greedily at character boundaries, so that no
  piece encodes to more than 134 bytes; a content of at most 140 bytes is one piece.
\<close>

fun greedy :: "(nat \<Rightarrow> nat) \<Rightarrow> nat \<Rightarrow> nat \<Rightarrow> rstr \<Rightarrow> rstr \<Rightarrow> rstr list" where
  "greedy w m n cur [] = [cur]"
| "greedy w m n cur (c # s) =
     (if n \<noteq> 0 \<and> m < n + w c then cur # greedy w m (w c) [c] s
      else greedy w m (n + w c) (cur @ [c]) s)"

definition utf16_bytes :: "nat \<Rightarrow> nat" where
  "utf16_bytes c = len_utf16 c * 2"

definition encoded_size :: "rstr \<Rightarrow> nat" where
  "encoded_size s =
     (if is_ascii s then length s else sum_list (map utf16_bytes s))"

definition sms_pieces :: "rstr \<Rightarrow> rstr list" where
  "sms_pieces content =
     (if encoded_size content \<le> 140 then [content]
      else if is_ascii content then chunks 134 content
      else greedy utf16_bytes 134 0 [] content)"

text \<open>The byte ranges of consecutive pieces.\<close>

fun offsets :: "nat \<Rightarrow> rstr list \<Rightarrow> (nat \<times> nat) list" where
  "offsets start [] = []"
| "offsets start (p # ps) = (start, start + str_len p) # offsets (start + str_len p) ps"

lemma length_offsets [simp]: "length (offsets start ps) = length ps"
  by (induction ps arbitrary: start) simp_all

lemma str_slice_offsets:
  "i < length ps \<Longrightarrow>
   str_slice (pre @ concat ps) (fst (offsets (str_len pre) ps ! i)) (snd (offsets (str_len pre) ps ! i)) =
   Ok (ps ! i)"
proof (induction ps arbitrary: pre i)
  case Nil
  then show ?case by simp
next
  case (Cons p ps)
  show ?case
  proof (cases i)
    case 0
    then show ?thesis using str_slice_middle [of pre p "concat ps"] by simp
  next
    case (Suc j)
    then show ?thesis using Cons.IH [of j "pre @ p"] Cons.prems by simp
  qed
qed

lemma concat_greedy: "concat (greedy w m n cur s) = cur @ s"
  by (induction w m n cur s rule: greedy.induct) simp_all

lemma greedy_pieces:
  assumes "n = sum_list (map w cur)" "n \<le> m" "\<And>c. w c \<le> m" "\<And>c. 0 < w c" "p \<in> set (greedy w m n cur s)"
    "cur \<noteq> [] \<or> s \<noteq> []"
  shows "sum_list (map w p) \<le> m \<and> p \<noteq> []"
  using assms
proof (induction w m n cur s rule: greedy.induct)
  case (1 w m n cur)
  then show ?case by simp
next
  case (2 w m n cur c s)
  have cur: "n \<noteq> 0 \<Longrightarrow> cur \<noteq> []" using 2(3) by auto
  have w: "w c \<le> m" using 2(5) .
  show ?case
  proof (cases "n \<noteq> 0 \<and> m < n + w c")
    case True
    then have "p = cur \<or> p \<in> set (greedy w m (w c) [c] s)" using 2(7) by simp
    then show ?thesis
    proof
      assume "p = cur" then show ?thesis using 2(3,4) cur True by simp
    next
      assume "p \<in> set (greedy w m (w c) [c] s)"
      then show ?thesis using "2.IH"(1) [OF True _ w 2(5,6)] by simp
    qed
  next
    case False
    have "n + w c \<le> m"
    proof (cases "n = 0")
      case True then show ?thesis using w by simp
    next
      case n: False then show ?thesis using False by simp
    qed
    then show ?thesis using "2.IH"(2) [OF False _ _ 2(5,6)] 2(3,7) False by simp
  qed
qed

lemma greedy_nonempty [simp]: "greedy w m n cur s \<noteq> []"
  by (induction w m n cur s rule: greedy.induct) simp_all

lemma count_pass:
  "fst (fold count_step s (k, n)) + 1 = k + length (greedy utf16_bytes MULTIPART_MAX_BYTES n cur s)"
proof (induction s arbitrary: k n cur)
  case Nil
  then show ?case by simp
next
  case (Cons c s)
  show ?case
    using Cons [of "k + 1" "utf16_bytes c" "[c]"] Cons [of k "n + utf16_bytes c" "cur @ [c]"]
    by (auto simp: count_step_def utf16_bytes_def Let_def)
qed

lemma range_pass:
  "fst (fold range_step (char_indices (st + str_len cur) s) (rs, st, n)) @
     [(fst (snd (fold range_step (char_indices (st + str_len cur) s) (rs, st, n))), st + str_len cur + str_len s)]
   = rs @ offsets st (greedy utf16_bytes MULTIPART_MAX_BYTES n cur s)"
proof (induction s arbitrary: rs st n cur)
  case Nil
  then show ?case by simp
next
  case (Cons c s)
  show ?case
    using Cons [where rs = "rs @ [(st, st + str_len cur)]" and st = "st + str_len cur" and n = "utf16_bytes c" and cur = "[c]"]
      Cons [where rs = rs and st = st and n = "n + utf16_bytes c" and cur = "cur @ [c]"]
    by (auto simp: range_step_def utf16_bytes_def Let_def add.assoc)
qed

lemma ucs2_segment_count_pieces:
  "ucs2_segment_count s = length (greedy utf16_bytes 134 0 [] s)"
  using count_pass [of s 1 0 "[]"] by (simp add: ucs2_segment_count_def MULTIPART_MAX_BYTES_def)

lemma ucs2_ranges_pieces: "ucs2_ranges s = offsets 0 (greedy utf16_bytes 134 0 [] s)"
  using range_pass [of 0 "[]" s "[]" 0]
  by (simp add: ucs2_ranges_def MULTIPART_MAX_BYTES_def case_prod_unfold)

lemma ascii_range_pass:
  "fst (fold (\<lambda>chunk (rs, st). (rs @ [(st, st + length chunk)], st + length chunk)) (map as_bytes ps) (rs, st)) =
   rs @ offsets st ps"
  by (induction ps arbitrary: rs st) (simp_all add: length_as_bytes)

lemma chunks_map: "chunks n (map f xs) = map (map f) (chunks n xs)"
proof (induction n xs rule: chunks.induct)
  case (1 n xs)
  then show ?case by (simp add: chunks.simps [of n xs] chunks.simps [of n "map f xs"] take_map drop_map)
qed

lemma set_chunks: "p \<in> set (chunks n xs) \<Longrightarrow> set p \<subseteq> set xs"
proof (induction n xs rule: chunks.induct)
  case (1 n xs)
  then show ?case
    by (auto simp: chunks.simps [of n xs] split: if_splits dest: in_set_takeD in_set_dropD)
qed

lemma ascii_ranges_pieces:
  assumes "\<forall>c \<in> set s. c < 128"
  shows "ascii_ranges s = offsets 0 (chunks 134 s)"
proof -
  have "map as_bytes (chunks 134 s) = map (map of_nat) (chunks 134 s)"
    using assms set_chunks [of _ 134 s] by (auto intro!: ascii_as_bytes)
  then have "chunks 134 (as_bytes s) = map as_bytes (chunks 134 s)"
    using assms by (simp add: ascii_as_bytes chunks_map)
  then show ?thesis
    using ascii_range_pass [of "chunks 134 s" "[]" 0] by (simp add: ascii_ranges_def MULTIPART_MAX_BYTES_def)
qed

section \<open>What the operations compute\<close>

lemma ascii_str_len: "\<forall>c \<in> set s. c < 128 \<Longrightarrow> str_len s = length s"
  by (simp add: str_len_def ascii_as_bytes)

lemma utf16_bytes_bounds [simp]: "0 < utf16_bytes c" "utf16_bytes c \<le> 134" "utf16_bytes c \<le> 4"
  by (simp_all add: utf16_bytes_def len_utf16_def)

lemma encoded_size_Nil [simp]: "encoded_size [] = 0"
  by (simp add: encoded_size_def)

lemma concat_sms_pieces [simp]: "concat (sms_pieces s) = s"
  by (simp add: sms_pieces_def concat_greedy concat_chunks)

lemma sms_pieces_nonempty: "sms_pieces s \<noteq> []"
  by (cases s) (auto simp: sms_pieces_def chunks.simps)

lemma sms_pieces_ascii: "p \<in> set (sms_pieces s) \<Longrightarrow> set p \<subseteq> set s"
  using concat_sms_pieces [of s] by (metis Sup_upper image_eqI set_concat list.set_map)

lemma sms_pieces_multi:
  assumes "1 < length (sms_pieces s)" "p \<in> set (sms_pieces s)"
  shows "p \<noteq> []" "if is_ascii s then length p \<le> 134 else sum_list (map utf16_bytes p) \<le> 134"
proof -
  have big: "\<not> encoded_size s \<le> 140" using assms(1) by (auto simp: sms_pieces_def)
  then have s: "s \<noteq> []" by auto
  show "p \<noteq> []" "if is_ascii s then length p \<le> 134 else sum_list (map utf16_bytes p) \<le> 134"
    using assms big s chunks_props [of p 134 s]
      greedy_pieces [of 0 utf16_bytes "[]" 134 p s]
    by (auto simp: sms_pieces_def split: if_splits)
qed

lemma sms_pieces_single: "length (sms_pieces s) = 1 \<Longrightarrow> sms_pieces s = [s]"
  using concat_sms_pieces [of s] by (cases "sms_pieces s") auto

text \<open>A content above 140 encoded bytes really is cut.\<close>

lemma sms_pieces_split: "140 < encoded_size s \<Longrightarrow> 1 < length (sms_pieces s)"
proof (rule ccontr)
  assume big: "140 < encoded_size s" and "\<not> 1 < length (sms_pieces s)"
  then have "length (sms_pieces s) = 1"
    using sms_pieces_nonempty [of s] by (cases "sms_pieces s") auto
  then have e: "sms_pieces s = [s]" by (rule sms_pieces_single)
  have s: "s \<noteq> []" using big by auto
  show False
  proof (cases "is_ascii s")
    case True
    then have "s \<in> set (chunks 134 s)" using e big by (simp add: sms_pieces_def)
    then have "length s \<le> 134" using chunks_props by blast
    then show False using True big by (simp add: encoded_size_def)
  next
    case False
    then have "s \<in> set (greedy utf16_bytes 134 0 [] s)" using e big by (simp add: sms_pieces_def)
    then have "sum_list (map utf16_bytes s) \<le> 134"
      using greedy_pieces [of 0 utf16_bytes "[]" 134 s s] s by simp
    then show False using False big by (simp add: encoded_size_def)
  qed
qed

definition plan_of :: "u32 \<Rightarrow> rstr \<Rightarrow> submit_content_plan" where
  "plan_of counter content =
     \<lparr>pl_content = content, pl_encoding = choose_encoding content,
      pl_ranges = offsets 0 (sms_pieces content),
      pl_preferred_ref =
        (if 1 < length (sms_pieces content) then Some (ucast (counter AND 0xFF)) else None)\<rparr>"

lemma prepare_spec:
  assumes "valid_str content"
  shows "prepare_submit_content counter content =
    (if 255 < length (sms_pieces content) then (Err (Error_Config Segment_total), counter)
     else (Ok (plan_of counter content),
           if 1 < length (sms_pieces content) then counter + 1 else counter))"
proof (cases "is_ascii content")
  case True
  then have a: "\<forall>c \<in> set content. c < 128" using is_ascii_iff assms by blast
  show ?thesis
    using True ascii_ranges_pieces [OF a] length_chunks [of 134 content]
    by (simp add: prepare_submit_content_def choose_encoding_def sms_pieces_def encoded_size_def
        plan_of_def ascii_str_len [OF a] max_bytes_defs Let_def)
next
  case False
  have "sum_list (map (\<lambda>c. len_utf16 c * 2) content) = encoded_size content"
    using False by (simp add: encoded_size_def utf16_bytes_def [abs_def])
  then show ?thesis
    using False
    by (simp add: prepare_submit_content_def choose_encoding_def sms_pieces_def
        plan_of_def max_bytes_defs Let_def ucs2_segment_count_pieces ucs2_ranges_pieces)
qed

text \<open>The \<open>i\<close>th of \<open>n\<close> segments, carrying the piece \<open>p\<close>.\<close>

definition segment_of :: "sms_encoding \<Rightarrow> u8 \<Rightarrow> nat \<Rightarrow> nat \<Rightarrow> rstr \<Rightarrow> sms_segment" where
  "segment_of enc r n i p =
     (if n = 1
      then \<lparr>seg_msg_fmt = msg_fmt enc, seg_tp_udhi = 0, seg_pk_total = 1, seg_pk_number = 1,
            seg_content = encode_content (\<lambda>_. []) p enc\<rparr>
      else \<lparr>seg_msg_fmt = msg_fmt enc, seg_tp_udhi = 1, seg_pk_total = of_nat n,
            seg_pk_number = of_nat (i + 1),
            seg_content = [0x05, 0x00, 0x03, r, of_nat n, of_nat (i + 1)] @
              encode_content (\<lambda>_. []) p enc\<rparr>)"

lemma choose_encoding_not_Gbk [simp]: "choose_encoding s \<noteq> Gbk"
  by (simp add: choose_encoding_def)

lemma encode_content_gbk:
  "enc \<noteq> Gbk \<Longrightarrow> encode_content gbk p enc = encode_content (\<lambda>_. []) p enc"
  by (cases enc) simp_all

lemma plan_segment_spec:
  assumes "length (sms_pieces content) \<le> 255" "index < length (sms_pieces content)"
    and "1 < length (sms_pieces content) \<Longrightarrow> reference = Some r \<or>
      reference = None \<and> r = ucast (counter AND 0xFF)"
  shows "plan_segment gbk (plan_of counter content) index reference =
    Ok (segment_of (choose_encoding content) r (length (sms_pieces content)) index
      (sms_pieces content ! index))"
proof -
  have "str_slice content (fst (offsets 0 (sms_pieces content) ! index))
      (snd (offsets 0 (sms_pieces content) ! index)) = (Ok (sms_pieces content ! index) :: rstr result)"
    using str_slice_offsets [OF assms(2), of "[]"] by simp
  moreover have "index + 1 \<le> 255" using assms by simp
  moreover have "(case reference of Some r \<Rightarrow> Some r | None \<Rightarrow> pl_preferred_ref (plan_of counter content)) =
      Some r" if "length (sms_pieces content) \<noteq> 1"
  proof -
    have "1 < length (sms_pieces content)" using assms(2) that by linarith
    then show ?thesis using assms(3) by (auto simp: plan_of_def)
  qed
  moreover have "pl_content (plan_of counter content) = content"
    "pl_encoding (plan_of counter content) = choose_encoding content"
    "pl_ranges (plan_of counter content) = offsets 0 (sms_pieces content)"
    by (simp_all add: plan_of_def)
  ultimately show ?thesis
    unfolding plan_segment_def segment_of_def Let_def
    using assms(1,2) encode_content_gbk [OF choose_encoding_not_Gbk [of content], of gbk]
    by (cases "length (sms_pieces content) = 1") simp_all
qed

definition segments_of :: "u8 \<Rightarrow> rstr \<Rightarrow> sms_segment list" where
  "segments_of r content =
     (let ps = sms_pieces content in
      map (\<lambda>i. segment_of (choose_encoding content) r (length ps) i (ps ! i)) [0..<length ps])"

lemma try_split_spec:
  assumes "valid_str content"
  shows "try_split_content gbk counter content =
    (if 255 < length (sms_pieces content) then (Err (Error_Config Segment_total), counter)
     else (Ok (segments_of (ucast (counter AND 0xFF)) content),
           if 1 < length (sms_pieces content) then counter + 1 else counter))"
proof (cases "255 < length (sms_pieces content)")
  case True
  then show ?thesis by (simp add: try_split_content_def prepare_spec [OF assms])
next
  case False
  have "collect_res (\<lambda>index. plan_segment gbk (plan_of counter content) index
         (pl_preferred_ref (plan_of counter content))) [0..<length (sms_pieces content)] =
      Ok (segments_of (ucast (counter AND 0xFF)) content)"
    unfolding segments_of_def Let_def
  proof (rule collect_res_all_Ok)
    fix i assume "i \<in> set [0..<length (sms_pieces content)]"
    then show "plan_segment gbk (plan_of counter content) i
         (pl_preferred_ref (plan_of counter content)) =
        Ok (segment_of (choose_encoding content) (ucast (counter AND 0xFF))
          (length (sms_pieces content)) i (sms_pieces content ! i))"
      using False by (intro plan_segment_spec) (auto simp: plan_of_def)
  qed
  then show ?thesis
    using False by (simp add: try_split_content_def prepare_spec [OF assms] plan_segment_count_def plan_of_def)
qed

lemma length_segments_of [simp]: "length (segments_of r content) = length (sms_pieces content)"
  by (simp add: segments_of_def Let_def)

lemma nth_segments_of:
  "i < length (sms_pieces content) \<Longrightarrow> segments_of r content ! i =
     segment_of (choose_encoding content) r (length (sms_pieces content)) i (sms_pieces content ! i)"
  by (simp add: segments_of_def Let_def)

section \<open>The receiving side\<close>

lemma be_units_encode: "be_units (concat (map u16_to_be_bytes us)) = us"
  by (induction us) (simp_all add: u16_to_be_bytes_def u16_from_to_be)

lemma length_encode_ucs2: "length (encode_content gbk s Ucs2) = sum_list (map utf16_bytes s)"
proof -
  have "length (concat (map u16_to_be_bytes us)) = length us * 2" for us
    by (induction us) simp_all
  moreover have "length (encode_utf16 s) * 2 = sum_list (map utf16_bytes s)"
    by (induction s) (simp_all add: utf16_bytes_def)
  ultimately show ?thesis by simp
qed

lemma encoded_length:
  "length (encode_content gbk p (choose_encoding s)) =
     (if is_ascii s then length p else sum_list (map utf16_bytes p))"
  by (auto simp: choose_encoding_def length_encode_ucs2 simp del: encode_content.simps(2))

lemma decode_encoded:
  assumes "valid_str p" "enc = Ascii \<Longrightarrow> \<forall>c \<in> set p. c < 128" "enc \<noteq> Gbk"
  shows "decode_msg_content gbk (msg_fmt enc) 0 (encode_content gbk' p enc) = p"
proof (cases enc)
  case Ascii
  then have "map of_nat p = as_bytes p" using ascii_as_bytes assms(2) by metis
  then show ?thesis using assms(1) Ascii by (simp add: decode_msg_content_def msg_fmt_defs)
next
  case Ucs2
  have "even (length (encode_content gbk' p Ucs2))"
    unfolding length_encode_ucs2 by (induction p) (simp_all add: utf16_bytes_def)
  then show ?thesis using assms(1) Ucs2
    by (simp add: decode_msg_content_def msg_fmt_defs be_units_encode)
qed (use assms(3) in simp)

lemma decode_udh:
  "body \<noteq> [] \<Longrightarrow> length hdr = 6 \<Longrightarrow>
   decode_msg_content gbk fmt 1 (hdr @ body) = decode_msg_content gbk fmt 0 body"
  by (cases body) (simp_all add: decode_msg_content_def)

lemma decode_segment:
  assumes "valid_str content" "i < length (sms_pieces content)"
  shows "decode_msg_content gbk (seg_msg_fmt (segments_of r content ! i))
      (seg_tp_udhi (segments_of r content ! i)) (seg_content (segments_of r content ! i)) =
    sms_pieces content ! i"
proof -
  let ?p = "sms_pieces content ! i"
  have p: "?p \<in> set (sms_pieces content)" using assms(2) by simp
  then have sub: "set ?p \<subseteq> set content" by (rule sms_pieces_ascii)
  have v: "valid_str ?p" using sub assms(1) by (auto simp: valid_str_def)
  have a: "choose_encoding content = Ascii \<Longrightarrow> \<forall>c \<in> set ?p. c < 128"
    using sub is_ascii_iff [OF assms(1)] by (auto simp: choose_encoding_def split: if_splits)
  note d = decode_encoded [where gbk = gbk and gbk' = "\<lambda>_. []", OF v a choose_encoding_not_Gbk]
  show ?thesis
  proof (cases "length (sms_pieces content) = 1")
    case True
    then show ?thesis using d assms(2) by (simp add: nth_segments_of segment_of_def)
  next
    case False
    then have "1 < length (sms_pieces content)" using assms(2) by linarith
    from sms_pieces_multi(1) [OF this p] have "?p \<noteq> []" .
    then have "0 < length (encode_content (\<lambda>_. []) ?p (choose_encoding content))"
      unfolding encoded_length by (cases ?p) simp_all
    then have "encode_content (\<lambda>_. []) ?p (choose_encoding content) \<noteq> []" by blast
    then show ?thesis using d False assms(2)
      decode_udh [of "encode_content (\<lambda>_. []) ?p (choose_encoding content)"
        "[0x05, 0x00, 0x03, r, of_nat (length (sms_pieces content)), of_nat (i + 1)]"]
      by (simp add: nth_segments_of segment_of_def del: append.simps of_nat_Suc of_nat_add)
  qed
qed

lemma segment_content_bound:
  assumes "i < length (sms_pieces content)"
  shows "length (seg_content (segments_of r content ! i)) \<le> 140"
proof (cases "length (sms_pieces content) = 1")
  case True
  then have "\<not> 140 < encoded_size content" using sms_pieces_split [of content] by fastforce
  moreover have "sms_pieces content ! i = content" using sms_pieces_single [OF True] assms by simp
  moreover have "length (encode_content (\<lambda>_. []) content (choose_encoding content)) = encoded_size content"
    unfolding encoded_length encoded_size_def by simp
  ultimately show ?thesis using True assms by (simp add: nth_segments_of segment_of_def)
next
  case False
  then have m: "1 < length (sms_pieces content)" using assms by linarith
  have p: "sms_pieces content ! i \<in> set (sms_pieces content)" using assms by simp
  have "length (encode_content (\<lambda>_. []) (sms_pieces content ! i) (choose_encoding content)) \<le> 134"
    using sms_pieces_multi(2) [OF m p] unfolding encoded_length by (simp split: if_splits)
  then show ?thesis using False assms by (simp add: nth_segments_of segment_of_def)
qed

section \<open>Properties\<close>

text \<open>
  C13: a long message survives its segmentation. If the pieces fit 255 segments the content is cut
  into segments that are numbered 1 to n, agree on n, hold at most 140 bytes each, carry one common
  reference when there are several, and decode, in order, to exactly the original content: no
  character, in particular no surrogate pair, is split. Otherwise the result is an error.
\<close>

theorem try_split_content_delivers:
  assumes "valid_str content"
  shows "if length (sms_pieces content) \<le> 255
    then \<exists>segs. fst (try_split_content gbk counter content) = Ok segs \<and> segs \<noteq> [] \<and>
      concat (map (\<lambda>g. decode_msg_content gbk' (seg_msg_fmt g) (seg_tp_udhi g) (seg_content g)) segs) = content \<and>
      (\<forall>i < length segs. length (seg_content (segs ! i)) \<le> 140 \<and>
         unat (seg_pk_total (segs ! i)) = length segs \<and> unat (seg_pk_number (segs ! i)) = i + 1 \<and>
         (if length segs = 1 then seg_tp_udhi (segs ! i) = 0
          else seg_tp_udhi (segs ! i) = 1 \<and> take 6 (seg_content (segs ! i)) =
            [5, 0, 3, ucast (counter AND 0xFF), of_nat (length segs), of_nat (i + 1)]))
    else fst (try_split_content gbk counter content) = Err (Error_Config Segment_total)"
proof (cases "length (sms_pieces content) \<le> 255")
  case True
  let ?segs = "segments_of (ucast (counter AND 0xFF)) content"
  have t: "fst (try_split_content gbk counter content) = Ok ?segs"
    using True by (simp add: try_split_spec [OF assms])
  have ne: "?segs \<noteq> []" using sms_pieces_nonempty [of content] by (metis length_0_conv length_segments_of)
  have "map (\<lambda>g. decode_msg_content gbk' (seg_msg_fmt g) (seg_tp_udhi g) (seg_content g)) ?segs =
      sms_pieces content"
    by (rule nth_equalityI) (simp_all add: decode_segment [OF assms])
  then have c: "concat (map (\<lambda>g. decode_msg_content gbk' (seg_msg_fmt g) (seg_tp_udhi g)
      (seg_content g)) ?segs) = content" by simp
  have f: "length (seg_content (?segs ! i)) \<le> 140 \<and>
         unat (seg_pk_total (?segs ! i)) = length ?segs \<and> unat (seg_pk_number (?segs ! i)) = i + 1 \<and>
         (if length ?segs = 1 then seg_tp_udhi (?segs ! i) = 0
          else seg_tp_udhi (?segs ! i) = 1 \<and> take 6 (seg_content (?segs ! i)) =
            [5, 0, 3, ucast (counter AND 0xFF), of_nat (length ?segs), of_nat (i + 1)])"
    if i: "i < length ?segs" for i
  proof -
    have "i + 1 \<le> 255" "i < length (sms_pieces content)" using i True by simp_all
    then show ?thesis
      using True segment_content_bound [of i content]
      by (simp add: nth_segments_of segment_of_def del: of_nat_Suc of_nat_add)
  qed
  show ?thesis
    unfolding if_P [OF True]
    using t ne c f by blast
next
  case False
  then show ?thesis by (simp add: try_split_spec [OF assms])
qed

theorem try_split_content_delivers_witness:
  "if length (sms_pieces [20013, 128512]) \<le> 255
    then \<exists>segs. fst (try_split_content (\<lambda>_. []) 7 [20013, 128512]) = Ok segs \<and> segs \<noteq> [] \<and>
      concat (map (\<lambda>g. decode_msg_content (\<lambda>_. []) (seg_msg_fmt g) (seg_tp_udhi g) (seg_content g)) segs) =
        [20013, 128512] \<and>
      (\<forall>i < length segs. length (seg_content (segs ! i)) \<le> 140 \<and>
         unat (seg_pk_total (segs ! i)) = length segs \<and> unat (seg_pk_number (segs ! i)) = i + 1 \<and>
         (if length segs = 1 then seg_tp_udhi (segs ! i) = 0
          else seg_tp_udhi (segs ! i) = 1 \<and> take 6 (seg_content (segs ! i)) =
            [5, 0, 3, ucast ((7 :: u32) AND 0xFF), of_nat (length segs), of_nat (i + 1)]))
    else fst (try_split_content (\<lambda>_. []) 7 [20013, 128512]) = Err (Error_Config Segment_total)"
  by (rule try_split_content_delivers) (simp add: is_scalar_def)

text \<open>
  The pass that counts the segments before anything is allocated agrees with the pass that
  records their byte ranges, for every content and both character sets.
\<close>

lemma segment_count_pass_agrees:
  "ucs2_segment_count content = length (ucs2_ranges content) \<and>
   div_ceil (str_len content) MULTIPART_MAX_BYTES = length (ascii_ranges content)"
proof -
  have "length (fst (fold (\<lambda>chunk (rs, st). (rs @ [(st, st + length chunk)], st + length chunk)) cs (rs, st))) =
      length rs + length cs" for cs :: "bytes list" and rs and st :: nat
    by (induction cs arbitrary: rs st) simp_all
  then have "length (ascii_ranges content) = length (chunks MULTIPART_MAX_BYTES (as_bytes content))"
    by (simp add: ascii_ranges_def)
  then show ?thesis
    using length_chunks [of MULTIPART_MAX_BYTES "as_bytes content"]
    by (simp add: ucs2_segment_count_pieces ucs2_ranges_pieces length_as_bytes MULTIPART_MAX_BYTES_def)
qed

end
