(* ===== verification/Cmpp_Submit.thy ===== *)
theory Cmpp_Submit
  imports Cmpp_Encoding Cmpp_Frame
begin

text \<open>
  \<open>src/submit.rs\<close>: the options shared by the segments of a message, and the SUBMITs built from
  them. The operations that split a content pass the reference counter of \<open>src/encoding.rs\<close>.
\<close>

definition apply_segment :: "submit \<Rightarrow> sms_segment \<Rightarrow> submit" where
  "apply_segment s segment =
     s\<lparr>sm_pk_total := seg_pk_total segment, sm_pk_number := seg_pk_number segment,
       sm_tp_udhi := seg_tp_udhi segment, sm_msg_fmt := seg_msg_fmt segment,
       sm_msg_content := seg_content segment\<rparr>"

record submit_options =
  op_service_id :: rstr
  op_msg_src :: rstr
  op_src_id :: rstr
  op_dest_terminal_ids :: "rstr list"
  op_registered_delivery :: u8
  op_msg_level :: u8
  op_fee_user_type :: u8
  op_fee_terminal_id :: rstr
  op_fee_type :: rstr
  op_fee_code :: rstr
  op_tp_pid :: u8
  op_valid_time :: rstr
  op_at_time :: rstr

definition submit_options_new :: "rstr \<Rightarrow> rstr \<Rightarrow> rstr \<Rightarrow> rstr \<Rightarrow> submit_options" where
  "submit_options_new service_id msg_src src_id dest_terminal_id =
     \<lparr>op_service_id = service_id, op_msg_src = msg_src, op_src_id = src_id,
      op_dest_terminal_ids = [dest_terminal_id], op_registered_delivery = 1, op_msg_level = 0,
      op_fee_user_type = 2, op_fee_terminal_id = [], op_fee_type = str_lit ''01'',
      op_fee_code = str_lit ''000000'', op_tp_pid = 0, op_valid_time = [], op_at_time = []\<rparr>"

definition options_dest_terminal_ids :: "submit_options \<Rightarrow> rstr list \<Rightarrow> submit_options" where
  "options_dest_terminal_ids opts ids = opts\<lparr>op_dest_terminal_ids := ids\<rparr>"

definition options_registered_delivery :: "submit_options \<Rightarrow> u8 \<Rightarrow> submit_options" where
  "options_registered_delivery opts v = opts\<lparr>op_registered_delivery := v\<rparr>"

definition options_msg_level :: "submit_options \<Rightarrow> u8 \<Rightarrow> submit_options" where
  "options_msg_level opts v = opts\<lparr>op_msg_level := v\<rparr>"

definition options_fee :: "submit_options \<Rightarrow> u8 \<Rightarrow> rstr \<Rightarrow> rstr \<Rightarrow> submit_options" where
  "options_fee opts user_type fee_type fee_code =
     opts\<lparr>op_fee_user_type := user_type, op_fee_type := fee_type, op_fee_code := fee_code\<rparr>"

definition build_submit_template :: "submit_options \<Rightarrow> submit" where
  "build_submit_template opts =
     \<lparr>sm_msg_id = replicate 8 0, sm_pk_total = 1, sm_pk_number = 1,
      sm_registered_delivery = op_registered_delivery opts, sm_msg_level = op_msg_level opts,
      sm_service_id = op_service_id opts, sm_fee_user_type = op_fee_user_type opts,
      sm_fee_terminal_id = op_fee_terminal_id opts, sm_tp_pid = op_tp_pid opts, sm_tp_udhi = 0,
      sm_msg_fmt = 0, sm_msg_src = op_msg_src opts, sm_fee_type = op_fee_type opts,
      sm_fee_code = op_fee_code opts, sm_valid_time = op_valid_time opts,
      sm_at_time = op_at_time opts, sm_src_id = op_src_id opts,
      sm_dest_terminal_ids = op_dest_terminal_ids opts, sm_msg_content = []\<rparr>"

definition build_submit_from_segment :: "submit_options \<Rightarrow> sms_segment \<Rightarrow> submit" where
  "build_submit_from_segment opts segment = apply_segment (build_submit_template opts) segment"

definition try_build_submits ::
    "(rstr \<Rightarrow> bytes) \<Rightarrow> u32 \<Rightarrow> submit_options \<Rightarrow> rstr \<Rightarrow> submit list result \<times> u32" where
  "try_build_submits gbk counter opts content =
     (if 255 < length (op_dest_terminal_ids opts) then (Err (Error_Config Submit_destinations), counter)
      else
        (let (outcome, counter') = try_split_content gbk counter content in
         (map_ok (map (build_submit_from_segment opts)) outcome, counter')))"

definition build_submits ::
    "(rstr \<Rightarrow> bytes) \<Rightarrow> u32 \<Rightarrow> submit_options \<Rightarrow> rstr \<Rightarrow> submit list result \<times> u32" where
  "build_submits gbk counter opts content =
     (let (outcome, counter') = try_build_submits gbk counter opts content in
      (expect (res_ok outcome), counter'))"

definition build_short_submit ::
    "(rstr \<Rightarrow> bytes) \<Rightarrow> u32 \<Rightarrow> submit_options \<Rightarrow> rstr \<Rightarrow> (error, submit option) res \<times> u32" where
  "build_short_submit gbk counter opts content =
     (let (outcome, counter') = try_build_submits gbk counter opts content in
      (case outcome of
         Err _ \<Rightarrow> Ok None
       | Panic \<Rightarrow> Panic
       | Ok submits \<Rightarrow>
           if length submits = 1 then
             res_bind (index_get submits 0) (\<lambda>s. if sm_tp_udhi s = 0 then Ok (Some s) else Ok None)
           else Ok None, counter'))"

text \<open>Options whose fields fit the wire format.\<close>

definition options_wf :: "submit_options \<Rightarrow> bool" where
  "options_wf opts \<longleftrightarrow> octet_ok 10 (op_service_id opts) \<and> octet_ok 21 (op_fee_terminal_id opts) \<and>
     octet_ok 6 (op_msg_src opts) \<and> octet_ok 2 (op_fee_type opts) \<and> octet_ok 6 (op_fee_code opts) \<and>
     octet_ok 17 (op_valid_time opts) \<and> octet_ok 17 (op_at_time opts) \<and>
     octet_ok 21 (op_src_id opts) \<and> length (op_dest_terminal_ids opts) \<le> 255 \<and>
     (\<forall>d \<in> set (op_dest_terminal_ids opts). octet_ok 21 d)"

lemma built_fields [simp]:
  "sm_msg_content (build_submit_from_segment opts g) = seg_content g"
  "sm_tp_udhi (build_submit_from_segment opts g) = seg_tp_udhi g"
  "sm_msg_fmt (build_submit_from_segment opts g) = seg_msg_fmt g"
  "sm_pk_total (build_submit_from_segment opts g) = seg_pk_total g"
  "sm_pk_number (build_submit_from_segment opts g) = seg_pk_number g"
  "sm_dest_terminal_ids (build_submit_from_segment opts g) = op_dest_terminal_ids opts"
  by (simp_all add: build_submit_from_segment_def apply_segment_def build_submit_template_def)

lemma built_submit_wf:
  "options_wf opts \<Longrightarrow> length (seg_content g) \<le> 255 \<Longrightarrow> submit_wf (build_submit_from_segment opts g)"
  by (simp add: submit_wf_def options_wf_def build_submit_from_segment_def apply_segment_def
      build_submit_template_def)

lemma try_build_spec:
  assumes "valid_str content" "length (op_dest_terminal_ids opts) \<le> 255"
  shows "try_build_submits gbk counter opts content =
    (if 255 < length (sms_pieces content) then (Err (Error_Config Segment_total), counter)
     else (Ok (map (build_submit_from_segment opts) (segments_of (ucast (counter AND 0xFF)) content)),
           if 1 < length (sms_pieces content) then counter + 1 else counter))"
  using assms by (simp add: try_build_submits_def try_split_spec)

lemma segments_bound: "g \<in> set (segments_of r content) \<Longrightarrow> length (seg_content g) \<le> 140"
  using segment_content_bound by (auto simp: in_set_conv_nth)

section \<open>Properties\<close>

text \<open>
  C12: the SUBMITs built from options whose fields fit the wire format and a content of at most 255
  segments reach the gateway intact: each one encodes to a frame, the codec decodes that frame to
  the same SUBMIT, and the decoded contents put together are the original text.
\<close>

theorem built_submits_deliver:
  assumes "valid_str content" and "options_wf opts" and "length (sms_pieces content) \<le> 255"
  shows "\<exists>submits. fst (try_build_submits gbk counter opts content) = Ok submits \<and>
    concat (map (\<lambda>s. decode_msg_content gbk' (sm_msg_fmt s) (sm_tp_udhi s) (sm_msg_content s)) submits) =
      content \<and>
    (\<forall>s \<in> set submits. sm_dest_terminal_ids s = op_dest_terminal_ids opts \<and>
      (\<exists>body. submit_try_encode s seq = Ok (frame_bytes CMPP_SUBMIT seq body) \<and> submit_decode body = Ok s))"
proof -
  let ?gs = "segments_of (ucast (counter AND 0xFF)) content"
  let ?ss = "map (build_submit_from_segment opts) ?gs"
  have "length (op_dest_terminal_ids opts) \<le> 255" using assms(2) by (simp add: options_wf_def)
  then have t: "fst (try_build_submits gbk counter opts content) = Ok ?ss"
    using assms(3) by (simp add: try_build_spec [OF assms(1)])
  have "map (\<lambda>g. decode_msg_content gbk' (seg_msg_fmt g) (seg_tp_udhi g) (seg_content g)) ?gs =
      sms_pieces content"
    by (rule nth_equalityI) (simp_all add: decode_segment [OF assms(1)])
  then have c: "concat (map (\<lambda>s. decode_msg_content gbk' (sm_msg_fmt s) (sm_tp_udhi s) (sm_msg_content s)) ?ss) =
      content" by (simp add: comp_def)
  have e: "\<exists>body. submit_try_encode s seq = Ok (frame_bytes CMPP_SUBMIT seq body) \<and> submit_decode body = Ok s"
    if "submit_wf s" for s
  proof -
    have v: "submit_validate_encode s = Ok ()"
      using that by (simp add: submit_wf_def submit_validate_iff)
    have "encode_frame_into [] CMPP_SUBMIT seq (submit_encode_body s) =
        Ok ([] @ frame_bytes CMPP_SUBMIT seq (submit_wire s))"
      by (rule encode_frame_into_append) (rule submit_encode_wire [OF v])
    then show ?thesis
      using v submit_parse [OF that] by (auto simp: submit_try_encode_def)
  qed
  have w: "submit_wf s" if "s \<in> set ?ss" for s
    using that segments_bound assms(2) by (fastforce intro: built_submit_wf)
  have d: "sm_dest_terminal_ids s = op_dest_terminal_ids opts" if "s \<in> set ?ss" for s
    using that by auto
  show ?thesis using t c e [OF w] d by blast
qed

theorem built_submits_deliver_witness:
  "\<exists>submits. fst (try_build_submits (\<lambda>_. []) 3
        (submit_options_new (str_lit ''SVC'') (str_lit ''901234'') (str_lit ''10690001'') (str_lit ''13800138000''))
        [20013, 128512]) = Ok submits \<and>
    concat (map (\<lambda>s. decode_msg_content (\<lambda>_. []) (sm_msg_fmt s) (sm_tp_udhi s) (sm_msg_content s)) submits) =
      [20013, 128512] \<and>
    (\<forall>s \<in> set submits. sm_dest_terminal_ids s = op_dest_terminal_ids
        (submit_options_new (str_lit ''SVC'') (str_lit ''901234'') (str_lit ''10690001'') (str_lit ''13800138000'')) \<and>
      (\<exists>body. submit_try_encode s 9 = Ok (frame_bytes CMPP_SUBMIT 9 body) \<and> submit_decode body = Ok s))"
proof (rule built_submits_deliver)
  show "valid_str [20013, 128512]" by (simp add: is_scalar_def)
  show "options_wf (submit_options_new (str_lit ''SVC'') (str_lit ''901234'') (str_lit ''10690001'')
      (str_lit ''13800138000''))"
    by (simp add: options_wf_def submit_options_new_def octet_ok_def str_lit_def is_scalar_def len_utf8_def)
  show "length (sms_pieces [20013, 128512]) \<le> 255"
    by (simp add: sms_pieces_def encoded_size_def is_ascii_def as_bytes_Cons utf8_char_def utf16_bytes_def
        len_utf16_def)
qed

end
