(* ===== verification/Cmpp_Btree.thy ===== *)
theory Cmpp_Btree
  imports Cmpp_Prelude
begin

text \<open>
  The part of \<open>BTreeMap<u32, u32>\<close> the sequence registry uses, as an association list in key order,
  and its contract, the locale \<open>ordered_map\<close>. The extension \<open>interval_map\<close> reads such a map as a set of
  closed intervals and holds the lemmas the registry needs: how an identifier is looked up and how
  it joins its neighbours.
\<close>

section \<open>Sorted association lists\<close>

type_synonym ('k, 'v) btree = "('k \<times> 'v) list"

fun bt_insert :: "'k::linorder \<Rightarrow> 'v \<Rightarrow> ('k, 'v) btree \<Rightarrow> ('k, 'v) btree" where
  "bt_insert k v [] = [(k, v)]"
| "bt_insert k v ((a, b) # m) =
     (if k < a then (k, v) # (a, b) # m else if k = a then (k, v) # m else (a, b) # bt_insert k v m)"

definition bt_remove :: "'k \<Rightarrow> ('k, 'v) btree \<Rightarrow> ('k, 'v) btree" where
  "bt_remove k m = filter (\<lambda>p. fst p \<noteq> k) m"

text \<open>\<open>if let Some(v) = m.get_mut(&k) { *v = w }\<close>.\<close>

definition bt_set :: "'k \<Rightarrow> 'v \<Rightarrow> ('k, 'v) btree \<Rightarrow> ('k, 'v) btree" where
  "bt_set k w m = map (\<lambda>p. if fst p = k then (k, w) else p) m"

text \<open>\<open>m.range(..=k).next_back()\<close> and \<open>m.range(k..).next()\<close>.\<close>

definition bt_floor :: "'k::linorder \<Rightarrow> ('k, 'v) btree \<Rightarrow> ('k \<times> 'v) option" where
  "bt_floor k m = (case filter (\<lambda>p. fst p \<le> k) m of [] \<Rightarrow> None | ps \<Rightarrow> Some (last ps))"

definition bt_ceiling :: "'k::linorder \<Rightarrow> ('k, 'v) btree \<Rightarrow> ('k \<times> 'v) option" where
  "bt_ceiling k m = find (\<lambda>p. k \<le> fst p) m"

definition bt_sorted :: "('k::linorder, 'v) btree \<Rightarrow> bool" where
  "bt_sorted m \<longleftrightarrow> sorted_wrt (<) (map fst m)"

section \<open>The contract of an ordered map\<close>

locale ordered_map =
  fixes empty :: 'm
    and ins :: "'k::linorder \<Rightarrow> 'v \<Rightarrow> 'm \<Rightarrow> 'm"
    and del :: "'k \<Rightarrow> 'm \<Rightarrow> 'm"
    and upd :: "'k \<Rightarrow> 'v \<Rightarrow> 'm \<Rightarrow> 'm"
    and floor_entry :: "'k \<Rightarrow> 'm \<Rightarrow> ('k \<times> 'v) option"
    and ceiling_entry :: "'k \<Rightarrow> 'm \<Rightarrow> ('k \<times> 'v) option"
    and entries :: "'m \<Rightarrow> nat"
    and look :: "'m \<Rightarrow> 'k \<Rightarrow> 'v option"
    and ok :: "'m \<Rightarrow> bool"
  assumes ok_empty: "ok empty" and look_empty: "look empty = Map.empty"
    and ok_ins: "ok m \<Longrightarrow> ok (ins k v m)" and look_ins: "ok m \<Longrightarrow> look (ins k v m) = (look m)(k \<mapsto> v)"
    and ok_del: "ok m \<Longrightarrow> ok (del k m)" and look_del: "ok m \<Longrightarrow> look (del k m) = (look m)(k := None)"
    and ok_upd: "ok m \<Longrightarrow> ok (upd k v m)"
    and look_upd: "ok m \<Longrightarrow> look m k \<noteq> None \<Longrightarrow> look (upd k v m) = (look m)(k \<mapsto> v)"
    and floor_Some: "ok m \<Longrightarrow> floor_entry k m = Some (a, b) \<Longrightarrow>
      look m a = Some b \<and> a \<le> k \<and> (\<forall>x. look m x \<noteq> None \<and> x \<le> k \<longrightarrow> x \<le> a)"
    and floor_None: "ok m \<Longrightarrow> floor_entry k m = None \<Longrightarrow> look m x \<noteq> None \<Longrightarrow> k < x"
    and ceiling_Some: "ok m \<Longrightarrow> ceiling_entry k m = Some (a, b) \<Longrightarrow>
      look m a = Some b \<and> k \<le> a \<and> (\<forall>x. look m x \<noteq> None \<and> k \<le> x \<longrightarrow> a \<le> x)"
    and ceiling_None: "ok m \<Longrightarrow> ceiling_entry k m = None \<Longrightarrow> look m x \<noteq> None \<Longrightarrow> x < k"
    and entries_card: "ok m \<Longrightarrow> entries m = card (dom (look m))"
begin

lemma floor_bound:
  "ok m \<Longrightarrow> floor_entry k m = Some (a, b) \<Longrightarrow> look m x = Some y \<Longrightarrow> x \<le> a \<or> k < x"
  using floor_Some [of m k a b] by (metis not_le option.distinct(1))

lemma ceiling_bound:
  "ok m \<Longrightarrow> ceiling_entry k m = Some (a, b) \<Longrightarrow> look m x = Some y \<Longrightarrow> a \<le> x \<or> x < k"
  using ceiling_Some [of m k a b] by (metis not_le option.distinct(1))

end

section \<open>Interval sets\<close>

text \<open>
  A map from the first to the last identifier of a range denotes the identifiers it covers. It is
  separated when its ranges are non-empty and neither overlap nor touch.
\<close>

definition covered :: "(u32 \<Rightarrow> u32 option) \<Rightarrow> u32 set" where
  "covered f = {k. \<exists>a b. f a = Some b \<and> a \<le> k \<and> k \<le> b}"

definition separated :: "(u32 \<Rightarrow> u32 option) \<Rightarrow> bool" where
  "separated f \<longleftrightarrow> (\<forall>a b. f a = Some b \<longrightarrow> a \<le> b) \<and>
     (\<forall>a b a' b'. f a = Some b \<and> f a' = Some b' \<and> a < a' \<longrightarrow> unat b + 1 < unat a')"

lemma separatedD:
  "separated f \<Longrightarrow> f a = Some b \<Longrightarrow> a \<le> b"
  "separated f \<Longrightarrow> f a = Some b \<Longrightarrow> f a' = Some b' \<Longrightarrow> a < a' \<Longrightarrow> unat b + 1 < unat a'"
  by (auto simp: separated_def)

lemma covered_empty [simp]: "covered Map.empty = {}"
  by (simp add: covered_def)

lemma separated_empty [simp]: "separated Map.empty"
  by (simp add: separated_def)

lemma covered_start: "separated f \<Longrightarrow> f a = Some b \<Longrightarrow> a \<in> covered f \<and> b \<in> covered f"
  by (auto simp: covered_def dest: separatedD)

lemma covered_upd: "covered (f(a \<mapsto> b)) = covered (f(a := None)) \<union> {a..b}"
  by (auto simp: covered_def split: if_splits)

lemma covered_split: "f a = Some b \<Longrightarrow> covered f = covered (f(a := None)) \<union> {a..b}"
  using covered_upd [of f a b] by (simp add: fun_upd_idem)

lemma separated_del: "separated f \<Longrightarrow> separated (f(a := None))"
  by (auto simp: separated_def split: if_splits)

text \<open>Adding or replacing one range: it must keep its distance to every other range.\<close>

lemma separated_upd:
  assumes "separated f" "a \<le> b"
    and "\<And>x y. x \<noteq> a \<Longrightarrow> f x = Some y \<Longrightarrow> x < a \<Longrightarrow> unat y + 1 < unat a"
    and "\<And>x y. x \<noteq> a \<Longrightarrow> f x = Some y \<Longrightarrow> a < x \<Longrightarrow> unat b + 1 < unat x"
  shows "separated (f(a \<mapsto> b))"
  using assms unfolding separated_def by (metis fun_upd_apply option.inject order_less_irrefl)

lemma separated_disjoint:
  assumes "separated f" "f a = Some b"
  shows "covered (f(a := None)) \<inter> {a..b} = {}"
proof (rule ccontr)
  assume "\<not> ?thesis"
  then obtain k x y where k: "f x = Some y" "x \<noteq> a" "x \<le> k" "k \<le> y" "a \<le> k" "k \<le> b"
    by (auto simp: covered_def split: if_splits)
  show False
  proof (cases "x < a")
    case True
    from separatedD(2) [OF assms(1) k(1) assms(2) True] have "y < a" by (simp add: word_less_nat_alt)
    with k show False by simp
  next
    case False
    then have "a < x" using k(2) by simp
    from separatedD(2) [OF assms(1) assms(2) k(1) this] have "b < x" by (simp add: word_less_nat_alt)
    with k show False by simp
  qed
qed

lemma u32_interval_Suc: "a \<le> k \<Longrightarrow> b \<noteq> - 1 \<Longrightarrow> b + 1 = k \<Longrightarrow> {a..k} = insert k {a..b}" for k :: u32
proof -
  assume a: "a \<le> k" "b \<noteq> - 1" "b + 1 = k"
  have "unat k = Suc (unat b)" using unat_u32_Suc [OF a(2)] a(3) by simp
  then show "{a..k} = insert k {a..b}"
    using a(1) by (auto simp: word_le_nat_alt le_Suc_eq word_unat_eq_iff)
qed

lemma u32_interval_pred: "k \<le> b \<Longrightarrow> k \<noteq> - 1 \<Longrightarrow> {k..b} = insert k {k + 1..b}" for k :: u32
proof -
  assume a: "k \<le> b" "k \<noteq> - 1"
  have "unat (k + 1) = Suc (unat k)" using unat_u32_Suc [OF a(2)] .
  then show "{k..b} = insert k {k + 1..b}"
    using a(1) by (auto simp: word_le_nat_alt Suc_le_eq le_less word_unat_eq_iff)
qed

locale interval_map = ordered_map empty ins del upd floor_entry ceiling_entry entries look ok
  for empty :: 'm
    and ins :: "u32 \<Rightarrow> u32 \<Rightarrow> 'm \<Rightarrow> 'm"
    and del :: "u32 \<Rightarrow> 'm \<Rightarrow> 'm"
    and upd :: "u32 \<Rightarrow> u32 \<Rightarrow> 'm \<Rightarrow> 'm"
    and floor_entry :: "u32 \<Rightarrow> 'm \<Rightarrow> (u32 \<times> u32) option"
    and ceiling_entry :: "u32 \<Rightarrow> 'm \<Rightarrow> (u32 \<times> u32) option"
    and entries :: "'m \<Rightarrow> nat"
    and look :: "'m \<Rightarrow> u32 \<Rightarrow> u32 option"
    and ok :: "'m \<Rightarrow> bool"
begin

lemma covered_floor:
  assumes "ok m" "separated (look m)"
  shows "k \<in> covered (look m) \<longleftrightarrow> (\<exists>a b. floor_entry k m = Some (a, b) \<and> k \<le> b)"
proof
  assume "k \<in> covered (look m)"
  then obtain x y where x: "look m x = Some y" "x \<le> k" "k \<le> y" by (auto simp: covered_def)
  then obtain a b where f: "floor_entry k m = Some (a, b)"
    using floor_None [OF assms(1), of k x] by fastforce
  note F = floor_Some [OF assms(1) f]
  have "x \<le> a" using F x by auto
  moreover have "\<not> x < a"
    using separatedD(2) [OF assms(2) x(1), of a b] F x by (auto simp: word_less_nat_alt word_le_nat_alt)
  ultimately have "x = a" by simp
  then show "\<exists>a b. floor_entry k m = Some (a, b) \<and> k \<le> b" using F x f by auto
next
  assume "\<exists>a b. floor_entry k m = Some (a, b) \<and> k \<le> b"
  then obtain a b where "floor_entry k m = Some (a, b)" "k \<le> b" by blast
  then show "k \<in> covered (look m)" using floor_Some [OF assms(1), of k a b] by (auto simp: covered_def)
qed

text \<open>Where a new identifier stands between its neighbours.\<close>

lemma left_neighbour:
  assumes "ok m" "separated (look m)" "k \<notin> covered (look m)" "look m x = Some y" "x < k"
  shows "\<exists>a b. floor_entry k m = Some (a, b) \<and> x \<le> a \<and> (x < a \<longrightarrow> unat y + 1 < unat a) \<and> b < k"
proof -
  obtain a b where f: "floor_entry k m = Some (a, b)"
    using floor_None [OF assms(1), of k x] assms(4,5) by fastforce
  note F = floor_Some [OF assms(1) f]
  have "b < k" using covered_floor [OF assms(1,2), of k] assms(3) f by (auto simp: not_le)
  moreover have "x \<le> a" using F assms(4,5) by auto
  ultimately show ?thesis using f F separatedD(2) [OF assms(2,4)] by blast
qed

lemma right_neighbour:
  assumes "ok m" "separated (look m)" "k \<notin> covered (look m)" "look m x = Some y" "k < x"
  shows "\<exists>a b. ceiling_entry k m = Some (a, b) \<and> a \<le> x \<and> (a < x \<longrightarrow> unat b + 1 < unat x) \<and> k < a"
proof -
  obtain a b where f: "ceiling_entry k m = Some (a, b)"
    using ceiling_None [OF assms(1), of k x] assms(4,5) by fastforce
  note F = ceiling_Some [OF assms(1) f]
  have "a \<noteq> k" using covered_start [OF assms(2)] F assms(3) by blast
  moreover have "a \<le> x" using F assms(4,5) by auto
  ultimately show ?thesis using f F separatedD(2) [OF assms(2) _ assms(4)]
    by (metis order_le_imp_less_or_eq)
qed

text \<open>Whether a new identifier touches the range before or after it.\<close>

definition touches_left :: "u32 \<Rightarrow> 'm \<Rightarrow> bool" where
  "touches_left k m \<longleftrightarrow> (\<exists>a b. floor_entry k m = Some (a, b) \<and> b \<noteq> - 1 \<and> b + 1 = k)"

definition touches_right :: "u32 \<Rightarrow> 'm \<Rightarrow> bool" where
  "touches_right k m \<longleftrightarrow> (\<exists>a b. ceiling_entry k m = Some (a, b) \<and> k \<noteq> - 1 \<and> k + 1 = a)"

lemma left_gap:
  assumes "ok m" "separated (look m)" "k \<notin> covered (look m)" "look m x = Some y" "x < k"
    and "touches_left k m \<Longrightarrow> floor_entry k m \<noteq> Some (x, y)"
  shows "unat y + 1 < unat k"
proof -
  obtain a b where f: "floor_entry k m = Some (a, b)" "x \<le> a" "x < a \<longrightarrow> unat y + 1 < unat a" "b < k"
    using left_neighbour [OF assms(1-5)] by blast
  note F = floor_Some [OF assms(1) f(1)]
  show ?thesis
  proof (cases "x < a")
    case True
    then show ?thesis using f F by (simp add: word_le_nat_alt)
  next
    case False
    then have xy: "x = a" "y = b" using f F assms(4) by auto
    have "\<not> (b \<noteq> - 1 \<and> b + 1 = k)" using assms(6) f(1) xy by (auto simp: touches_left_def)
    moreover have "b \<noteq> - 1"
    proof -
      have "unat b < 4294967295" using f(4) unat_u32_less [of k] by (simp add: word_less_nat_alt)
      then show ?thesis by (simp add: u32_neq_max)
    qed
    ultimately have "unat (b + 1) \<noteq> unat k" by (simp add: word_unat_eq_iff)
    then show ?thesis using f(4) xy unat_u32_Suc [OF \<open>b \<noteq> - 1\<close>] by (simp add: word_less_nat_alt)
  qed
qed

lemma right_gap:
  assumes "ok m" "separated (look m)" "k \<notin> covered (look m)" "look m x = Some y" "k < x"
    and "touches_right k m \<Longrightarrow> ceiling_entry k m \<noteq> Some (x, y)"
  shows "unat k + 1 < unat x"
proof -
  obtain a b where f: "ceiling_entry k m = Some (a, b)" "a \<le> x" "a < x \<longrightarrow> unat b + 1 < unat x" "k < a"
    using right_neighbour [OF assms(1-5)] by blast
  note F = ceiling_Some [OF assms(1) f(1)]
  show ?thesis
  proof (cases "a < x")
    case True
    then show ?thesis using f separatedD(1) [OF assms(2)] F
      by (auto simp: word_le_nat_alt word_less_nat_alt)
  next
    case False
    then have xy: "x = a" "y = b" using f F assms(4) by auto
    have n: "k \<noteq> - 1"
    proof -
      have "unat k < 4294967295" using f(4) unat_u32_less [of a] by (simp add: word_less_nat_alt)
      then show ?thesis by (simp add: u32_neq_max)
    qed
    have "\<not> (k \<noteq> - 1 \<and> k + 1 = a)" using assms(6) f(1) xy by (auto simp: touches_right_def)
    then have "unat (k + 1) \<noteq> unat a" using n by (simp add: word_unat_eq_iff)
    then show ?thesis using f(4) xy unat_u32_Suc [OF n] by (simp add: word_less_nat_alt)
  qed
qed

lemma not_covered_lookup: "separated (look m) \<Longrightarrow> k \<notin> covered (look m) \<Longrightarrow> look m k = None"
  using covered_start by (metis not_Some_eq)

lemma add_alone:
  assumes "ok m" "separated (look m)" "k \<notin> covered (look m)" "\<not> touches_left k m" "\<not> touches_right k m"
  shows "separated (look (ins k k m))" "covered (look (ins k k m)) = insert k (covered (look m))"
proof -
  have l: "look (ins k k m) = (look m)(k \<mapsto> k)" by (rule look_ins [OF assms(1)])
  show "separated (look (ins k k m))"
    unfolding l
    by (rule separated_upd [OF assms(2)])
      (use left_gap [OF assms(1-3)] right_gap [OF assms(1-3)] assms(4,5) in blast)+
  show "covered (look (ins k k m)) = insert k (covered (look m))"
    unfolding l covered_upd using not_covered_lookup [OF assms(2,3)] by (simp add: fun_upd_idem)
qed

lemma add_left:
  assumes "ok m" "separated (look m)" "k \<notin> covered (look m)"
    and "floor_entry k m = Some (a, b)" "b \<noteq> - 1" "b + 1 = k" "\<not> touches_right k m"
  shows "separated (look (upd a k m))" "covered (look (upd a k m)) = insert k (covered (look m))"
proof -
  note F = floor_Some [OF assms(1,4)]
  have l: "look (upd a k m) = (look m)(a \<mapsto> k)" using F by (intro look_upd [OF assms(1)]) simp
  have right: "unat k + 1 < unat x" if "look m x = Some y" "a < x" for x y
  proof -
    have "k < x"
    proof (rule ccontr)
      assume "\<not> k < x"
      then have "x \<le> k" by simp
      then have "x \<le> a" using F that(1) by auto
      then show False using that(2) by simp
    qed
    from right_gap [OF assms(1-3) that(1) this] assms(7) show ?thesis by blast
  qed
  show "separated (look (upd a k m))"
    unfolding l
    by (rule separated_upd [OF assms(2)]) (use F separatedD(2) [OF assms(2)] right in blast)+
  have "covered (look (upd a k m)) = covered ((look m)(a := None)) \<union> insert k {a..b}"
    unfolding l covered_upd u32_interval_Suc [OF conjunct1 [OF conjunct2 [OF F]] assms(5,6)] ..
  then show "covered (look (upd a k m)) = insert k (covered (look m))"
    using covered_split [of "look m" a b, OF conjunct1 [OF F]] by simp
qed

lemma add_right:
  assumes "ok m" "separated (look m)" "k \<notin> covered (look m)"
    and "ceiling_entry k m = Some (c, e)" "k \<noteq> - 1" "k + 1 = c" "\<not> touches_left k m"
  shows "separated (look (ins k e (del c m)))"
    "covered (look (ins k e (del c m))) = insert k (covered (look m))"
proof -
  note C = ceiling_Some [OF assms(1,4)]
  have l: "look (ins k e (del c m)) = ((look m)(c := None))(k \<mapsto> e)"
    using look_ins [OF ok_del [OF assms(1)]] look_del [OF assms(1)] by simp
  have ke: "k \<le> e" using C separatedD(1) [OF assms(2)] by (meson order_trans)
  have right: "unat e + 1 < unat x" if "look m x = Some y" "x \<noteq> c" "k < x" for x y
  proof -
    have "c < x" using C that by (metis option.distinct(1) order_less_imp_le order_le_imp_less_or_eq)
    then show ?thesis using separatedD(2) [OF assms(2) _ that(1)] C by blast
  qed
  show "separated (look (ins k e (del c m)))"
    unfolding l
    by (rule separated_upd [OF separated_del [OF assms(2)] ke])
      (use left_gap [OF assms(1-3)] right assms(7) in \<open>auto split: if_splits\<close>)
  have "k \<notin> dom (look m)" using not_covered_lookup [OF assms(2,3)] by auto
  then have "covered (look (ins k e (del c m))) = covered ((look m)(c := None)) \<union> {k..e}"
    unfolding l covered_upd by (simp add: fun_upd_idem domIff)
  also have "{k..e} = insert k {c..e}" using u32_interval_pred [OF ke assms(5)] assms(6) by simp
  finally show "covered (look (ins k e (del c m))) = insert k (covered (look m))"
    using covered_split [of "look m" c e, OF conjunct1 [OF C]] by (simp add: fun_upd_def)
qed

lemma add_both:
  assumes "ok m" "separated (look m)" "k \<notin> covered (look m)"
    and "floor_entry k m = Some (a, b)" "b \<noteq> - 1" "b + 1 = k"
    and "ceiling_entry k m = Some (c, e)" "k \<noteq> - 1" "k + 1 = c"
  shows "separated (look (del c (upd a e m)))"
    "covered (look (del c (upd a e m))) = insert k (covered (look m))"
proof -
  note F = floor_Some [OF assms(1,4)]
  note C = ceiling_Some [OF assms(1,7)]
  have uk: "unat b + 1 = unat k" "unat k + 1 = unat c"
    using unat_u32_Suc [OF assms(5)] unat_u32_Suc [OF assms(8)] assms(6,9) by simp_all
  have ab: "a \<le> b" and ce: "c \<le> e" using F C separatedD(1) [OF assms(2)] by blast+
  have ac: "a \<noteq> c" "a \<le> e" using ab ce uk by (auto simp: word_le_nat_alt)
  have l: "look (del c (upd a e m)) = ((look m)(c := None))(a \<mapsto> e)"
    using look_del [OF ok_upd [OF assms(1)]] look_upd [OF assms(1), of a e] F ac(1)
    by (auto simp: fun_upd_twist)
  have right: "unat e + 1 < unat x" if "look m x = Some y" "x \<noteq> c" "a < x" for x y
  proof -
    have "k < x"
    proof (rule ccontr)
      assume "\<not> k < x"
      then have "x \<le> a" using F that(1) by auto
      then show False using that(3) by simp
    qed
    then have "c < x" using C that by (metis option.distinct(1) order_less_imp_le order_le_imp_less_or_eq)
    then show ?thesis using separatedD(2) [OF assms(2) _ that(1)] C by blast
  qed
  show "separated (look (del c (upd a e m)))"
    unfolding l
    by (rule separated_upd [OF separated_del [OF assms(2)] ac(2)])
      (use F separatedD(2) [OF assms(2)] right in \<open>auto split: if_splits\<close>)
  have "{a..e} = {a..b} \<union> insert k {c..e}"
    using ab ce uk by (auto simp: word_le_nat_alt word_unat_eq_iff)
  moreover have "covered (look m) = covered (((look m)(c := None))(a := None)) \<union> {a..b} \<union> {c..e}"
    using covered_split [of "look m" c e, OF conjunct1 [OF C]] covered_split [of "(look m)(c := None)" a b] F ac(1)
    by (simp add: fun_upd_twist)
  ultimately show "covered (look (del c (upd a e m))) = insert k (covered (look m))"
    unfolding l covered_upd by auto
qed

end

section \<open>Association lists meet the contract\<close>

lemma bt_sorted_Cons:
  "bt_sorted ((a, b) # m) \<longleftrightarrow> (\<forall>p \<in> set m. a < fst p) \<and> bt_sorted m"
  by (auto simp: bt_sorted_def)

lemma bt_sorted_distinct: "bt_sorted m \<Longrightarrow> distinct (map fst m)"
  by (simp add: bt_sorted_def strict_sorted_iff)

lemma set_bt_insert: "p \<in> set (bt_insert k v m) \<Longrightarrow> p = (k, v) \<or> p \<in> set m"
  by (induction k v m rule: bt_insert.induct) (auto split: if_splits)

lemma bt_sorted_insert: "bt_sorted m \<Longrightarrow> bt_sorted (bt_insert k v m)"
  by (induction k v m rule: bt_insert.induct)
    (auto simp: bt_sorted_Cons bt_sorted_def dest!: set_bt_insert)

lemma map_of_bt_insert: "bt_sorted m \<Longrightarrow> map_of (bt_insert k v m) = (map_of m)(k \<mapsto> v)"
proof (induction k v m rule: bt_insert.induct)
  case (2 k v a b m)
  then show ?case by (auto simp: bt_sorted_Cons fun_upd_twist)
qed simp

lemma map_of_bt_remove: "map_of (bt_remove k m) = (map_of m)(k := None)"
  by (induction m) (auto simp: bt_remove_def fun_upd_twist)

lemma map_of_bt_set: "map_of m k \<noteq> None \<Longrightarrow> map_of (bt_set k w m) = (map_of m)(k \<mapsto> w)"
proof -
  have "map_of (bt_set k w m) = (\<lambda>x. if x = k then map_option (\<lambda>_. w) (map_of m k) else map_of m x)"
    by (induction m) (auto simp: bt_set_def)
  then show "map_of m k \<noteq> None \<Longrightarrow> ?thesis" by auto
qed

lemma bt_filter_sorted: "bt_sorted m \<Longrightarrow> bt_sorted (filter P m)"
  by (induction m) (auto simp: bt_sorted_def)

lemma bt_sorted_last: "bt_sorted m \<Longrightarrow> p \<in> set m \<Longrightarrow> fst p \<le> fst (last m)"
  by (induction m) (auto simp: bt_sorted_def less_imp_le)

lemma bt_floor_Some:
  assumes "bt_sorted m" "bt_floor k m = Some (a, b)"
  shows "map_of m a = Some b \<and> a \<le> k \<and> (\<forall>x. map_of m x \<noteq> None \<and> x \<le> k \<longrightarrow> x \<le> a)"
proof -
  let ?ps = "filter (\<lambda>p. fst p \<le> k) m"
  have ne: "?ps \<noteq> []" and l: "last ?ps = (a, b)"
    using assms(2) by (auto simp: bt_floor_def split: list.splits)
  have "(a, b) \<in> set ?ps" using last_in_set [OF ne] l by simp
  then have "(a, b) \<in> set m" "a \<le> k" by auto
  moreover have "x \<le> a" if "map_of m x \<noteq> None" "x \<le> k" for x
  proof -
    obtain y where "(x, y) \<in> set ?ps" using \<open>map_of m x \<noteq> None\<close> \<open>x \<le> k\<close> map_of_SomeD by fastforce
    from bt_sorted_last [OF bt_filter_sorted [OF assms(1)] this] l show ?thesis by simp
  qed
  ultimately show ?thesis using bt_sorted_distinct [OF assms(1)] by simp
qed

lemma bt_ceiling_Some:
  assumes "bt_sorted m" "bt_ceiling k m = Some (a, b)"
  shows "map_of m a = Some b \<and> k \<le> a \<and> (\<forall>x. map_of m x \<noteq> None \<and> k \<le> x \<longrightarrow> a \<le> x)"
  using assms
proof (induction m)
  case Nil
  then show ?case by (simp add: bt_ceiling_def)
next
  case (Cons p m)
  obtain c d where p: "p = (c, d)" by (cases p)
  have s: "bt_sorted m" "\<forall>q \<in> set m. c < fst q" using Cons.prems(1) p by (simp_all add: bt_sorted_Cons)
  show ?case
  proof (cases "k \<le> c")
    case True
    then have "a = c" "b = d" using Cons.prems(2) p by (simp_all add: bt_ceiling_def)
    moreover have "c \<le> x" if "map_of m x \<noteq> None" for x
      using that s(2) map_of_SomeD by fastforce
    ultimately show ?thesis using True p by (auto split: if_splits)
  next
    case False
    then have "bt_ceiling k m = Some (a, b)" using Cons.prems(2) p by (simp add: bt_ceiling_def)
    from Cons.IH [OF s(1) this] show ?thesis
      using False p by (auto split: if_splits)
  qed
qed

interpretation bt: interval_map "[]" bt_insert bt_remove bt_set bt_floor bt_ceiling length map_of bt_sorted
proof unfold_locales
  fix m :: "(u32, u32) btree" and k v a b x
  show "bt_sorted ([] :: (u32, u32) btree)" by (simp add: bt_sorted_def)
  show "map_of [] = Map.empty" by simp
  show "bt_sorted m \<Longrightarrow> bt_sorted (bt_insert k v m)" by (rule bt_sorted_insert)
  show "bt_sorted m \<Longrightarrow> map_of (bt_insert k v m) = (map_of m)(k \<mapsto> v)" by (rule map_of_bt_insert)
  show "bt_sorted m \<Longrightarrow> bt_sorted (bt_remove k m)" by (simp add: bt_remove_def bt_filter_sorted)
  show "map_of (bt_remove k m) = (map_of m)(k := None)" by (rule map_of_bt_remove)
  have "map fst (bt_set k v m) = map fst m" by (simp add: bt_set_def)
  then show "bt_sorted m \<Longrightarrow> bt_sorted (bt_set k v m)" by (simp add: bt_sorted_def del: map_map)
  show "map_of m k \<noteq> None \<Longrightarrow> map_of (bt_set k v m) = (map_of m)(k \<mapsto> v)" by (rule map_of_bt_set)
  show "bt_sorted m \<Longrightarrow> bt_floor k m = Some (a, b) \<Longrightarrow>
      map_of m a = Some b \<and> a \<le> k \<and> (\<forall>x. map_of m x \<noteq> None \<and> x \<le> k \<longrightarrow> x \<le> a)" by (rule bt_floor_Some)
  show "bt_floor k m = None \<Longrightarrow> map_of m x \<noteq> None \<Longrightarrow> k < x"
    by (auto simp: bt_floor_def filter_empty_conv split: list.splits dest!: map_of_SomeD)
  show "bt_sorted m \<Longrightarrow> bt_ceiling k m = Some (a, b) \<Longrightarrow>
      map_of m a = Some b \<and> k \<le> a \<and> (\<forall>x. map_of m x \<noteq> None \<and> k \<le> x \<longrightarrow> a \<le> x)" by (rule bt_ceiling_Some)
  show "bt_ceiling k m = None \<Longrightarrow> map_of m x \<noteq> None \<Longrightarrow> x < k"
    by (auto simp: bt_ceiling_def find_None_iff not_le dest!: map_of_SomeD)
  assume "bt_sorted m"
  then have "distinct (map fst m)" by (rule bt_sorted_distinct)
  then have "card (set (map fst m)) = length (map fst m)" by (rule distinct_card)
  then show "length m = card (dom (map_of m))" by (simp add: dom_map_of_conv_image_fst)
qed

end
