(* ===== verification/Cmpp_Sequence.thy ===== *)
theory Cmpp_Sequence
  imports Cmpp_Btree
begin

text \<open>
  The sequence registry of \<open>src/connection.rs\<close> (\<open>SequenceState\<close>, \<open>SequenceRegistry\<close>,
  \<open>SequenceLease\<close>): one function per critical section of its mutex. The specification is the set
  of identifiers that must not be handed out again; \<open>reserve_next\<close> returns the least identifier at
  or above the start that is not in it.
\<close>

section \<open>State and operations\<close>

definition MAX_RETIRED_SEQUENCE_RANGES :: nat where "MAX_RETIRED_SEQUENCE_RANGES = 65536"

record sequence_state =
  next_automatic :: "u32 option"
  automatic_start :: u32
  automatic_used_through :: "u32 option"
  reserved :: "u32 set"
  retired :: "(u32, u32) btree"

record sequence_lease =
  lease_id :: u32
  lease_manual :: bool
  lease_release_on_drop :: bool

definition registry_new :: "u32 \<Rightarrow> sequence_state" where
  "registry_new n =
     (let start = max n 1 in
      \<lparr>next_automatic = Some start, automatic_start = start, automatic_used_through = None,
       reserved = {}, retired = []\<rparr>)"

definition in_automatic :: "sequence_state \<Rightarrow> u32 \<Rightarrow> bool" where
  "in_automatic s k =
     (case automatic_used_through s of
        None \<Rightarrow> False
      | Some used_through \<Rightarrow> automatic_start s \<le> k \<and> k \<le> used_through)"

definition retired_sequence_contains :: "(u32, u32) btree \<Rightarrow> u32 \<Rightarrow> bool" where
  "retired_sequence_contains m k =
     (case bt_floor k m of None \<Rightarrow> False | Some (_, e) \<Rightarrow> k \<le> e)"

definition insert_retired_sequence :: "(u32, u32) btree \<Rightarrow> u32 \<Rightarrow> bool \<times> (u32, u32) btree" where
  "insert_retired_sequence m k =
     (let previous = bt_floor k m;
          following = bt_ceiling k m;
          joins_previous =
            (case previous of None \<Rightarrow> False | Some (_, e) \<Rightarrow> u32_checked_add1 e = Some k);
          joins_next =
            (case following of None \<Rightarrow> False | Some (st, _) \<Rightarrow> u32_checked_add1 k = Some st)
      in
        case (joins_previous, joins_next) of
          (True, True) \<Rightarrow>
            (let (previous_start, _) = the previous; (next_start, next_end) = the following in
             (True, bt_remove next_start (bt_set previous_start next_end m)))
        | (True, False) \<Rightarrow>
            (let (previous_start, _) = the previous in (True, bt_set previous_start k m))
        | (False, True) \<Rightarrow>
            (let (next_start, next_end) = the following in
             (True, bt_insert k next_end (bt_remove next_start m)))
        | (False, False) \<Rightarrow>
            (if MAX_RETIRED_SEQUENCE_RANGES \<le> length m then (False, m)
             else (True, bt_insert k k m)))"

text \<open>
  One round of the loop of \<open>reserve_next\<close>: take the next identifier; if it lies in a retired range,
  move the automatic prefix past that range and keep of it only the part below the start.
\<close>

definition advance :: "sequence_state \<Rightarrow> u32 \<Rightarrow> sequence_state" where
  "advance s k = s\<lparr>automatic_used_through := Some k, next_automatic := u32_checked_add1 k\<rparr>"

definition retired_range :: "sequence_state \<Rightarrow> u32 \<Rightarrow> (u32 \<times> u32) option" where
  "retired_range s k =
     (case bt_floor k (retired s) of
        None \<Rightarrow> None
      | Some (st, e) \<Rightarrow> if k \<le> e then Some (st, e) else None)"

definition skip_range :: "sequence_state \<Rightarrow> u32 \<Rightarrow> u32 \<Rightarrow> sequence_state" where
  "skip_range s st e =
     (let s1 = (advance s e)\<lparr>retired := bt_remove st (retired s)\<rparr> in
      if st < automatic_start s1
      then s1\<lparr>retired := bt_insert st (automatic_start s1 - 1) (retired s1)\<rparr>
      else s1)"

lemma retired_range_Some: "retired_range s k = Some (st, e) \<Longrightarrow> k \<le> e"
  by (auto simp: retired_range_def split: option.splits if_splits)

lemma skip_range_fields [simp]:
  "next_automatic (skip_range s st e) = u32_checked_add1 e"
  "automatic_start (skip_range s st e) = automatic_start s"
  "automatic_used_through (skip_range s st e) = Some e"
  "reserved (skip_range s st e) = reserved s"
  by (simp_all add: skip_range_def advance_def Let_def)

lemma advance_fields [simp]:
  "next_automatic (advance s e) = u32_checked_add1 e"
  "automatic_start (advance s e) = automatic_start s"
  "automatic_used_through (advance s e) = Some e"
  "reserved (advance s e) = reserved s"
  "retired (advance s e) = retired s"
  by (simp_all add: advance_def)

definition remaining_ids :: "u32 option \<Rightarrow> nat" where
  "remaining_ids n = (case n of None \<Rightarrow> 0 | Some k \<Rightarrow> 4294967296 - unat k)"

lemma remaining_ids_decrease:
  assumes "k \<le> e"
  shows "remaining_ids (u32_checked_add1 e) < remaining_ids (Some k)"
proof -
  have "unat k \<le> unat e" using assms by (simp add: word_le_nat_alt)
  then show ?thesis
    using unat_u32_less [of e] unat_u32_Suc [of e]
    by (auto simp: remaining_ids_def u32_checked_add1_def)
qed

function reserve_next :: "sequence_state \<Rightarrow> sequence_lease option \<times> sequence_state" where
  "reserve_next s =
     (case next_automatic s of
        None \<Rightarrow> (None, s)
      | Some k \<Rightarrow>
          (case retired_range (advance s k) k of
             Some (st, e) \<Rightarrow> reserve_next (skip_range (advance s k) st e)
           | None \<Rightarrow>
               if k \<in> reserved (advance s k) then reserve_next (advance s k)
               else (Some \<lparr>lease_id = k, lease_manual = False, lease_release_on_drop = True\<rparr>,
                     (advance s k)\<lparr>reserved := insert k (reserved (advance s k))\<rparr>)))"
  by pat_completeness auto
termination
  by (relation "measure (\<lambda>s. remaining_ids (next_automatic s))")
    (auto intro: remaining_ids_decrease retired_range_Some)

declare reserve_next.simps [simp del]

text \<open>The identifiers of a manual batch; the loop checks each against the ones before it.\<close>

fun batch_ids :: "u32 \<Rightarrow> nat \<Rightarrow> nat \<Rightarrow> u32 list \<Rightarrow> u32 list option" where
  "batch_ids base index 0 ids = Some ids"
| "batch_ids base index (Suc n) ids =
     (let k = base + of_nat index in
      if k \<in> set ids then None else batch_ids base (index + 1) n (ids @ [k]))"

definition reserve_batch ::
    "u32 \<Rightarrow> nat \<Rightarrow> sequence_state \<Rightarrow> sequence_lease list option \<times> sequence_state" where
  "reserve_batch base count s =
     (if 255 < count then (None, s)
      else
        (case batch_ids base 0 count [] of
           None \<Rightarrow> (None, s)
         | Some ids \<Rightarrow>
             if list_ex (\<lambda>k. in_automatic s k \<or> k \<in> reserved s \<or>
                  retired_sequence_contains (retired s) k) ids
             then (None, s)
             else
               (Some (map (\<lambda>k. \<lparr>lease_id = k, lease_manual = True, lease_release_on_drop = True\<rparr>) ids),
                s\<lparr>reserved := reserved s \<union> set ids\<rparr>)))"

definition release :: "u32 \<Rightarrow> sequence_state \<Rightarrow> sequence_state" where
  "release k s = s\<lparr>reserved := reserved s - {k}\<rparr>"

definition retire :: "u32 \<Rightarrow> sequence_state \<Rightarrow> bool \<times> sequence_state" where
  "retire k s =
     (if in_automatic s k then (True, s\<lparr>reserved := reserved s - {k}\<rparr>)
      else if retired_sequence_contains (retired s) k then (True, s\<lparr>reserved := reserved s - {k}\<rparr>)
      else
        (let (added, m) = insert_retired_sequence (retired s) k in
         if \<not> added then (False, s\<lparr>retired := m\<rparr>)
         else (True, s\<lparr>retired := m, reserved := reserved s - {k}\<rparr>)))"

text \<open>\<open>SequenceLease::retire\<close> and \<open>Drop for SequenceLease\<close>.\<close>

definition lease_retire ::
    "sequence_lease \<Rightarrow> sequence_state \<Rightarrow> bool \<times> sequence_lease \<times> sequence_state" where
  "lease_retire l s =
     (let l' = l\<lparr>lease_release_on_drop := False\<rparr>; (isolated, s') = retire (lease_id l) s
      in (isolated, l', s'))"

definition lease_drop :: "sequence_lease \<Rightarrow> sequence_state \<Rightarrow> sequence_state" where
  "lease_drop l s = (if lease_release_on_drop l then release (lease_id l) s else s)"

section \<open>The set of used identifiers\<close>

definition prefix :: "sequence_state \<Rightarrow> u32 set" where
  "prefix s = {k. in_automatic s k}"

definition quarantined :: "sequence_state \<Rightarrow> u32 set" where
  "quarantined s = prefix s \<union> covered (map_of (retired s))"

definition burned :: "sequence_state \<Rightarrow> u32 set" where
  "burned s = quarantined s \<union> reserved s"

definition seq_inv :: "sequence_state \<Rightarrow> bool" where
  "seq_inv s \<longleftrightarrow>
     bt_sorted (retired s) \<and> separated (map_of (retired s)) \<and>
     length (retired s) \<le> MAX_RETIRED_SEQUENCE_RANGES \<and>
     prefix s \<inter> covered (map_of (retired s)) = {} \<and>
     (case automatic_used_through s of
        None \<Rightarrow> next_automatic s = Some (automatic_start s)
      | Some u \<Rightarrow> automatic_start s \<le> u \<and> next_automatic s = u32_checked_add1 u)"

lemma seq_invD:
  assumes "seq_inv s"
  shows "bt_sorted (retired s)" "separated (map_of (retired s))"
    "prefix s \<inter> covered (map_of (retired s)) = {}" "length (retired s) \<le> MAX_RETIRED_SEQUENCE_RANGES"
  using assms by (simp_all add: seq_inv_def)

lemma prefix_update [simp]:
  "prefix (s\<lparr>reserved := R\<rparr>) = prefix s" "prefix (s\<lparr>retired := m\<rparr>) = prefix s"
  by (simp_all add: prefix_def in_automatic_def split: option.split)

lemma seq_inv_reserved [simp]: "seq_inv (s\<lparr>reserved := R\<rparr>) = seq_inv s"
  by (simp add: seq_inv_def split: option.split)

lemma quarantined_reserved [simp]: "quarantined (s\<lparr>reserved := R\<rparr>) = quarantined s"
  by (simp add: quarantined_def)

lemma registry_new_inv: "seq_inv (registry_new n)" "burned (registry_new n) = {}"
  by (simp_all add: seq_inv_def registry_new_def Let_def bt_sorted_def prefix_def in_automatic_def
      burned_def quarantined_def)

lemma retired_sequence_contains_iff:
  "seq_inv s \<Longrightarrow> retired_sequence_contains (retired s) k \<longleftrightarrow> k \<in> covered (map_of (retired s))"
  using bt.covered_floor [OF seq_invD(1,2), of s k]
  by (auto simp: retired_sequence_contains_def split: option.splits)

lemma retired_range_iff:
  assumes "seq_inv s"
  shows "retired_range s k = None \<longleftrightarrow> k \<notin> covered (map_of (retired s))"
    and "retired_range s k = Some (st, e) \<Longrightarrow> map_of (retired s) st = Some e \<and> st \<le> k \<and> k \<le> e"
proof -
  show "retired_range s k = None \<longleftrightarrow> k \<notin> covered (map_of (retired s))"
    using bt.covered_floor [OF seq_invD(1,2) [OF assms], of k]
    by (auto simp: retired_range_def split: option.splits)
  show "retired_range s k = Some (st, e) \<Longrightarrow> map_of (retired s) st = Some e \<and> st \<le> k \<and> k \<le> e"
    using bt.floor_Some [OF seq_invD(1) [OF assms], of k]
    by (auto simp: retired_range_def split: option.splits if_splits)
qed

lemma prefix_Some: "automatic_used_through s = Some u \<Longrightarrow> prefix s = {automatic_start s..u}"
  by (auto simp: prefix_def in_automatic_def)

lemma prefix_None: "automatic_used_through s = None \<Longrightarrow> prefix s = {}"
  by (auto simp: prefix_def in_automatic_def)

text \<open>The prefix is exactly what lies between the start and the next automatic identifier.\<close>

lemma prefix_next:
  assumes "seq_inv s" "next_automatic s = Some k"
  shows "prefix s = {x. automatic_start s \<le> x \<and> x < k}" "automatic_start s \<le> k"
proof -
  have "prefix s = {x. automatic_start s \<le> x \<and> x < k} \<and> automatic_start s \<le> k"
  proof (cases "automatic_used_through s")
    case None
    then show ?thesis using assms by (auto simp: seq_inv_def prefix_None)
  next
    case (Some u)
    then have "u32_checked_add1 u = Some k" and le: "automatic_start s \<le> u"
      using assms by (simp_all add: seq_inv_def)
    then have "u \<noteq> - 1" "k = u + 1" by (simp_all add: u32_checked_add1_Some)
    then have "unat k = Suc (unat u)" using unat_u32_Suc by simp
    then show ?thesis
      using Some \<open>automatic_start s \<le> u\<close>
      by (auto simp: prefix_Some word_le_nat_alt word_less_nat_alt)
  qed
  then show "prefix s = {x. automatic_start s \<le> x \<and> x < k}" "automatic_start s \<le> k" by simp_all
qed

lemma prefix_end:
  assumes "seq_inv s" "next_automatic s = None"
  shows "prefix s = {x. automatic_start s \<le> x}"
proof -
  obtain u where u: "automatic_used_through s = Some u" "u32_checked_add1 u = None"
    using assms by (auto simp: seq_inv_def split: option.splits)
  then have "u = - 1" by (simp add: u32_checked_add1_def split: if_splits)
  then show ?thesis using u(1) by (auto simp: prefix_Some)
qed


text \<open>A range that holds the next identifier starts there, or below the start of the prefix.\<close>

lemma straddling_range:
  assumes "seq_inv s" "next_automatic s = Some k"
    and "map_of (retired s) st = Some e" "st \<le> k" "k \<le> e"
  shows "st = k \<or> st < automatic_start s \<and> k = automatic_start s \<and> automatic_used_through s = None"
proof (rule ccontr)
  assume n: "\<not> ?thesis"
  note P = prefix_next [OF assms(1,2)]
  have c: "x \<in> covered (map_of (retired s))" if "st \<le> x" "x \<le> e" for x
    using that assms(3) by (auto simp: covered_def)
  have stk: "st < k" using n assms(4) by auto
  have out: "x \<notin> prefix s" if "st \<le> x" "x \<le> e" for x
    using c [OF that] seq_invD(3) [OF assms(1)] by blast
  have ak: "k = automatic_start s"
  proof (rule ccontr)
    assume "k \<noteq> automatic_start s"
    then have lt: "automatic_start s < k" using P(2) by simp
    have se: "st \<le> e" "automatic_start s \<le> e" using stk assms(5) lt by (auto intro: order_trans)
    show False
    proof (cases "st \<le> automatic_start s")
      case True
      from out [OF this se(2)] show False using lt P(1) by simp
    next
      case False
      from out [OF order_refl se(1)] show False using False stk P(1) by simp
    qed
  qed
  then have "automatic_used_through s \<noteq> None" using n stk by auto
  then obtain u where u: "automatic_used_through s = Some u" by auto
  then have "automatic_start s \<in> prefix s" using assms(1) by (simp add: prefix_Some seq_inv_def)
  then show False using P(1) ak by simp
qed

lemma word_interval_split:
  assumes "a \<le> k" "k \<le> e"
  shows "{a..e} = {x. a \<le> x \<and> x < k} \<union> {k..e :: u32}"
  using assms by (auto simp: word_le_nat_alt word_less_nat_alt)

lemma length_bt_insert: "length (bt_insert k v m) \<le> Suc (length m)"
  by (induction k v m rule: bt_insert.induct) simp_all

lemma skip_range_spec:
  assumes "seq_inv s" "next_automatic s = Some k" "retired_range (advance s k) k = Some (st, e)"
  defines "s' \<equiv> skip_range (advance s k) st e"
  shows "seq_inv s'" "quarantined s' = quarantined s"
proof -
  have r: "map_of (retired s) st = Some e" "st \<le> k" "k \<le> e"
    using retired_range_iff(2) [OF assms(1), of k st e] assms(3) by (simp_all add: retired_range_def)
  note P = prefix_next [OF assms(1,2)]
  note so = seq_invD(1) [OF assms(1)] and se = seq_invD(2) [OF assms(1)]
  let ?f = "map_of (retired s)" and ?a = "automatic_start s"
  have fld: "automatic_used_through s' = Some e" "next_automatic s' = u32_checked_add1 e"
    "automatic_start s' = ?a"
    by (simp_all add: s'_def)
  have pre: "prefix s' = {?a..e}" by (simp add: fld prefix_Some)
  have ae: "?a \<le> e" using P(2) r(3) by simp
  have pe: "{?a..e} = prefix s \<union> {k..e}"
    unfolding P(1) by (rule word_interval_split [OF P(2) r(3)])
  have dis: "covered (?f(st := None)) \<inter> {st..e} = {}" by (rule separated_disjoint [OF se r(1)])
  have spl: "covered ?f = covered (?f(st := None)) \<union> {st..e}" by (rule covered_split [of ?f st e, OF r(1)])
  have del: "map_of (bt_remove st (retired s)) = ?f(st := None)" by (rule map_of_bt_remove)
  have so': "bt_sorted (bt_remove st (retired s))" by (rule bt.ok_del [OF so])
  have inD: "(st, e) \<in> set (retired s)" using r(1) map_of_SomeD by fast
  have len: "length (bt_remove st (retired s)) < length (retired s)"
    unfolding bt_remove_def by (rule length_filter_less [OF inD]) simp
  have "seq_inv s' \<and> quarantined s' = quarantined s"
  proof (cases "st < ?a")
    case False
    then have "st = k" using straddling_range [OF assms(1,2) r] by blast
    then have rest: "prefix s' \<inter> covered (?f(st := None)) = {}"
      unfolding pre pe using dis spl seq_invD(3) [OF assms(1)] by blast
    have m: "retired s' = bt_remove st (retired s)"
      using False by (simp add: s'_def skip_range_def Let_def advance_def)
    have "quarantined s' = quarantined s"
      unfolding quarantined_def m del pre pe spl using \<open>st = k\<close> by blast
    moreover have "seq_inv s'"
      unfolding seq_inv_def m del using so' se rest len seq_invD(4) [OF assms(1)] ae
      by (simp add: separated_del fld)
    ultimately show ?thesis by simp
  next
    case True
    then have st: "k = ?a" "automatic_used_through s = None"
      using straddling_range [OF assms(1,2) r] P(2) by auto
    let ?b = "?a - 1"
    have ub: "unat ?b + 1 = unat ?a"
      using True unat_minus_one [of ?a] by (simp add: word_less_nat_alt unat_eq_zero [symmetric])
    have sb: "st \<le> ?b" "?b \<le> e" using True ub ae by (auto simp: word_le_nat_alt word_less_nat_alt)
    have m: "retired s' = bt_insert st ?b (bt_remove st (retired s))"
      using True by (simp add: s'_def skip_range_def Let_def advance_def)
    have mm: "map_of (retired s') = (?f(st := None))(st \<mapsto> ?b)"
      unfolding m using bt.look_ins [OF so'] del by simp
    have sp: "separated (map_of (retired s'))"
      unfolding mm
    proof (rule separated_upd [OF separated_del [OF se] sb(1)])
      show "x \<noteq> st \<Longrightarrow> (?f(st := None)) x = Some y \<Longrightarrow> x < st \<Longrightarrow> unat y + 1 < unat st" for x y
        using separatedD(2) [OF se _ r(1)] by simp
      show "x \<noteq> st \<Longrightarrow> (?f(st := None)) x = Some y \<Longrightarrow> st < x \<Longrightarrow> unat ?b + 1 < unat x" for x y
        using separatedD(2) [OF se r(1), of x y] sb(2) by (simp add: word_le_nat_alt)
    qed
    have cov: "covered (map_of (retired s')) = covered (?f(st := None)) \<union> {st..?b}"
      unfolding mm covered_upd by simp
    have iv: "{st..e} = {st..?b} \<union> {?a..e}" "{st..?b} \<inter> {?a..e} = {}"
      using True sb ub ae by (auto simp: word_le_nat_alt word_less_nat_alt)
    have "prefix s = {}" by (rule prefix_None [OF st(2)])
    then have "quarantined s' = quarantined s"
      unfolding quarantined_def cov pre spl using iv(1) by blast
    moreover have "prefix s' \<inter> covered (map_of (retired s')) = {}"
      unfolding cov pre using dis iv by blast
    moreover have "bt_sorted (retired s')" unfolding m by (rule bt.ok_ins [OF so'])
    moreover have "length (retired s') \<le> MAX_RETIRED_SEQUENCE_RANGES"
    proof -
      have "length (retired s') \<le> Suc (length (bt_remove st (retired s)))"
        unfolding m by (rule length_bt_insert)
      then show ?thesis using len seq_invD(4) [OF assms(1)] by linarith
    qed
    ultimately show ?thesis
      using sp ae by (simp add: seq_inv_def fld)
  qed
  then show "seq_inv s'" "quarantined s' = quarantined s" by simp_all
qed

lemma advance_spec:
  assumes "seq_inv s" "next_automatic s = Some k" "retired_range (advance s k) k = None"
  shows "seq_inv (advance s k)" "quarantined (advance s k) = insert k (quarantined s)"
proof -
  have nc: "k \<notin> covered (map_of (retired s))"
    using retired_range_iff(1) [OF assms(1), of k] assms(3) by (simp add: retired_range_def)
  note P = prefix_next [OF assms(1,2)]
  have pre: "prefix (advance s k) = insert k (prefix s)"
    unfolding P(1) using P(2) by (auto simp: prefix_Some le_less)
  show "quarantined (advance s k) = insert k (quarantined s)"
    by (simp add: quarantined_def pre)
  show "seq_inv (advance s k)"
    using assms(1) P(2) nc by (simp add: seq_inv_def pre)
qed

text \<open>The functional specification of \<open>reserve_next\<close>.\<close>

definition issues_least :: "sequence_state \<Rightarrow> sequence_lease option \<Rightarrow> sequence_state \<Rightarrow> bool" where
  "issues_least s r s' \<longleftrightarrow> seq_inv s' \<and> automatic_start s' = automatic_start s \<and>
     (case r of
        None \<Rightarrow> {x. automatic_start s \<le> x} \<subseteq> burned s \<and> burned s' = burned s \<and>
          reserved s' = reserved s \<and> quarantined s \<subseteq> quarantined s'
      | Some l \<Rightarrow> lease_id l \<notin> burned s \<and> automatic_start s \<le> lease_id l \<and>
          {x. automatic_start s \<le> x \<and> x < lease_id l} \<subseteq> burned s \<and>
          burned s' = insert (lease_id l) (burned s) \<and>
          reserved s' = insert (lease_id l) (reserved s) \<and>
          quarantined s \<subseteq> quarantined s' \<and> lease_id l \<in> quarantined s' \<and>
          lease_manual l = False \<and> lease_release_on_drop l = True)"

lemma issues_least_mono:
  assumes "issues_least s1 r s'" "automatic_start s1 = automatic_start s" "burned s1 = burned s"
    "reserved s1 = reserved s" "quarantined s \<subseteq> quarantined s1"
  shows "issues_least s r s'"
  using assms unfolding issues_least_def by (auto split: option.splits)

lemma reserve_next_spec:
  assumes "seq_inv s"
  shows "issues_least s (fst (reserve_next s)) (snd (reserve_next s))"
  using assms
proof (induction s rule: reserve_next.induct)
  case (1 s)
  show ?case
  proof (cases "next_automatic s")
    case None
    then have "{x. automatic_start s \<le> x} \<subseteq> burned s"
      using prefix_end [OF "1.prems"] by (auto simp: burned_def quarantined_def)
    then show ?thesis using None "1.prems" by (simp add: reserve_next.simps issues_least_def)
  next
    case (Some k)
    note P = prefix_next [OF "1.prems" Some]
    show ?thesis
    proof (cases "retired_range (advance s k) k")
      case rr: (Some p)
      obtain st e where p: "p = (st, e)" by (cases p)
      note S = skip_range_spec [OF "1.prems" Some rr [unfolded p]]
      have "issues_least (skip_range (advance s k) st e)
          (fst (reserve_next (skip_range (advance s k) st e)))
          (snd (reserve_next (skip_range (advance s k) st e)))"
        by (rule "1.IH"(2) [OF Some rr p [symmetric] S(1)])
      moreover have "reserve_next s = reserve_next (skip_range (advance s k) st e)"
        by (subst reserve_next.simps) (simp add: Some rr p)
      ultimately show ?thesis
        using S(2) by (auto intro: issues_least_mono simp: burned_def)
    next
      case None
      note A = advance_spec [OF "1.prems" Some None]
      show ?thesis
      proof (cases "k \<in> reserved (advance s k)")
        case True
        have "issues_least (advance s k) (fst (reserve_next (advance s k))) (snd (reserve_next (advance s k)))"
          by (rule "1.IH"(1) [OF Some None True A(1)])
        moreover have "reserve_next s = reserve_next (advance s k)"
          using True by (subst reserve_next.simps) (simp add: Some None)
        ultimately show ?thesis
          using A(2) True by (auto intro!: issues_least_mono [of "advance s k"] simp: burned_def)
      next
        case False
        let ?s = "(advance s k)\<lparr>reserved := insert k (reserved (advance s k))\<rparr>"
        have eq: "reserve_next s =
            (Some \<lparr>lease_id = k, lease_manual = False, lease_release_on_drop = True\<rparr>, ?s)"
          using False by (subst reserve_next.simps) (simp add: Some None)
        have nc: "k \<notin> covered (map_of (retired s))"
          using retired_range_iff(1) [OF "1.prems", of k] None by (simp add: retired_range_def)
        have q: "quarantined ?s = insert k (quarantined s)"
          using A(2) by (simp add: quarantined_def prefix_def in_automatic_def)
        have i: "seq_inv ?s" using A(1) by (simp add: seq_inv_def prefix_def in_automatic_def)
        have "k \<notin> prefix s" using P by simp
        then show ?thesis
          using False nc P q i unfolding eq
          by (auto simp: issues_least_def burned_def quarantined_def)
      qed
    qed
  qed
qed


section \<open>Retiring, releasing and manual batches\<close>

lemma insert_retired_spec:
  assumes "bt_sorted m" "separated (map_of m)" "k \<notin> covered (map_of m)"
    and "insert_retired_sequence m k = (added, m')"
  shows "if added then bt_sorted m' \<and> separated (map_of m') \<and>
      covered (map_of m') = insert k (covered (map_of m)) \<and>
      (length m \<le> MAX_RETIRED_SEQUENCE_RANGES \<longrightarrow> length m' \<le> MAX_RETIRED_SEQUENCE_RANGES)
    else m' = m \<and> MAX_RETIRED_SEQUENCE_RANGES \<le> length m"
proof -
  note base = assms(1-3)
  have tl: "(case bt_floor k m of None \<Rightarrow> False | Some (_, e) \<Rightarrow> u32_checked_add1 e = Some k) \<longleftrightarrow>
      bt.touches_left k m"
    by (auto simp: bt.touches_left_def u32_checked_add1_Some split: option.splits)
  have tr: "(case bt_ceiling k m of None \<Rightarrow> False | Some (st, _) \<Rightarrow> u32_checked_add1 k = Some st) \<longleftrightarrow>
      bt.touches_right k m"
    by (auto simp: bt.touches_right_def u32_checked_add1_Some split: option.splits)
  note defs = insert_retired_sequence_def Let_def
  have lset: "length (bt_set x y l) = length l" for x y and l :: "(u32, u32) btree"
    by (simp add: bt_set_def)
  have lrem: "length (bt_remove x l) \<le> length l" for x and l :: "(u32, u32) btree"
    by (simp add: bt_remove_def)
  consider (both) "bt.touches_left k m" "bt.touches_right k m"
    | (left) "bt.touches_left k m" "\<not> bt.touches_right k m"
    | (right) "\<not> bt.touches_left k m" "bt.touches_right k m"
    | (none) "\<not> bt.touches_left k m" "\<not> bt.touches_right k m"
    by blast
  then show ?thesis
  proof cases
    case both
    then obtain a b c e where f: "bt_floor k m = Some (a, b)" "b \<noteq> - 1" "b + 1 = k"
      and c: "bt_ceiling k m = Some (c, e)" "k \<noteq> - 1" "k + 1 = c"
      by (auto simp: bt.touches_left_def bt.touches_right_def)
    have m': "added" "m' = bt_remove c (bt_set a e m)"
      using assms(4) f c by (auto simp: defs u32_checked_add1_Some)
    show ?thesis
      using bt.add_both [OF base f c] bt.ok_del [OF bt.ok_upd [OF assms(1)], of c a e]
        lrem [of c "bt_set a e m"]
      by (simp add: m' lset)
  next
    case left
    then obtain a b where f: "bt_floor k m = Some (a, b)" "b \<noteq> - 1" "b + 1 = k"
      by (auto simp: bt.touches_left_def)
    have "u32_checked_add1 b = Some k" using f by (simp add: u32_checked_add1_Some)
    then have m': "added" "m' = bt_set a k m" using assms(4) left(2) f(1) by (auto simp: defs tr)
    show ?thesis
      using bt.add_left [OF base f left(2)] bt.ok_upd [OF assms(1), of a k] by (simp add: m' lset)
  next
    case right
    then obtain c e where c: "bt_ceiling k m = Some (c, e)" "k \<noteq> - 1" "k + 1 = c"
      by (auto simp: bt.touches_right_def)
    have "u32_checked_add1 k = Some c" using c by (simp add: u32_checked_add1_Some)
    then have m': "added" "m' = bt_insert k e (bt_remove c m)"
      using assms(4) right(1) c(1) by (auto simp: defs tl)
    have "(c, e) \<in> set m" using bt.ceiling_Some [OF assms(1) c(1)] map_of_SomeD by fast
    then have "length (bt_remove c m) < length m"
      unfolding bt_remove_def by (rule length_filter_less) simp
    then have "length m' \<le> length m" unfolding m' using length_bt_insert [of k e "bt_remove c m"] by simp
    then show ?thesis
      using bt.add_right [OF base c right(1)] bt.ok_ins [OF bt.ok_del [OF assms(1)], of k e c]
      by (simp add: m')
  next
    case none
    show ?thesis
      using bt.add_alone [OF base none] bt.ok_ins [OF assms(1), of k k] length_bt_insert [of k k m] none
        assms(4)
      by (auto simp: defs tl tr split: if_splits)
  qed
qed

lemma retire_spec:
  assumes "seq_inv s" "retire k s = (isolated, s')"
  shows "seq_inv s'" "automatic_start s' = automatic_start s"
    "if isolated then quarantined s' = insert k (quarantined s) \<and> reserved s' = reserved s - {k}
     else s' = s \<and> MAX_RETIRED_SEQUENCE_RANGES \<le> length (retired s)"
proof -
  note so = seq_invD(1) [OF assms(1)] and se = seq_invD(2) [OF assms(1)]
  have "seq_inv s' \<and> automatic_start s' = automatic_start s \<and>
    (if isolated then quarantined s' = insert k (quarantined s) \<and> reserved s' = reserved s - {k}
     else s' = s \<and> MAX_RETIRED_SEQUENCE_RANGES \<le> length (retired s))"
  proof (cases "in_automatic s k \<or> retired_sequence_contains (retired s) k")
    case True
    then have "s' = s\<lparr>reserved := reserved s - {k}\<rparr>" "isolated"
      using assms(2) by (auto simp: retire_def split: if_splits)
    moreover have "k \<in> quarantined s"
      using True retired_sequence_contains_iff [OF assms(1)] by (auto simp: quarantined_def prefix_def)
    ultimately show ?thesis using assms(1) by (simp add: insert_absorb)
  next
    case False
    then have k: "k \<notin> covered (map_of (retired s))" "k \<notin> prefix s"
      using retired_sequence_contains_iff [OF assms(1)] by (auto simp: prefix_def)
    obtain added m where i: "insert_retired_sequence (retired s) k = (added, m)"
      by (cases "insert_retired_sequence (retired s) k")
    note I = insert_retired_spec [OF so se k(1) i]
    show ?thesis
    proof (cases added)
      case True
      then have s': "s' = s\<lparr>retired := m, reserved := reserved s - {k}\<rparr>" "isolated"
        using assms(2) False i by (auto simp: retire_def)
      show ?thesis
        using I True assms(1) k(2) unfolding s'(1)
        by (simp add: s'(2) seq_inv_def quarantined_def split: option.splits)
    next
      case False2: False
      then have "s' = s" "\<not> isolated" using I assms(2) False i by (auto simp: retire_def)
      then show ?thesis using I False2 assms(1) by simp
    qed
  qed
  then show "seq_inv s'" "automatic_start s' = automatic_start s"
    "if isolated then quarantined s' = insert k (quarantined s) \<and> reserved s' = reserved s - {k}
     else s' = s \<and> MAX_RETIRED_SEQUENCE_RANGES \<le> length (retired s)"
    by simp_all
qed

lemma release_spec:
  assumes "seq_inv s"
  shows "seq_inv (release k s)" "quarantined (release k s) = quarantined s"
    "reserved (release k s) = reserved s - {k}"
  using assms by (simp_all add: release_def)

lemma batch_offset_inj:
  assumes "i \<le> 255" "j \<le> 255" "base + of_nat i = base + (of_nat j :: u32)"
  shows "i = j"
proof -
  have "(of_nat i :: u32) = of_nat j" using assms(3) by simp
  then have "unat (of_nat i :: u32) = unat (of_nat j :: u32)" by simp
  then show ?thesis using assms(1,2) by (simp add: unat_of_nat take_bit_nat_eq_self)
qed

lemma batch_ids_eq:
  "i + n \<le> 255 \<Longrightarrow>
   batch_ids base i n (map (\<lambda>j. base + of_nat j) [0..<i]) = Some (map (\<lambda>j. base + of_nat j) [0..<i + n])"
proof (induction n arbitrary: i)
  case 0
  then show ?case by simp
next
  case (Suc n)
  have "base + of_nat i \<notin> set (map (\<lambda>j. base + of_nat j) [0..<i])"
  proof
    assume "base + of_nat i \<in> set (map (\<lambda>j. base + of_nat j) [0..<i])"
    then obtain j where "j < i" "base + of_nat i = base + (of_nat j :: u32)" by auto
    then show False using batch_offset_inj [of i j base] Suc.prems by simp
  qed
  then show ?case using Suc.IH [of "i + 1"] Suc.prems by (simp add: Let_def)
qed

definition batch_sequences :: "u32 \<Rightarrow> nat \<Rightarrow> u32 list" where
  "batch_sequences base count = map (\<lambda>j. base + of_nat j) [0..<count]"

lemma distinct_batch: "count \<le> 255 \<Longrightarrow> distinct (batch_sequences base count)"
  by (auto simp: batch_sequences_def distinct_map intro!: inj_onI batch_offset_inj [of _ _ base])

lemma reserve_batch_spec:
  assumes "seq_inv s"
  shows "reserve_batch base count s =
    (if count \<le> 255 \<and> set (batch_sequences base count) \<inter> burned s = {}
     then (Some (map (\<lambda>k. \<lparr>lease_id = k, lease_manual = True, lease_release_on_drop = True\<rparr>)
             (batch_sequences base count)),
           s\<lparr>reserved := reserved s \<union> set (batch_sequences base count)\<rparr>)
     else (None, s))"
proof -
  have e: "list_ex (\<lambda>k. in_automatic s k \<or> k \<in> reserved s \<or> retired_sequence_contains (retired s) k) ks \<longleftrightarrow>
      set ks \<inter> burned s \<noteq> {}" for ks
    by (auto simp: list_ex_iff burned_def quarantined_def prefix_def
        retired_sequence_contains_iff [OF assms])
  have b: "count \<le> 255 \<Longrightarrow> batch_ids base 0 count [] = Some (batch_sequences base count)"
    using batch_ids_eq [of 0 count base] by (simp add: batch_sequences_def)
  show ?thesis
    using b by (auto simp: reserve_batch_def e not_le)
qed


section \<open>Runs of the registry\<close>

text \<open>
  The registry shared by the submitting tasks: its state, the leases they hold, and (ghost) the
  identifiers that were issued automatically or isolated by \<open>retire\<close>.
\<close>

record registry =
  rg_state :: sequence_state
  rg_leases :: "sequence_lease list"
  rg_final :: "u32 set"

inductive registry_step :: "registry \<Rightarrow> registry \<Rightarrow> bool" where
  step_auto: "reserve_next (rg_state r) = (Some l, s) \<Longrightarrow>
    registry_step r (r\<lparr>rg_state := s, rg_leases := l # rg_leases r,
      rg_final := insert (lease_id l) (rg_final r)\<rparr>)"
| step_exhausted: "reserve_next (rg_state r) = (None, s) \<Longrightarrow> registry_step r (r\<lparr>rg_state := s\<rparr>)"
| step_batch: "reserve_batch base count (rg_state r) = (Some ls, s) \<Longrightarrow>
    registry_step r (r\<lparr>rg_state := s, rg_leases := ls @ rg_leases r\<rparr>)"
| step_retire: "rg_leases r = ls1 @ l # ls2 \<Longrightarrow> lease_retire l (rg_state r) = (isolated, l', s) \<Longrightarrow>
    registry_step r (r\<lparr>rg_state := s, rg_leases := ls1 @ l' # ls2,
      rg_final := (if isolated then insert (lease_id l) (rg_final r) else rg_final r)\<rparr>)"
| step_drop: "rg_leases r = ls1 @ l # ls2 \<Longrightarrow>
    registry_step r (r\<lparr>rg_state := lease_drop l (rg_state r), rg_leases := ls1 @ ls2\<rparr>)"

inductive registry_reachable :: "u32 \<Rightarrow> registry \<Rightarrow> bool" for n where
  reach_new: "registry_reachable n \<lparr>rg_state = registry_new n, rg_leases = [], rg_final = {}\<rparr>"
| reach_step: "registry_reachable n r \<Longrightarrow> registry_step r r' \<Longrightarrow> registry_reachable n r'"

inductive_cases registry_stepE: "registry_step r r'"

definition registry_inv :: "registry \<Rightarrow> bool" where
  "registry_inv r \<longleftrightarrow> seq_inv (rg_state r) \<and> distinct (map lease_id (rg_leases r)) \<and>
     (\<forall>l \<in> set (rg_leases r). lease_id l \<in> burned (rg_state r)) \<and>
     rg_final r \<subseteq> quarantined (rg_state r)"

lemma issues_leastD:
  assumes "issues_least s (Some l) s'"
  shows "seq_inv s'" "lease_id l \<notin> burned s" "burned s' = insert (lease_id l) (burned s)"
    "quarantined s \<subseteq> quarantined s'" "lease_id l \<in> quarantined s'" "automatic_start s' = automatic_start s"
    "automatic_start s \<le> lease_id l" "x < lease_id l \<Longrightarrow> automatic_start s \<le> x \<Longrightarrow> x \<in> burned s"
  using assms by (auto simp: issues_least_def)

lemma registry_step_inv: "registry_step r r' \<Longrightarrow> registry_inv r \<Longrightarrow> registry_inv r'"
proof (induction rule: registry_step.induct)
  case (step_auto r l s)
  then have "issues_least (rg_state r) (Some l) s"
    using reserve_next_spec [of "rg_state r"] by (simp add: registry_inv_def)
  note D = issues_leastD [OF this]
  have "lease_id l \<notin> lease_id ` set (rg_leases r)" using D(2) step_auto.prems by (auto simp: registry_inv_def)
  then show ?case using D step_auto.prems by (auto simp: registry_inv_def)
next
  case (step_exhausted r s)
  then show ?case
    using reserve_next_spec [of "rg_state r"] by (auto simp: registry_inv_def issues_least_def)
next
  case (step_batch base count r ls s)
  let ?ids = "batch_sequences base count"
  have inv: "seq_inv (rg_state r)" using step_batch.prems by (simp add: registry_inv_def)
  have c: "count \<le> 255" "set ?ids \<inter> burned (rg_state r) = {}" "map lease_id ls = ?ids"
    "s = (rg_state r)\<lparr>reserved := reserved (rg_state r) \<union> set ?ids\<rparr>"
    using step_batch.hyps reserve_batch_spec [OF inv, of base count]
    by (auto simp: comp_def split: if_splits)
  have "lease_id ` set ls = set ?ids" by (simp flip: c(3))
  moreover have "burned s = burned (rg_state r) \<union> set ?ids" by (auto simp: c(4) burned_def)
  ultimately show ?case
    using step_batch.prems c distinct_batch [OF c(1), of base] by (auto simp: registry_inv_def)
next
  case (step_retire r ls1 l ls2 isolated l' s)
  have ret: "retire (lease_id l) (rg_state r) = (isolated, s)" "lease_id l' = lease_id l"
    using step_retire.hyps(2) by (auto simp: lease_retire_def Let_def split: prod.splits)
  have inv: "seq_inv (rg_state r)" using step_retire.prems by (simp add: registry_inv_def)
  note R = retire_spec [OF inv ret(1)]
  have "burned (rg_state r) \<subseteq> burned s" "isolated \<Longrightarrow> lease_id l \<in> quarantined s"
    "quarantined (rg_state r) \<subseteq> quarantined s"
    using R(3) by (auto simp: burned_def split: if_splits)
  then show ?case using step_retire.prems R(1) ret(2) by (auto simp: registry_inv_def step_retire.hyps(1))
next
  case (step_drop r ls1 l ls2)
  have inv: "seq_inv (rg_state r)" using step_drop.prems by (simp add: registry_inv_def)
  note R = release_spec [OF inv, of "lease_id l"]
  have "lease_id k \<noteq> lease_id l" if "k \<in> set (ls1 @ ls2)" for k
    using step_drop.prems step_drop.hyps that by (auto simp: registry_inv_def dest: sym)
  then have "\<forall>k \<in> set (ls1 @ ls2). lease_id k \<in> burned (lease_drop l (rg_state r))"
    using step_drop.prems R(2,3) by (auto simp: registry_inv_def step_drop.hyps lease_drop_def burned_def)
  moreover have "seq_inv (lease_drop l (rg_state r))" "quarantined (lease_drop l (rg_state r)) = quarantined (rg_state r)"
    using inv R by (simp_all add: lease_drop_def)
  ultimately show ?case using step_drop.prems by (simp add: registry_inv_def step_drop.hyps)
qed

lemma registry_reachable_inv: "registry_reachable n r \<Longrightarrow> registry_inv r"
proof (induction rule: registry_reachable.induct)
  case reach_new
  then show ?case by (simp add: registry_inv_def registry_new_inv)
next
  case (reach_step r r')
  then show ?case by (blast intro: registry_step_inv)
qed

section \<open>Properties\<close>

text \<open>
  C15: \<open>reserve_next\<close> terminates with the least identifier at or above the registry's start that is
  not burned (issued automatically, held by a lease, or retired), and burns exactly that one; it
  gives up only when every such identifier is burned.
\<close>

theorem reserve_next_least:
  assumes "seq_inv s"
  shows "case reserve_next s of
      (None, s') \<Rightarrow> {x. automatic_start s \<le> x} \<subseteq> burned s \<and> burned s' = burned s \<and> seq_inv s'
    | (Some l, s') \<Rightarrow> lease_id l \<notin> burned s \<and> automatic_start s \<le> lease_id l \<and>
        {x. automatic_start s \<le> x \<and> x < lease_id l} \<subseteq> burned s \<and>
        burned s' = insert (lease_id l) (burned s) \<and> seq_inv s'"
  using reserve_next_spec [OF assms] by (auto simp: issues_least_def split: prod.split option.split)

theorem reserve_next_least_witness:
  "case reserve_next (registry_new 0) of
      (None, s') \<Rightarrow> {x. automatic_start (registry_new 0) \<le> x} \<subseteq> burned (registry_new 0) \<and>
        burned s' = burned (registry_new 0) \<and> seq_inv s'
    | (Some l, s') \<Rightarrow> lease_id l \<notin> burned (registry_new 0) \<and> automatic_start (registry_new 0) \<le> lease_id l \<and>
        {x. automatic_start (registry_new 0) \<le> x \<and> x < lease_id l} \<subseteq> burned (registry_new 0) \<and>
        burned s' = insert (lease_id l) (burned (registry_new 0)) \<and> seq_inv s'"
  by (rule reserve_next_least) (rule registry_new_inv)

text \<open>
  C14: in every run of the registry the leases in circulation have distinct identifiers, and an
  identifier that was issued automatically or isolated after use is never issued again, neither
  automatically nor in a manual batch, even across wrap-around.
\<close>

theorem sequence_never_reissued:
  assumes "registry_reachable n r"
  shows "distinct (map lease_id (rg_leases r)) \<and>
    (\<forall>l s. reserve_next (rg_state r) = (Some l, s) \<longrightarrow>
      lease_id l \<notin> rg_final r \<union> lease_id ` set (rg_leases r)) \<and>
    (\<forall>base count ls s. reserve_batch base count (rg_state r) = (Some ls, s) \<longrightarrow>
      lease_id ` set ls \<inter> (rg_final r \<union> lease_id ` set (rg_leases r)) = {})"
proof -
  have I: "registry_inv r" by (rule registry_reachable_inv [OF assms])
  then have inv: "seq_inv (rg_state r)" and b: "rg_final r \<union> lease_id ` set (rg_leases r) \<subseteq> burned (rg_state r)"
    by (auto simp: registry_inv_def burned_def)
  have "lease_id l \<notin> burned (rg_state r)" if "reserve_next (rg_state r) = (Some l, s)" for l s
    using reserve_next_spec [OF inv] that by (simp add: issues_least_def)
  moreover have "lease_id ` set ls \<inter> burned (rg_state r) = {}"
    if "reserve_batch base count (rg_state r) = (Some ls, s)" for base count ls s
    using reserve_batch_spec [OF inv, of base count] that by (auto split: if_splits)
  ultimately show ?thesis using I b unfolding registry_inv_def by blast
qed

theorem sequence_never_reissued_witness:
  "let (l, s) = (\<lparr>lease_id = 5, lease_manual = False, lease_release_on_drop = True\<rparr>,
         (advance (registry_new 5) 5)\<lparr>reserved := {5}\<rparr>);
       r = \<lparr>rg_state = s, rg_leases = [l], rg_final = {5}\<rparr>
   in registry_reachable 5 r \<and> distinct (map lease_id (rg_leases r)) \<and>
    (\<forall>base count ls s. reserve_batch base count (rg_state r) = (Some ls, s) \<longrightarrow>
      lease_id ` set ls \<inter> (rg_final r \<union> lease_id ` set (rg_leases r)) = {})"
proof -
  let ?r = "\<lparr>rg_state = registry_new 5, rg_leases = [], rg_final = {}\<rparr>"
  let ?l = "\<lparr>lease_id = 5, lease_manual = False, lease_release_on_drop = True\<rparr> :: sequence_lease"
  let ?s = "(advance (registry_new 5) 5)\<lparr>reserved := {5}\<rparr>"
  have "next_automatic (registry_new 5) = Some 5" "reserved (registry_new 5) = {}"
    "retired (registry_new 5) = []"
    by (simp_all add: registry_new_def Let_def max_def word_le_nat_alt)
  then have "reserve_next (rg_state ?r) = (Some ?l, ?s)"
    by (subst reserve_next.simps) (simp add: retired_range_def bt_floor_def)
  from reach_step [OF reach_new step_auto [OF this]]
  have "registry_reachable 5 \<lparr>rg_state = ?s, rg_leases = [?l], rg_final = {5}\<rparr>" by simp
  from this sequence_never_reissued [OF this] show ?thesis by simp
qed

text \<open>
  C36: retiring an identifier isolates it for good, whether it lies in the automatic prefix, in a
  retired range, next to one or two ranges (which are merged) or alone. It fails only at the bound
  of 65536 separate ranges, and then changes nothing, so the reservation stays.
\<close>

theorem retire_isolates:
  assumes "seq_inv s" and "retire k s = (isolated, s')"
  shows "seq_inv s' \<and> length (retired s') \<le> 65536 \<and>
    (if isolated then quarantined s' = insert k (quarantined s) \<and> reserved s' = reserved s - {k}
     else s' = s \<and> length (retired s) = 65536)"
proof -
  have "length (retired s') \<le> 65536" "length (retired s) \<le> 65536"
    using seq_invD(4) [OF assms(1)] seq_invD(4) [OF retire_spec(1) [OF assms]]
    by (simp_all add: MAX_RETIRED_SEQUENCE_RANGES_def)
  then show ?thesis
    using retire_spec(1,3) [OF assms] by (auto simp: MAX_RETIRED_SEQUENCE_RANGES_def)
qed

theorem retire_isolates_witness:
  "let s = registry_new 1; (isolated, s') = retire 9 s
   in seq_inv s' \<and> length (retired s') \<le> 65536 \<and>
    (if isolated then quarantined s' = insert 9 (quarantined s) \<and> reserved s' = reserved s - {9}
     else s' = s \<and> length (retired s) = 65536)"
  unfolding Let_def by (split prod.split, intro allI impI, rule retire_isolates [OF registry_new_inv(1)])

text \<open>
  C37: a manual batch is granted exactly when it has at most 255 consecutive identifiers (modulo
  2^32), none of which is burned; then precisely these are reserved, and otherwise nothing changes.
\<close>

theorem reserve_batch_exact:
  assumes "seq_inv s"
  shows "reserve_batch base count s =
    (if count \<le> 255 \<and> (\<forall>j < count. base + of_nat j \<notin> burned s)
     then (Some (map (\<lambda>j. \<lparr>lease_id = base + of_nat j, lease_manual = True,
             lease_release_on_drop = True\<rparr>) [0..<count]),
           s\<lparr>reserved := reserved s \<union> (\<lambda>j. base + of_nat j) ` {..<count}\<rparr>)
     else (None, s))"
proof -
  have "set (batch_sequences base count) = (\<lambda>j. base + of_nat j) ` {..<count}"
    by (auto simp: batch_sequences_def)
  moreover have "map (\<lambda>k. \<lparr>lease_id = k, lease_manual = True, lease_release_on_drop = True\<rparr>)
      (batch_sequences base count) = map (\<lambda>j. \<lparr>lease_id = base + of_nat j, lease_manual = True,
             lease_release_on_drop = True\<rparr>) [0..<count]"
    by (simp add: batch_sequences_def)
  ultimately show ?thesis using reserve_batch_spec [OF assms, of base count] by auto
qed

theorem reserve_batch_exact_witness:
  "reserve_batch (- 1) 2 (registry_new 1) =
    (if (2 :: nat) \<le> 255 \<and> (\<forall>j < 2. - 1 + of_nat j \<notin> burned (registry_new 1))
     then (Some (map (\<lambda>j. \<lparr>lease_id = - 1 + of_nat j, lease_manual = True,
             lease_release_on_drop = True\<rparr>) [0..<2]),
           (registry_new 1)\<lparr>reserved := reserved (registry_new 1) \<union> (\<lambda>j. - 1 + of_nat j) ` {..<2}\<rparr>)
     else (None, registry_new 1))"
  by (rule reserve_batch_exact) (rule registry_new_inv)

end
