(* ===== verification/Cmpp_Udh.thy ===== *)
theory Cmpp_Udh
  imports Cmpp_Types "HOL-Library.Multiset"
begin

text \<open>
  The pool of UDH references of \<open>src/connection.rs\<close>: concatenated messages to the same
  reassembly domain must not share the 8-bit reference while one of them is in flight or cooling
  down. A bucket holds two bitmaps of 256 bits and a min-heap of cooldown deadlines; the locales
  \<open>ref_set\<close> and \<open>deadline_heap\<close> state what the pool needs of them. An \<open>Instant\<close> is a number of
  nanoseconds; the hasher is the parameter \<open>hash\<close>.
\<close>

section \<open>Bitmaps\<close>

type_synonym bitmap = "u64 list"

definition udh_reference_position :: "u8 \<Rightarrow> nat \<times> u64" where
  "udh_reference_position reference =
     (let index = unat reference in (index div 64, push_bit (index mod 64) 1))"

definition bitmap_get :: "bitmap \<Rightarrow> u8 \<Rightarrow> bool" where
  "bitmap_get bitmap reference =
     (let (word, mask) = udh_reference_position reference in bitmap ! word AND mask \<noteq> 0)"

definition set_udh_reference :: "bitmap \<Rightarrow> u8 \<Rightarrow> bitmap" where
  "set_udh_reference bitmap reference =
     (let (word, mask) = udh_reference_position reference in bitmap[word := bitmap ! word OR mask])"

definition clear_udh_reference :: "bitmap \<Rightarrow> u8 \<Rightarrow> bitmap" where
  "clear_udh_reference bitmap reference =
     (let (word, mask) = udh_reference_position reference in bitmap[word := bitmap ! word AND NOT mask])"

locale ref_set =
  fixes none :: 'b
    and get :: "'b \<Rightarrow> u8 \<Rightarrow> bool"
    and put :: "'b \<Rightarrow> u8 \<Rightarrow> 'b"
    and unset :: "'b \<Rightarrow> u8 \<Rightarrow> 'b"
    and ok :: "'b \<Rightarrow> bool"
  assumes ok_none: "ok none" and get_none: "\<not> get none r"
    and ok_put: "ok b \<Longrightarrow> ok (put b r)" and get_put: "ok b \<Longrightarrow> get (put b r) x \<longleftrightarrow> x = r \<or> get b x"
    and ok_unset: "ok b \<Longrightarrow> ok (unset b r)" and get_unset: "ok b \<Longrightarrow> get (unset b r) x \<longleftrightarrow> x \<noteq> r \<and> get b x"
begin

definition members :: "'b \<Rightarrow> u8 set" where
  "members b = {r. get b r}"

lemma members_none: "members none = {}"
  by (simp add: members_def get_none)

lemma members_put: "ok b \<Longrightarrow> members (put b r) = insert r (members b)"
  by (auto simp: members_def get_put)

lemma members_unset: "ok b \<Longrightarrow> members (unset b r) = members b - {r}"
  by (auto simp: members_def get_unset)

end

definition bitmap_ok :: "bitmap \<Rightarrow> bool" where
  "bitmap_ok b \<longleftrightarrow> length b = 4"

lemma bitmap_get_bit: "bitmap_get b r = bit (b ! (unat r div 64)) (unat r mod 64)"
  by (simp add: bitmap_get_def udh_reference_position_def Let_def push_bit_of_1 bit_iff_and_push_bit_not_eq_0)

lemma position_less: "unat (r :: u8) div 64 < 4"
  using unat_u8_less [of r] by linarith

lemma same_position:
  "(x :: u8) = r \<longleftrightarrow> unat x div 64 = unat r div 64 \<and> unat x mod 64 = unat (r :: u8) mod 64"
  by (metis div_mult_mod_eq word_unat_eq_iff)

interpretation bitmap: ref_set "replicate 4 0" bitmap_get set_udh_reference clear_udh_reference bitmap_ok
proof unfold_locales
  fix b :: bitmap and r x :: u8
  note defs = bitmap_get_bit set_udh_reference_def clear_udh_reference_def udh_reference_position_def
    Let_def bitmap_ok_def nth_list_update bit_simps
  show "bitmap_ok (replicate 4 0)" by (simp add: bitmap_ok_def)
  show "\<not> bitmap_get (replicate 4 0) r" using position_less [of r] by (simp add: bitmap_get_bit)
  show "bitmap_ok b \<Longrightarrow> bitmap_ok (set_udh_reference b r)" "bitmap_ok b \<Longrightarrow> bitmap_ok (clear_udh_reference b r)"
    by (simp_all add: defs)
  assume "bitmap_ok b"
  then have p: "unat r div 64 < length b" using position_less [of r] by (simp add: bitmap_ok_def)
  have m: "unat x mod 64 < 64" by simp
  show "bitmap_get (set_udh_reference b r) x \<longleftrightarrow> x = r \<or> bitmap_get b x"
    using p m same_position [of x r] by (auto simp: defs)
  show "bitmap_get (clear_udh_reference b r) x \<longleftrightarrow> x \<noteq> r \<and> bitmap_get b x"
    using p m same_position [of x r] by (auto simp: defs)
qed

section \<open>The heap of deadlines\<close>

text \<open>\<open>BinaryHeap<Reverse<(Instant, u8)>>\<close>: the smallest deadline first, as a list in that order.\<close>

type_synonym heap = "(nat \<times> u8) list"

definition heap_le :: "nat \<times> u8 \<Rightarrow> nat \<times> u8 \<Rightarrow> bool" where
  "heap_le p q \<longleftrightarrow> fst p < fst q \<or> fst p = fst q \<and> snd p \<le> snd q"

fun heap_push :: "nat \<times> u8 \<Rightarrow> heap \<Rightarrow> heap" where
  "heap_push p [] = [p]"
| "heap_push p (q # h) = (if heap_le p q then p # q # h else q # heap_push p h)"

fun heap_peek :: "heap \<Rightarrow> (nat \<times> u8) option" where
  "heap_peek [] = None"
| "heap_peek (p # h) = Some p"

definition heap_pop :: "heap \<Rightarrow> heap" where
  "heap_pop h = tl h"

locale deadline_heap =
  fixes nothing :: 'h
    and push :: "nat \<times> u8 \<Rightarrow> 'h \<Rightarrow> 'h"
    and peek :: "'h \<Rightarrow> (nat \<times> u8) option"
    and pop :: "'h \<Rightarrow> 'h"
    and content :: "'h \<Rightarrow> (nat \<times> u8) multiset"
    and ok :: "'h \<Rightarrow> bool"
  assumes ok_nothing: "ok nothing" and content_nothing: "content nothing = {#}"
    and ok_push: "ok h \<Longrightarrow> ok (push p h)" and content_push: "ok h \<Longrightarrow> content (push p h) = add_mset p (content h)"
    and peek_None: "ok h \<Longrightarrow> peek h = None \<longleftrightarrow> content h = {#}"
    and peek_Some: "ok h \<Longrightarrow> peek h = Some p \<Longrightarrow> p \<in># content h \<and> (\<forall>q \<in># content h. fst p \<le> fst q)"
    and ok_pop: "ok h \<Longrightarrow> ok (pop h)"
    and content_pop: "ok h \<Longrightarrow> peek h = Some p \<Longrightarrow> content (pop h) = content h - {#p#}"
begin

lemma pop_smaller: "ok h \<Longrightarrow> peek h = Some p \<Longrightarrow> size (content (pop h)) < size (content h)"
  using content_pop peek_Some by (simp add: size_Diff1_less)

lemma peek_late: "ok h \<Longrightarrow> peek h = Some p \<Longrightarrow> n < fst p \<Longrightarrow> q \<in># content h \<Longrightarrow> n < fst q"
  using peek_Some by fastforce

end

definition heap_ok :: "heap \<Rightarrow> bool" where
  "heap_ok h \<longleftrightarrow> sorted_wrt heap_le h"

lemma heap_le_trans: "heap_le p q \<Longrightarrow> heap_le q r \<Longrightarrow> heap_le p r"
  by (auto simp: heap_le_def)

lemma heap_le_linear: "\<not> heap_le p q \<Longrightarrow> heap_le q p"
  by (auto simp: heap_le_def not_less not_le)

lemma set_heap_push [simp]: "set (heap_push p h) = insert p (set h)"
  by (induction p h rule: heap_push.induct) auto

lemma mset_heap_push: "mset (heap_push p h) = add_mset p (mset h)"
  by (induction p h rule: heap_push.induct) auto

lemma heap_ok_push: "heap_ok h \<Longrightarrow> heap_ok (heap_push p h)"
proof (induction p h rule: heap_push.induct)
  case (2 p q h)
  show ?case
  proof (cases "heap_le p q")
    case True
    then show ?thesis using 2 heap_le_trans by (auto simp: heap_ok_def)
  next
    case False
    then show ?thesis using 2 heap_le_linear [OF False] by (auto simp: heap_ok_def)
  qed
qed (simp add: heap_ok_def)

interpretation heap: deadline_heap "[]" heap_push heap_peek heap_pop mset heap_ok
proof unfold_locales
  fix h :: heap and p
  show "heap_ok []" by (simp add: heap_ok_def)
  show "mset [] = {#}" by simp
  show "heap_ok h \<Longrightarrow> heap_ok (heap_push p h)" by (rule heap_ok_push)
  show "mset (heap_push p h) = add_mset p (mset h)" by (rule mset_heap_push)
  show "heap_peek h = None \<longleftrightarrow> mset h = {#}" by (cases h) simp_all
  show "heap_ok h \<Longrightarrow> heap_peek h = Some p \<Longrightarrow> p \<in># mset h \<and> (\<forall>q \<in># mset h. fst p \<le> fst q)"
    by (cases h) (auto simp: heap_ok_def heap_le_def)
  show "heap_ok h \<Longrightarrow> heap_ok (heap_pop h)" by (cases h) (simp_all add: heap_ok_def heap_pop_def)
  show "heap_peek h = Some p \<Longrightarrow> mset (heap_pop h) = mset h - {#p#}"
    by (cases h) (simp_all add: heap_pop_def)
qed

section \<open>Buckets\<close>

record udh_bucket =
  ub_active :: bitmap
  ub_cooling :: bitmap
  ub_cooldowns :: heap

definition bucket_default :: udh_bucket where
  "bucket_default = \<lparr>ub_active = replicate 4 0, ub_cooling = replicate 4 0, ub_cooldowns = []\<rparr>"

definition udh_reference_is_set :: "udh_bucket \<Rightarrow> u8 \<Rightarrow> bool" where
  "udh_reference_is_set bucket reference =
     (let (word, mask) = udh_reference_position reference in
      (ub_active bucket ! word OR ub_cooling bucket ! word) AND mask \<noteq> 0)"

function purge_udh_cooldowns :: "udh_bucket \<Rightarrow> nat \<Rightarrow> udh_bucket" where
  "purge_udh_cooldowns bucket now =
     (case heap_peek (ub_cooldowns bucket) of
        None \<Rightarrow> bucket
      | Some (deadline, reference) \<Rightarrow>
          if now < deadline then bucket
          else purge_udh_cooldowns
            (bucket\<lparr>ub_cooldowns := heap_pop (ub_cooldowns bucket),
                    ub_cooling := clear_udh_reference (ub_cooling bucket) reference\<rparr>) now)"
  by pat_completeness auto
termination
proof (relation "measure (\<lambda>(bucket, now). length (ub_cooldowns bucket))", simp)
  fix bucket now x2 x y
  assume "heap_peek (ub_cooldowns bucket) = Some x2"
  then show "((bucket\<lparr>ub_cooldowns := heap_pop (ub_cooldowns bucket),
                    ub_cooling := clear_udh_reference (ub_cooling bucket) y\<rparr>, now), bucket, now)
      \<in> measure (\<lambda>(bucket, now). length (ub_cooldowns bucket))"
    by (cases "ub_cooldowns bucket") (simp_all add: heap_pop_def)
qed

declare purge_udh_cooldowns.simps [simp del]

definition active_refs :: "udh_bucket \<Rightarrow> u8 set" where
  "active_refs bucket = bitmap.members (ub_active bucket)"

definition cooling_refs :: "udh_bucket \<Rightarrow> u8 set" where
  "cooling_refs bucket = bitmap.members (ub_cooling bucket)"

text \<open>
  A well-formed bucket: a reference is not both in use and cooling, and every pending deadline
  belongs to one cooling reference.
\<close>

definition bucket_ok :: "udh_bucket \<Rightarrow> bool" where
  "bucket_ok bucket \<longleftrightarrow> bitmap_ok (ub_active bucket) \<and> bitmap_ok (ub_cooling bucket) \<and>
     heap_ok (ub_cooldowns bucket) \<and> active_refs bucket \<inter> cooling_refs bucket = {} \<and>
     distinct (map snd (ub_cooldowns bucket)) \<and>
     snd ` set (ub_cooldowns bucket) \<subseteq> cooling_refs bucket"

lemma bucket_default_ok [simp]:
  "bucket_ok bucket_default" "active_refs bucket_default = {}" "cooling_refs bucket_default = {}"
  "ub_cooldowns bucket_default = []"
  using bitmap.ok_none bitmap.members_none heap.ok_nothing
  by (simp_all add: bucket_ok_def bucket_default_def active_refs_def cooling_refs_def)

lemma udh_reference_is_set_iff:
  "udh_reference_is_set bucket r \<longleftrightarrow> r \<in> active_refs bucket \<union> cooling_refs bucket"
  unfolding udh_reference_is_set_def udh_reference_position_def Let_def prod.case
    bit_iff_and_push_bit_not_eq_0 [symmetric]
  by (simp add: active_refs_def cooling_refs_def bitmap.members_def bitmap_get_bit bit_or_iff)

text \<open>Purging frees exactly the references whose deadline has passed.\<close>

lemma purge_spec:
  assumes "bucket_ok bucket"
  shows "bucket_ok (purge_udh_cooldowns bucket now)" (is ?A)
    and "ub_active (purge_udh_cooldowns bucket now) = ub_active bucket" (is ?B)
    and "set (ub_cooldowns (purge_udh_cooldowns bucket now)) =
      {p \<in> set (ub_cooldowns bucket). now < fst p}" (is ?C)
    and "cooling_refs (purge_udh_cooldowns bucket now) =
      cooling_refs bucket - snd ` {p \<in> set (ub_cooldowns bucket). fst p \<le> now}" (is ?D)
proof -
  have "?A \<and> ?B \<and> ?C \<and> ?D"
    using assms
  proof (induction bucket now rule: purge_udh_cooldowns.induct)
    case (1 bucket now)
    show ?case
    proof (cases "ub_cooldowns bucket")
      case Nil
      then show ?thesis using "1.prems" by (simp add: purge_udh_cooldowns.simps)
    next
      case (Cons p h)
      obtain d r where p: "p = (d, r)" by (cases p)
      have hs: "heap_ok (p # h)" using "1.prems" Cons by (simp add: bucket_ok_def)
      show ?thesis
      proof (cases "now < d")
        case True
        have late: "now < fst q" if "q \<in> set (p # h)" for q
          using heap.peek_late [OF hs, of p now q] True p that by simp
        have "purge_udh_cooldowns bucket now = bucket"
          using True Cons p by (simp add: purge_udh_cooldowns.simps)
        moreover have "{q \<in> set (p # h). now < fst q} = set (p # h)" using late by auto
        moreover have "{q \<in> set (p # h). fst q \<le> now} = {}"
        proof (rule equals0I)
          fix q assume "q \<in> {q \<in> set (p # h). fst q \<le> now}"
          then show False using late [of q] by simp
        qed
        ultimately show ?thesis using "1.prems" Cons by (simp only:) simp
      next
        case False
        define b where "b = bucket\<lparr>ub_cooldowns := heap_pop (ub_cooldowns bucket),
                    ub_cooling := clear_udh_reference (ub_cooling bucket) r\<rparr>"
        have cool: "cooling_refs b = cooling_refs bucket - {r}"
          using "1.prems" bitmap.members_unset by (simp add: cooling_refs_def bucket_ok_def b_def)
        have act: "active_refs b = active_refs bucket" "ub_active b = ub_active bucket"
          by (simp_all add: active_refs_def b_def)
        have h: "ub_cooldowns b = h" using Cons by (simp add: heap_pop_def b_def)
        have "bitmap_ok (ub_cooling b)" using "1.prems" bitmap.ok_unset by (simp add: b_def bucket_ok_def)
        then have ok: "bucket_ok b"
          using "1.prems" Cons p unfolding bucket_ok_def cool act h by (auto simp: heap_ok_def)
        have e: "purge_udh_cooldowns bucket now = purge_udh_cooldowns b now"
          using False Cons p by (simp add: purge_udh_cooldowns.simps [of bucket] b_def)
        have "heap_peek (ub_cooldowns bucket) = Some (d, r)" using Cons p by simp
        note IH = "1.IH" [OF this refl False ok [unfolded b_def], folded b_def]
        have sets: "{q \<in> set (p # h). now < fst q} = {q \<in> set h. now < fst q}"
          "{q \<in> set (p # h). fst q \<le> now} = insert p {q \<in> set h. fst q \<le> now}"
          using False p by auto
        have "cooling_refs bucket - {r} - snd ` {q \<in> set h. fst q \<le> now} =
            cooling_refs bucket - snd ` {q \<in> set (p # h). fst q \<le> now}"
          unfolding sets(2) unfolding p by auto
        then show ?thesis
          using IH unfolding e cool h act Cons sets(1) by simp
      qed
    qed
  qed
  then show ?A ?B ?C ?D by simp_all
qed


section \<open>The pool\<close>

definition UDH_REFERENCE_BUCKET_COUNT :: nat where "UDH_REFERENCE_BUCKET_COUNT = 4096"

record udh_lease =
  ul_bucket_ids :: "nat list"
  ul_reference :: u8
  ul_cooldown :: nat
  ul_exposed :: bool

definition udh_pool_new :: "udh_bucket list" where
  "udh_pool_new = replicate UDH_REFERENCE_BUCKET_COUNT bucket_default"

definition normalize_udh_address :: "rstr \<Rightarrow> bytes" where
  "normalize_udh_address value =
     (let bs = as_bytes value; len = min (length bs) 21
      in take len bs @ drop len (replicate 21 0))"

definition bucket_id :: "(bytes \<Rightarrow> bytes \<Rightarrow> u64) \<Rightarrow> bytes \<Rightarrow> bytes \<Rightarrow> nat" where
  "bucket_id hash source destination =
     unat (hash source destination AND of_nat (UDH_REFERENCE_BUCKET_COUNT - 1))"

definition bucket_ids :: "(bytes \<Rightarrow> bytes \<Rightarrow> u64) \<Rightarrow> rstr \<Rightarrow> rstr list \<Rightarrow> nat list" where
  "bucket_ids hash src_id destinations =
     (let source = normalize_udh_address src_id in
      if destinations = [] then [bucket_id hash source (replicate 21 0)]
      else remdups_adj (sort (map (\<lambda>d. bucket_id hash source (normalize_udh_address d)) destinations)))"

text \<open>
  \<open>try_acquire\<close> holds the locks of all its buckets; \<open>now\<close> was read before. An index out of range
  panics. The references are tried from the preferred one on, wrapping at 256.
\<close>

definition update_all :: "('a \<Rightarrow> 'a) \<Rightarrow> nat list \<Rightarrow> 'a list \<Rightarrow> 'a list" where
  "update_all f ids pool = fold (\<lambda>i p. p[i := f (p ! i)]) ids pool"

definition try_acquire ::
    "nat list \<Rightarrow> u8 \<Rightarrow> nat \<Rightarrow> nat \<Rightarrow> udh_bucket list \<Rightarrow> (error, udh_lease option \<times> udh_bucket list) res" where
  "try_acquire ids0 preferred cooldown now pool =
     (let ids = remdups_adj (sort ids0) in
      if list_ex (\<lambda>i. length pool \<le> i) ids then Panic
      else
        let purged = update_all (\<lambda>b. purge_udh_cooldowns b now) ids pool in
        (case find (\<lambda>r. list_all (\<lambda>i. \<not> udh_reference_is_set (purged ! i) r) ids)
                (map (\<lambda>offset. preferred + of_nat offset) [0..<256]) of
           None \<Rightarrow> Ok (None, purged)
         | Some r \<Rightarrow>
             Ok (Some \<lparr>ul_bucket_ids = ids, ul_reference = r, ul_cooldown = cooldown, ul_exposed = False\<rparr>,
                 update_all (\<lambda>b. b\<lparr>ub_active := set_udh_reference (ub_active b) r\<rparr>) ids purged)))"

text \<open>\<open>now.checked_add(cooldown)\<close>: an \<open>Instant\<close> has signed 64-bit seconds.\<close>

definition instant_max :: nat where
  "instant_max = 9223372036854775807999999999"

definition instant_checked_add :: "nat \<Rightarrow> nat \<Rightarrow> nat option" where
  "instant_checked_add now d = (if now + d \<le> instant_max then Some (now + d) else None)"

definition release_deadline :: "udh_lease \<Rightarrow> nat \<Rightarrow> nat option" where
  "release_deadline l now = (if ul_exposed l then instant_checked_add now (ul_cooldown l) else None)"

text \<open>The critical section of \<open>release\<close> for one bucket.\<close>

definition release_bucket :: "bool \<Rightarrow> nat option \<Rightarrow> u8 \<Rightarrow> udh_bucket \<Rightarrow> udh_bucket" where
  "release_bucket exposed deadline r b =
     (let b1 = b\<lparr>ub_active := clear_udh_reference (ub_active b) r\<rparr> in
      if exposed then
        (let b2 = b1\<lparr>ub_cooling := set_udh_reference (ub_cooling b1) r\<rparr> in
         case deadline of
           Some d \<Rightarrow> b2\<lparr>ub_cooldowns := heap_push (d, r) (ub_cooldowns b2)\<rparr>
         | None \<Rightarrow> b2)
      else b1)"

definition udh_release :: "udh_lease \<Rightarrow> nat \<Rightarrow> udh_bucket list \<Rightarrow> udh_bucket list" where
  "udh_release l now pool =
     update_all (release_bucket (ul_exposed l) (release_deadline l now) (ul_reference l)) (ul_bucket_ids l) pool"

definition mark_exposed :: "udh_lease \<Rightarrow> udh_lease" where
  "mark_exposed l = l\<lparr>ul_exposed := True\<rparr>"

section \<open>Acquiring\<close>

lemma update_all_length [simp]: "length (update_all f ids pool) = length pool"
  by (induction ids arbitrary: pool) (simp_all add: update_all_def)

lemma update_all_nth:
  "distinct ids \<Longrightarrow> \<forall>i \<in> set ids. i < length pool \<Longrightarrow>
   update_all f ids pool ! j = (if j \<in> set ids then f (pool ! j) else pool ! j)"
proof (induction ids arbitrary: pool)
  case Nil
  then show ?case by (simp add: update_all_def)
next
  case (Cons i ids)
  have "update_all f (i # ids) pool = update_all f ids (pool[i := f (pool ! i)])"
    by (simp add: update_all_def)
  then show ?case using Cons by (auto simp: nth_list_update)
qed

lemma sorted_remdups_adj_distinct: "sorted xs \<Longrightarrow> distinct (remdups_adj (xs :: nat list))"
proof (induction xs rule: remdups_adj.induct)
  case (3 x y xs)
  then show ?case by (cases "x = y") auto
qed simp_all

lemma distinct_ids: "distinct (remdups_adj (sort (ids :: nat list)))"
  by (rule sorted_remdups_adj_distinct) simp

definition all_references :: "u8 \<Rightarrow> u8 list" where
  "all_references preferred = map (\<lambda>offset. preferred + of_nat offset) [0..<256]"

lemma set_all_references: "set (all_references preferred) = UNIV"
proof -
  have "r \<in> set (all_references preferred)" for r
  proof -
    have "preferred + of_nat (unat (r - preferred)) = r" by simp
    moreover have "unat (r - preferred) \<in> set [0..<256]" using unat_u8_less [of "r - preferred"] by simp
    ultimately show ?thesis unfolding all_references_def set_map by (rule image_eqI [OF sym])
  qed
  then show ?thesis by blast
qed

text \<open>The buckets after purging, and the references taken in any of them.\<close>

definition purged_pool :: "nat list \<Rightarrow> nat \<Rightarrow> udh_bucket list \<Rightarrow> udh_bucket list" where
  "purged_pool ids now pool = update_all (\<lambda>b. purge_udh_cooldowns b now) ids pool"

definition taken_refs :: "nat list \<Rightarrow> udh_bucket list \<Rightarrow> u8 set" where
  "taken_refs ids pool = (\<Union>i \<in> set ids. active_refs (pool ! i) \<union> cooling_refs (pool ! i))"

lemma try_acquire_eq:
  assumes "\<forall>i \<in> set ids0. i < length pool"
  defines "ids \<equiv> remdups_adj (sort ids0)"
  shows "try_acquire ids0 preferred cooldown now pool =
    (case find (\<lambda>r. r \<notin> taken_refs ids (purged_pool ids now pool)) (all_references preferred) of
       None \<Rightarrow> Ok (None, purged_pool ids now pool)
     | Some r \<Rightarrow>
         Ok (Some \<lparr>ul_bucket_ids = ids, ul_reference = r, ul_cooldown = cooldown, ul_exposed = False\<rparr>,
           update_all (\<lambda>b. b\<lparr>ub_active := set_udh_reference (ub_active b) r\<rparr>) ids
             (purged_pool ids now pool)))"
proof -
  have "\<not> list_ex (\<lambda>i. length pool \<le> i) ids" using assms(1) by (auto simp: list_ex_iff ids_def)
  moreover have "(\<lambda>r. list_all (\<lambda>i. \<not> udh_reference_is_set (purged_pool ids now pool ! i) r) ids) =
      (\<lambda>r. r \<notin> taken_refs ids (purged_pool ids now pool))"
    by (auto simp: fun_eq_iff list_all_iff udh_reference_is_set_iff taken_refs_def)
  ultimately show ?thesis
    unfolding try_acquire_def Let_def ids_def [symmetric] purged_pool_def [symmetric]
      all_references_def [symmetric]
    by simp
qed


lemma find_all_references_None: "find P (all_references preferred) = None \<longleftrightarrow> (\<forall>r. \<not> P r)"
  by (simp add: find_None_iff set_all_references)

lemma purged_pool_nth:
  assumes "distinct ids" "\<forall>i \<in> set ids. i < length pool"
  shows "purged_pool ids now pool ! j = (if j \<in> set ids then purge_udh_cooldowns (pool ! j) now else pool ! j)"
  unfolding purged_pool_def by (rule update_all_nth [OF assms])

lemma active_refs_set:
  "bucket_ok b \<Longrightarrow> active_refs (b\<lparr>ub_active := set_udh_reference (ub_active b) r\<rparr>) = insert r (active_refs b)"
  using bitmap.members_put by (simp add: active_refs_def bucket_ok_def)

lemma bucket_ok_acquire:
  "bucket_ok b \<Longrightarrow> r \<notin> cooling_refs b \<Longrightarrow> bucket_ok (b\<lparr>ub_active := set_udh_reference (ub_active b) r\<rparr>)"
  using active_refs_set [of b r] bitmap.ok_put [of "ub_active b" r]
  unfolding bucket_ok_def by (simp add: cooling_refs_def)

definition pool_ok :: "udh_bucket list \<Rightarrow> bool" where
  "pool_ok pool \<longleftrightarrow> (\<forall>i < length pool. bucket_ok (pool ! i))"

text \<open>A reference granted by \<open>try_acquire\<close> was free in each of its buckets, and is now in use there.\<close>

lemma try_acquire_spec:
  assumes "pool_ok pool" "\<forall>i \<in> set ids0. i < length pool"
    and "try_acquire ids0 preferred cooldown now pool = Ok (res, pool')"
  shows "length pool' = length pool" "pool_ok pool'"
    and "j < length pool \<Longrightarrow> active_refs (pool' ! j) =
      (case res of Some l \<Rightarrow> (if j \<in> set ids0 then insert (ul_reference l) (active_refs (pool ! j)) else active_refs (pool ! j))
       | None \<Rightarrow> active_refs (pool ! j))"
    and "j < length pool \<Longrightarrow> {p \<in> set (ub_cooldowns (pool ! j)). now < fst p} \<subseteq> set (ub_cooldowns (pool' ! j))"
    and "res = Some l \<Longrightarrow> ul_bucket_ids l = remdups_adj (sort ids0) \<and> ul_exposed l = False \<and>
      (\<forall>j \<in> set ids0. ul_reference l \<notin> active_refs (pool ! j) \<and>
        ul_reference l \<notin> snd ` {p \<in> set (ub_cooldowns (pool ! j)). now < fst p})"
proof -
  let ?ids = "remdups_adj (sort ids0)"
  let ?pp = "purged_pool ?ids now pool"
  let ?grab = "\<lambda>r b. b\<lparr>ub_active := set_udh_reference (ub_active b) r\<rparr>"
  have ids: "distinct ?ids" "\<forall>i \<in> set ?ids. i < length pool" "set ?ids = set ids0"
    using assms(2) distinct_ids by simp_all
  have ids': "\<forall>i \<in> set ?ids. i < length ?pp" using ids(2) by (simp add: purged_pool_def)
  have lp: "length ?pp = length pool" by (simp add: purged_pool_def)
  have pn: "?pp ! j = (if j \<in> set ids0 then purge_udh_cooldowns (pool ! j) now else pool ! j)" for j
    using purged_pool_nth [OF ids(1,2)] by simp
  have pok: "bucket_ok (?pp ! j)" if "j < length pool" for j
    using assms(1) that purge_spec(1) by (simp add: pn pool_ok_def)
  have pact: "active_refs (?pp ! j) = active_refs (pool ! j)" if "j < length pool" for j
    using assms(1) that purge_spec(2) by (simp add: pn pool_ok_def active_refs_def)
  have pcool: "{p \<in> set (ub_cooldowns (pool ! j)). now < fst p} \<subseteq> set (ub_cooldowns (?pp ! j))"
    if "j < length pool" for j
    using assms(1) that purge_spec(3) by (auto simp: pn pool_ok_def)
  note eq = try_acquire_eq [OF assms(2), of preferred cooldown now]
  have "length pool' = length pool \<and> pool_ok pool' \<and>
    (\<forall>j < length pool. active_refs (pool' ! j) =
      (case res of Some l \<Rightarrow> (if j \<in> set ids0 then insert (ul_reference l) (active_refs (pool ! j)) else active_refs (pool ! j))
       | None \<Rightarrow> active_refs (pool ! j)) \<and>
       {p \<in> set (ub_cooldowns (pool ! j)). now < fst p} \<subseteq> set (ub_cooldowns (pool' ! j))) \<and>
    (\<forall>l. res = Some l \<longrightarrow> ul_bucket_ids l = ?ids \<and> ul_exposed l = False \<and>
      (\<forall>j \<in> set ids0. ul_reference l \<notin> active_refs (pool ! j) \<and>
        ul_reference l \<notin> snd ` {p \<in> set (ub_cooldowns (pool ! j)). now < fst p}))"
  proof (cases "find (\<lambda>r. r \<notin> taken_refs ?ids ?pp) (all_references preferred)")
    case None
    then have "res = None" "pool' = ?pp" using assms(3) eq by simp_all
    then show ?thesis using lp pok pact pcool by (simp add: pool_ok_def)
  next
    case (Some r)
    then have res: "res = Some \<lparr>ul_bucket_ids = ?ids, ul_reference = r, ul_cooldown = cooldown, ul_exposed = False\<rparr>"
      and pool': "pool' = update_all (?grab r) ?ids ?pp"
      using assms(3) eq by simp_all
    have free: "r \<notin> taken_refs ?ids ?pp" using Some by (auto simp: find_Some_iff)
    have n: "pool' ! j = (if j \<in> set ids0 then ?grab r (?pp ! j) else ?pp ! j)" for j
      unfolding pool' using update_all_nth [OF ids(1) ids', of "?grab r" j] ids(3) by simp
    have fr: "r \<notin> active_refs (?pp ! j)" "r \<notin> cooling_refs (?pp ! j)" if "j \<in> set ids0" for j
      using free that ids(3) by (auto simp: taken_refs_def)
    have hp: "r \<notin> snd ` {p \<in> set (ub_cooldowns (pool ! j)). now < fst p}" if "j \<in> set ids0" for j
    proof -
      have jl: "j < length pool" using that assms(2) by blast
      have "snd ` set (ub_cooldowns (?pp ! j)) \<subseteq> cooling_refs (?pp ! j)"
        using pok [OF jl] by (simp add: bucket_ok_def)
      then show ?thesis using fr(2) [OF that] pcool [OF jl] by blast
    qed
    have "active_refs (pool' ! j) = (if j \<in> set ids0 then insert r (active_refs (pool ! j)) else active_refs (pool ! j))"
      if "j < length pool" for j
      using active_refs_set [OF pok [OF that]] pact [OF that] by (simp add: n)
    moreover have "bucket_ok (pool' ! j)" if "j < length pool" for j
      using bucket_ok_acquire [OF pok [OF that]] pok [OF that] fr(2) by (simp add: n)
    moreover have "ub_cooldowns (pool' ! j) = ub_cooldowns (?pp ! j)" for j by (simp add: n)
    moreover have "r \<notin> active_refs (pool ! j)" if "j \<in> set ids0" for j
      using fr(1) [OF that] pact that assms(2) by auto
    moreover have "length pool' = length pool" using lp by (simp add: pool')
    ultimately show ?thesis using res hp pcool by (simp add: pool_ok_def)
  qed
  then show "length pool' = length pool" "pool_ok pool'"
    "j < length pool \<Longrightarrow> active_refs (pool' ! j) =
      (case res of Some l \<Rightarrow> (if j \<in> set ids0 then insert (ul_reference l) (active_refs (pool ! j)) else active_refs (pool ! j))
       | None \<Rightarrow> active_refs (pool ! j))"
    "j < length pool \<Longrightarrow> {p \<in> set (ub_cooldowns (pool ! j)). now < fst p} \<subseteq> set (ub_cooldowns (pool' ! j))"
    "res = Some l \<Longrightarrow> ul_bucket_ids l = ?ids \<and> ul_exposed l = False \<and>
      (\<forall>j \<in> set ids0. ul_reference l \<notin> active_refs (pool ! j) \<and>
        ul_reference l \<notin> snd ` {p \<in> set (ub_cooldowns (pool ! j)). now < fst p})"
    by blast+
qed

lemma try_acquire_not_Panic:
  "\<forall>i \<in> set ids0. i < length pool \<Longrightarrow> try_acquire ids0 preferred cooldown now pool \<noteq> Panic"
  using try_acquire_eq [of ids0 pool preferred cooldown now] by (auto split: option.split)

lemma release_bucket_spec:
  assumes "bucket_ok b" "r \<in> active_refs b"
  shows "bucket_ok (release_bucket exposed deadline r b)"
    "active_refs (release_bucket exposed deadline r b) = active_refs b - {r}"
    "set (ub_cooldowns (release_bucket exposed deadline r b)) = set (ub_cooldowns b) \<union>
      (if exposed then (case deadline of Some d \<Rightarrow> {(d, r)} | None \<Rightarrow> {}) else {})"
proof -
  have ok: "bitmap_ok (ub_active b)" "bitmap_ok (ub_cooling b)" using assms(1) by (simp_all add: bucket_ok_def)
  have a: "active_refs (release_bucket exposed deadline r b) = active_refs b - {r}"
    using bitmap.members_unset [OF ok(1)]
    by (simp add: release_bucket_def Let_def active_refs_def split: option.split)
  have c: "cooling_refs (release_bucket exposed deadline r b) = (if exposed then insert r (cooling_refs b) else cooling_refs b)"
    using bitmap.members_put [OF ok(2)]
    by (simp add: release_bucket_def Let_def cooling_refs_def split: option.split)
  have h: "ub_cooldowns (release_bucket exposed deadline r b) =
      (if exposed then (case deadline of Some d \<Rightarrow> heap_push (d, r) (ub_cooldowns b) | None \<Rightarrow> ub_cooldowns b)
       else ub_cooldowns b)"
    by (simp add: release_bucket_def Let_def split: option.split)
  show "active_refs (release_bucket exposed deadline r b) = active_refs b - {r}" by (rule a)
  show "set (ub_cooldowns (release_bucket exposed deadline r b)) = set (ub_cooldowns b) \<union>
      (if exposed then (case deadline of Some d \<Rightarrow> {(d, r)} | None \<Rightarrow> {}) else {})"
    by (auto simp: h split: option.split)
  have "r \<notin> snd ` set (ub_cooldowns b)" using assms by (auto simp: bucket_ok_def)
  moreover have "distinct (map snd (heap_push p g)) \<longleftrightarrow> snd p \<notin> snd ` set g \<and> distinct (map snd g)" for p g
    by (induction p g rule: heap_push.induct) auto
  moreover have "bitmap_ok (ub_active (release_bucket exposed deadline r b))"
    "bitmap_ok (ub_cooling (release_bucket exposed deadline r b))"
    using bitmap.ok_unset bitmap.ok_put ok by (simp_all add: release_bucket_def Let_def split: option.split)
  ultimately show "bucket_ok (release_bucket exposed deadline r b)"
    using assms unfolding bucket_ok_def a c h by (auto simp: heap_ok_push split: option.split)
qed

lemma bucket_id_less: "bucket_id hash source destination < 4096"
proof -
  have "(of_nat (UDH_REFERENCE_BUCKET_COUNT - 1) :: u64) = mask 12"
    by (simp add: UDH_REFERENCE_BUCKET_COUNT_def mask_eq_exp_minus_1)
  then have "bucket_id hash source destination = unat (take_bit 12 (hash source destination))"
    by (simp add: bucket_id_def take_bit_eq_mask)
  then show ?thesis by (simp only: unsigned_take_bit_eq) (simp add: take_bit_eq_mod)
qed

lemma bucket_ids_less: "i \<in> set (bucket_ids hash src dests) \<Longrightarrow> i < 4096"
  using bucket_id_less by (auto simp: bucket_ids_def Let_def split: if_splits)


section \<open>Runs of the pool\<close>

text \<open>
  The pool shared by all connections: leases held by submissions, leases being released (their
  buckets are unlocked one after another, so other tasks may acquire in between), a clock, and
  (ghost) every cooldown ever started. An acquisition may use a clock reading taken earlier.
\<close>

record udh_releasing =
  ur_ids :: "nat list"
  ur_reference :: u8
  ur_exposed :: bool
  ur_deadline :: "nat option"

record udh_world =
  uw_pool :: "udh_bucket list"
  uw_leases :: "udh_lease list"
  uw_releasing :: "udh_releasing list"
  uw_clock :: nat
  uw_cool :: "(nat \<times> u8 \<times> nat) set"

definition udh_world_new :: udh_world where
  "udh_world_new = \<lparr>uw_pool = udh_pool_new, uw_leases = [], uw_releasing = [], uw_clock = 0, uw_cool = {}\<rparr>"

inductive udh_step :: "(bytes \<Rightarrow> bytes \<Rightarrow> u64) \<Rightarrow> udh_world \<Rightarrow> udh_world \<Rightarrow> bool" for hash where
  udh_tick: "uw_clock w \<le> t \<Longrightarrow> udh_step hash w (w\<lparr>uw_clock := t\<rparr>)"
| udh_acquire: "now \<le> uw_clock w \<Longrightarrow>
    try_acquire (bucket_ids hash src dests) preferred cooldown now (uw_pool w) = Ok (res, pool) \<Longrightarrow>
    udh_step hash w (w\<lparr>uw_pool := pool,
      uw_leases := (case res of Some l \<Rightarrow> l # uw_leases w | None \<Rightarrow> uw_leases w)\<rparr>)"
| udh_expose: "uw_leases w = ls1 @ l # ls2 \<Longrightarrow>
    udh_step hash w (w\<lparr>uw_leases := ls1 @ mark_exposed l # ls2\<rparr>)"
| udh_begin_release: "uw_leases w = ls1 @ l # ls2 \<Longrightarrow>
    udh_step hash w (w\<lparr>uw_leases := ls1 @ ls2,
      uw_releasing := \<lparr>ur_ids = ul_bucket_ids l, ur_reference = ul_reference l,
        ur_exposed = ul_exposed l, ur_deadline = release_deadline l (uw_clock w)\<rparr> # uw_releasing w\<rparr>)"
| udh_release_one: "uw_releasing w = rs1 @ rl # rs2 \<Longrightarrow> ur_ids rl = b # bs \<Longrightarrow>
    udh_step hash w (w\<lparr>
      uw_pool := (uw_pool w)[b := release_bucket (ur_exposed rl) (ur_deadline rl) (ur_reference rl) (uw_pool w ! b)],
      uw_releasing := rs1 @ rl\<lparr>ur_ids := bs\<rparr> # rs2,
      uw_cool := uw_cool w \<union> (if ur_exposed rl then
        (case ur_deadline rl of Some d \<Rightarrow> {(b, ur_reference rl, d)} | None \<Rightarrow> {}) else {})\<rparr>)"

inductive udh_reachable :: "(bytes \<Rightarrow> bytes \<Rightarrow> u64) \<Rightarrow> udh_world \<Rightarrow> bool" for hash where
  udh_start: "udh_reachable hash udh_world_new"
| udh_next: "udh_reachable hash w \<Longrightarrow> udh_step hash w w' \<Longrightarrow> udh_reachable hash w'"

text \<open>Who is entitled to which reference of which bucket.\<close>

definition lease_claims :: "udh_lease \<Rightarrow> (nat \<times> u8) list" where
  "lease_claims l = map (\<lambda>b. (b, ul_reference l)) (ul_bucket_ids l)"

definition releasing_claims :: "udh_releasing \<Rightarrow> (nat \<times> u8) list" where
  "releasing_claims rl = map (\<lambda>b. (b, ur_reference rl)) (ur_ids rl)"

definition claims :: "udh_world \<Rightarrow> (nat \<times> u8) list" where
  "claims w = concat (map lease_claims (uw_leases w)) @ concat (map releasing_claims (uw_releasing w))"

definition in_use :: "udh_bucket list \<Rightarrow> (nat \<times> u8) set" where
  "in_use pool = {(b, r). b < length pool \<and> r \<in> active_refs (pool ! b)}"

definition udh_inv :: "udh_world \<Rightarrow> bool" where
  "udh_inv w \<longleftrightarrow> length (uw_pool w) = 4096 \<and> pool_ok (uw_pool w) \<and>
     distinct (claims w) \<and> set (claims w) = in_use (uw_pool w) \<and>
     (\<forall>(b, r, d) \<in> uw_cool w. b < 4096 \<and> (uw_clock w < d \<longrightarrow> (d, r) \<in> set (ub_cooldowns (uw_pool w ! b))))"

lemma udh_inv_new: "udh_inv udh_world_new"
  by (auto simp: udh_inv_def udh_world_new_def udh_pool_new_def UDH_REFERENCE_BUCKET_COUNT_def
      pool_ok_def claims_def in_use_def)

lemma in_use_acquire:
  assumes "length pool' = length pool" "\<forall>b \<in> set ids. b < length pool"
    and "\<And>j. j < length pool \<Longrightarrow> active_refs (pool' ! j) =
      (if j \<in> set ids then insert r (active_refs (pool ! j)) else active_refs (pool ! j))"
  shows "in_use pool' = (\<lambda>b. (b, r)) ` set ids \<union> in_use pool"
  using assms by (auto simp: in_use_def split: if_splits)

lemma in_use_release:
  assumes "b < length pool" "active_refs (b') = active_refs (pool ! b) - {r}"
  shows "in_use (pool[b := b']) = in_use pool - {(b, r)}"
proof (rule set_eqI)
  fix p :: "nat \<times> u8"
  obtain i s where p: "p = (i, s)" by (cases p)
  show "p \<in> in_use (pool[b := b']) \<longleftrightarrow> p \<in> in_use pool - {(b, r)}"
    unfolding p using assms by (cases "i = b") (simp_all add: in_use_def)
qed

lemma pool_ok_update:
  assumes "pool_ok pool" "bucket_ok b'"
  shows "pool_ok (pool[b := b'])"
  unfolding pool_ok_def
proof (intro allI impI)
  fix i assume "i < length (pool[b := b'])"
  then show "bucket_ok (pool[b := b'] ! i)" using assms by (cases "i = b") (simp_all add: pool_ok_def)
qed

lemma udh_step_inv: "udh_step hash w w' \<Longrightarrow> udh_inv w \<Longrightarrow> udh_inv w'"
proof (induction rule: udh_step.induct)
  case (udh_tick w t)
  then show ?case by (auto simp: udh_inv_def claims_def)
next
  case (udh_acquire now w src dests preferred cooldown res pool)
  have len: "length (uw_pool w) = 4096" and ok: "pool_ok (uw_pool w)"
    using udh_acquire.prems by (simp_all add: udh_inv_def)
  have ids: "\<forall>i \<in> set (bucket_ids hash src dests). i < length (uw_pool w)"
    using bucket_ids_less len by simp
  note A = try_acquire_spec [OF ok ids udh_acquire.hyps(2)]
  have cool: "\<forall>(b, r, d) \<in> uw_cool w. b < 4096 \<and> (uw_clock w < d \<longrightarrow> (d, r) \<in> set (ub_cooldowns (pool ! b)))"
    using udh_acquire.prems udh_acquire.hyps(1) A(4) len by (fastforce simp: udh_inv_def)
  show ?case
  proof (cases res)
    case None
    then have "in_use pool = in_use (uw_pool w)" using A(1,3) by (auto simp: in_use_def)
    then show ?thesis using None A(1,2) udh_acquire.prems len cool by (simp add: udh_inv_def claims_def)
  next
    case (Some l)
    note L = A(5) [OF Some]
    have iu: "in_use pool = (\<lambda>b. (b, ul_reference l)) ` set (bucket_ids hash src dests) \<union> in_use (uw_pool w)"
      by (rule in_use_acquire [OF A(1) ids]) (use A(3) Some in simp)
    have sc: "set (lease_claims l) = (\<lambda>b. (b, ul_reference l)) ` set (bucket_ids hash src dests)"
      using L by (simp add: lease_claims_def)
    have "distinct (lease_claims l)"
      using L distinct_ids by (auto simp: lease_claims_def distinct_map inj_on_def)
    moreover have "set (lease_claims l) \<inter> in_use (uw_pool w) = {}"
      unfolding sc using L by (auto simp: in_use_def)
    ultimately show ?thesis
      using Some A(1,2) udh_acquire.prems len cool iu sc by (auto simp: udh_inv_def claims_def)
  qed
next
  case (udh_expose w ls1 l ls2)
  have "lease_claims (mark_exposed l) = lease_claims l" by (simp add: lease_claims_def mark_exposed_def)
  then show ?case using udh_expose by (simp add: udh_inv_def claims_def)
next
  case (udh_begin_release w ls1 l ls2)
  let ?w = "w\<lparr>uw_leases := ls1 @ ls2,
      uw_releasing := \<lparr>ur_ids = ul_bucket_ids l, ur_reference = ul_reference l,
        ur_exposed = ul_exposed l, ur_deadline = release_deadline l (uw_clock w)\<rparr> # uw_releasing w\<rparr>"
  have "mset (claims ?w) = mset (claims w)"
    by (simp add: claims_def udh_begin_release.hyps lease_claims_def releasing_claims_def)
  then have "distinct (claims ?w) = distinct (claims w)" "set (claims ?w) = set (claims w)"
    by (metis mset_eq_imp_distinct_iff, metis mset_eq_setD)
  then show ?case using udh_begin_release.prems by (simp add: udh_inv_def)
next
  case (udh_release_one w rs1 rl rs2 b bs)
  let ?r = "ur_reference rl"
  let ?nb = "release_bucket (ur_exposed rl) (ur_deadline rl) ?r (uw_pool w ! b)"
  have inv: "length (uw_pool w) = 4096" "pool_ok (uw_pool w)" "distinct (claims w)"
    "set (claims w) = in_use (uw_pool w)"
    using udh_release_one.prems by (simp_all add: udh_inv_def)
  define rest where "rest = concat (map lease_claims (uw_leases w)) @ concat (map releasing_claims rs1) @
      releasing_claims (rl\<lparr>ur_ids := bs\<rparr>) @ concat (map releasing_claims rs2)"
  have m: "mset (claims w) = add_mset (b, ?r) (mset rest)"
    using udh_release_one.hyps by (simp add: claims_def rest_def releasing_claims_def)
  then have "distinct ((b, ?r) # rest)" "set (claims w) = insert (b, ?r) (set rest)"
    using inv(3) by (metis mset.simps(2) mset_eq_imp_distinct_iff, metis list.simps(15) mset.simps(2) mset_eq_setD)
  then have d: "(b, ?r) \<notin> set rest" "distinct rest" "in_use (uw_pool w) = insert (b, ?r) (set rest)"
    using inv(4) by simp_all
  then have b: "b < length (uw_pool w)" "?r \<in> active_refs (uw_pool w ! b)" by (auto simp: in_use_def)
  have bok: "bucket_ok (uw_pool w ! b)" using inv(2) b(1) by (simp add: pool_ok_def)
  note R = release_bucket_spec [OF bok b(2), of "ur_exposed rl" "ur_deadline rl"]
  have "in_use ((uw_pool w)[b := ?nb]) = set rest"
    using in_use_release [OF b(1) R(2)] d by simp
  moreover have "pool_ok ((uw_pool w)[b := ?nb])"
    by (rule pool_ok_update [OF inv(2) R(1)])
  moreover have "set (ub_cooldowns (uw_pool w ! j)) \<subseteq> set (ub_cooldowns ((uw_pool w)[b := ?nb] ! j))"
    for j using R(3) b(1) by (cases "j = b") auto
  moreover have "ur_exposed rl \<Longrightarrow> ur_deadline rl = Some d \<Longrightarrow>
      (d, ?r) \<in> set (ub_cooldowns ((uw_pool w)[b := ?nb] ! b))" for d
    using R(3) b(1) by simp
  ultimately show ?case
    using udh_release_one.prems d b(1) inv(1)
    by (fastforce simp: udh_inv_def claims_def rest_def split: if_splits option.splits)
qed

lemma udh_reachable_inv: "udh_reachable hash w \<Longrightarrow> udh_inv w"
  by (induction rule: udh_reachable.induct) (auto intro: udh_inv_new udh_step_inv)

section \<open>Properties\<close>

text \<open>The references a bucket refuses at time \<open>now\<close>: in use, or cooling with a deadline not yet passed.\<close>

definition refused :: "udh_bucket \<Rightarrow> nat \<Rightarrow> u8 set" where
  "refused b now = active_refs b \<union>
     (cooling_refs b - snd ` {p \<in> set (ub_cooldowns b). fst p \<le> now})"

lemma taken_purged:
  assumes "pool_ok pool" "\<forall>i \<in> set ids0. i < length pool"
  shows "taken_refs (remdups_adj (sort ids0)) (purged_pool (remdups_adj (sort ids0)) now pool) =
    (\<Union>i \<in> set ids0. refused (pool ! i) now)"
proof -
  have "\<forall>i \<in> set (remdups_adj (sort ids0)). i < length pool" using assms(2) by simp
  note P = purged_pool_nth [OF distinct_ids this, of now]
  have "active_refs (purge_udh_cooldowns (pool ! i) now) \<union> cooling_refs (purge_udh_cooldowns (pool ! i) now) =
      refused (pool ! i) now" if "i \<in> set ids0" for i
    using purge_spec(2,4) [of "pool ! i" now] assms that
    by (simp add: pool_ok_def refused_def active_refs_def)
  then show ?thesis by (auto simp: taken_refs_def P)
qed

text \<open>
  C35: \<open>try_acquire\<close> never panics on bucket ids in range and grants the first reference, counting up
  from the preferred one and wrapping at 256, that none of the buckets refuses; it returns nothing
  only when each of the 256 references is refused by some bucket.
\<close>

theorem try_acquire_first_free:
  assumes "pool_ok pool" and "\<forall>i \<in> set ids0. i < length pool"
  shows "\<exists>res pool'. try_acquire ids0 preferred cooldown now pool = Ok (res, pool') \<and>
    (case res of
       None \<Rightarrow> \<forall>r. \<exists>i \<in> set ids0. r \<in> refused (pool ! i) now
     | Some l \<Rightarrow> \<exists>k < 256. ul_reference l = preferred + of_nat k \<and>
         (\<forall>i \<in> set ids0. ul_reference l \<notin> refused (pool ! i) now) \<and>
         (\<forall>j < k. \<exists>i \<in> set ids0. preferred + of_nat j \<in> refused (pool ! i) now))"
proof (cases "find (\<lambda>r. r \<notin> (\<Union>i \<in> set ids0. refused (pool ! i) now)) (all_references preferred)")
  case None
  then have "try_acquire ids0 preferred cooldown now pool =
      Ok (None, purged_pool (remdups_adj (sort ids0)) now pool)"
    using try_acquire_eq [OF assms(2), of preferred cooldown now] by (simp add: taken_purged [OF assms])
  moreover have "\<forall>r. \<exists>i \<in> set ids0. r \<in> refused (pool ! i) now"
    using None by (simp add: find_None_iff set_all_references)
  ultimately show ?thesis by simp
next
  case (Some r)
  then obtain k where k: "k < 256" "r = preferred + of_nat k"
      "r \<notin> (\<Union>i \<in> set ids0. refused (pool ! i) now)"
      "\<forall>j < k. preferred + of_nat j \<in> (\<Union>i \<in> set ids0. refused (pool ! i) now)"
    by (auto simp: find_Some_iff all_references_def)
  have "\<exists>pool'. try_acquire ids0 preferred cooldown now pool =
      Ok (Some \<lparr>ul_bucket_ids = remdups_adj (sort ids0), ul_reference = r, ul_cooldown = cooldown,
        ul_exposed = False\<rparr>, pool')"
    using try_acquire_eq [OF assms(2), of preferred cooldown now] Some
    by (simp add: taken_purged [OF assms])
  then obtain pool' where t: "try_acquire ids0 preferred cooldown now pool =
      Ok (Some \<lparr>ul_bucket_ids = remdups_adj (sort ids0), ul_reference = r, ul_cooldown = cooldown,
        ul_exposed = False\<rparr>, pool')" by blast
  show ?thesis unfolding t using k by auto
qed

theorem try_acquire_first_free_witness:
  "\<exists>res pool'. try_acquire [1, 0, 1] 250 5 7 [bucket_default, bucket_default] = Ok (res, pool') \<and>
    (case res of
       None \<Rightarrow> \<forall>r. \<exists>i \<in> set [1, 0, 1]. r \<in> refused ([bucket_default, bucket_default] ! i) 7
     | Some l \<Rightarrow> \<exists>k < 256. ul_reference l = 250 + of_nat k \<and>
         (\<forall>i \<in> set [1, 0, 1]. ul_reference l \<notin> refused ([bucket_default, bucket_default] ! i) 7) \<and>
         (\<forall>j < k. \<exists>i \<in> set [1, 0, 1]. 250 + of_nat j \<in> refused ([bucket_default, bucket_default] ! i) 7))"
proof (rule try_acquire_first_free)
  show "pool_ok [bucket_default, bucket_default]"
    by (auto simp: pool_ok_def nth_Cons split: nat.split)
  show "\<forall>i \<in> set [1, 0, 1]. i < length [bucket_default, bucket_default]" by simp
qed

lemma same_domain_bucket:
  assumes "normalize_udh_address src1 = normalize_udh_address src2" "d1 \<in> set dests1" "d2 \<in> set dests2"
    "normalize_udh_address d1 = normalize_udh_address d2"
  shows "set (bucket_ids hash src1 dests1) \<inter> set (bucket_ids hash src2 dests2) \<noteq> {}"
proof -
  let ?b = "bucket_id hash (normalize_udh_address src1) (normalize_udh_address d1)"
  have "dests1 \<noteq> []" "dests2 \<noteq> []" using assms(2,3) by auto
  then have "?b \<in> set (bucket_ids hash src1 dests1)"
    using assms(2) by (simp add: bucket_ids_def Let_def)
  moreover have "?b \<in> set (bucket_ids hash src2 dests2)"
    using assms(3) \<open>dests2 \<noteq> []\<close> by (simp add: bucket_ids_def Let_def assms(1,4))
  ultimately show ?thesis by blast
qed

text \<open>
  C16: whatever the interleaving of acquisitions, releases and the unlocking of single buckets, a
  reference granted for a message is different from the reference of every other live message that
  has the same source address and shares a destination with it (as 21-octet addresses).
\<close>

theorem udh_same_domain_exclusive:
  assumes "udh_reachable hash w" and "now \<le> uw_clock w"
    and "try_acquire (bucket_ids hash src dests) preferred cooldown now (uw_pool w) = Ok (Some l, pool)"
    and "l2 \<in> set (uw_leases w)" and "ul_bucket_ids l2 = bucket_ids hash src2 dests2"
    and "normalize_udh_address src = normalize_udh_address src2" and "d \<in> set dests" and "d2 \<in> set dests2"
    and "normalize_udh_address d = normalize_udh_address d2"
  shows "ul_reference l \<noteq> ul_reference l2"
proof
  assume eq: "ul_reference l = ul_reference l2"
  have I: "udh_inv w" by (rule udh_reachable_inv [OF assms(1)])
  then have len: "length (uw_pool w) = 4096" and ok: "pool_ok (uw_pool w)" and c: "set (claims w) = in_use (uw_pool w)"
    by (simp_all add: udh_inv_def)
  have ids: "\<forall>i \<in> set (bucket_ids hash src dests). i < length (uw_pool w)"
    using bucket_ids_less len by simp
  obtain b where b: "b \<in> set (bucket_ids hash src dests)" "b \<in> set (bucket_ids hash src2 dests2)"
    using same_domain_bucket [OF assms(6-9)] by blast
  have "(b, ul_reference l2) \<in> set (claims w)"
    using assms(4,5) b(2) by (force simp: claims_def lease_claims_def)
  then have "ul_reference l2 \<in> active_refs (uw_pool w ! b)" using c by (auto simp: in_use_def)
  moreover have "ul_reference l \<notin> active_refs (uw_pool w ! b)"
    using try_acquire_spec(5) [OF ok ids assms(3) refl] b(1) by blast
  ultimately show False using eq by simp
qed

text \<open>A concrete run: every address hashes to bucket 0.\<close>

definition one_bucket :: "bytes \<Rightarrow> bytes \<Rightarrow> u64" where
  "one_bucket source destination = 0"

lemma one_bucket_ids [simp]: "bucket_ids one_bucket src [d] = [0]"
  by (simp add: bucket_ids_def bucket_id_def one_bucket_def)

lemma try_acquire_single:
  assumes "0 < length pool" "r \<notin> active_refs (pool ! 0) \<union> cooling_refs (pool ! 0)"
    and "purge_udh_cooldowns (pool ! 0) now = pool ! 0"
  shows "try_acquire [0] r cooldown now pool =
    Ok (Some \<lparr>ul_bucket_ids = [0], ul_reference = r, ul_cooldown = cooldown, ul_exposed = False\<rparr>,
      pool[0 := (pool ! 0)\<lparr>ub_active := set_udh_reference (ub_active (pool ! 0)) r\<rparr>])"
proof -
  have "purged_pool [0] now pool = pool" using assms(3) by (simp add: purged_pool_def update_all_def)
  moreover have "all_references r = r # map (\<lambda>k. r + of_nat k) [1..<256]"
    by (simp add: all_references_def upt_conv_Cons)
  ultimately show ?thesis
    using try_acquire_eq [of "[0]" pool r cooldown now] assms(1,2) by (simp add: taken_refs_def update_all_def)
qed

lemma purge_default: "purge_udh_cooldowns (b\<lparr>ub_cooldowns := []\<rparr>) now = b\<lparr>ub_cooldowns := []\<rparr>"
  by (simp add: purge_udh_cooldowns.simps)

definition used_bucket :: udh_bucket where
  "used_bucket = bucket_default\<lparr>ub_active := set_udh_reference (ub_active bucket_default) 7\<rparr>"

definition used_world :: udh_world where
  "used_world = udh_world_new\<lparr>uw_pool := udh_pool_new[0 := used_bucket],
     uw_leases := [\<lparr>ul_bucket_ids = [0], ul_reference = 7, ul_cooldown = 100, ul_exposed = False\<rparr>]\<rparr>"

lemma udh_pool_new_0: "0 < length udh_pool_new" "udh_pool_new ! 0 = bucket_default"
  by (simp_all add: udh_pool_new_def UDH_REFERENCE_BUCKET_COUNT_def)

lemma used_bucket_refs: "active_refs used_bucket = {7}" "cooling_refs used_bucket = {}"
  "ub_cooldowns used_bucket = []"
  using active_refs_set [OF bucket_default_ok(1), of 7] bucket_default_ok(3)
  by (simp_all add: used_bucket_def cooling_refs_def)

lemma used_world_reachable: "udh_reachable one_bucket used_world"
proof -
  have "purge_udh_cooldowns bucket_default 0 = bucket_default"
    by (simp add: purge_udh_cooldowns.simps)
  then have "try_acquire (bucket_ids one_bucket [1] [[2]]) 7 100 0 (uw_pool udh_world_new) =
      Ok (Some \<lparr>ul_bucket_ids = [0], ul_reference = 7, ul_cooldown = 100, ul_exposed = False\<rparr>,
        udh_pool_new[0 := used_bucket])"
    using try_acquire_single [of udh_pool_new 7 0 100] udh_pool_new_0
    by (simp add: udh_world_new_def used_bucket_def)
  from udh_acquire [OF _ this] have "udh_step one_bucket udh_world_new used_world"
    by (simp add: used_world_def udh_world_new_def)
  then show ?thesis by (rule udh_next [OF udh_start])
qed

lemma used_world_acquire:
  "\<exists>pool. try_acquire (bucket_ids one_bucket [1] [[2]]) 8 100 0 (uw_pool used_world) =
     Ok (Some \<lparr>ul_bucket_ids = [0], ul_reference = 8, ul_cooldown = 100, ul_exposed = False\<rparr>, pool)"
proof -
  have "purge_udh_cooldowns used_bucket 0 = used_bucket"
    using used_bucket_refs(3) by (simp add: purge_udh_cooldowns.simps)
  then show ?thesis
    using try_acquire_single [of "udh_pool_new[0 := used_bucket]" 8 0 100] udh_pool_new_0 used_bucket_refs
    by (simp add: used_world_def)
qed

theorem udh_same_domain_exclusive_witness:
  "\<exists>l pool. try_acquire (bucket_ids one_bucket [1] [[2]]) 8 100 0 (uw_pool used_world) = Ok (Some l, pool) \<and>
     ul_reference l \<noteq> ul_reference (hd (uw_leases used_world))"
proof -
  obtain l pool where t: "try_acquire (bucket_ids one_bucket [1] [[2]]) 8 100 0 (uw_pool used_world) = Ok (Some l, pool)"
    using used_world_acquire by blast
  have "ul_reference l \<noteq> ul_reference (hd (uw_leases used_world))"
    by (rule udh_same_domain_exclusive [OF used_world_reachable _ t, where ?src2.0 = "[1]" and ?dests2.0 = "[[2]]"])
      (simp_all add: used_world_def udh_world_new_def)
  then show ?thesis using t by blast
qed

text \<open>
  C17: a reference that was exposed to the network is not granted again in any of its buckets before
  its cooldown deadline, whichever clock reading the acquiring task took.
\<close>

theorem udh_cooldown_respected:
  assumes "udh_reachable hash w" and "(b, r, deadline) \<in> uw_cool w" and "uw_clock w < deadline"
    and "now \<le> uw_clock w" and "b \<in> set (bucket_ids hash src dests)"
    and "try_acquire (bucket_ids hash src dests) preferred cooldown now (uw_pool w) = Ok (Some l, pool)"
  shows "ul_reference l \<noteq> r"
proof -
  have I: "udh_inv w" by (rule udh_reachable_inv [OF assms(1)])
  then have len: "length (uw_pool w) = 4096" and ok: "pool_ok (uw_pool w)"
    and h: "(deadline, r) \<in> set (ub_cooldowns (uw_pool w ! b))"
    using assms(2,3) by (auto simp: udh_inv_def)
  have ids: "\<forall>i \<in> set (bucket_ids hash src dests). i < length (uw_pool w)"
    using bucket_ids_less len by simp
  have "r \<in> snd ` {p \<in> set (ub_cooldowns (uw_pool w ! b)). now < fst p}"
    using h assms(3,4) by force
  then show ?thesis using try_acquire_spec(5) [OF ok ids assms(6) refl] assms(5) by blast
qed


text \<open>The same run continued: the lease is exposed and released, so reference 7 cools until time 100.\<close>

definition cool_bucket :: udh_bucket where
  "cool_bucket = release_bucket True (Some 100) 7 used_bucket"

definition cool_world :: udh_world where
  "cool_world = udh_world_new\<lparr>uw_pool := udh_pool_new[0 := cool_bucket],
     uw_releasing := [\<lparr>ur_ids = [], ur_reference = 7, ur_exposed = True, ur_deadline = Some 100\<rparr>],
     uw_cool := {(0, 7, 100)}\<rparr>"

lemma cool_world_reachable: "udh_reachable one_bucket cool_world"
proof -
  let ?l = "\<lparr>ul_bucket_ids = [0], ul_reference = 7, ul_cooldown = 100, ul_exposed = False\<rparr>"
  let ?w1 = "used_world\<lparr>uw_leases := [mark_exposed ?l]\<rparr>"
  let ?w2 = "used_world\<lparr>uw_leases := [],
    uw_releasing := [\<lparr>ur_ids = [0], ur_reference = 7, ur_exposed = True, ur_deadline = Some 100\<rparr>]\<rparr>"
  have "udh_step one_bucket used_world ?w1"
    using udh_expose [of used_world "[]" ?l "[]"] by (simp add: used_world_def)
  then have 1: "udh_reachable one_bucket ?w1" by (rule udh_next [OF used_world_reachable])
  have "release_deadline (mark_exposed ?l) (uw_clock ?w1) = Some 100"
    by (simp add: release_deadline_def mark_exposed_def instant_checked_add_def instant_max_def
        used_world_def udh_world_new_def)
  then have "udh_step one_bucket ?w1 ?w2"
    using udh_begin_release [of ?w1 "[]" "mark_exposed ?l" "[]" one_bucket]
    by (simp add: used_world_def udh_world_new_def mark_exposed_def)
  then have 2: "udh_reachable one_bucket ?w2" by (rule udh_next [OF 1])
  have "udh_step one_bucket ?w2 cool_world"
    using udh_release_one [of ?w2 "[]" "hd (uw_releasing ?w2)" "[]" 0 "[]" one_bucket] udh_pool_new_0
    by (simp add: used_world_def cool_world_def cool_bucket_def udh_world_new_def)
  then show ?thesis by (rule udh_next [OF 2])
qed

theorem udh_cooldown_respected_witness:
  "\<exists>l pool. try_acquire (bucket_ids one_bucket [1] [[2]]) 9 100 0 (uw_pool cool_world) = Ok (Some l, pool) \<and>
     ul_reference l \<noteq> 7"
proof -
  have ub: "bucket_ok used_bucket"
    using bucket_ok_acquire [OF bucket_default_ok(1), of 7] by (simp add: used_bucket_def)
  have h: "heap_peek (ub_cooldowns cool_bucket) = Some (100, 7)"
    by (simp add: cool_bucket_def release_bucket_def used_bucket_refs(3))
  have "9 \<notin> active_refs cool_bucket \<union> cooling_refs cool_bucket"
  proof -
    have "cooling_refs cool_bucket = {7}"
      using bitmap.members_put [of "ub_cooling used_bucket" 7] ub used_bucket_refs(2)
      by (simp add: cool_bucket_def release_bucket_def cooling_refs_def bucket_ok_def)
    moreover have "active_refs cool_bucket = {}"
      using release_bucket_spec(2) [OF ub, of 7] used_bucket_refs(1) by (simp add: cool_bucket_def)
    ultimately show ?thesis by simp
  qed
  moreover have "purge_udh_cooldowns cool_bucket 0 = cool_bucket"
    using h by (simp add: purge_udh_cooldowns.simps)
  ultimately obtain l pool where
    t: "try_acquire (bucket_ids one_bucket [1] [[2]]) 9 100 0 (uw_pool cool_world) = Ok (Some l, pool)"
    using try_acquire_single [of "udh_pool_new[0 := cool_bucket]" 9 0 100] udh_pool_new_0
    by (simp add: cool_world_def)
  have "ul_reference l \<noteq> 7"
    by (rule udh_cooldown_respected [OF cool_world_reachable _ _ _ _ t, of 0 7 100])
      (simp_all add: cool_world_def udh_world_new_def)
  then show ?thesis using t by blast
qed

end
