(* ===== verification/Cmpp_Inner.thy ===== *)
theory Cmpp_Inner
  imports Cmpp_Config Cmpp_Frame Cmpp_Sequence Cmpp_Udh
begin

text \<open>
  The shared state of a connection (\<open>Inner\<close> of \<open>src/connection.rs\<close>) and the messages its tasks
  exchange. A critical section of the source is one function on this state; a channel is the list of
  the messages in it, together with its capacity. A detached task that a function spawns is added to
  \<open>in_tasks\<close> and runs as a step of its own.
\<close>

section \<open>Constants\<close>

definition EVENT_SPOOL_EMERGENCY_CAPACITY :: nat where "EVENT_SPOOL_EMERGENCY_CAPACITY = 2"
definition CONTROL_CHANNEL_CAPACITY :: nat where "CONTROL_CHANNEL_CAPACITY = 256"
definition CONTROL_BURST_LIMIT :: nat where "CONTROL_BURST_LIMIT = 16"
definition SUBMIT_RESP_BATCH_MAX :: nat where "SUBMIT_RESP_BATCH_MAX = 256"
definition SUBMIT_DROPPED_BATCH_SIZE :: nat where "SUBMIT_DROPPED_BATCH_SIZE = 128"
definition MAX_SUBMIT_RETRY_SPREAD_TICKS :: nat where "MAX_SUBMIT_RETRY_SPREAD_TICKS = 4"
definition MAX_MANUAL_SEQUENCE_BATCHES :: nat where "MAX_MANUAL_SEQUENCE_BATCHES = 4"

section \<open>Events\<close>

datatype event =
    SubmitResp u32 bytes u8
  | SubmitTimeout u32 u32
  | SubmitDropped u32
  | Event_Deliver deliver
  | Disconnected error

text \<open>A deferred event is published later through the one-shot channel with this number.\<close>

datatype spool_item =
    Spool_Direct event
  | Spool_Batch "event list"
  | Spool_Event nat
  | Spool_Terminal "error option"

fun item_depth :: "spool_item \<Rightarrow> nat" where
  "item_depth (Spool_Direct _) = 1"
| "item_depth (Spool_Batch events) = length events"
| "item_depth (Spool_Event _) = 1"
| "item_depth (Spool_Terminal _) = 1"

datatype oneshot = Unsent | Sent event | Sender_gone | Receiver_gone

datatype event_admission =
  Admission_Open | Admission_Draining | Admission_Overflowed | Admission_Sealed | Admission_Terminal

datatype reservation_error = Reservation_Overflowed | Reservation_Closed

section \<open>Attempts and outbound messages\<close>

record submit_attempt_key =
  ak_sequence_id :: u32
  ak_submission_id :: u64
  ak_attempt :: u32

datatype submit_attempt_state =
    Queued u32
  | Writing u32
  | AwaitingResponse u32 nat
  | RespondedWhileWriting u32

record pending_submit =
  ps_submission_id :: u64
  ps_packet :: bytes
  ps_state :: submit_attempt_state
  ps_udh_lease :: "udh_lease option"
  ps_sequence_lease :: sequence_lease

record heartbeat_attempt_key =
  hk_sequence_id :: u32
  hk_heartbeat_id :: u64
  hk_attempt :: u32

datatype heartbeat_attempt_state =
    Heartbeat_Queued u32
  | Heartbeat_Writing u32
  | Heartbeat_Awaiting u32 nat

record pending_heartbeat =
  ph_heartbeat_id :: u64
  ph_state :: heartbeat_attempt_state
  ph_sequence_lease :: sequence_lease

text \<open>
  \<open>written_tx\<close> is the number of the one-shot the writer completes, \<open>written_flag\<close> says whether the
  message carries the flag of the local TERMINATE.
\<close>

record outbound =
  ob_packet :: bytes
  ob_response_budget_started_at :: "nat option"
  ob_written_tx :: "nat option"
  ob_written_flag :: bool
  ob_cancel_after_peer_terminate :: bool
  ob_marks_peer_terminate_response :: bool
  ob_open_only :: bool
  ob_submit_drain_marker :: bool
  ob_submit_attempt :: "submit_attempt_key option"
  ob_heartbeat_attempt :: "heartbeat_attempt_key option"
  ob_event_after_write :: "(nat \<times> event) option"

definition outbound_plain :: "bytes \<Rightarrow> outbound" where
  "outbound_plain packet =
     \<lparr>ob_packet = packet, ob_response_budget_started_at = None, ob_written_tx = None,
      ob_written_flag = False, ob_cancel_after_peer_terminate = False,
      ob_marks_peer_terminate_response = False, ob_open_only = False,
      ob_submit_drain_marker = False, ob_submit_attempt = None, ob_heartbeat_attempt = None,
      ob_event_after_write = None\<rparr>"

definition outbound_tracked :: "bytes \<Rightarrow> nat \<Rightarrow> outbound" where
  "outbound_tracked packet written_tx = (outbound_plain packet)\<lparr>ob_written_tx := Some written_tx\<rparr>"

definition outbound_local_terminate :: "bytes \<Rightarrow> nat \<Rightarrow> outbound" where
  "outbound_local_terminate packet written_tx =
     (outbound_tracked packet written_tx)\<lparr>ob_written_flag := True, ob_cancel_after_peer_terminate := True\<rparr>"

definition outbound_peer_terminate_response :: "bytes \<Rightarrow> nat \<Rightarrow> outbound" where
  "outbound_peer_terminate_response packet written_tx =
     (outbound_tracked packet written_tx)\<lparr>ob_marks_peer_terminate_response := True\<rparr>"

definition outbound_event_after_write :: "bytes \<Rightarrow> nat \<Rightarrow> nat \<Rightarrow> event \<Rightarrow> outbound" where
  "outbound_event_after_write packet started_at ticket e =
     (outbound_plain packet)\<lparr>ob_response_budget_started_at := Some started_at,
       ob_event_after_write := Some (ticket, e)\<rparr>"

definition outbound_submit :: "bytes \<Rightarrow> submit_attempt_key \<Rightarrow> outbound" where
  "outbound_submit packet key = (outbound_plain packet)\<lparr>ob_submit_attempt := Some key\<rparr>"

definition outbound_open_only :: "bytes \<Rightarrow> outbound" where
  "outbound_open_only packet = (outbound_plain packet)\<lparr>ob_open_only := True\<rparr>"

definition outbound_heartbeat :: "bytes \<Rightarrow> heartbeat_attempt_key \<Rightarrow> outbound" where
  "outbound_heartbeat packet key = (outbound_open_only packet)\<lparr>ob_heartbeat_attempt := Some key\<rparr>"

definition outbound_submit_drain_marker :: "nat \<Rightarrow> outbound" where
  "outbound_submit_drain_marker written_tx =
     (outbound_tracked [] written_tx)\<lparr>ob_submit_drain_marker := True\<rparr>"

section \<open>Phases\<close>

datatype connection_phase = Phase_Open | Phase_Closing | Phase_Closed

fun phase_code :: "connection_phase \<Rightarrow> u8" where
  "phase_code Phase_Open = 0"
| "phase_code Phase_Closing = 1"
| "phase_code Phase_Closed = 2"

lemma phase_code_inject [simp]: "phase_code p = phase_code q \<longleftrightarrow> p = q"
  by (cases p; cases q) simp_all

text \<open>The phases in the order of their codes: a connection only moves up.\<close>

instantiation connection_phase :: linorder
begin

definition less_eq_connection_phase :: "connection_phase \<Rightarrow> connection_phase \<Rightarrow> bool" where
  "p \<le> q \<longleftrightarrow> phase_code p \<le> phase_code q"

definition less_connection_phase :: "connection_phase \<Rightarrow> connection_phase \<Rightarrow> bool" where
  "p < q \<longleftrightarrow> phase_code p < phase_code q"

instance
  by standard (auto simp: less_eq_connection_phase_def less_connection_phase_def less_le)

end

lemma phase_order [simp]:
  "Phase_Open \<le> p" "p \<le> Phase_Closed" "Phase_Closing \<le> p \<longleftrightarrow> p \<noteq> Phase_Open"
  by (cases p; simp add: less_eq_connection_phase_def)+

section \<open>The shared state\<close>

text \<open>
  The tasks a function of the connection spawns and does not wait for: the bounded close after an
  event overload, before and after it has announced the drain; the clean-up of \<open>finish\<close> (or, with
  the flag, the fallback of \<open>reap_background_tasks\<close>) before it drains the pending SUBMITs, while it
  publishes their \<open>SubmitDropped\<close> events (the chunk in hand and the chunks to come) and before its
  last part; the retry of a \<open>Terminal\<close> that found the spool full.
\<close>

datatype detached =
    Overload_Close
  | Overload_Drain
  | Cleanup bool
  | Cleanup_Publish bool "event list" "event list list"
  | Cleanup_Finish
  | Terminal_Retry spool_item

record pending_terminate =
  pt_sequence_id :: u32
  pt_response_tx :: nat
  pt_written :: bool
  pt_sequence_lease :: sequence_lease

text \<open>
  \<open>in_queues_closed\<close> says that the writer, the receiver of both outbound queues, has ended;
  \<open>in_signals\<close> lists the unit one-shots completed so far, \<open>in_dropped_udh\<close> the UDH leases given up.
\<close>

record inner =
  in_registry :: sequence_state
  in_submission_id_generator :: u64
  in_heartbeat_id_generator :: u64
  in_submit_queue :: "outbound list"
  in_control_queue :: "outbound list"
  in_queues_closed :: bool
  in_spool :: "spool_item list"
  in_spool_closed :: bool
  in_event_admission :: event_admission
  in_event_depth :: nat
  in_event_depth_peak :: nat
  in_event_spool_capacity :: nat
  in_event_tickets :: nat
  in_oneshots :: "nat \<Rightarrow> oneshot"
  in_next_oneshot :: nat
  in_event_overflowed :: bool
  in_terminal_reason :: "error option"
  in_pending_submits :: "u32 \<rightharpoonup> pending_submit"
  in_window_available :: nat
  in_window_closed :: bool
  in_manual_batch_available :: nat
  in_manual_batch_closed :: bool
  in_heartbeat_pending :: "u32 \<rightharpoonup> pending_heartbeat"
  in_submits_admitted :: u64
  in_submit_responses :: u64
  in_submit_retries :: u64
  in_submit_timeouts :: u64
  in_delivers_received :: u64
  in_events_dropped :: u64
  in_unexpected_pdus :: u64
  in_write_batches :: u64
  in_write_frames :: u64
  in_phase :: connection_phase
  in_drain_submits_on_close :: bool
  in_cleanup_complete :: bool
  in_pending_terminate :: "pending_terminate option"
  in_signals :: "nat list"
  in_peer_terminate_seen :: bool
  in_peer_terminate_response_written :: bool
  in_response_timeout :: nat
  in_retry_count :: u32
  in_window_size :: nat
  in_submit_retry_batch_size :: nat
  in_write_batch_max_frames :: nat
  in_write_batch_max_bytes :: nat
  in_dropped_udh :: "udh_lease list"
  in_tasks :: "detached list"

definition submit_retry_batch_size :: "nat \<Rightarrow> nat" where
  "submit_retry_batch_size window =
     min (max (div_ceil window MAX_SUBMIT_RETRY_SPREAD_TICKS) 1) window"

text \<open>The state \<open>connect\<close> builds after the handshake. A second is \<open>10^9\<close> nanoseconds.\<close>

definition inner_new :: "cmpp_protocol_params \<Rightarrow> inner" where
  "inner_new params =
     (let window = window_size params in
      \<lparr>in_registry = registry_new 2, in_submission_id_generator = 1, in_heartbeat_id_generator = 1,
       in_submit_queue = [], in_control_queue = [], in_queues_closed = False, in_spool = [], in_spool_closed = False,
       in_event_admission = Admission_Open, in_event_depth = 0, in_event_depth_peak = 0,
       in_event_spool_capacity = max (event_spool_capacity params) (div_ceil window SUBMIT_DROPPED_BATCH_SIZE),
       in_event_tickets = 0, in_oneshots = (\<lambda>_. Unsent), in_next_oneshot = 0,
       in_event_overflowed = False, in_terminal_reason = None, in_pending_submits = Map.empty,
       in_window_available = window, in_window_closed = False,
       in_manual_batch_available = min window MAX_MANUAL_SEQUENCE_BATCHES,
       in_manual_batch_closed = False, in_heartbeat_pending = Map.empty, in_submits_admitted = 0,
       in_submit_responses = 0, in_submit_retries = 0, in_submit_timeouts = 0,
       in_delivers_received = 0, in_events_dropped = 0, in_unexpected_pdus = 0,
       in_write_batches = 0, in_write_frames = 0, in_phase = Phase_Open,
       in_drain_submits_on_close = False, in_cleanup_complete = False,
       in_pending_terminate = None, in_signals = [], in_peer_terminate_seen = False, in_peer_terminate_response_written = False,
       in_response_timeout = unat (response_timeout params) * 1000000000,
       in_retry_count = retry_count params, in_window_size = window,
       in_submit_retry_batch_size = submit_retry_batch_size window,
       in_write_batch_max_frames = write_batch_max_frames params,
       in_write_batch_max_bytes = write_batch_max_bytes params, in_dropped_udh = [], in_tasks = []\<rparr>)"

definition next_submission_id :: "inner \<Rightarrow> u64 \<times> inner" where
  "next_submission_id s =
     (in_submission_id_generator s, s\<lparr>in_submission_id_generator := in_submission_id_generator s + 1\<rparr>)"

definition next_heartbeat_id :: "inner \<Rightarrow> u64 \<times> inner" where
  "next_heartbeat_id s =
     (in_heartbeat_id_generator s, s\<lparr>in_heartbeat_id_generator := in_heartbeat_id_generator s + 1\<rparr>)"

record connection_metrics =
  cm_submits_admitted :: u64
  cm_submit_responses :: u64
  cm_submit_retries :: u64
  cm_submit_timeouts :: u64
  cm_delivers_received :: u64
  cm_events_dropped :: u64
  cm_unexpected_pdus :: u64
  cm_submits_in_flight :: nat
  cm_window_size :: nat
  cm_write_batches :: u64
  cm_write_frames :: u64
  cm_event_depth_peak :: nat

definition metrics :: "inner \<Rightarrow> connection_metrics" where
  "metrics s =
     \<lparr>cm_submits_admitted = in_submits_admitted s, cm_submit_responses = in_submit_responses s,
      cm_submit_retries = in_submit_retries s, cm_submit_timeouts = in_submit_timeouts s,
      cm_delivers_received = in_delivers_received s, cm_events_dropped = in_events_dropped s,
      cm_unexpected_pdus = in_unexpected_pdus s,
      cm_submits_in_flight = in_window_size s - in_window_available s,
      cm_window_size = in_window_size s, cm_write_batches = in_write_batches s,
      cm_write_frames = in_write_frames s, cm_event_depth_peak = in_event_depth_peak s\<rparr>"

end
