(* ===== verification/Cmpp_Events.thy ===== *)
theory Cmpp_Events
  imports Cmpp_Inner
begin

text \<open>
  The operations of the event pipeline and of the phase in \<open>src/connection.rs\<close>: phase changes, the
  depth permits, the event spool, admission of events, tickets of deferred events, the clean-up after
  \<open>finish\<close> and the dispatcher that forwards the spool to the public channel. The order in which a
  hash map is enumerated is an argument.
\<close>

section \<open>Phase\<close>

definition is_closed :: "inner \<Rightarrow> bool" where
  "is_closed s \<longleftrightarrow> in_phase s \<noteq> Phase_Open"

definition begin_closing :: "bool \<Rightarrow> inner \<Rightarrow> bool \<times> inner" where
  "begin_closing drain_submits s =
     (if in_phase s \<noteq> Phase_Open then
        (False,
         if in_phase s = Phase_Closing \<and> \<not> drain_submits
         then s\<lparr>in_drain_submits_on_close := False\<rparr> else s)
      else (True, s\<lparr>in_drain_submits_on_close := drain_submits, in_phase := Phase_Closing\<rparr>))"

definition transition_to_closed :: "inner \<Rightarrow> bool \<times> inner" where
  "transition_to_closed s =
     (if in_phase s = Phase_Closed then (False, s) else (True, s\<lparr>in_phase := Phase_Closed\<rparr>))"

section \<open>Depth permits and the spool\<close>

definition depth_permit_new_n :: "nat \<Rightarrow> inner \<Rightarrow> inner" where
  "depth_permit_new_n permits s =
     (let current = in_event_depth s + permits in
      s\<lparr>in_event_depth := current, in_event_depth_peak := max (in_event_depth_peak s) current\<rparr>)"

definition depth_permit_drop :: "nat \<Rightarrow> inner \<Rightarrow> inner" where
  "depth_permit_drop permits s = s\<lparr>in_event_depth := in_event_depth s - permits\<rparr>"

datatype send_result = Send_Ok | Send_Full | Send_Closed

definition spool_try_send :: "spool_item \<Rightarrow> inner \<Rightarrow> send_result \<times> inner" where
  "spool_try_send item s =
     (if in_spool_closed s then (Send_Closed, s)
      else if in_event_spool_capacity s + EVENT_SPOOL_EMERGENCY_CAPACITY \<le> length (in_spool s)
      then (Send_Full, s)
      else (Send_Ok, s\<lparr>in_spool := in_spool s @ [item]\<rparr>))"

text \<open>An item with its permit; the permit of an item that is not accepted is dropped with it.\<close>

definition spool_offer :: "spool_item \<Rightarrow> inner \<Rightarrow> bool \<times> inner" where
  "spool_offer item s =
     (case spool_try_send item (depth_permit_new_n (item_depth item) s) of
        (Send_Ok, t) \<Rightarrow> (True, t)
      | (_, t) \<Rightarrow> (False, depth_permit_drop (item_depth item) t))"

section \<open>Admission\<close>

definition start_event_overload_close :: "inner \<Rightarrow> inner" where
  "start_event_overload_close s =
     (case begin_closing False s of
        (False, t) \<Rightarrow> t
      | (True, t) \<Rightarrow> t\<lparr>in_tasks := in_tasks t @ [Overload_Close]\<rparr>)"

definition overflow_admission :: "inner \<Rightarrow> inner" where
  "overflow_admission s = s\<lparr>in_event_admission := Admission_Overflowed, in_event_overflowed := True\<rparr>"

definition emit_event :: "event \<Rightarrow> inner \<Rightarrow> bool \<times> inner" where
  "emit_event e s =
     (let (sent, start_overload_close, t) =
        (case in_event_admission s of
           Admission_Terminal \<Rightarrow> (False, False, s)
         | Admission_Sealed \<Rightarrow> (False, False, s)
         | Admission_Overflowed \<Rightarrow> (False, False, s)
         | _ \<Rightarrow>
             (if in_event_depth s < in_event_spool_capacity s then
                (case spool_offer (Spool_Direct e) s of
                   (True, t) \<Rightarrow> (True, False, t)
                 | (False, t) \<Rightarrow> (False, True, overflow_admission t))
              else
                (case spool_offer (Spool_Direct e) (overflow_admission s) of
                   (sent, t) \<Rightarrow> (sent, True, t))));
        t = (if start_overload_close then start_event_overload_close t else t);
        t = (if sent then t else t\<lparr>in_events_dropped := in_events_dropped t + 1\<rparr>)
      in (sent, t))"

text \<open>
  A ticket is the number of its one-shot. \<open>make_event_ticket\<close> creates the guard before it offers the
  item, and drops it when the item is refused.
\<close>

definition make_event_ticket :: "inner \<Rightarrow> nat option \<times> inner" where
  "make_event_ticket s =
     (let n = in_next_oneshot s;
          s = s\<lparr>in_next_oneshot := Suc n, in_oneshots := (in_oneshots s)(n := Unsent),
                in_event_tickets := in_event_tickets s + 1\<rparr>
      in
        case spool_offer (Spool_Event n) s of
          (True, t) \<Rightarrow> (Some n, t)
        | (False, t) \<Rightarrow>
            (None, t\<lparr>in_oneshots := (in_oneshots t)(n := Receiver_gone),
                     in_event_tickets := in_event_tickets t - 1\<rparr>))"

definition reserve_deferred_event :: "inner \<Rightarrow> (reservation_error, nat) res \<times> inner" where
  "reserve_deferred_event s =
     (let (reservation, start_overload_close, t) =
        (case in_event_admission s of
           Admission_Terminal \<Rightarrow> (Err Reservation_Closed, False, s)
         | Admission_Sealed \<Rightarrow> (Err Reservation_Closed, False, s)
         | Admission_Overflowed \<Rightarrow> (Err Reservation_Overflowed, False, s)
         | _ \<Rightarrow>
             (if in_event_depth s < in_event_spool_capacity s then
                (case make_event_ticket s of
                   (Some n, t) \<Rightarrow> (Ok n, False, t)
                 | (None, t) \<Rightarrow> (Err Reservation_Overflowed, True, overflow_admission t))
              else
                (case make_event_ticket (overflow_admission s) of
                   (Some n, t) \<Rightarrow> (Ok n, True, t)
                 | (None, t) \<Rightarrow> (Err Reservation_Overflowed, True, t))))
      in (reservation, if start_overload_close then start_event_overload_close t else t))"

text \<open>\<open>publish\<close> consumes the ticket; a ticket dropped without it leaves its receiver without a sender.\<close>

definition publish :: "nat \<Rightarrow> event \<Rightarrow> inner \<Rightarrow> bool \<times> inner" where
  "publish n e s =
     (let s = s\<lparr>in_event_tickets := in_event_tickets s - 1\<rparr> in
      if in_oneshots s n = Receiver_gone then (False, s)
      else (True, s\<lparr>in_oneshots := (in_oneshots s)(n := Sent e)\<rparr>))"

definition ticket_drop :: "nat \<Rightarrow> inner \<Rightarrow> inner" where
  "ticket_drop n s =
     (let s = s\<lparr>in_event_tickets := in_event_tickets s - 1\<rparr> in
      if in_oneshots s n = Receiver_gone then s
      else s\<lparr>in_oneshots := (in_oneshots s)(n := Sender_gone)\<rparr>)"

definition begin_event_drain :: "inner \<Rightarrow> inner" where
  "begin_event_drain s =
     (if in_event_admission s = Admission_Open then s\<lparr>in_event_admission := Admission_Draining\<rparr> else s)"

definition seal_event_admission_if_idle :: "inner \<Rightarrow> bool \<times> inner" where
  "seal_event_admission_if_idle s =
     (if in_event_admission s \<in> {Admission_Sealed, Admission_Terminal} then (True, s)
      else if in_event_tickets s \<noteq> 0 then (False, s)
      else (True, s\<lparr>in_event_admission := Admission_Sealed\<rparr>))"

definition seal_event_admission :: "inner \<Rightarrow> inner" where
  "seal_event_admission s =
     (if in_event_admission s \<noteq> Admission_Terminal
      then s\<lparr>in_event_admission := Admission_Sealed\<rparr> else s)"

definition start_event_dispatch_backpressure_close :: "inner \<Rightarrow> inner" where
  "start_event_dispatch_backpressure_close s =
     (let s = s\<lparr>in_event_overflowed := True\<rparr>;
          s = (if in_event_admission s \<in> {Admission_Open, Admission_Draining}
               then s\<lparr>in_event_admission := Admission_Overflowed\<rparr> else s)
      in start_event_overload_close s)"

definition close_event_spool :: "inner \<Rightarrow> inner" where
  "close_event_spool s =
     (if in_event_admission s = Admission_Terminal then s
      else
        (let reason = in_terminal_reason s;
             item = Spool_Terminal reason;
             s = s\<lparr>in_event_admission := Admission_Terminal, in_terminal_reason := None\<rparr>
         in
           case spool_try_send item (depth_permit_new_n 1 s) of
             (Send_Ok, t) \<Rightarrow> t
           | (Send_Full, t) \<Rightarrow> t\<lparr>in_tasks := in_tasks t @ [Terminal_Retry item]\<rparr>
           | (Send_Closed, t) \<Rightarrow> depth_permit_drop 1 t))"

definition finish :: "error option \<Rightarrow> inner \<Rightarrow> inner" where
  "finish reason s =
     (let reason =
        (if in_peer_terminate_seen s then Some Error_Terminated
         else if in_event_overflowed s then Some Error_ChannelClosed
         else reason)
      in
        if in_phase s = Phase_Closed then s
        else
          (case transition_to_closed (s\<lparr>in_terminal_reason := reason\<rparr>) of
             (False, t) \<Rightarrow> t
           | (True, t) \<Rightarrow>
               t\<lparr>in_drain_submits_on_close := False, in_window_closed := True,
                 in_manual_batch_closed := True, in_tasks := in_tasks t @ [Cleanup False]\<rparr>))"

section \<open>Clean-up\<close>

text \<open>What the drop of a \<open>PendingSubmit\<close> does: its UDH lease, sequence lease and window permit go.\<close>

definition drop_pending :: "pending_submit \<Rightarrow> inner \<Rightarrow> inner" where
  "drop_pending p s =
     s\<lparr>in_registry := lease_drop (ps_sequence_lease p) (in_registry s),
       in_window_available := in_window_available s + 1,
       in_dropped_udh :=
         (case ps_udh_lease p of None \<Rightarrow> in_dropped_udh s | Some l \<Rightarrow> in_dropped_udh s @ [l])\<rparr>"

definition remove_pending :: "u32 \<Rightarrow> inner \<Rightarrow> inner" where
  "remove_pending k s =
     (case in_pending_submits s k of
        None \<Rightarrow> s
      | Some p \<Rightarrow> drop_pending p (s\<lparr>in_pending_submits := (in_pending_submits s)(k := None)\<rparr>))"

fun responded_while_writing :: "submit_attempt_state \<Rightarrow> bool" where
  "responded_while_writing (RespondedWhileWriting _) = True"
| "responded_while_writing _ = False"

definition unfinished :: "(u32 \<rightharpoonup> pending_submit) \<Rightarrow> u32 \<Rightarrow> bool" where
  "unfinished m k = (case m k of None \<Rightarrow> False | Some p \<Rightarrow> \<not> responded_while_writing (ps_state p))"

definition drain_pending :: "u32 list \<Rightarrow> inner \<Rightarrow> u32 list \<times> inner" where
  "drain_pending order s =
     (List.filter (unfinished (in_pending_submits s)) order, fold remove_pending order s)"

text \<open>
  \<open>fail_all_pending\<close>: the first part drains the map, the second publishes the chunks one by one.
  \<open>next_chunk\<close> takes the permit of the next chunk; \<open>publish_chunk\<close> is one turn of the retry loop, with
  \<open>give_up\<close> for a deadline that has passed.
\<close>

definition next_chunk :: "bool \<Rightarrow> event list list \<Rightarrow> inner \<Rightarrow> detached \<times> inner" where
  "next_chunk fallback cs s =
     (case cs of
        [] \<Rightarrow> (Cleanup_Finish, s)
      | c # rest \<Rightarrow> (Cleanup_Publish fallback c rest, depth_permit_new_n (length c) s))"

definition fail_all_pending :: "bool \<Rightarrow> u32 list \<Rightarrow> inner \<Rightarrow> detached \<times> inner" where
  "fail_all_pending fallback order s =
     (case drain_pending order s of
        (dropped, t) \<Rightarrow> next_chunk fallback (chunks SUBMIT_DROPPED_BATCH_SIZE (map SubmitDropped dropped)) t)"

definition count_dropped :: "nat \<Rightarrow> inner \<Rightarrow> inner" where
  "count_dropped n s = s\<lparr>in_events_dropped := in_events_dropped s + of_nat n\<rparr>"

definition publish_chunk ::
  "bool \<Rightarrow> bool \<Rightarrow> event list \<Rightarrow> event list list \<Rightarrow> inner \<Rightarrow> detached \<times> inner" where
  "publish_chunk give_up fallback c rest s =
     (if give_up then
        next_chunk fallback rest (count_dropped (length c) (depth_permit_drop (length c) s))
      else
        (case spool_try_send (Spool_Batch c) s of
           (Send_Ok, t) \<Rightarrow> next_chunk fallback rest t
         | (Send_Full, t) \<Rightarrow> (Cleanup_Publish fallback c rest, t)
         | (Send_Closed, t) \<Rightarrow>
             (Cleanup_Finish,
              count_dropped (length c + sum_list (map length rest)) (depth_permit_drop (length c) t))))"

definition remove_heartbeat :: "u32 \<Rightarrow> inner \<Rightarrow> inner" where
  "remove_heartbeat k s =
     (case in_heartbeat_pending s k of
        None \<Rightarrow> s
      | Some h \<Rightarrow>
          s\<lparr>in_heartbeat_pending := (in_heartbeat_pending s)(k := None),
            in_registry := lease_drop (ph_sequence_lease h) (in_registry s)\<rparr>)"

definition take_pending_terminate :: "inner \<Rightarrow> inner" where
  "take_pending_terminate s =
     (case in_pending_terminate s of
        None \<Rightarrow> s
      | Some p \<Rightarrow>
          s\<lparr>in_pending_terminate := None,
            in_registry := lease_drop (pt_sequence_lease p) (in_registry s)\<rparr>)"

definition cleanup_finish :: "u32 list \<Rightarrow> inner \<Rightarrow> inner" where
  "cleanup_finish order s =
     (close_event_spool (take_pending_terminate (fold remove_heartbeat order s)))
       \<lparr>in_cleanup_complete := True\<rparr>"

text \<open>One turn of the retry loop of a \<open>Terminal\<close>; \<open>None\<close> when it ends.\<close>

definition terminal_retry :: "spool_item \<Rightarrow> inner \<Rightarrow> detached option \<times> inner" where
  "terminal_retry item s =
     (case spool_try_send item s of
        (Send_Ok, t) \<Rightarrow> (None, t)
      | (Send_Full, t) \<Rightarrow> (Some (Terminal_Retry item), t)
      | (Send_Closed, t) \<Rightarrow> (None, depth_permit_drop 1 t))"

text \<open>
  \<open>drain_event_tickets\<close>: one turn of its loop after the drain has begun. \<open>timed_out\<close> says that the
  budget has passed; the result says whether it returns.
\<close>

definition drain_event_tickets :: "bool \<Rightarrow> inner \<Rightarrow> bool \<times> inner" where
  "drain_event_tickets timed_out s =
     (case seal_event_admission_if_idle s of
        (True, t) \<Rightarrow> (True, t)
      | (False, t) \<Rightarrow> if timed_out then (True, seal_event_admission t) else (False, t))"

section \<open>The dispatcher\<close>

text \<open>The public event channel: the events in it and whether its receiver is alive.\<close>

record event_channel =
  ec_events :: "event list"
  ec_closed :: bool
  ec_capacity :: nat

datatype dispatch_result = Dispatched | Dispatch_Closed | Dispatch_Backpressure | Dispatch_Waiting

text \<open>
  A normal event needs two free slots, so that one is left for the terminal event. \<open>timed_out\<close> says
  that the wait for them has used up the backpressure budget.
\<close>

definition dispatch_event_with_budget ::
  "bool \<Rightarrow> event \<Rightarrow> event_channel \<Rightarrow> dispatch_result \<times> event_channel" where
  "dispatch_event_with_budget timed_out e c =
     (if ec_closed c then (Dispatch_Closed, c)
      else if length (ec_events c) + 2 \<le> ec_capacity c
      then (Dispatched, c\<lparr>ec_events := ec_events c @ [e]\<rparr>)
      else if timed_out then (Dispatch_Backpressure, c)
      else (Dispatch_Waiting, c))"

definition channel_try_send :: "event \<Rightarrow> event_channel \<Rightarrow> send_result \<times> event_channel" where
  "channel_try_send e c =
     (if ec_closed c then (Send_Closed, c)
      else if ec_capacity c \<le> length (ec_events c) then (Send_Full, c)
      else (Send_Ok, c\<lparr>ec_events := ec_events c @ [e]\<rparr>))"

text \<open>
  What the dispatcher holds: nothing, the events left of the item it took with the permits of the
  item, a ticket whose event it awaits, or it has exited.
\<close>

datatype dispatcher =
    D_Idle
  | D_Events "event list" nat
  | D_Ticket nat
  | D_Exited

text \<open>
  \<open>dispatch_direct_event\<close>: whether the event was delivered, dropped, or waits for room.
\<close>

datatype fate = Fate_Delivered | Fate_Dropped | Fate_Waiting

definition dispatch_direct_event ::
  "bool \<Rightarrow> bool \<Rightarrow> event \<Rightarrow> event_channel \<Rightarrow> inner \<Rightarrow> fate \<times> bool \<times> event_channel \<times> inner" where
  "dispatch_direct_event timed_out discard_events e c s =
     (if discard_events then (Fate_Dropped, True, c, count_dropped 1 s)
      else
        (case dispatch_event_with_budget timed_out e c of
           (Dispatched, c') \<Rightarrow> (Fate_Delivered, False, c', s)
         | (Dispatch_Closed, c') \<Rightarrow> (Fate_Dropped, True, c', count_dropped 1 s)
         | (Dispatch_Backpressure, c') \<Rightarrow>
             (Fate_Dropped, True, c', start_event_dispatch_backpressure_close (count_dropped 1 s))
         | (Dispatch_Waiting, c') \<Rightarrow> (Fate_Waiting, False, c', s)))"

text \<open>The receiver goes when the task returns, and with it the items still in the spool.\<close>

definition spool_receiver_drop :: "inner \<Rightarrow> inner" where
  "spool_receiver_drop s =
     depth_permit_drop (sum_list (map item_depth (in_spool s)))
       (s\<lparr>in_spool := [], in_spool_closed := True,
         in_oneshots := (\<lambda>n. if Spool_Event n \<in> set (in_spool s) then Receiver_gone else in_oneshots s n)\<rparr>)"

text \<open>
  One turn of \<open>event_dispatcher_task\<close>: \<open>None\<close> when it waits. The second result says whether an event
  was delivered in this turn or dropped.
\<close>

definition event_dispatcher ::
  "bool \<Rightarrow> dispatcher \<Rightarrow> bool \<Rightarrow> event_channel \<Rightarrow> inner \<Rightarrow>
     (fate \<times> dispatcher \<times> bool \<times> event_channel \<times> inner) option" where
  "event_dispatcher timed_out d discard_events c s =
     (case d of
        D_Exited \<Rightarrow> None
      | D_Idle \<Rightarrow>
          (case in_spool s of
             [] \<Rightarrow> None
           | item # rest \<Rightarrow>
               (let s = s\<lparr>in_spool := rest\<rparr> in
                case item of
                  Spool_Direct e \<Rightarrow> Some (Fate_Waiting, D_Events [e] 1, discard_events, c, s)
                | Spool_Batch es \<Rightarrow> Some (Fate_Waiting, D_Events es (length es), discard_events, c, s)
                | Spool_Event n \<Rightarrow>
                    if discard_events then
                      Some (Fate_Dropped, D_Idle, True, c,
                            depth_permit_drop 1 (count_dropped 1
                              (s\<lparr>in_oneshots := (in_oneshots s)(n := Receiver_gone)\<rparr>)))
                    else Some (Fate_Waiting, D_Ticket n, False, c, s)
                | Spool_Terminal reason \<Rightarrow>
                    (let c = (case reason of None \<Rightarrow> c | Some e \<Rightarrow> snd (channel_try_send (Disconnected e) c)) in
                     Some (Fate_Waiting, D_Exited, discard_events, c,
                           depth_permit_drop 1 (spool_receiver_drop s)))))
      | D_Ticket n \<Rightarrow>
          (case in_oneshots s n of
             Sent e \<Rightarrow>
               (case dispatch_direct_event timed_out discard_events e c s of
                  (Fate_Waiting, _, _, _) \<Rightarrow> None
                | (f, discard_events, c, s) \<Rightarrow>
                    Some (f, D_Idle, discard_events, c, depth_permit_drop 1 s))
           | Unsent \<Rightarrow> None
           | _ \<Rightarrow> Some (Fate_Dropped, D_Idle, discard_events, c, depth_permit_drop 1 (count_dropped 1 s)))
      | D_Events [] permits \<Rightarrow> Some (Fate_Waiting, D_Idle, discard_events, c, depth_permit_drop permits s)
      | D_Events (e # es) permits \<Rightarrow>
          (case dispatch_direct_event timed_out discard_events e c s of
             (Fate_Waiting, _, _, _) \<Rightarrow> None
           | (f, discard_events, c, s) \<Rightarrow> Some (f, D_Events es permits, discard_events, c, s)))"

end
