(* ===== verification/Cmpp_Pipeline.thy ===== *)
theory Cmpp_Pipeline
  imports Cmpp_Events "HOL-Library.Sublist"
begin

text \<open>
  The event pipeline as a step relation: producers, tickets, the closing tasks, the clean-up, the
  dispatcher and the consumer of the public channel run in any order, one critical section at a
  time. The state carries ghost fields: the log of the accepted events in order of acceptance, how
  many of them the dispatcher has passed, which of these it delivered, how many events were refused,
  and the reason of the first \<open>finish\<close>.
\<close>

section \<open>What an operation does to the pipeline\<close>

definition frame_spool :: "inner \<Rightarrow> inner \<Rightarrow> bool" where
  "frame_spool s t \<longleftrightarrow>
     in_spool_closed t = in_spool_closed s \<and> in_event_spool_capacity t = in_event_spool_capacity s \<and>
     in_terminal_reason t = in_terminal_reason s"

definition frame_tickets :: "inner \<Rightarrow> inner \<Rightarrow> bool" where
  "frame_tickets s t \<longleftrightarrow>
     in_event_tickets t = in_event_tickets s \<and> in_oneshots t = in_oneshots s \<and>
     in_next_oneshot t = in_next_oneshot s"

definition open_admission :: "inner \<Rightarrow> bool" where
  "open_admission s \<longleftrightarrow> in_event_admission s = Admission_Open \<or> in_event_admission s = Admission_Draining"

definition overload :: "inner \<Rightarrow> inner \<Rightarrow> bool" where
  "overload s t \<longleftrightarrow>
     in_phase t = in_phase s \<and> in_tasks t = in_tasks s \<or>
     in_phase s = Phase_Open \<and> in_phase t = Phase_Closing \<and> in_tasks t = in_tasks s @ [Overload_Close]"

text \<open>
  An item offered through the admission: it is accepted only while the admission is open, and the
  admission stays open only when there was normal capacity for it.
\<close>

definition offered :: "bool \<Rightarrow> spool_item \<Rightarrow> inner \<Rightarrow> inner \<Rightarrow> bool" where
  "offered sent item s t \<longleftrightarrow>
     frame_spool s t \<and> overload s t \<and>
     in_spool t = in_spool s @ (if sent then [item] else []) \<and>
     in_event_depth t = in_event_depth s + (if sent then 1 else 0) \<and>
     (in_event_depth s \<le> in_event_depth_peak s \<longrightarrow> in_event_depth t \<le> in_event_depth_peak t) \<and>
     (sent \<longrightarrow> open_admission s \<and> \<not> in_spool_closed s \<and>
        length (in_spool s) < in_event_spool_capacity s + 2) \<and>
     (open_admission s \<and> \<not> in_spool_closed s \<and> length (in_spool s) < in_event_spool_capacity s + 2 \<longrightarrow> sent) \<and>
     (open_admission t \<longrightarrow> sent \<longrightarrow> in_event_depth s < in_event_spool_capacity s) \<and>
     (in_event_overflowed s \<longrightarrow> in_event_overflowed t) \<and>
     (in_event_admission t = in_event_admission s \<and> in_event_overflowed t = in_event_overflowed s \<or>
      open_admission s \<and> in_event_admission t = Admission_Overflowed)"

text \<open>The cases of an offer: refused by the admission, or by the spool, or accepted.\<close>

definition room :: "inner \<Rightarrow> bool" where
  "room s \<longleftrightarrow> \<not> in_spool_closed s \<and> length (in_spool s) < in_event_spool_capacity s + 2"

definition raise_peak :: "inner \<Rightarrow> inner" where
  "raise_peak s = s\<lparr>in_event_depth_peak := max (in_event_depth_peak s) (in_event_depth s + 1)\<rparr>"

definition accept :: "spool_item \<Rightarrow> inner \<Rightarrow> inner" where
  "accept item s = (raise_peak s)\<lparr>in_event_depth := in_event_depth s + 1, in_spool := in_spool s @ [item]\<rparr>"

lemma spool_offer_eq:
  "item_depth item = 1 \<Longrightarrow>
     spool_offer item s = (if room s then (True, accept item s) else (False, raise_peak s))"
  unfolding spool_offer_def spool_try_send_def EVENT_SPOOL_EMERGENCY_CAPACITY_def room_def accept_def
    raise_peak_def depth_permit_new_n_def depth_permit_drop_def Let_def
  by auto

text \<open>The fields of the building blocks, so that no proof has to open their records.\<close>

lemma raise_peak_sel [simp]:
  "in_spool (raise_peak s) = in_spool s" "in_spool_closed (raise_peak s) = in_spool_closed s"
  "in_event_admission (raise_peak s) = in_event_admission s" "in_event_depth (raise_peak s) = in_event_depth s"
  "in_event_depth_peak (raise_peak s) = max (in_event_depth_peak s) (in_event_depth s + 1)"
  "in_event_spool_capacity (raise_peak s) = in_event_spool_capacity s"
  "in_event_tickets (raise_peak s) = in_event_tickets s" "in_oneshots (raise_peak s) = in_oneshots s"
  "in_next_oneshot (raise_peak s) = in_next_oneshot s" "in_event_overflowed (raise_peak s) = in_event_overflowed s"
  "in_terminal_reason (raise_peak s) = in_terminal_reason s" "in_events_dropped (raise_peak s) = in_events_dropped s"
  "in_phase (raise_peak s) = in_phase s" "in_tasks (raise_peak s) = in_tasks s" "room (raise_peak s) = room s"
  unfolding raise_peak_def room_def by simp_all

lemma accept_sel [simp]:
  "in_spool (accept i s) = in_spool s @ [i]" "in_spool_closed (accept i s) = in_spool_closed s"
  "in_event_admission (accept i s) = in_event_admission s" "in_event_depth (accept i s) = Suc (in_event_depth s)"
  "in_event_depth_peak (accept i s) = max (in_event_depth_peak s) (Suc (in_event_depth s))"
  "in_event_spool_capacity (accept i s) = in_event_spool_capacity s"
  "in_event_tickets (accept i s) = in_event_tickets s" "in_oneshots (accept i s) = in_oneshots s"
  "in_next_oneshot (accept i s) = in_next_oneshot s" "in_event_overflowed (accept i s) = in_event_overflowed s"
  "in_terminal_reason (accept i s) = in_terminal_reason s" "in_events_dropped (accept i s) = in_events_dropped s"
  "in_phase (accept i s) = in_phase s" "in_tasks (accept i s) = in_tasks s"
  unfolding accept_def by simp_all

lemma overflow_admission_sel [simp]:
  "in_spool (overflow_admission s) = in_spool s" "in_spool_closed (overflow_admission s) = in_spool_closed s"
  "in_event_admission (overflow_admission s) = Admission_Overflowed"
  "in_event_depth (overflow_admission s) = in_event_depth s"
  "in_event_depth_peak (overflow_admission s) = in_event_depth_peak s"
  "in_event_spool_capacity (overflow_admission s) = in_event_spool_capacity s"
  "in_event_tickets (overflow_admission s) = in_event_tickets s" "in_oneshots (overflow_admission s) = in_oneshots s"
  "in_next_oneshot (overflow_admission s) = in_next_oneshot s" "in_event_overflowed (overflow_admission s)"
  "in_terminal_reason (overflow_admission s) = in_terminal_reason s"
  "in_events_dropped (overflow_admission s) = in_events_dropped s"
  "in_phase (overflow_admission s) = in_phase s" "in_tasks (overflow_admission s) = in_tasks s"
  "room (overflow_admission s) = room s"
  unfolding overflow_admission_def room_def by simp_all

lemma overload_close_sel [simp]:
  "in_spool (start_event_overload_close s) = in_spool s"
  "in_spool_closed (start_event_overload_close s) = in_spool_closed s"
  "in_event_admission (start_event_overload_close s) = in_event_admission s"
  "in_event_depth (start_event_overload_close s) = in_event_depth s"
  "in_event_depth_peak (start_event_overload_close s) = in_event_depth_peak s"
  "in_event_spool_capacity (start_event_overload_close s) = in_event_spool_capacity s"
  "in_event_tickets (start_event_overload_close s) = in_event_tickets s"
  "in_oneshots (start_event_overload_close s) = in_oneshots s"
  "in_next_oneshot (start_event_overload_close s) = in_next_oneshot s"
  "in_event_overflowed (start_event_overload_close s) = in_event_overflowed s"
  "in_terminal_reason (start_event_overload_close s) = in_terminal_reason s"
  "in_events_dropped (start_event_overload_close s) = in_events_dropped s"
  "in_phase (start_event_overload_close s) = (if in_phase s = Phase_Open then Phase_Closing else in_phase s)"
  "in_tasks (start_event_overload_close s) =
     in_tasks s @ (if in_phase s = Phase_Open then [Overload_Close] else [])"
  unfolding start_event_overload_close_def begin_closing_def by auto

definition new_ticket :: "oneshot \<Rightarrow> nat \<Rightarrow> inner \<Rightarrow> inner" where
  "new_ticket w held s =
     s\<lparr>in_next_oneshot := Suc (in_next_oneshot s), in_event_tickets := in_event_tickets s + held,
       in_oneshots := (in_oneshots s)(in_next_oneshot s := w)\<rparr>"

lemma new_ticket_sel [simp]:
  "in_spool (new_ticket w h s) = in_spool s" "in_spool_closed (new_ticket w h s) = in_spool_closed s"
  "in_event_admission (new_ticket w h s) = in_event_admission s" "in_event_depth (new_ticket w h s) = in_event_depth s"
  "in_event_depth_peak (new_ticket w h s) = in_event_depth_peak s"
  "in_event_spool_capacity (new_ticket w h s) = in_event_spool_capacity s"
  "in_event_tickets (new_ticket w h s) = in_event_tickets s + h"
  "in_oneshots (new_ticket w h s) = (in_oneshots s)(in_next_oneshot s := w)"
  "in_next_oneshot (new_ticket w h s) = Suc (in_next_oneshot s)"
  "in_event_overflowed (new_ticket w h s) = in_event_overflowed s"
  "in_terminal_reason (new_ticket w h s) = in_terminal_reason s"
  "in_events_dropped (new_ticket w h s) = in_events_dropped s"
  "in_phase (new_ticket w h s) = in_phase s" "in_tasks (new_ticket w h s) = in_tasks s"
  unfolding new_ticket_def by simp_all

lemma make_event_ticket_eq:
  "make_event_ticket s =
     (if room s
      then (Some (in_next_oneshot s), accept (Spool_Event (in_next_oneshot s)) (new_ticket Unsent 1 s))
      else (None, raise_peak (new_ticket Receiver_gone 0 s)))"
  unfolding make_event_ticket_def
  by (simp add: spool_offer_eq Let_def) (auto simp: room_def accept_def raise_peak_def new_ticket_def)

lemmas offered_defs = offered_def frame_spool_def overload_def open_admission_def

lemma emit_event_offered:
  assumes "emit_event e s = (sent, t)"
  shows "offered sent (Spool_Direct e) s t"
proof -
  have "offered (fst (emit_event e s)) (Spool_Direct e) s (snd (emit_event e s))"
    by (cases "in_event_admission s"; cases "in_event_depth s < in_event_spool_capacity s";
        cases "room s"; cases "in_phase s = Phase_Open";
        simp add: emit_event_def spool_offer_eq offered_defs; auto simp: room_def)
  then show ?thesis using assms by simp
qed

lemma emit_event_frame:
  assumes "emit_event e s = (sent, t)"
  shows "frame_tickets s t \<and> in_events_dropped t = in_events_dropped s + (if sent then 0 else 1)"
  using assms
  by (cases "in_event_admission s"; cases "in_event_depth s < in_event_spool_capacity s"; cases "room s")
    (auto simp: emit_event_def spool_offer_eq frame_tickets_def)

lemma reserve_deferred_offered:
  assumes "reserve_deferred_event s = (r, t)"
  shows "offered (case r of Ok _ \<Rightarrow> True | _ \<Rightarrow> False) (Spool_Event (in_next_oneshot s)) s t"
proof -
  have "offered (case fst (reserve_deferred_event s) of Ok _ \<Rightarrow> True | _ \<Rightarrow> False)
          (Spool_Event (in_next_oneshot s)) s (snd (reserve_deferred_event s))"
    by (cases "in_event_admission s"; cases "in_event_depth s < in_event_spool_capacity s";
        cases "room s"; cases "in_phase s = Phase_Open";
        simp add: reserve_deferred_event_def make_event_ticket_eq offered_defs; auto simp: room_def)
  then show ?thesis using assms by simp
qed

lemma reserve_deferred_frame:
  assumes "reserve_deferred_event s = (r, t)"
  shows "in_events_dropped t = in_events_dropped s \<and>
     (case r of
        Ok n \<Rightarrow> n = in_next_oneshot s \<and> in_event_tickets t = in_event_tickets s + 1 \<and>
                in_next_oneshot t = Suc n \<and> in_oneshots t = (in_oneshots s)(n := Unsent)
      | Err _ \<Rightarrow> in_event_tickets t = in_event_tickets s \<and>
                (frame_tickets s t \<or>
                 in_next_oneshot t = Suc (in_next_oneshot s) \<and>
                 in_oneshots t = (in_oneshots s)(in_next_oneshot s := Receiver_gone))
      | Panic \<Rightarrow> False)"
  using assms
  by (cases "in_event_admission s"; cases "in_event_depth s < in_event_spool_capacity s"; cases "room s")
    (auto simp: reserve_deferred_event_def make_event_ticket_eq frame_tickets_def room_def)

text \<open>What the rest of the connection leaves alone.\<close>

definition same_pipe :: "inner \<Rightarrow> inner \<Rightarrow> bool" where
  "same_pipe s t \<longleftrightarrow>
     in_spool t = in_spool s \<and> in_spool_closed t = in_spool_closed s \<and>
     in_event_admission t = in_event_admission s \<and> in_event_depth t = in_event_depth s \<and>
     in_event_depth_peak t = in_event_depth_peak s \<and>
     in_event_spool_capacity t = in_event_spool_capacity s \<and>
     in_event_tickets t = in_event_tickets s \<and> in_oneshots t = in_oneshots s \<and>
     in_next_oneshot t = in_next_oneshot s \<and> in_event_overflowed t = in_event_overflowed s \<and>
     in_terminal_reason t = in_terminal_reason s \<and> in_events_dropped t = in_events_dropped s \<and>
     in_phase t = in_phase s \<and> in_tasks t = in_tasks s"

lemma same_pipe_refl [simp]: "same_pipe s s"
  by (simp add: same_pipe_def)

lemma same_pipe_trans: "same_pipe s t \<Longrightarrow> same_pipe t u \<Longrightarrow> same_pipe s u"
  by (simp add: same_pipe_def)

lemma same_pipe_remove_pending: "same_pipe s (remove_pending k s)"
  by (simp add: remove_pending_def drop_pending_def same_pipe_def split: option.split)

lemma same_pipe_remove_heartbeat: "same_pipe s (remove_heartbeat k s)"
  by (simp add: remove_heartbeat_def same_pipe_def split: option.split)

lemma same_pipe_take_terminate: "same_pipe s (take_pending_terminate s)"
  by (simp add: take_pending_terminate_def same_pipe_def split: option.split)

text \<open>Other signals take numbers of one-shots as well.\<close>

definition beside :: "inner \<Rightarrow> inner \<Rightarrow> bool" where
  "beside s t \<longleftrightarrow>
     same_pipe s (t\<lparr>in_next_oneshot := in_next_oneshot s\<rparr>) \<and> in_next_oneshot s \<le> in_next_oneshot t \<and>
     (in_cleanup_complete t \<longleftrightarrow> in_cleanup_complete s)"

lemma beside_refl [simp]: "beside s s"
  by (simp add: beside_def same_pipe_def)

lemma beside_trans: "beside s t \<Longrightarrow> beside t u \<Longrightarrow> beside s u"
  by (auto simp: beside_def same_pipe_def)

lemma same_pipe_fold: "(\<And>k s. same_pipe s (f k s)) \<Longrightarrow> same_pipe s (fold f ks s)"
  by (induction ks arbitrary: s) (auto intro: same_pipe_trans)

section \<open>The pipeline\<close>

datatype slot = Slot_Event event | Slot_Ticket nat

fun item_slots :: "spool_item \<Rightarrow> slot list" where
  "item_slots (Spool_Direct e) = [Slot_Event e]"
| "item_slots (Spool_Batch es) = map Slot_Event es"
| "item_slots (Spool_Event n) = [Slot_Ticket n]"
| "item_slots (Spool_Terminal _) = []"

fun hand_slots :: "dispatcher \<Rightarrow> slot list" where
  "hand_slots (D_Events es _) = map Slot_Event es"
| "hand_slots (D_Ticket n) = [Slot_Ticket n]"
| "hand_slots _ = []"

fun hand_depth :: "dispatcher \<Rightarrow> nat" where
  "hand_depth (D_Events _ n) = n"
| "hand_depth (D_Ticket _) = 1"
| "hand_depth _ = 0"

fun task_depth :: "detached \<Rightarrow> nat" where
  "task_depth (Cleanup_Publish _ c _) = length c"
| "task_depth (Terminal_Retry _) = 1"
| "task_depth _ = 0"

fun is_terminal :: "spool_item \<Rightarrow> bool" where
  "is_terminal (Spool_Terminal _) = True"
| "is_terminal _ = False"

fun is_retry :: "detached \<Rightarrow> bool" where
  "is_retry (Terminal_Retry _) = True"
| "is_retry _ = False"

fun is_cleanup :: "detached \<Rightarrow> bool" where
  "is_cleanup (Cleanup _) = True"
| "is_cleanup (Cleanup_Publish _ _ _) = True"
| "is_cleanup Cleanup_Finish = True"
| "is_cleanup _ = False"

record pipe =
  pl_inner :: inner
  pl_dispatcher :: dispatcher
  pl_discard :: bool
  pl_channel :: event_channel
  pl_tickets :: "nat list"
  pl_published :: "nat \<rightharpoonup> event"
  pl_log :: "slot list"
  pl_pos :: nat
  pl_out :: "(nat \<times> event) list"
  pl_public :: "event list"
  pl_refused :: nat
  pl_reason :: "error option"
  pl_fallback :: bool

definition pipe_new :: "inner \<Rightarrow> nat \<Rightarrow> pipe" where
  "pipe_new s capacity =
     \<lparr>pl_inner = s, pl_dispatcher = D_Idle, pl_discard = False,
      pl_channel = \<lparr>ec_events = [], ec_closed = False, ec_capacity = capacity\<rparr>, pl_tickets = [],
      pl_published = Map.empty, pl_log = [], pl_pos = 0, pl_out = [], pl_public = [], pl_refused = 0,
      pl_reason = None, pl_fallback = False\<rparr>"

text \<open>\<open>pl_reason\<close> is the reason that the state has recorded, kept when the terminal item has taken it away.\<close>

definition run_finish :: "error option \<Rightarrow> pipe \<Rightarrow> pipe" where
  "run_finish reason p =
     (let t = finish reason (pl_inner p) in
      p\<lparr>pl_inner := t,
        pl_reason := (if in_event_admission t = Admission_Terminal then pl_reason p else in_terminal_reason t)\<rparr>)"

definition without_task :: "detached list \<Rightarrow> detached list \<Rightarrow> pipe \<Rightarrow> pipe" where
  "without_task xs ys p = p\<lparr>pl_inner := (pl_inner p)\<lparr>in_tasks := xs @ ys\<rparr>\<rparr>"

definition with_task :: "detached \<Rightarrow> inner \<Rightarrow> inner" where
  "with_task t s = s\<lparr>in_tasks := in_tasks s @ [t]\<rparr>"

definition enumerates :: "'k list \<Rightarrow> ('k \<rightharpoonup> 'v) \<Rightarrow> bool" where
  "enumerates order m \<longleftrightarrow> distinct order \<and> set order = dom m"

text \<open>
  The steps. The event of a delivery is the last one of the public channel. A task that runs is taken
  out of the list first, and put back at the end when it is not done.
\<close>

inductive pipe_step :: "pipe \<Rightarrow> pipe \<Rightarrow> bool" where
  emit:
    "emit_event e (pl_inner p) = (sent, t) \<Longrightarrow>
     pipe_step p
       (p\<lparr>pl_inner := t, pl_log := pl_log p @ (if sent then [Slot_Event e] else []),
          pl_refused := pl_refused p + (if sent then 0 else 1)\<rparr>)"
| discount:
    "in_event_overflowed (pl_inner p) \<Longrightarrow>
     pipe_step p (p\<lparr>pl_inner := count_dropped 1 (pl_inner p), pl_refused := pl_refused p + 1\<rparr>)"
| reserve:
    "reserve_deferred_event (pl_inner p) = (Ok n, t) \<Longrightarrow>
     pipe_step p (p\<lparr>pl_inner := t, pl_tickets := n # pl_tickets p, pl_log := pl_log p @ [Slot_Ticket n]\<rparr>)"
| reserve_err:
    "reserve_deferred_event (pl_inner p) = (Err r, t) \<Longrightarrow> pipe_step p (p\<lparr>pl_inner := t\<rparr>)"
| publish:
    "n \<in> set (pl_tickets p) \<Longrightarrow> Cmpp_Events.publish n e (pl_inner p) = (ok, t) \<Longrightarrow>
     pipe_step p
       (p\<lparr>pl_inner := t, pl_tickets := remove1 n (pl_tickets p),
          pl_published := (pl_published p)(n \<mapsto> e)\<rparr>)"
| drop_ticket:
    "n \<in> set (pl_tickets p) \<Longrightarrow>
     pipe_step p (p\<lparr>pl_inner := ticket_drop n (pl_inner p), pl_tickets := remove1 n (pl_tickets p)\<rparr>)"
| drain:
    "pipe_step p (p\<lparr>pl_inner := begin_event_drain (pl_inner p)\<rparr>)"
| seal:
    "drain_event_tickets timed_out (pl_inner p) = (ended, t) \<Longrightarrow> pipe_step p (p\<lparr>pl_inner := t\<rparr>)"
| closing:
    "begin_closing drain_submits (pl_inner p) = (started, t) \<Longrightarrow> pipe_step p (p\<lparr>pl_inner := t\<rparr>)"
| finish:
    "pipe_step p (run_finish reason p)"
| overload_begin:
    "in_tasks (pl_inner p) = xs @ Overload_Close # ys \<Longrightarrow>
     q = without_task xs ys p \<Longrightarrow>
     pipe_step p (q\<lparr>pl_inner := with_task Overload_Drain (begin_event_drain (pl_inner q))\<rparr>)"
| overload_drain:
    "in_tasks (pl_inner p) = xs @ Overload_Drain # ys \<Longrightarrow>
     q = without_task xs ys p \<Longrightarrow> drain_event_tickets timed_out (pl_inner q) = (ended, t) \<Longrightarrow>
     pipe_step p
       (if ended then run_finish (Some Error_ChannelClosed) (q\<lparr>pl_inner := t\<rparr>)
        else q\<lparr>pl_inner := with_task Overload_Drain t\<rparr>)"
| cleanup_start:
    "in_tasks (pl_inner p) = xs @ Cleanup fallback # ys \<Longrightarrow>
     q = without_task xs ys p \<Longrightarrow> enumerates order (in_pending_submits (pl_inner q)) \<Longrightarrow>
     fail_all_pending fallback order (pl_inner q) = (task, t) \<Longrightarrow>
     pipe_step p (q\<lparr>pl_inner := with_task task t\<rparr>)"
| cleanup_publish:
    "in_tasks (pl_inner p) = xs @ Cleanup_Publish fallback c rest # ys \<Longrightarrow>
     q = without_task xs ys p \<Longrightarrow> publish_chunk give_up fallback c rest (pl_inner q) = (task, t) \<Longrightarrow>
     sent = (\<not> give_up \<and> fst (spool_try_send (Spool_Batch c) (pl_inner q)) = Send_Ok) \<Longrightarrow>
     given_up =
       (if give_up then length c
        else if in_spool_closed (pl_inner q) then length c + sum_list (map length rest) else 0) \<Longrightarrow>
     pipe_step p
       (q\<lparr>pl_inner := with_task task t,
          pl_log := pl_log q @ (if sent then map Slot_Event c else []),
          pl_refused := pl_refused q + given_up\<rparr>)"
| cleanup_end:
    "in_tasks (pl_inner p) = xs @ Cleanup_Finish # ys \<Longrightarrow>
     q = without_task xs ys p \<Longrightarrow> enumerates order (in_heartbeat_pending (pl_inner q)) \<Longrightarrow>
     pipe_step p (q\<lparr>pl_inner := cleanup_finish order (pl_inner q)\<rparr>)"
| fallback:
    "in_phase (pl_inner p) = Phase_Closed \<Longrightarrow> \<not> in_cleanup_complete (pl_inner p) \<Longrightarrow>
     pipe_step p (p\<lparr>pl_inner := with_task (Cleanup True) (pl_inner p), pl_fallback := True\<rparr>)"
| fallback_cancelled:
    "in_tasks (pl_inner p) = xs @ Cleanup_Publish True c rest # ys \<Longrightarrow>
     q = without_task xs ys p \<Longrightarrow>
     pipe_step p (q\<lparr>pl_inner := depth_permit_drop (length c) (pl_inner q)\<rparr>)"
| retry:
    "in_tasks (pl_inner p) = xs @ Terminal_Retry item # ys \<Longrightarrow>
     q = without_task xs ys p \<Longrightarrow> terminal_retry item (pl_inner q) = (task, t) \<Longrightarrow>
     pipe_step p (q\<lparr>pl_inner := (case task of None \<Rightarrow> t | Some k \<Rightarrow> with_task k t)\<rparr>)"
| dispatch:
    "event_dispatcher timed_out (pl_dispatcher p) (pl_discard p) (pl_channel p) (pl_inner p) =
       Some (f, d, discard_events, c, t) \<Longrightarrow>
     appended = drop (length (ec_events (pl_channel p))) (ec_events c) \<Longrightarrow>
     pipe_step p
       (p\<lparr>pl_inner := t, pl_dispatcher := d, pl_discard := discard_events, pl_channel := c,
          pl_pos := pl_pos p + (if f = Fate_Waiting then 0 else 1),
          pl_out := pl_out p @ (if f = Fate_Delivered then [(pl_pos p, last (ec_events c))] else []),
          pl_public := pl_public p @ appended\<rparr>)"
| consume:
    "ec_events (pl_channel p) = e # es \<Longrightarrow>
     pipe_step p (p\<lparr>pl_channel := (pl_channel p)\<lparr>ec_events := es\<rparr>\<rparr>)"
| receiver_dropped:
    "pipe_step p (p\<lparr>pl_channel := (pl_channel p)\<lparr>ec_events := [], ec_closed := True\<rparr>\<rparr>)"
| environment:
    "beside (pl_inner p) t \<Longrightarrow>
     pipe_step p (p\<lparr>pl_inner := t\<rparr>)"

text \<open>A run begins when \<open>connect\<close> returns.\<close>

inductive pipe_reachable :: "cmpp_protocol_params \<Rightarrow> pipe \<Rightarrow> bool" for params where
  start: "pipe_reachable params (pipe_new (inner_new params) INCOMING_CHANNEL_CAPACITY)"
| step: "pipe_reachable params p \<Longrightarrow> pipe_step p q \<Longrightarrow> pipe_reachable params q"

section \<open>The cases of the dispatcher\<close>

definition degraded :: "inner \<Rightarrow> inner \<Rightarrow> bool" where
  "degraded s t \<longleftrightarrow>
     frame_spool s t \<and> frame_tickets s t \<and> overload s t \<and> in_spool t = in_spool s \<and>
     in_event_depth t = in_event_depth s \<and> in_event_depth_peak t = in_event_depth_peak s \<and>
     in_events_dropped t = in_events_dropped s \<and>
     (in_event_overflowed s \<longrightarrow> in_event_overflowed t) \<and>
     (in_event_admission t = in_event_admission s \<or>
      open_admission s \<and> in_event_admission t = Admission_Overflowed)"

lemma degraded_refl [simp]: "degraded s s"
  by (simp add: degraded_def frame_spool_def frame_tickets_def overload_def)

lemma degraded_backpressure: "degraded s (start_event_dispatch_backpressure_close s)"
  by (cases "in_phase s = Phase_Open"; cases "in_event_admission s")
    (simp_all add: degraded_def start_event_dispatch_backpressure_close_def frame_spool_def
      frame_tickets_def overload_def open_admission_def)

lemma dispatch_direct_cases:
  assumes "dispatch_direct_event timed_out discard_events e c s = (f, discard', c', t)" "f \<noteq> Fate_Waiting"
  obtains
    (delivered) "f = Fate_Delivered" "\<not> discard_events" "\<not> discard'" "\<not> ec_closed c" "length (ec_events c) + 2 \<le> ec_capacity c"
      "c' = c\<lparr>ec_events := ec_events c @ [e]\<rparr>" "t = s"
  | (dropped) "f = Fate_Dropped" "discard'" "c' = c" "degraded (count_dropped 1 s) t"
proof (cases discard_events)
  case True
  with assms dropped show ?thesis by (simp add: dispatch_direct_event_def)
next
  case False
  with assms delivered dropped degraded_backpressure[of "count_dropped 1 s"] show ?thesis
    by (auto simp: dispatch_direct_event_def dispatch_event_with_budget_def split: if_splits)
qed

lemma dispatcher_cases:
  assumes "event_dispatcher timed_out d discard_events c s = Some (f, d', discard', c', t)"
  obtains
    (taken) item rest where "d = D_Idle" "in_spool s = item # rest" "\<not> is_terminal item"
      "f = Fate_Waiting" "c' = c" "discard' = discard_events" "t = s\<lparr>in_spool := rest\<rparr>"
      "hand_slots d' = item_slots item" "hand_depth d' = item_depth item" "d' \<noteq> D_Exited"
  | (skipped) n rest where "d = D_Idle" "in_spool s = Spool_Event n # rest" "f = Fate_Dropped"
      "d' = D_Idle" "c' = c" "discard'"
      "t = depth_permit_drop 1 (count_dropped 1
             (s\<lparr>in_spool := rest, in_oneshots := (in_oneshots s)(n := Receiver_gone)\<rparr>))"
  | (exit) reason rest where "d = D_Idle" "in_spool s = Spool_Terminal reason # rest"
      "f = Fate_Waiting" "d' = D_Exited" "discard' = discard_events"
      "c' = (case reason of None \<Rightarrow> c | Some e \<Rightarrow> snd (channel_try_send (Disconnected e) c))"
      "t = depth_permit_drop 1 (spool_receiver_drop (s\<lparr>in_spool := rest\<rparr>))"
  | (direct) e es m where "d = D_Events (e # es) m" "d' = D_Events es m" "f \<noteq> Fate_Waiting"
      "dispatch_direct_event timed_out discard_events e c s = (f, discard', c', t)"
  | (ticket) n e u where "d = D_Ticket n" "in_oneshots s n = Sent e" "d' = D_Idle" "f \<noteq> Fate_Waiting"
      "dispatch_direct_event timed_out discard_events e c s = (f, discard', c', u)"
      "t = depth_permit_drop 1 u"
  | (orphan) n where "d = D_Ticket n" "d' = D_Idle" "f = Fate_Dropped" "c' = c"
      "discard' = discard_events" "t = depth_permit_drop 1 (count_dropped 1 s)"
  | (finished) m where "d = D_Events [] m" "d' = D_Idle" "f = Fate_Waiting" "c' = c"
      "discard' = discard_events" "t = depth_permit_drop m s"
proof (cases d)
  case D_Idle
  with assms obtain item rest where spool: "in_spool s = item # rest"
    by (auto simp: event_dispatcher_def split: list.splits)
  show ?thesis
  proof (cases item)
    case (Spool_Direct e)
    with assms D_Idle spool show ?thesis by (intro taken[of item rest]) (auto simp: event_dispatcher_def)
  next
    case (Spool_Batch es)
    with assms D_Idle spool show ?thesis by (intro taken[of item rest]) (auto simp: event_dispatcher_def)
  next
    case (Spool_Event n)
    show ?thesis
    proof (cases discard_events)
      case True
      with assms D_Idle spool Spool_Event show ?thesis
        by (intro skipped[of n rest]) (auto simp: event_dispatcher_def)
    next
      case False
      with assms D_Idle spool Spool_Event show ?thesis
        by (intro taken[of item rest]) (auto simp: event_dispatcher_def)
    qed
  next
    case (Spool_Terminal reason)
    with assms D_Idle spool show ?thesis
      by (intro exit[of reason rest]) (auto simp: event_dispatcher_def Let_def)
  qed
next
  case (D_Events es m)
  show ?thesis
  proof (cases es)
    case Nil
    with assms D_Events show ?thesis by (intro finished[of m]) (auto simp: event_dispatcher_def)
  next
    case (Cons e es')
    with assms D_Events show ?thesis
      by (intro direct[of e es' m]) (auto simp: event_dispatcher_def split: prod.splits fate.splits)
  qed
next
  case (D_Ticket n)
  show ?thesis
  proof (cases "in_oneshots s n")
    case (Sent e)
    with assms D_Ticket obtain u where
      "dispatch_direct_event timed_out discard_events e c s = (f, discard', c', u)" "f \<noteq> Fate_Waiting"
      "d' = D_Idle" "t = depth_permit_drop 1 u"
      by (auto simp: event_dispatcher_def split: prod.splits fate.splits)
    with Sent D_Ticket show ?thesis by (intro ticket[of n e u]) auto
  next
    case Unsent
    with assms D_Ticket show ?thesis by (simp add: event_dispatcher_def)
  next
    case Sender_gone
    with assms D_Ticket show ?thesis by (intro orphan[of n]) (auto simp: event_dispatcher_def)
  next
    case Receiver_gone
    with assms D_Ticket show ?thesis by (intro orphan[of n]) (auto simp: event_dispatcher_def)
  qed
next
  case D_Exited
  with assms show ?thesis by (simp add: event_dispatcher_def)
qed

section \<open>The other operations\<close>

lemma depth_permit_drop_sel [simp]:
  "in_spool (depth_permit_drop n s) = in_spool s" "in_spool_closed (depth_permit_drop n s) = in_spool_closed s"
  "in_event_admission (depth_permit_drop n s) = in_event_admission s"
  "in_event_depth (depth_permit_drop n s) = in_event_depth s - n"
  "in_event_depth_peak (depth_permit_drop n s) = in_event_depth_peak s"
  "in_event_spool_capacity (depth_permit_drop n s) = in_event_spool_capacity s"
  "in_event_tickets (depth_permit_drop n s) = in_event_tickets s" "in_oneshots (depth_permit_drop n s) = in_oneshots s"
  "in_next_oneshot (depth_permit_drop n s) = in_next_oneshot s"
  "in_event_overflowed (depth_permit_drop n s) = in_event_overflowed s"
  "in_terminal_reason (depth_permit_drop n s) = in_terminal_reason s"
  "in_events_dropped (depth_permit_drop n s) = in_events_dropped s"
  "in_phase (depth_permit_drop n s) = in_phase s" "in_tasks (depth_permit_drop n s) = in_tasks s"
  unfolding depth_permit_drop_def by simp_all

lemma count_dropped_sel [simp]:
  "in_spool (count_dropped n s) = in_spool s" "in_spool_closed (count_dropped n s) = in_spool_closed s"
  "in_event_admission (count_dropped n s) = in_event_admission s" "in_event_depth (count_dropped n s) = in_event_depth s"
  "in_event_depth_peak (count_dropped n s) = in_event_depth_peak s"
  "in_event_spool_capacity (count_dropped n s) = in_event_spool_capacity s"
  "in_event_tickets (count_dropped n s) = in_event_tickets s" "in_oneshots (count_dropped n s) = in_oneshots s"
  "in_next_oneshot (count_dropped n s) = in_next_oneshot s"
  "in_event_overflowed (count_dropped n s) = in_event_overflowed s"
  "in_terminal_reason (count_dropped n s) = in_terminal_reason s"
  "in_events_dropped (count_dropped n s) = in_events_dropped s + of_nat n"
  "in_phase (count_dropped n s) = in_phase s" "in_tasks (count_dropped n s) = in_tasks s"
  unfolding count_dropped_def by simp_all

lemma with_task_sel [simp]:
  "in_spool (with_task k s) = in_spool s" "in_spool_closed (with_task k s) = in_spool_closed s"
  "in_event_admission (with_task k s) = in_event_admission s" "in_event_depth (with_task k s) = in_event_depth s"
  "in_event_depth_peak (with_task k s) = in_event_depth_peak s"
  "in_event_spool_capacity (with_task k s) = in_event_spool_capacity s"
  "in_event_tickets (with_task k s) = in_event_tickets s" "in_oneshots (with_task k s) = in_oneshots s"
  "in_next_oneshot (with_task k s) = in_next_oneshot s" "in_event_overflowed (with_task k s) = in_event_overflowed s"
  "in_terminal_reason (with_task k s) = in_terminal_reason s" "in_events_dropped (with_task k s) = in_events_dropped s"
  "in_phase (with_task k s) = in_phase s" "in_tasks (with_task k s) = in_tasks s @ [k]"
  unfolding with_task_def by simp_all

lemma receiver_drop_sel [simp]:
  "in_spool (spool_receiver_drop s) = []" "in_spool_closed (spool_receiver_drop s)"
  "in_event_admission (spool_receiver_drop s) = in_event_admission s"
  "in_event_depth (spool_receiver_drop s) = in_event_depth s - sum_list (map item_depth (in_spool s))"
  "in_event_depth_peak (spool_receiver_drop s) = in_event_depth_peak s"
  "in_event_spool_capacity (spool_receiver_drop s) = in_event_spool_capacity s"
  "in_event_tickets (spool_receiver_drop s) = in_event_tickets s"
  "in_oneshots (spool_receiver_drop s) =
     (\<lambda>n. if Spool_Event n \<in> set (in_spool s) then Receiver_gone else in_oneshots s n)"
  "in_next_oneshot (spool_receiver_drop s) = in_next_oneshot s"
  "in_event_overflowed (spool_receiver_drop s) = in_event_overflowed s"
  "in_terminal_reason (spool_receiver_drop s) = in_terminal_reason s"
  "in_events_dropped (spool_receiver_drop s) = in_events_dropped s"
  "in_phase (spool_receiver_drop s) = in_phase s" "in_tasks (spool_receiver_drop s) = in_tasks s"
  unfolding spool_receiver_drop_def by simp_all

text \<open>Steps that only tighten the admission.\<close>

definition tightened :: "inner \<Rightarrow> inner \<Rightarrow> bool" where
  "tightened s t \<longleftrightarrow>
     (\<exists>a. t = s\<lparr>in_event_admission := a\<rparr> \<and>
        (a = in_event_admission s \<or>
         in_event_admission s = Admission_Open \<and> a = Admission_Draining \<or>
         in_event_admission s \<noteq> Admission_Terminal \<and> a = Admission_Sealed))"

lemma same_admission [simp]: "s\<lparr>in_event_admission := in_event_admission s\<rparr> = (s :: inner)"
  by (cases s) simp

lemma tightened_refl [simp]: "tightened s s"
  unfolding tightened_def by (rule exI[of _ "in_event_admission s"]) simp

lemma tightened_begin_drain: "tightened s (begin_event_drain s)"
  by (cases "in_event_admission s = Admission_Open") (auto simp: begin_event_drain_def tightened_def[of s "_ \<lparr>in_event_admission := _\<rparr>"])

lemma tightened_drain_tickets: "drain_event_tickets timed_out s = (ended, t) \<Longrightarrow> tightened s t"
  by (cases "in_event_admission s")
    (auto simp: drain_event_tickets_def seal_event_admission_if_idle_def seal_event_admission_def
      tightened_def[of s "_ \<lparr>in_event_admission := _\<rparr>"] split: if_splits prod.splits bool.splits)

text \<open>The phase changes.\<close>

lemma begin_closing_eq:
  "begin_closing drain_submits s = (started, t) \<Longrightarrow>
     (started, t) = (True, s\<lparr>in_drain_submits_on_close := drain_submits, in_phase := Phase_Closing\<rparr>) \<and>
       in_phase s = Phase_Open \<or>
     same_pipe s t \<and> \<not> started \<and> in_phase s \<noteq> Phase_Open"
  by (auto simp: begin_closing_def same_pipe_def split: if_splits)

definition closing_reason :: "error option \<Rightarrow> inner \<Rightarrow> error option" where
  "closing_reason reason s =
     (if in_peer_terminate_seen s then Some Error_Terminated
      else if in_event_overflowed s then Some Error_ChannelClosed else reason)"

lemma finish_eq:
  "finish reason s =
     (if in_phase s = Phase_Closed then s
      else s\<lparr>in_terminal_reason := closing_reason reason s, in_phase := Phase_Closed,
             in_drain_submits_on_close := False, in_window_closed := True, in_manual_batch_closed := True,
             in_tasks := in_tasks s @ [Cleanup False]\<rparr>)"
  unfolding finish_def transition_to_closed_def closing_reason_def by (simp add: Let_def)

text \<open>The clean-up.\<close>

lemma next_chunk_cases:
  assumes "next_chunk fallback cs s = (task, t)"
  shows "(task = Cleanup_Finish \<and> t = s \<and> cs = [] \<or>
      (\<exists>c rest. cs = c # rest \<and> task = Cleanup_Publish fallback c rest \<and> t = depth_permit_new_n (length c) s))"
  using assms by (cases cs) (auto simp: next_chunk_def)

lemma permit_new_sel [simp]:
  "in_spool (depth_permit_new_n n s) = in_spool s" "in_spool_closed (depth_permit_new_n n s) = in_spool_closed s"
  "in_event_admission (depth_permit_new_n n s) = in_event_admission s"
  "in_event_depth (depth_permit_new_n n s) = in_event_depth s + n"
  "in_event_depth_peak (depth_permit_new_n n s) = max (in_event_depth_peak s) (in_event_depth s + n)"
  "in_event_spool_capacity (depth_permit_new_n n s) = in_event_spool_capacity s"
  "in_event_tickets (depth_permit_new_n n s) = in_event_tickets s" "in_oneshots (depth_permit_new_n n s) = in_oneshots s"
  "in_next_oneshot (depth_permit_new_n n s) = in_next_oneshot s"
  "in_event_overflowed (depth_permit_new_n n s) = in_event_overflowed s"
  "in_terminal_reason (depth_permit_new_n n s) = in_terminal_reason s"
  "in_events_dropped (depth_permit_new_n n s) = in_events_dropped s"
  "in_phase (depth_permit_new_n n s) = in_phase s" "in_tasks (depth_permit_new_n n s) = in_tasks s"
  unfolding depth_permit_new_n_def by (simp_all add: Let_def)

lemma spool_try_send_eq:
  "spool_try_send item s =
     (if room s then (Send_Ok, s\<lparr>in_spool := in_spool s @ [item]\<rparr>)
      else (if in_spool_closed s then Send_Closed else Send_Full, s))"
  by (simp add: spool_try_send_def room_def EVENT_SPOOL_EMERGENCY_CAPACITY_def)

text \<open>The part of a task's state that the clean-up changes, and nothing else of the pipeline.\<close>

definition chunk_step :: "detached \<Rightarrow> inner \<Rightarrow> inner \<Rightarrow> bool" where
  "chunk_step task s t \<longleftrightarrow>
     in_spool t = in_spool s \<and> in_spool_closed t = in_spool_closed s \<and>
     in_event_admission t = in_event_admission s \<and>
     in_event_depth t = in_event_depth s + task_depth task \<and>
     (in_event_depth s \<le> in_event_depth_peak s \<longrightarrow> in_event_depth t \<le> in_event_depth_peak t) \<and>
     in_event_spool_capacity t = in_event_spool_capacity s \<and>
     frame_tickets s t \<and> in_event_overflowed t = in_event_overflowed s \<and>
     in_terminal_reason t = in_terminal_reason s \<and> in_events_dropped t = in_events_dropped s \<and>
     in_phase t = in_phase s \<and> in_tasks t = in_tasks s \<and> is_cleanup task"

lemma chunk_step_next: "next_chunk fallback cs s = (task, t) \<Longrightarrow> chunk_step task s t"
  by (auto simp: chunk_step_def frame_tickets_def dest!: next_chunk_cases)

lemma chunk_step_same: "same_pipe s u \<Longrightarrow> chunk_step task u t \<Longrightarrow> chunk_step task s t"
  by (auto simp: chunk_step_def same_pipe_def frame_tickets_def)

lemma chunk_step_start: "fail_all_pending fallback order s = (task, t) \<Longrightarrow> chunk_step task s t"
  unfolding fail_all_pending_def drain_pending_def
  using same_pipe_fold[where f = remove_pending and ks = order and s = s, OF same_pipe_remove_pending]
  by (auto intro: chunk_step_next chunk_step_same)

lemma publish_chunk_cases:
  assumes "publish_chunk give_up fallback c rest s = (task, t)"
  obtains
    (abandoned) "give_up" "chunk_step task (count_dropped (length c) (depth_permit_drop (length c) s)) t"
  | (sent) "\<not> give_up" "room s" "chunk_step task (s\<lparr>in_spool := in_spool s @ [Spool_Batch c]\<rparr>) t"
  | (full) "\<not> give_up" "\<not> room s" "\<not> in_spool_closed s" "task = Cleanup_Publish fallback c rest" "t = s"
  | (closed) "\<not> give_up" "\<not> room s" "in_spool_closed s" "task = Cleanup_Finish"
      "t = count_dropped (length c + sum_list (map length rest)) (depth_permit_drop (length c) s)"
  using assms that
  by (auto simp: publish_chunk_def spool_try_send_eq split: if_splits dest: chunk_step_next)

text \<open>What \<open>close_event_spool\<close> changes: the terminal item is queued, or left to a retry.\<close>

definition spool_ended :: "inner \<Rightarrow> inner \<Rightarrow> bool" where
  "spool_ended s t \<longleftrightarrow>
     in_event_admission s \<noteq> Admission_Terminal \<and> in_event_admission t = Admission_Terminal \<and>
     in_terminal_reason t = None \<and> frame_tickets s t \<and>
     in_spool_closed t = in_spool_closed s \<and> in_event_spool_capacity t = in_event_spool_capacity s \<and>
     in_event_overflowed t = in_event_overflowed s \<and> in_events_dropped t = in_events_dropped s \<and>
     in_phase t = in_phase s \<and>
     (in_event_depth s \<le> in_event_depth_peak s \<longrightarrow> in_event_depth t \<le> in_event_depth_peak t) \<and>
     (room s \<and> in_spool t = in_spool s @ [Spool_Terminal (in_terminal_reason s)] \<and>
        in_event_depth t = in_event_depth s + 1 \<and> in_tasks t = in_tasks s \<or>
      \<not> in_spool_closed s \<and> in_spool t = in_spool s \<and> in_event_depth t = in_event_depth s + 1 \<and>
        in_tasks t = in_tasks s @ [Terminal_Retry (Spool_Terminal (in_terminal_reason s))] \<or>
      in_spool_closed s \<and> in_spool t = in_spool s \<and> in_event_depth t = in_event_depth s \<and>
        in_tasks t = in_tasks s)"

lemma room_upd [simp]:
  "room (depth_permit_new_n n s) = room s"
  "room (s\<lparr>in_event_admission := a, in_terminal_reason := r\<rparr>) = room s"
  by (simp_all add: room_def)

lemma close_event_spool_ended:
  assumes "in_event_admission s \<noteq> Admission_Terminal"
  shows "spool_ended s (close_event_spool s)"
proof -
  let ?u = "depth_permit_new_n 1 (s\<lparr>in_event_admission := Admission_Terminal, in_terminal_reason := None\<rparr>)"
  have "close_event_spool s =
     (if room s then ?u\<lparr>in_spool := in_spool s @ [Spool_Terminal (in_terminal_reason s)]\<rparr>
      else if in_spool_closed s then depth_permit_drop 1 ?u
      else ?u\<lparr>in_tasks := in_tasks s @ [Terminal_Retry (Spool_Terminal (in_terminal_reason s))]\<rparr>)"
    using assms by (simp add: close_event_spool_def Let_def spool_try_send_eq)
  then show ?thesis
    using assms by (auto simp: spool_ended_def frame_tickets_def)
qed

lemma same_pipe_room: "same_pipe s t \<Longrightarrow> room t = room s"
  by (simp add: same_pipe_def room_def)

lemma cleanup_finish_cases:
  obtains (again) "in_event_admission s = Admission_Terminal" "same_pipe s (cleanup_finish order s)"
  | (ended) "spool_ended s (cleanup_finish order s)"
proof -
  let ?u = "take_pending_terminate (fold remove_heartbeat order s)"
  have same: "same_pipe s ?u"
    by (rule same_pipe_trans[OF same_pipe_fold[OF same_pipe_remove_heartbeat] same_pipe_take_terminate])
  have complete: "same_pipe v (v\<lparr>in_cleanup_complete := True\<rparr>)" for v
    by (simp add: same_pipe_def)
  show ?thesis
  proof (cases "in_event_admission s = Admission_Terminal")
    case True
    with same have "close_event_spool ?u = ?u" by (simp add: close_event_spool_def same_pipe_def)
    with same complete have "same_pipe s (cleanup_finish order s)"
      unfolding cleanup_finish_def by (metis same_pipe_trans)
    with True again show ?thesis by blast
  next
    case False
    with same have "spool_ended ?u (close_event_spool ?u)"
      by (intro close_event_spool_ended) (simp add: same_pipe_def)
    with same same_pipe_room[OF same] have "spool_ended s (close_event_spool ?u)"
      unfolding spool_ended_def frame_tickets_def same_pipe_def by simp
    then have "spool_ended s (cleanup_finish order s)"
      unfolding cleanup_finish_def spool_ended_def frame_tickets_def by simp
    with ended show ?thesis by blast
  qed
qed

lemma terminal_retry_cases:
  assumes "terminal_retry item s = (task, t)"
  obtains
    (sent) "task = None" "room s" "t = s\<lparr>in_spool := in_spool s @ [item]\<rparr>"
  | (full) "task = Some (Terminal_Retry item)" "\<not> in_spool_closed s" "t = s"
  | (closed) "task = None" "in_spool_closed s" "t = depth_permit_drop 1 s"
  using assms that by (auto simp: terminal_retry_def spool_try_send_eq split: if_splits)

lemma tightened_sel:
  assumes "tightened s t"
  shows "in_spool t = in_spool s" "in_spool_closed t = in_spool_closed s" "in_event_depth t = in_event_depth s"
    "in_event_depth_peak t = in_event_depth_peak s" "in_event_spool_capacity t = in_event_spool_capacity s"
    "in_event_tickets t = in_event_tickets s" "in_oneshots t = in_oneshots s"
    "in_next_oneshot t = in_next_oneshot s" "in_event_overflowed t = in_event_overflowed s"
    "in_terminal_reason t = in_terminal_reason s" "in_events_dropped t = in_events_dropped s"
    "in_phase t = in_phase s" "in_tasks t = in_tasks s"
  using assms by (auto simp: tightened_def)

lemma same_pipeD:
  assumes "same_pipe s t"
  shows "in_spool t = in_spool s" "in_spool_closed t = in_spool_closed s" "in_event_depth t = in_event_depth s"
    "in_event_depth_peak t = in_event_depth_peak s" "in_event_spool_capacity t = in_event_spool_capacity s"
    "in_event_tickets t = in_event_tickets s" "in_oneshots t = in_oneshots s"
    "in_next_oneshot t = in_next_oneshot s" "in_event_overflowed t = in_event_overflowed s"
    "in_terminal_reason t = in_terminal_reason s" "in_events_dropped t = in_events_dropped s"
    "in_phase t = in_phase s" "in_tasks t = in_tasks s" "in_event_admission t = in_event_admission s"
  using assms by (auto simp: same_pipe_def)

lemma besideD:
  assumes "beside s t"
  shows "in_spool t = in_spool s" "in_spool_closed t = in_spool_closed s" "in_event_depth t = in_event_depth s"
    "in_event_depth_peak t = in_event_depth_peak s" "in_event_spool_capacity t = in_event_spool_capacity s"
    "in_event_tickets t = in_event_tickets s" "in_oneshots t = in_oneshots s"
    "in_next_oneshot s \<le> in_next_oneshot t" "in_event_overflowed t = in_event_overflowed s"
    "in_terminal_reason t = in_terminal_reason s" "in_events_dropped t = in_events_dropped s"
    "in_phase t = in_phase s" "in_tasks t = in_tasks s" "in_event_admission t = in_event_admission s"
  using assms by (auto simp: beside_def same_pipe_def)

lemma without_task_sel [simp]:
  "in_spool (pl_inner (without_task xs ys p)) = in_spool (pl_inner p)"
  "in_spool_closed (pl_inner (without_task xs ys p)) = in_spool_closed (pl_inner p)"
  "in_event_admission (pl_inner (without_task xs ys p)) = in_event_admission (pl_inner p)"
  "in_event_depth (pl_inner (without_task xs ys p)) = in_event_depth (pl_inner p)"
  "in_event_depth_peak (pl_inner (without_task xs ys p)) = in_event_depth_peak (pl_inner p)"
  "in_event_spool_capacity (pl_inner (without_task xs ys p)) = in_event_spool_capacity (pl_inner p)"
  "in_event_tickets (pl_inner (without_task xs ys p)) = in_event_tickets (pl_inner p)"
  "in_oneshots (pl_inner (without_task xs ys p)) = in_oneshots (pl_inner p)"
  "in_next_oneshot (pl_inner (without_task xs ys p)) = in_next_oneshot (pl_inner p)"
  "in_event_overflowed (pl_inner (without_task xs ys p)) = in_event_overflowed (pl_inner p)"
  "in_terminal_reason (pl_inner (without_task xs ys p)) = in_terminal_reason (pl_inner p)"
  "in_events_dropped (pl_inner (without_task xs ys p)) = in_events_dropped (pl_inner p)"
  "in_phase (pl_inner (without_task xs ys p)) = in_phase (pl_inner p)"
  "in_tasks (pl_inner (without_task xs ys p)) = xs @ ys"
  "room (pl_inner (without_task xs ys p)) = room (pl_inner p)"
  "pl_dispatcher (without_task xs ys p) = pl_dispatcher p" "pl_discard (without_task xs ys p) = pl_discard p"
  "pl_channel (without_task xs ys p) = pl_channel p" "pl_tickets (without_task xs ys p) = pl_tickets p"
  "pl_published (without_task xs ys p) = pl_published p" "pl_log (without_task xs ys p) = pl_log p"
  "pl_pos (without_task xs ys p) = pl_pos p" "pl_out (without_task xs ys p) = pl_out p"
  "pl_public (without_task xs ys p) = pl_public p" "pl_refused (without_task xs ys p) = pl_refused p"
  "pl_reason (without_task xs ys p) = pl_reason p" "pl_fallback (without_task xs ys p) = pl_fallback p"
  unfolding without_task_def room_def by simp_all

lemma run_finish_sel [simp]:
  "pl_dispatcher (run_finish r p) = pl_dispatcher p" "pl_discard (run_finish r p) = pl_discard p"
  "pl_channel (run_finish r p) = pl_channel p" "pl_tickets (run_finish r p) = pl_tickets p"
  "pl_published (run_finish r p) = pl_published p" "pl_log (run_finish r p) = pl_log p"
  "pl_pos (run_finish r p) = pl_pos p" "pl_out (run_finish r p) = pl_out p"
  "pl_public (run_finish r p) = pl_public p" "pl_refused (run_finish r p) = pl_refused p"
  "pl_fallback (run_finish r p) = pl_fallback p" "pl_inner (run_finish r p) = finish r (pl_inner p)"
  "pl_reason (run_finish r p) =
     (if in_event_admission (pl_inner p) = Admission_Terminal then pl_reason p
      else in_terminal_reason (finish r (pl_inner p)))"
  unfolding run_finish_def by (simp_all add: Let_def finish_eq)

lemma finish_sel [simp]:
  "in_spool (finish r s) = in_spool s" "in_spool_closed (finish r s) = in_spool_closed s"
  "in_event_admission (finish r s) = in_event_admission s" "in_event_depth (finish r s) = in_event_depth s"
  "in_event_depth_peak (finish r s) = in_event_depth_peak s"
  "in_event_spool_capacity (finish r s) = in_event_spool_capacity s"
  "in_event_tickets (finish r s) = in_event_tickets s" "in_oneshots (finish r s) = in_oneshots s"
  "in_next_oneshot (finish r s) = in_next_oneshot s" "in_event_overflowed (finish r s) = in_event_overflowed s"
  "in_events_dropped (finish r s) = in_events_dropped s" "in_phase (finish r s) = Phase_Closed"
  "in_terminal_reason (finish r s) =
     (if in_phase s = Phase_Closed then in_terminal_reason s else closing_reason r s)"
  "in_tasks (finish r s) = in_tasks s @ (if in_phase s = Phase_Closed then [] else [Cleanup False])"
  unfolding finish_eq by simp_all

end
