(* ===== verification/Cmpp_Delivery.thy ===== *)
theory Cmpp_Delivery
  imports Cmpp_Pipeline
begin

text \<open>
  What the event pipeline guarantees in every interleaving: the accounting of the events, their
  order, the terminal event and its reason, and the bound of the spool.
\<close>

section \<open>Invariants\<close>

fun slot_event :: "(nat \<rightharpoonup> event) \<Rightarrow> slot \<Rightarrow> event option" where
  "slot_event _ (Slot_Event e) = Some e"
| "slot_event published (Slot_Ticket n) = published n"

definition queue_inv :: "pipe \<Rightarrow> bool" where
  "queue_inv p \<longleftrightarrow>
     (let s = pl_inner p; d = pl_dispatcher p in
        (in_spool_closed s \<longleftrightarrow> d = D_Exited) \<and> (d = D_Exited \<longrightarrow> in_spool s = []) \<and>
        pl_pos p \<le> length (pl_log p) \<and>
        (d \<noteq> D_Exited \<longrightarrow>
           drop (pl_pos p) (pl_log p) = hand_slots d @ concat (map item_slots (in_spool s))) \<and>
        in_event_depth s =
          hand_depth d + sum_list (map item_depth (in_spool s)) + sum_list (map task_depth (in_tasks s)) \<and>
        in_event_depth s \<le> in_event_depth_peak s)"

definition count_inv :: "pipe \<Rightarrow> bool" where
  "count_inv p \<longleftrightarrow>
     length (pl_out p) \<le> pl_pos p \<and>
     in_events_dropped (pl_inner p) = of_nat (pl_refused p + (pl_pos p - length (pl_out p)))"

definition ticket_inv :: "pipe \<Rightarrow> bool" where
  "ticket_inv p \<longleftrightarrow>
     (let s = pl_inner p in
        in_event_tickets s = length (pl_tickets p) \<and> distinct (pl_tickets p) \<and>
        (\<forall>n\<in>set (pl_tickets p). n < in_next_oneshot s \<and> pl_published p n = None) \<and>
        (\<forall>n. in_next_oneshot s \<le> n \<longrightarrow> pl_published p n = None) \<and>
        (\<forall>n e. in_oneshots s n = Sent e \<longrightarrow> pl_published p n = Some e))"

definition out_inv :: "pipe \<Rightarrow> bool" where
  "out_inv p \<longleftrightarrow>
     sorted_wrt (<) (map fst (pl_out p)) \<and>
     (\<forall>(i, e)\<in>set (pl_out p). i < pl_pos p \<and> slot_event (pl_published p) (pl_log p ! i) = Some e)"

lemma chunk_step_depth:
  "chunk_step task s t \<Longrightarrow> in_event_depth t = in_event_depth s + task_depth task"
  by (simp add: chunk_step_def)

lemma queue_inv_upd:
  assumes inv: "queue_inv p"
    and pos: "pl_pos q = pl_pos p" and d: "pl_dispatcher q = pl_dispatcher p"
    and closed: "in_spool_closed (pl_inner q) = in_spool_closed (pl_inner p)"
    and log: "pl_log q = pl_log p @ slots" and spool: "in_spool (pl_inner q) = in_spool (pl_inner p) @ items"
    and items: "concat (map item_slots items) = slots" "items \<noteq> [] \<Longrightarrow> \<not> in_spool_closed (pl_inner p)"
    and depth: "in_event_depth (pl_inner q) + sum_list (map task_depth (in_tasks (pl_inner p))) =
        in_event_depth (pl_inner p) + sum_list (map item_depth items) +
        sum_list (map task_depth (in_tasks (pl_inner q)))"
    and peak: "in_event_depth (pl_inner p) \<le> in_event_depth_peak (pl_inner p) \<Longrightarrow>
        in_event_depth (pl_inner q) \<le> in_event_depth_peak (pl_inner q)"
  shows "queue_inv q"
  using assms unfolding queue_inv_def Let_def by (cases "pl_dispatcher p = D_Exited") auto

lemma overload_tasks: "overload s t \<Longrightarrow> sum_list (map task_depth (in_tasks t)) = sum_list (map task_depth (in_tasks s))"
  by (auto simp: overload_def)

lemma offeredD:
  assumes "offered sent item s t"
  shows "in_spool t = in_spool s @ (if sent then [item] else [])"
    "in_spool_closed t = in_spool_closed s" "in_event_spool_capacity t = in_event_spool_capacity s"
    "in_terminal_reason t = in_terminal_reason s" "overload s t"
    "in_event_depth t = in_event_depth s + (if sent then 1 else 0)"
    "in_event_depth s \<le> in_event_depth_peak s \<Longrightarrow> in_event_depth t \<le> in_event_depth_peak t"
    "sent \<Longrightarrow> open_admission s" "sent \<Longrightarrow> \<not> in_spool_closed s"
    "sent \<Longrightarrow> open_admission t \<Longrightarrow> in_event_depth s < in_event_spool_capacity s"
    "in_event_admission t = in_event_admission s \<or>
      open_admission s \<and> in_event_admission t = Admission_Overflowed"
  using assms unfolding offered_def frame_spool_def by blast+

lemma offered_queue:
  assumes inv: "queue_inv p" and offered: "offered sent item (pl_inner p) (pl_inner q)"
    and item: "item_depth item = 1"
    and log: "pl_log q = pl_log p @ (if sent then item_slots item else [])"
    and same: "pl_pos q = pl_pos p" "pl_dispatcher q = pl_dispatcher p"
  shows "queue_inv q"
proof (rule queue_inv_upd[where p = p and items = "if sent then [item] else []"
        and slots = "if sent then item_slots item else []", OF inv same])
  from overload_tasks[OF offeredD(5)[OF offered]] offeredD(6)[OF offered] item
  show "in_event_depth (pl_inner q) + sum_list (map task_depth (in_tasks (pl_inner p))) =
        in_event_depth (pl_inner p) + sum_list (map item_depth (if sent then [item] else [])) +
        sum_list (map task_depth (in_tasks (pl_inner q)))"
    by simp
qed (use offeredD[OF offered] log in \<open>simp_all split: if_splits\<close>)

lemma queue_hand_done:
  assumes "queue_inv p" "pl_dispatcher p \<noteq> D_Exited" "d \<noteq> D_Exited"
    and "hand_slots (pl_dispatcher p) = xs @ hand_slots d" "hand_depth (pl_dispatcher p) = m + hand_depth d"
    and "in_spool t = in_spool (pl_inner p)" "in_spool_closed t = in_spool_closed (pl_inner p)"
    and "in_event_depth t = in_event_depth (pl_inner p) - m"
    and "in_event_depth_peak t = in_event_depth_peak (pl_inner p)"
    and "overload (pl_inner p) t"
    and "pl_inner q = t" "pl_log q = pl_log p" "pl_pos q = pl_pos p + length xs" "pl_dispatcher q = d"
  shows "queue_inv q"
proof -
  have drop: "drop (pl_pos p) (pl_log p) = xs @ hand_slots d @ concat (map item_slots (in_spool t))"
    using assms unfolding queue_inv_def Let_def by simp
  then have "length (pl_log p) - pl_pos p \<ge> length xs"
    by (metis length_append length_drop le_add1)
  moreover have "drop (pl_pos p + length xs) (pl_log p) = hand_slots d @ concat (map item_slots (in_spool t))"
    using drop by (metis add.commute append_eq_conv_conj drop_drop)
  moreover have "pl_pos p \<le> length (pl_log p)" using assms unfolding queue_inv_def Let_def by simp
  ultimately show ?thesis
    using assms overload_tasks[of "pl_inner p" t] unfolding queue_inv_def Let_def by auto
qed

lemma degraded_spool:
  assumes "degraded s t"
  shows "in_spool t = in_spool s" "in_spool_closed t = in_spool_closed s" "in_event_depth t = in_event_depth s"
    "in_event_depth_peak t = in_event_depth_peak s" "overload s t"
  using assms by (auto simp: degraded_def frame_spool_def)

lemma overload_count_dropped [simp]: "overload (count_dropped n s) t = overload s t"
  by (simp add: overload_def)

lemma overload_depth_drop [simp]: "overload s (depth_permit_drop n t) = overload s t"
  by (simp add: overload_def)

lemma overload_refl [simp]: "overload s s"
  by (simp add: overload_def)

lemma direct_spool:
  assumes "dispatch_direct_event timed_out discard_events e c s = (f, discard', c', t)" "f \<noteq> Fate_Waiting"
  shows "in_spool t = in_spool s" "in_spool_closed t = in_spool_closed s" "in_event_depth t = in_event_depth s"
    "in_event_depth_peak t = in_event_depth_peak s" "overload s t"
proof -
  have "in_spool t = in_spool s \<and> in_spool_closed t = in_spool_closed s \<and> in_event_depth t = in_event_depth s \<and>
     in_event_depth_peak t = in_event_depth_peak s \<and> overload s t"
    using assms by (cases rule: dispatch_direct_cases) (auto dest: degraded_spool)
  then show "in_spool t = in_spool s" "in_spool_closed t = in_spool_closed s"
    "in_event_depth t = in_event_depth s" "in_event_depth_peak t = in_event_depth_peak s" "overload s t"
    by auto
qed

lemma queue_dispatch:
  assumes "event_dispatcher timed_out (pl_dispatcher p) (pl_discard p) (pl_channel p) (pl_inner p) =
      Some (f, d, discard', c, t)"
    and inv: "queue_inv p" and q: "pl_inner q = t" "pl_log q = pl_log p" "pl_dispatcher q = d"
      "pl_pos q = pl_pos p + (if f = Fate_Waiting then 0 else 1)"
  shows "queue_inv q"
  using assms(1)
proof (cases rule: dispatcher_cases)
  case (taken item rest)
  with inv q show ?thesis by (simp add: queue_inv_def Let_def)
next
  case (skipped n rest)
  then have "drop (pl_pos p) (pl_log p) = Slot_Ticket n # concat (map item_slots rest)"
    using inv by (simp add: queue_inv_def Let_def)
  moreover from this have "drop (Suc (pl_pos p)) (pl_log p) = concat (map item_slots rest)"
    by (metis drop_Suc list.sel(3) tl_drop)
  moreover from calculation have "pl_pos p < length (pl_log p)"
    by (metis drop_all list.distinct(1) not_less)
  ultimately show ?thesis using skipped inv q by (auto simp: queue_inv_def Let_def)
next
  case (exit reason rest)
  with inv q show ?thesis by (auto simp: queue_inv_def Let_def)
next
  case (direct e es m)
  show ?thesis
    by (rule queue_hand_done[where p = p and xs = "[Slot_Event e]" and m = 0 and t = t and d = d, OF inv])
      (use direct q direct_spool[OF direct(4,3)] in simp_all)
next
  case (ticket n e u)
  show ?thesis
    by (rule queue_hand_done[where p = p and xs = "[Slot_Ticket n]" and m = 1 and t = t and d = d, OF inv])
      (use ticket q direct_spool[OF ticket(5,4)] in simp_all)
next
  case (orphan n)
  show ?thesis
    by (rule queue_hand_done[where p = p and xs = "[Slot_Ticket n]" and m = 1 and t = t and d = d, OF inv])
      (use orphan q in \<open>simp_all add: overload_def\<close>)
next
  case (finished m)
  show ?thesis
    by (rule queue_hand_done[where p = p and xs = "[]" and m = m and t = t and d = d, OF inv])
      (use finished q in simp_all)
qed

lemma queue_chunk:
  assumes "queue_inv p" "chunk_step task s t" "in_tasks (pl_inner p) = xs @ k # ys" "in_tasks s = xs @ ys"
    and "in_event_depth s = in_event_depth (pl_inner p) - freed" "task_depth k = freed + sum_list (map item_depth items)"
    and "in_spool s = in_spool (pl_inner p) @ items" "in_spool_closed s = in_spool_closed (pl_inner p)"
    and "items \<noteq> [] \<Longrightarrow> \<not> in_spool_closed (pl_inner p)"
    and "in_event_depth_peak s = in_event_depth_peak (pl_inner p)"
    and "pl_inner q = with_task task t" "pl_log q = pl_log p @ concat (map item_slots items)" "pl_pos q = pl_pos p"
    and "pl_dispatcher q = pl_dispatcher p"
  shows "queue_inv q"
proof (rule queue_inv_upd[where p = p and items = items, OF assms(1)])
  have "freed \<le> in_event_depth (pl_inner p)"
    using assms unfolding queue_inv_def Let_def by simp
  then show "in_event_depth (pl_inner q) + sum_list (map task_depth (in_tasks (pl_inner p))) =
        in_event_depth (pl_inner p) + sum_list (map item_depth items) +
        sum_list (map task_depth (in_tasks (pl_inner q)))"
    using assms by (simp add: chunk_step_def)
qed (use assms in \<open>auto simp: chunk_step_def\<close>)

lemma queue_upd_same:
  assumes inv: "queue_inv p" and same: "pl_pos q = pl_pos p" "pl_dispatcher q = pl_dispatcher p"
    and spool: "in_spool_closed (pl_inner q) = in_spool_closed (pl_inner p)" "pl_log q = pl_log p"
      "in_spool (pl_inner q) = in_spool (pl_inner p)"
    and depth: "in_event_depth (pl_inner q) + sum_list (map task_depth (in_tasks (pl_inner p))) =
        in_event_depth (pl_inner p) + sum_list (map task_depth (in_tasks (pl_inner q)))"
    and peak: "in_event_depth (pl_inner p) \<le> in_event_depth_peak (pl_inner p) \<Longrightarrow>
        in_event_depth (pl_inner q) \<le> in_event_depth_peak (pl_inner q)"
  shows "queue_inv q"
  by (rule queue_inv_upd[where p = p and items = "[]" and slots = "[]"]) (use assms in simp_all)

lemma queue_task_depth:
  assumes "queue_inv p" "in_tasks (pl_inner p) = xs @ k # ys"
  shows "task_depth k \<le> in_event_depth (pl_inner p)"
  using assms by (simp add: queue_inv_def Let_def)

lemma queue_ended:
  assumes inv: "queue_inv p" and tasks: "in_tasks (pl_inner p) = xs @ k # ys" "task_depth k = 0"
    and ended: "spool_ended (pl_inner (without_task xs ys p)) (pl_inner q)"
    and same: "pl_log q = pl_log p" "pl_pos q = pl_pos p" "pl_dispatcher q = pl_dispatcher p"
  shows "queue_inv q"
proof (cases "in_spool (pl_inner q) = in_spool (pl_inner p)")
  case True
  with ended tasks same show ?thesis
    by - (rule queue_upd_same[OF inv], (auto simp: spool_ended_def))
next
  case False
  with ended tasks same show ?thesis
    by - (rule queue_inv_upd[where p = p and slots = "[]" and
          items = "[Spool_Terminal (in_terminal_reason (pl_inner (without_task xs ys p)))]", OF inv],
      (auto simp: spool_ended_def room_def))
qed

definition retries_terminal :: "pipe \<Rightarrow> bool" where
  "retries_terminal p \<longleftrightarrow> (\<forall>item. Terminal_Retry item \<in> set (in_tasks (pl_inner p)) \<longrightarrow> is_terminal item)"

lemma queue_inv_step:
  assumes "pipe_step p q" "queue_inv p"
    and "retries_terminal p"
  shows "queue_inv q"
  using assms
proof (induction rule: pipe_step.induct)
  case (emit e p sent t)
  show ?case
    by (rule offered_queue[where p = p and sent = sent and item = "Spool_Direct e", OF emit(2)])
      (use emit_event_offered[OF emit(1)] in simp_all)
next
  case (discount p)
  then show ?case by - (rule queue_upd_same[where p = p], auto)
next
  case (reserve p n t)
  have "n = in_next_oneshot (pl_inner p)" using reserve_deferred_frame[OF reserve(1)] by simp
  then show ?case
    by - (rule offered_queue[where p = p and sent = True and item = "Spool_Event n", OF reserve(2)],
      (use reserve_deferred_offered[OF reserve(1)] in simp_all))
next
  case (reserve_err p r t)
  show ?case
    by (rule offered_queue[where p = p and sent = False and item = "Spool_Event (in_next_oneshot (pl_inner p))",
          OF reserve_err(2)])
      (use reserve_deferred_offered[OF reserve_err(1)] in simp_all)
next
  case (publish n p e ok t)
  then show ?case
    by - (rule queue_upd_same[where p = p], (auto simp: Cmpp_Events.publish_def Let_def split: if_splits))
next
  case (drop_ticket n p)
  then show ?case
    by - (rule queue_upd_same[where p = p], (auto simp: ticket_drop_def Let_def))
next
  case (drain p)
  from drain tightened_sel[OF tightened_begin_drain[of "pl_inner p"]] show ?case
    by - (rule queue_upd_same[where p = p], simp_all)
next
  case (seal timed_out p ended t)
  from seal tightened_sel[OF tightened_drain_tickets[OF seal(1)]] show ?case
    by - (rule queue_upd_same[where p = p], simp_all)
next
  case (closing drain_submits p started t)
  from begin_closing_eq[OF closing(1)] closing show ?case
    by - (rule queue_upd_same[where p = p], (auto simp: same_pipe_def))
next
  case (finish p reason)
  then show ?case by - (rule queue_upd_same[where p = p], auto)
next
  case (overload_begin p xs ys q)
  from overload_begin tightened_sel[OF tightened_begin_drain[of "pl_inner q"]] show ?case
    by - (rule queue_upd_same[where p = p], simp_all)
next
  case (overload_drain p xs ys q timed_out ended t)
  from overload_drain tightened_sel[OF tightened_drain_tickets[OF overload_drain(3)]] show ?case
    by (cases ended) (rule queue_upd_same[where p = p]; simp)+
next
  case (cleanup_start p xs fallback ys q order task t)
  then show ?case
    using chunk_step_start[OF cleanup_start(4)]
    by - (rule queue_chunk[where p = p and s = "pl_inner q" and t = t and k = "Cleanup fallback" and task = task
          and items = "[]" and freed = 0 and xs = xs and ys = ys], auto)
next
  case (cleanup_publish p xs fallback c rest ys q give_up task t sent given_up)
  from cleanup_publish(3) show ?case
  proof (cases rule: publish_chunk_cases)
    case abandoned
    with cleanup_publish show ?thesis
      by - (rule queue_chunk[where p = p and s = "count_dropped (length c) (depth_permit_drop (length c) (pl_inner q))"
            and t = t and k = "Cleanup_Publish fallback c rest" and task = task and items = "[]"
            and freed = "length c" and xs = xs and ys = ys], auto)
  next
    case sent
    with cleanup_publish show ?thesis
      by - (rule queue_chunk[where p = p and s = "(pl_inner q)\<lparr>in_spool := in_spool (pl_inner q) @ [Spool_Batch c]\<rparr>"
            and t = t and k = "Cleanup_Publish fallback c rest" and task = task and items = "[Spool_Batch c]"
            and freed = 0 and xs = xs and ys = ys], (auto simp: spool_try_send_eq room_def))
  next
    case full
    with cleanup_publish show ?thesis
      by - (rule queue_upd_same[where p = p], (auto simp: spool_try_send_eq))
  next
    case closed
    with cleanup_publish queue_task_depth[OF _ cleanup_publish(1)] show ?thesis
      by - (rule queue_upd_same[where p = p], (auto simp: spool_try_send_eq))
  qed
next
  case (cleanup_end p xs ys q order)
  show ?case
  proof (cases rule: cleanup_finish_cases[of "pl_inner q" order])
    case again
    with cleanup_end show ?thesis
      by - (rule queue_upd_same[where p = p], (auto simp: same_pipeD))
  next
    case ended
    with cleanup_end show ?thesis
      by - (rule queue_ended[where p = p and xs = xs and ys = ys and k = Cleanup_Finish], auto)
  qed
next
  case (fallback p)
  then show ?case by - (rule queue_upd_same[where p = p], auto)
next
  case (fallback_cancelled p xs c rest ys q)
  with queue_task_depth[OF _ fallback_cancelled(1)] show ?case
    by - (rule queue_upd_same[where p = p], auto)
next
  case (retry p xs item ys q task t)
  from retry(3) show ?case
  proof (cases rule: terminal_retry_cases)
    case sent
    from retry have "is_terminal item" by (simp add: retries_terminal_def)
    then have item: "item_slots item = []" "item_depth item = 1" by (cases item; simp)+
    show ?thesis
      by (rule queue_inv_upd[where p = p and items = "[item]" and slots = "[]"])
        (use sent retry item in \<open>auto simp: room_def\<close>)
  next
    case full
    with retry show ?thesis by - (rule queue_upd_same[where p = p], auto)
  next
    case closed
    with retry queue_task_depth[OF _ retry(1)] show ?thesis by - (rule queue_upd_same[where p = p], auto)
  qed
next
  case (dispatch timed_out p f d discard_events c t appended)
  then show ?case by - (rule queue_dispatch[OF dispatch(1)], auto)
next
  case (consume p e es)
  then show ?case by - (rule queue_upd_same[where p = p], auto)
next
  case (receiver_dropped p)
  then show ?case by - (rule queue_upd_same[where p = p], auto)
next
  case (environment p t)
  then show ?case by - (rule queue_upd_same[where p = p], (auto simp: besideD))
qed

subsection \<open>Every event is delivered, waits, or is counted\<close>

lemma count_upd:
  assumes "count_inv p" "pl_pos q = pl_pos p" "pl_out q = pl_out p" "pl_refused q = pl_refused p + k"
    and "in_events_dropped (pl_inner q) = in_events_dropped (pl_inner p) + of_nat k"
  shows "count_inv q"
  using assms by (simp add: count_inv_def)

lemma count_same:
  assumes "count_inv p" "pl_pos q = pl_pos p" "pl_out q = pl_out p" "pl_refused q = pl_refused p"
    and "in_events_dropped (pl_inner q) = in_events_dropped (pl_inner p)"
  shows "count_inv q"
  using assms by (simp add: count_inv_def)

lemma count_passed:
  assumes inv: "count_inv p"
    and same: "pl_refused q = pl_refused p"
    and passed: "pl_pos q = pl_pos p + (if f = Fate_Waiting then 0 else 1)"
      "length (pl_out q) = length (pl_out p) + (if f = Fate_Delivered then 1 else 0)"
      "in_events_dropped (pl_inner q) = in_events_dropped (pl_inner p) + (if f = Fate_Dropped then 1 else 0)"
  shows "count_inv q"
proof -
  have "length (pl_out p) \<le> pl_pos p" using inv by (simp add: count_inv_def)
  then have "pl_pos q - length (pl_out q) =
      pl_pos p - length (pl_out p) + (if f = Fate_Dropped then 1 else 0)" "length (pl_out q) \<le> pl_pos q"
    using passed(1,2) by (cases f; simp)+
  with inv same passed(3) show ?thesis by (simp add: count_inv_def)
qed

lemma direct_dropped:
  assumes "dispatch_direct_event timed_out discard_events e c s = (f, discard', c', t)" "f \<noteq> Fate_Waiting"
  shows "in_events_dropped t = in_events_dropped s + (if f = Fate_Dropped then 1 else 0)"
  using assms by (cases rule: dispatch_direct_cases) (auto simp: degraded_def)

lemma dispatcher_dropped:
  assumes "event_dispatcher timed_out d discard_events c s = Some (f, d', discard', c', t)"
  shows "in_events_dropped t = in_events_dropped s + (if f = Fate_Dropped then 1 else 0)"
  using assms
proof (cases rule: dispatcher_cases)
  case (direct e es m)
  from direct_dropped[OF direct(4,3)] show ?thesis .
next
  case (ticket n e u)
  from direct_dropped[OF ticket(5,4)] ticket show ?thesis by simp
qed simp_all

lemma count_inv_step:
  assumes "pipe_step p q" "count_inv p"
  shows "count_inv q"
  using assms
proof (induction rule: pipe_step.induct)
  case (emit e p sent t)
  with emit_event_frame[OF emit(1)] show ?case
    by - (rule count_upd[where p = p and k = "if sent then 0 else 1"], auto)
next
  case (discount p)
  then show ?case by - (rule count_upd[where p = p and k = 1], auto)
next
  case (reserve p n t)
  with reserve_deferred_frame[OF reserve(1)] show ?case by - (rule count_same[where p = p], auto)
next
  case (reserve_err p r t)
  with reserve_deferred_frame[OF reserve_err(1)] show ?case by - (rule count_same[where p = p], auto)
next
  case (publish n p e ok t)
  then show ?case
    by - (rule count_same[where p = p], auto simp: Cmpp_Events.publish_def Let_def split: if_splits)
next
  case (drop_ticket n p)
  then show ?case by - (rule count_same[where p = p], auto simp: ticket_drop_def Let_def)
next
  case (drain p)
  with tightened_sel[OF tightened_begin_drain[of "pl_inner p"]] show ?case
    by - (rule count_same[where p = p], auto)
next
  case (seal timed_out p ended t)
  with tightened_sel[OF tightened_drain_tickets[OF seal(1)]] show ?case
    by - (rule count_same[where p = p], auto)
next
  case (closing drain_submits p started t)
  from begin_closing_eq[OF closing(1)] closing show ?case
    by - (rule count_same[where p = p], auto simp: same_pipe_def)
next
  case (finish p reason)
  then show ?case by - (rule count_same[where p = p], auto)
next
  case (overload_begin p xs ys q)
  with tightened_sel[OF tightened_begin_drain[of "pl_inner q"]] show ?case
    by - (rule count_same[where p = p], auto)
next
  case (overload_drain p xs ys q timed_out ended t)
  with tightened_sel[OF tightened_drain_tickets[OF overload_drain(3)]] show ?case
    by (cases ended) (rule count_same[where p = p]; simp)+
next
  case (cleanup_start p xs fallback ys q order task t)
  with chunk_step_start[OF cleanup_start(4)] show ?case
    by - (rule count_same[where p = p], auto simp: chunk_step_def)
next
  case (cleanup_publish p xs fallback c rest ys q give_up task t sent given_up)
  show ?case
    by (rule publish_chunk_cases[OF cleanup_publish(3)]; rule count_upd[where p = p and k = given_up];
        use cleanup_publish in \<open>auto simp: chunk_step_def room_def\<close>)
next
  case (cleanup_end p xs ys q order)
  show ?case
    by (rule cleanup_finish_cases[of "pl_inner q" order]; rule count_same[where p = p];
        use cleanup_end in \<open>auto simp: same_pipeD spool_ended_def\<close>)
next
  case (fallback p)
  then show ?case by - (rule count_same[where p = p], auto)
next
  case (fallback_cancelled p xs c rest ys q)
  then show ?case by - (rule count_same[where p = p], auto)
next
  case (retry p xs item ys q task t)
  show ?case
    by (rule terminal_retry_cases[OF retry(3)]; rule count_same[where p = p]; use retry in auto)
next
  case (dispatch timed_out p f d discard_events c t appended)
  with dispatcher_dropped[OF dispatch(1)] show ?case by - (rule count_passed[where p = p and f = f], auto)
next
  case (consume p e es)
  then show ?case by - (rule count_same[where p = p], auto)
next
  case (receiver_dropped p)
  then show ?case by - (rule count_same[where p = p], auto)
next
  case (environment p t)
  then show ?case by - (rule count_same[where p = p], auto simp: besideD)
qed

subsection \<open>Tickets and the order of delivery\<close>

lemma ticket_same:
  assumes "ticket_inv p" "pl_tickets q = pl_tickets p" "pl_published q = pl_published p"
    and "frame_tickets (pl_inner p) (pl_inner q)"
  shows "ticket_inv q"
  using assms by (simp add: ticket_inv_def frame_tickets_def Let_def)

lemma ticket_receiver_gone:
  assumes "ticket_inv p" "pl_tickets q = pl_tickets p" "pl_published q = pl_published p"
    and "in_event_tickets (pl_inner q) = in_event_tickets (pl_inner p)"
    and "in_next_oneshot (pl_inner p) \<le> in_next_oneshot (pl_inner q)"
    and "\<And>n e. in_oneshots (pl_inner q) n = Sent e \<Longrightarrow> in_oneshots (pl_inner p) n = Sent e"
  shows "ticket_inv q"
  using assms unfolding ticket_inv_def Let_def by fastforce

lemma ticket_reserve:
  assumes "ticket_inv p" "pl_tickets q = in_next_oneshot (pl_inner p) # pl_tickets p"
    and "pl_published q = pl_published p" "in_event_tickets (pl_inner q) = in_event_tickets (pl_inner p) + 1"
    and "in_next_oneshot (pl_inner q) = Suc (in_next_oneshot (pl_inner p))"
    and "in_oneshots (pl_inner q) = (in_oneshots (pl_inner p))(in_next_oneshot (pl_inner p) := Unsent)"
  shows "ticket_inv q"
  using assms unfolding ticket_inv_def Let_def by (auto simp: less_Suc_eq)

lemma ticket_gone:
  assumes inv: "ticket_inv p" and n: "n \<in> set (pl_tickets p)" "pl_tickets q = remove1 n (pl_tickets p)"
    and published: "pl_published q = (pl_published p)(n := r)"
    and tickets: "in_event_tickets (pl_inner q) = in_event_tickets (pl_inner p) - 1"
      "in_next_oneshot (pl_inner q) = in_next_oneshot (pl_inner p)"
    and oneshot: "in_oneshots (pl_inner q) = (in_oneshots (pl_inner p))(n := w)" "\<And>e. w = Sent e \<Longrightarrow> r = Some e"
  shows "ticket_inv q"
proof -
  have "pl_published p n = None" "n < in_next_oneshot (pl_inner p)"
    using inv n unfolding ticket_inv_def Let_def by auto
  moreover have "set (remove1 n (pl_tickets p)) = set (pl_tickets p) - {n}"
    using inv unfolding ticket_inv_def Let_def by simp
  ultimately show ?thesis
    using inv n published tickets oneshot unfolding ticket_inv_def Let_def
    by (auto simp: length_remove1)
qed

lemma ticket_inv_step:
  assumes "pipe_step p q" "ticket_inv p"
  shows "ticket_inv q"
  using assms
proof (induction rule: pipe_step.induct)
  case (emit e p sent t)
  with emit_event_frame[OF emit(1)] show ?case by - (rule ticket_same[where p = p], auto)
next
  case (discount p)
  then show ?case by - (rule ticket_same[where p = p], auto simp: frame_tickets_def)
next
  case (reserve p n t)
  with reserve_deferred_frame[OF reserve(1)] show ?case by - (rule ticket_reserve[where p = p], auto)
next
  case (reserve_err p r t)
  with reserve_deferred_frame[OF reserve_err(1)] show ?case
    by - (rule ticket_receiver_gone[where p = p], auto simp: frame_tickets_def split: if_splits)
next
  case (publish n p e ok t)
  then show ?case
    by - (rule ticket_gone[where p = p and n = n and r = "Some e" and
            w = "if in_oneshots (pl_inner p) n = Receiver_gone then Receiver_gone else Sent e"],
        auto simp: Cmpp_Events.publish_def Let_def split: if_splits)
next
  case (drop_ticket n p)
  then have "pl_published p n = None" by (simp add: ticket_inv_def Let_def)
  with drop_ticket show ?case
    by - (rule ticket_gone[where p = p and n = n and r = None and
            w = "if in_oneshots (pl_inner p) n = Receiver_gone then Receiver_gone else Sender_gone"],
        auto simp: ticket_drop_def Let_def split: if_splits)
next
  case (drain p)
  with tightened_sel[OF tightened_begin_drain[of "pl_inner p"]] show ?case
    by - (rule ticket_same[where p = p], auto simp: frame_tickets_def)
next
  case (seal timed_out p ended t)
  with tightened_sel[OF tightened_drain_tickets[OF seal(1)]] show ?case
    by - (rule ticket_same[where p = p], auto simp: frame_tickets_def)
next
  case (closing drain_submits p started t)
  from begin_closing_eq[OF closing(1)] closing show ?case
    by - (rule ticket_same[where p = p], auto simp: same_pipe_def frame_tickets_def)
next
  case (finish p reason)
  then show ?case by - (rule ticket_same[where p = p], auto simp: frame_tickets_def)
next
  case (overload_begin p xs ys q)
  with tightened_sel[OF tightened_begin_drain[of "pl_inner q"]] show ?case
    by - (rule ticket_same[where p = p], auto simp: frame_tickets_def)
next
  case (overload_drain p xs ys q timed_out ended t)
  with tightened_sel[OF tightened_drain_tickets[OF overload_drain(3)]] show ?case
    by (cases ended) (rule ticket_same[where p = p]; simp add: frame_tickets_def)+
next
  case (cleanup_start p xs fallback ys q order task t)
  with chunk_step_start[OF cleanup_start(4)] show ?case
    by - (rule ticket_same[where p = p], auto simp: chunk_step_def frame_tickets_def)
next
  case (cleanup_publish p xs fallback c rest ys q give_up task t sent given_up)
  show ?case
    by (rule publish_chunk_cases[OF cleanup_publish(3)]; rule ticket_same[where p = p];
        use cleanup_publish in \<open>auto simp: chunk_step_def frame_tickets_def\<close>)
next
  case (cleanup_end p xs ys q order)
  show ?case
    by (rule cleanup_finish_cases[of "pl_inner q" order]; rule ticket_same[where p = p];
        use cleanup_end in \<open>auto simp: same_pipeD spool_ended_def frame_tickets_def\<close>)
next
  case (fallback p)
  then show ?case by - (rule ticket_same[where p = p], auto simp: frame_tickets_def)
next
  case (fallback_cancelled p xs c rest ys q)
  then show ?case by - (rule ticket_same[where p = p], auto simp: frame_tickets_def)
next
  case (retry p xs item ys q task t)
  show ?case
    by (rule terminal_retry_cases[OF retry(3)]; rule ticket_same[where p = p];
        use retry in \<open>auto simp: frame_tickets_def\<close>)
next
  case (dispatch timed_out p f d discard_events c t appended)
  have frame: "frame_tickets (pl_inner p) u"
    if "dispatch_direct_event timed_out (pl_discard p) e (pl_channel p) (pl_inner p) = (f, discard_events, c, u)"
      "f \<noteq> Fate_Waiting" for e u
    using that by (cases rule: dispatch_direct_cases) (auto simp: degraded_def frame_tickets_def)
  from dispatch(1) show ?case
  proof (cases rule: dispatcher_cases)
    case (direct e es m)
    from frame[OF direct(4,3)] dispatch(3) show ?thesis by - (rule ticket_same[where p = p], auto)
  next
    case (ticket n e u)
    from frame[OF ticket(5,4)] dispatch(3) ticket(6) show ?thesis
      by - (rule ticket_same[where p = p], auto simp: frame_tickets_def)
  qed (rule ticket_receiver_gone[where p = p]; use dispatch(3) in \<open>auto split: if_splits\<close>)+
next
  case (consume p e es)
  then show ?case by - (rule ticket_same[where p = p], auto simp: frame_tickets_def)
next
  case (receiver_dropped p)
  then show ?case by - (rule ticket_same[where p = p], auto simp: frame_tickets_def)
next
  case (environment p t)
  then show ?case by - (rule ticket_receiver_gone[where p = p], auto simp: besideD)
qed

subsection \<open>The terminal item\<close>

text \<open>
  There is exactly one terminal item once the admission is terminal: in the spool, with its retry, or
  consumed by the dispatcher. It carries the reason of the \<open>finish\<close> that closed the connection.
\<close>

definition terminals :: "inner \<Rightarrow> spool_item list" where
  "terminals s = filter is_terminal (in_spool s)"

definition retries :: "inner \<Rightarrow> detached list" where
  "retries s = filter is_retry (in_tasks s)"

definition term_inv :: "pipe \<Rightarrow> bool" where
  "term_inv p \<longleftrightarrow>
     (let s = pl_inner p in
        length (terminals s) + length (retries s) + (if pl_dispatcher p = D_Exited then 1 else 0) =
          (if in_event_admission s = Admission_Terminal then 1 else (0 :: nat)) \<and>
        (in_event_admission s = Admission_Terminal \<longrightarrow> in_phase s = Phase_Closed) \<and>
        (in_phase s = Phase_Closed \<longrightarrow> in_event_admission s \<noteq> Admission_Terminal \<longrightarrow>
           in_terminal_reason s = pl_reason p) \<and>
        set (terminals s) \<subseteq> {Spool_Terminal (pl_reason p)} \<and>
        set (retries s) \<subseteq> {Terminal_Retry (Spool_Terminal (pl_reason p))})"

lemma term_retries: "term_inv p \<Longrightarrow> retries_terminal p"
  by (auto simp: term_inv_def retries_def retries_terminal_def Let_def)

lemma term_same:
  assumes "term_inv p" "pl_reason q = pl_reason p" "pl_dispatcher q = D_Exited \<longleftrightarrow> pl_dispatcher p = D_Exited"
    and "in_event_admission (pl_inner q) = Admission_Terminal \<longleftrightarrow> in_event_admission (pl_inner p) = Admission_Terminal"
    and "in_phase (pl_inner q) = Phase_Closed \<longleftrightarrow> in_phase (pl_inner p) = Phase_Closed"
    and "in_terminal_reason (pl_inner q) = in_terminal_reason (pl_inner p)"
    and "terminals (pl_inner q) = terminals (pl_inner p)" "retries (pl_inner q) = retries (pl_inner p)"
  shows "term_inv q"
  using assms by (simp add: term_inv_def Let_def)

lemma overload_retries: "overload s t \<Longrightarrow> retries t = retries s"
  by (auto simp: overload_def retries_def)

lemma overload_closed: "overload s t \<Longrightarrow> in_phase t = Phase_Closed \<longleftrightarrow> in_phase s = Phase_Closed"
  by (auto simp: overload_def)

lemma term_finish:
  assumes "term_inv p" "pl_inner q = finish r (pl_inner p)" "pl_dispatcher q = pl_dispatcher p"
    and "pl_reason q = (if in_event_admission (pl_inner p) = Admission_Terminal then pl_reason p
      else in_terminal_reason (finish r (pl_inner p)))"
  shows "term_inv q"
proof -
  have "terminals (finish r (pl_inner p)) = terminals (pl_inner p)"
    "retries (finish r (pl_inner p)) = retries (pl_inner p)"
    by (simp_all add: terminals_def retries_def)
  with assms show ?thesis
    by (cases "in_phase (pl_inner p) = Phase_Closed") (auto simp: term_inv_def Let_def split: if_splits)
qed

lemma term_ended:
  assumes inv: "term_inv p" and tasks: "in_tasks (pl_inner p) = xs @ Cleanup_Finish # ys"
    and ended: "spool_ended (pl_inner (without_task xs ys p)) (pl_inner q)"
    and closed: "in_phase (pl_inner p) = Phase_Closed" "\<not> in_spool_closed (pl_inner p)"
    and same: "pl_reason q = pl_reason p" "pl_dispatcher q = pl_dispatcher p"
  shows "term_inv q"
proof -
  have none: "terminals (pl_inner p) = []" "retries (pl_inner p) = []" "pl_dispatcher p \<noteq> D_Exited"
    using inv ended by (auto simp: term_inv_def spool_ended_def Let_def split: if_splits)
  have "in_terminal_reason (pl_inner p) = pl_reason p"
    using inv ended closed by (auto simp: term_inv_def spool_ended_def Let_def)
  moreover from none ended closed tasks have
    "terminals (pl_inner q) = [Spool_Terminal (in_terminal_reason (pl_inner p))] \<and> retries (pl_inner q) = [] \<or>
     terminals (pl_inner q) = [] \<and> retries (pl_inner q) = [Terminal_Retry (Spool_Terminal (in_terminal_reason (pl_inner p)))]"
    by (auto simp: spool_ended_def terminals_def retries_def simp del: set_filter)
  moreover have "in_event_admission (pl_inner q) = Admission_Terminal" "in_phase (pl_inner q) = Phase_Closed"
    using ended closed by (simp_all add: spool_ended_def)
  ultimately show ?thesis
    using none same by (auto simp: term_inv_def Let_def)
qed

text \<open>Before the connection is closed there is no clean-up, and without the fallback there is only one.\<close>

definition cleanups :: "inner \<Rightarrow> detached list" where
  "cleanups s = filter is_cleanup (in_tasks s)"

fun is_fallback :: "detached \<Rightarrow> bool" where
  "is_fallback (Cleanup fallback) = fallback"
| "is_fallback (Cleanup_Publish fallback _ _) = fallback"
| "is_fallback _ = False"

definition last_inv :: "pipe \<Rightarrow> bool" where
  "last_inv p \<longleftrightarrow>
     (let s = pl_inner p in
        (in_phase s \<noteq> Phase_Closed \<longrightarrow> cleanups s = [] \<and> \<not> pl_fallback p) \<and>
        (\<not> pl_fallback p \<longrightarrow>
           length (cleanups s) =
             (if in_phase s = Phase_Closed \<and> in_event_admission s \<noteq> Admission_Terminal then 1 else (0 :: nat)) \<and>
           filter is_fallback (cleanups s) = [] \<and>
           filter is_terminal (butlast (in_spool s)) = [] \<and>
           (pl_dispatcher p = D_Exited \<longrightarrow> pl_pos p = length (pl_log p))))"

lemma last_cleanup_closed:
  "last_inv p \<Longrightarrow> in_tasks (pl_inner p) = xs @ k # ys \<Longrightarrow> is_cleanup k \<Longrightarrow> in_phase (pl_inner p) = Phase_Closed"
  by (auto simp: last_inv_def cleanups_def Let_def)

lemma terminals_append: "in_spool t = in_spool s @ [i] \<Longrightarrow> terminals t = terminals s @ (if is_terminal i then [i] else [])"
  by (simp add: terminals_def)

lemma term_offered:
  assumes "term_inv p" "offered sent item (pl_inner p) (pl_inner q)" "\<not> is_terminal item"
    and "pl_reason q = pl_reason p" "pl_dispatcher q = pl_dispatcher p"
  shows "term_inv q"
  using assms overload_retries[OF offeredD(5)[OF assms(2)]] overload_closed[OF offeredD(5)[OF assms(2)]]
    offeredD(1,4,11)[OF assms(2)]
  by - (rule term_same[where p = p], auto simp: open_admission_def terminals_def simp del: set_filter)

lemma tightened_admission:
  "tightened s t \<Longrightarrow> in_event_admission t = Admission_Terminal \<longleftrightarrow> in_event_admission s = Admission_Terminal"
  by (auto simp: tightened_def)

lemma term_tightened:
  assumes "term_inv p" "tightened s (pl_inner q)" "s = (pl_inner p)\<lparr>in_tasks := ts\<rparr>"
    and "filter is_retry ts = retries (pl_inner p)" "pl_reason q = pl_reason p" "pl_dispatcher q = pl_dispatcher p"
  shows "term_inv q"
  using assms(1,3-) tightened_sel[OF assms(2)] tightened_admission[OF assms(2)]
  by - (rule term_same[where p = p], auto simp: terminals_def retries_def simp del: set_filter)

lemma retries_without:
  "in_tasks (pl_inner p) = xs @ k # ys \<Longrightarrow> \<not> is_retry k \<Longrightarrow>
     filter is_retry xs @ filter is_retry ys = retries (pl_inner p)"
  by (simp add: retries_def)

lemma is_cleanup_not_retry: "is_cleanup k \<Longrightarrow> \<not> is_retry k"
  by (cases k) auto

lemma term_chunk:
  assumes "term_inv p" "in_tasks (pl_inner p) = xs @ k # ys" "\<not> is_retry k"
    and "chunk_step task s t" "pl_inner q = with_task task t" "pl_reason q = pl_reason p"
    and "pl_dispatcher q = pl_dispatcher p" "in_tasks s = xs @ ys" "terminals s = terminals (pl_inner p)"
    and "in_event_admission s = in_event_admission (pl_inner p)" "in_phase s = in_phase (pl_inner p)"
    and "in_terminal_reason s = in_terminal_reason (pl_inner p)"
  shows "term_inv q"
proof -
  have chunk: "in_spool t = in_spool s" "in_event_admission t = in_event_admission s" "in_phase t = in_phase s"
    "in_terminal_reason t = in_terminal_reason s" "in_tasks t = in_tasks s" "\<not> is_retry task"
    using assms(4) is_cleanup_not_retry[of task] by (auto simp: chunk_step_def)
  have "retries (pl_inner q) = retries (pl_inner p)"
    using assms(2,3,5,8) chunk by (simp add: retries_def)
  moreover have "terminals (pl_inner q) = terminals (pl_inner p)"
    using assms(5,9) chunk by (simp add: terminals_def)
  ultimately show ?thesis
    using assms(5-7,10-) chunk by (intro term_same[OF assms(1)]) simp_all
qed

lemma term_retry:
  assumes inv: "term_inv p" and tasks: "in_tasks (pl_inner p) = xs @ Terminal_Retry item # ys"
    and q: "in_spool (pl_inner q) = in_spool (pl_inner p) @ [item]" "in_tasks (pl_inner q) = xs @ ys"
      "in_event_admission (pl_inner q) = in_event_admission (pl_inner p)"
      "in_phase (pl_inner q) = in_phase (pl_inner p)"
      "pl_reason q = pl_reason p" "pl_dispatcher q = pl_dispatcher p"
  shows "term_inv q"
proof -
  have retries: "retries (pl_inner p) = filter is_retry xs @ Terminal_Retry item # filter is_retry ys"
    using tasks by (simp add: retries_def)
  then have "terminals (pl_inner p) = []" "filter is_retry xs = []" "filter is_retry ys = []"
    "pl_dispatcher p \<noteq> D_Exited" "in_event_admission (pl_inner p) = Admission_Terminal"
    "item = Spool_Terminal (pl_reason p)"
    using inv by (auto simp: term_inv_def Let_def simp del: set_filter split: if_splits)
  then show ?thesis
    using inv q by (simp add: term_inv_def Let_def terminals_def retries_def del: set_filter)
qed

lemma term_degraded:
  assumes "term_inv p" "degraded s (pl_inner q)" "s = count_dropped n (pl_inner p)"
    and "pl_reason q = pl_reason p" "pl_dispatcher p \<noteq> D_Exited" "pl_dispatcher q \<noteq> D_Exited"
  shows "term_inv q"
  using assms overload_retries[of s "pl_inner q"] overload_closed[of s "pl_inner q"]
  by - (rule term_same[where p = p],
      auto simp: degraded_def frame_spool_def open_admission_def terminals_def retries_def simp del: set_filter)

lemma term_exit:
  assumes inv: "term_inv p" and spool: "in_spool (pl_inner p) = Spool_Terminal r # rest"
    and q: "in_spool (pl_inner q) = []" "in_tasks (pl_inner q) = in_tasks (pl_inner p)"
      "in_event_admission (pl_inner q) = in_event_admission (pl_inner p)"
      "in_phase (pl_inner q) = in_phase (pl_inner p)"
      "pl_reason q = pl_reason p" "pl_dispatcher q = D_Exited"
  shows "term_inv q"
proof -
  have "terminals (pl_inner p) = Spool_Terminal r # filter is_terminal rest"
    using spool by (simp add: terminals_def)
  then have "retries (pl_inner p) = []" "in_event_admission (pl_inner p) = Admission_Terminal"
    using inv by (auto simp: term_inv_def Let_def simp del: set_filter split: if_splits)
  then show ?thesis
    using inv q by (simp add: term_inv_def Let_def terminals_def retries_def)
qed

lemma queue_closed: "queue_inv p \<Longrightarrow> in_spool_closed (pl_inner p) \<longleftrightarrow> pl_dispatcher p = D_Exited"
  by (simp add: queue_inv_def Let_def)

lemma retries_with_task [simp]: "retries (with_task k s) = retries s @ (if is_retry k then [k] else [])"
  by (simp add: retries_def)

lemma terminals_sel [simp]:
  "terminals (with_task k s) = terminals s" "terminals (count_dropped n s) = terminals s"
  "terminals (depth_permit_drop n s) = terminals s"
  "terminals (pl_inner (without_task xs ys p)) = terminals (pl_inner p)"
  "retries (count_dropped n s) = retries s" "retries (depth_permit_drop n s) = retries s"
  by (simp_all add: terminals_def retries_def)

lemma term_task_gone:
  assumes "term_inv p" "in_tasks (pl_inner p) = xs @ k # ys" "\<not> is_retry k"
    and "in_spool (pl_inner q) = in_spool (pl_inner p)" "filter is_retry (in_tasks (pl_inner q)) = filter is_retry (xs @ ys)"
    and "in_event_admission (pl_inner q) = in_event_admission (pl_inner p)"
    and "in_phase (pl_inner q) = in_phase (pl_inner p)" "pl_reason q = pl_reason p"
    and "in_terminal_reason (pl_inner q) = in_terminal_reason (pl_inner p)"
    and "pl_dispatcher q = pl_dispatcher p"
  shows "term_inv q"
  using assms by - (rule term_same[where p = p], simp_all add: terminals_def retries_def)

lemma term_unchanged:
  assumes "term_inv p" "in_spool (pl_inner q) = in_spool (pl_inner p)" "in_tasks (pl_inner q) = in_tasks (pl_inner p)"
    and "in_event_admission (pl_inner q) = in_event_admission (pl_inner p)"
    and "in_phase (pl_inner q) = in_phase (pl_inner p)" "pl_reason q = pl_reason p"
    and "in_terminal_reason (pl_inner q) = in_terminal_reason (pl_inner p)"
    and "pl_dispatcher q = pl_dispatcher p"
  shows "term_inv q"
  using assms by - (rule term_same[where p = p], simp_all add: terminals_def retries_def)

lemma term_dispatch:
  assumes "event_dispatcher timed_out (pl_dispatcher p) (pl_discard p) (pl_channel p) (pl_inner p) =
      Some (f, d, discard', c, t)"
    and inv: "term_inv p" and q: "pl_inner q = t" "pl_dispatcher q = d" "pl_reason q = pl_reason p"
  shows "term_inv q"
  using assms(1)
proof (cases rule: dispatcher_cases)
  case (exit reason rest)
  with inv q show ?thesis by - (rule term_exit[where p = p], simp_all)
next
  case (direct e es m)
  from direct(4,3) show ?thesis
  proof (cases rule: dispatch_direct_cases)
    case delivered
    with direct inv q show ?thesis by - (rule term_same[where p = p], simp_all)
  next
    case dropped
    with direct inv q show ?thesis
      by - (rule term_degraded[where p = p and n = 1 and s = "count_dropped 1 (pl_inner p)"], simp_all)
  qed
next
  case (ticket n e u)
  from ticket(5,4) show ?thesis
  proof (cases rule: dispatch_direct_cases)
    case delivered
    with ticket inv q show ?thesis by - (rule term_same[where p = p], simp_all)
  next
    case dropped
    let ?r = "q\<lparr>pl_inner := u\<rparr>"
    have "term_inv ?r"
      by (rule term_degraded[where p = p and n = 1 and s = "count_dropped 1 (pl_inner p)"])
        (use dropped ticket inv q in simp_all)
    then show ?thesis by (rule term_unchanged) (use ticket q in simp_all)
  qed
qed (rule term_same[where p = p]; use inv q in \<open>auto simp: terminals_def retries_def simp del: set_filter\<close>)+

lemma term_inv_step:
  assumes "pipe_step p q" "term_inv p" "queue_inv p" "last_inv p"
  shows "term_inv q"
  using assms
proof (induction rule: pipe_step.induct)
  case (emit e p sent t)
  with emit_event_offered[OF emit(1)] show ?case
    by - (rule term_offered[where p = p and item = "Spool_Direct e"], simp_all)
next
  case (reserve p n t)
  with reserve_deferred_offered[OF reserve(1)] show ?case
    by - (rule term_offered[where p = p and item = "Spool_Event (in_next_oneshot (pl_inner p))"], simp_all)
next
  case (reserve_err p r t)
  with reserve_deferred_offered[OF reserve_err(1)] show ?case
    by - (rule term_offered[where p = p and item = "Spool_Event (in_next_oneshot (pl_inner p))"], simp_all)
next
  case (drain p)
  with tightened_begin_drain[of "pl_inner p"] show ?case
    by - (rule term_tightened[where p = p and ts = "in_tasks (pl_inner p)"], simp_all add: retries_def)
next
  case (seal timed_out p ended t)
  with tightened_drain_tickets[OF seal(1)] show ?case
    by - (rule term_tightened[where p = p and ts = "in_tasks (pl_inner p)"], simp_all add: retries_def)
next
  case (closing drain_submits p started t)
  from begin_closing_eq[OF closing(1)] closing show ?case
    by - (rule term_same[where p = p], auto simp: same_pipe_def terminals_def retries_def simp del: set_filter)
next
  case (finish p reason)
  then show ?case by - (rule term_finish[where p = p], simp_all)
next
  case (overload_begin p xs ys q)
  let ?q = "q\<lparr>pl_inner := begin_event_drain (pl_inner q)\<rparr>"
  have "term_inv ?q"
    by (rule term_tightened[where p = p and ts = "xs @ ys" and s = "pl_inner q"])
      (use overload_begin tightened_begin_drain in \<open>simp_all add: without_task_def retries_def\<close>)
  then show ?case by (rule term_same) simp_all
next
  case (overload_drain p xs ys q timed_out ended t)
  let ?q = "q\<lparr>pl_inner := t\<rparr>"
  have "term_inv ?q"
    by (rule term_tightened[where p = p and ts = "xs @ ys" and s = "pl_inner q"])
      (use overload_drain tightened_drain_tickets[OF overload_drain(3)] in
        \<open>simp_all add: without_task_def retries_def\<close>)
  then show ?case
    by (cases ended) (auto intro: term_finish[where p = "q\<lparr>pl_inner := t\<rparr>"] term_same[where p = "q\<lparr>pl_inner := t\<rparr>"])
next
  case (cleanup_start p xs fallback ys q order task t)
  with chunk_step_start[OF cleanup_start(4)] show ?case
    by - (rule term_chunk[where p = p and xs = xs and ys = ys and s = "pl_inner q" and k = "Cleanup fallback"], simp_all)
next
  case (cleanup_publish p xs fallback c rest ys q give_up task t sent given_up)
  from cleanup_publish(3) show ?case
  proof (cases rule: publish_chunk_cases)
    case abandoned
    with cleanup_publish show ?thesis
      by - (rule term_chunk[where p = p and xs = xs and ys = ys and k = "Cleanup_Publish fallback c rest"
              and s = "count_dropped (length c) (depth_permit_drop (length c) (pl_inner q))"], simp_all)
  next
    case sent
    with cleanup_publish show ?thesis
      by - (rule term_chunk[where p = p and xs = xs and ys = ys and k = "Cleanup_Publish fallback c rest"
              and s = "(pl_inner q)\<lparr>in_spool := in_spool (pl_inner q) @ [Spool_Batch c]\<rparr>"],
            simp_all add: terminals_def)
  next
    case full
    with cleanup_publish show ?thesis by - (rule term_task_gone[where p = p and xs = xs and ys = ys and k = "Cleanup_Publish fallback c rest"], simp_all)
  next
    case closed
    with cleanup_publish show ?thesis by - (rule term_task_gone[where p = p and xs = xs and ys = ys and k = "Cleanup_Publish fallback c rest"], simp_all)
  qed
next
  case (cleanup_end p xs ys q order)
  show ?case
  proof (cases rule: cleanup_finish_cases[of "pl_inner q" order])
    case again
    with cleanup_end show ?thesis
      by - (rule term_task_gone[where p = p and xs = xs and ys = ys and k = "Cleanup_Finish"], simp_all add: same_pipeD)
  next
    case ended
    have "in_event_admission (pl_inner p) \<noteq> Admission_Terminal"
      using ended cleanup_end by (simp add: spool_ended_def)
    then have "\<not> in_spool_closed (pl_inner p)"
      using cleanup_end by (auto simp: term_inv_def queue_closed Let_def)
    moreover have "in_phase (pl_inner p) = Phase_Closed"
      using cleanup_end by (intro last_cleanup_closed[of p xs Cleanup_Finish ys]) simp_all
    ultimately show ?thesis
      using ended cleanup_end by - (rule term_ended[where p = p and xs = xs and ys = ys], simp_all)
  qed
next
  case (fallback_cancelled p xs c rest ys q)
  then show ?case by - (rule term_task_gone[where p = p and xs = xs and ys = ys and k = "Cleanup_Publish True c rest"], simp_all)
next
  case (retry p xs item ys q task t)
  from retry(3) show ?case
  proof (cases rule: terminal_retry_cases)
    case sent
    with retry show ?thesis by - (rule term_retry[where p = p and xs = xs and ys = ys], simp_all)
  next
    case full
    with retry show ?thesis
      by (simp add: term_inv_def Let_def retries_def ac_simps del: set_filter)
  next
    case closed
    with retry have "in_tasks (pl_inner p) = xs @ Terminal_Retry item # ys" "pl_dispatcher p = D_Exited"
      by (simp_all add: queue_closed)
    with retry show ?thesis
      by (simp add: term_inv_def Let_def retries_def del: set_filter split: if_splits)
  qed
next
  case (dispatch timed_out p f d discard_events c t appended)
  then show ?case by - (rule term_dispatch[where p = p, OF dispatch(1)], simp_all)
next
  case (environment p t)
  then show ?case by - (rule term_unchanged[where p = p], simp_all add: besideD)
next
  case (publish n p e ok t)
  then show ?case
    by - (rule term_unchanged[where p = p], auto simp: Cmpp_Events.publish_def Let_def split: if_splits)
qed (rule term_same; auto simp: ticket_drop_def Let_def terminals_def retries_def simp del: set_filter)+

subsection \<open>Nothing follows the terminal item\<close>

lemma last_upd:
  assumes inv: "last_inv p" and same: "pl_fallback q = pl_fallback p"
    and phase: "in_phase (pl_inner q) = Phase_Closed \<longleftrightarrow> in_phase (pl_inner p) = Phase_Closed"
    and admission: "in_event_admission (pl_inner q) = Admission_Terminal \<longleftrightarrow>
      in_event_admission (pl_inner p) = Admission_Terminal"
    and cleanups: "length (cleanups (pl_inner q)) = length (cleanups (pl_inner p))"
      "\<not> pl_fallback p \<Longrightarrow> filter is_fallback (cleanups (pl_inner p)) = [] \<Longrightarrow>
        filter is_fallback (cleanups (pl_inner q)) = []"
    and terminal: "\<not> pl_fallback p \<Longrightarrow> filter is_terminal (butlast (in_spool (pl_inner p))) = [] \<Longrightarrow>
      filter is_terminal (butlast (in_spool (pl_inner q))) = []"
    and exited: "\<not> pl_fallback p \<Longrightarrow> (pl_dispatcher p = D_Exited \<Longrightarrow> pl_pos p = length (pl_log p)) \<Longrightarrow>
      pl_dispatcher q = D_Exited \<Longrightarrow> pl_pos q = length (pl_log q)"
  shows "last_inv q"
  using assms by (auto simp: last_inv_def Let_def)

lemma last_same:
  assumes "last_inv p" "pl_fallback q = pl_fallback p" "pl_dispatcher q = pl_dispatcher p"
    and "pl_pos q = pl_pos p" "pl_log q = pl_log p"
    and "in_phase (pl_inner q) = Phase_Closed \<longleftrightarrow> in_phase (pl_inner p) = Phase_Closed"
    and "in_event_admission (pl_inner q) = Admission_Terminal \<longleftrightarrow> in_event_admission (pl_inner p) = Admission_Terminal"
    and "in_spool (pl_inner q) = in_spool (pl_inner p)" "cleanups (pl_inner q) = cleanups (pl_inner p)"
  shows "last_inv q"
  using assms by (simp add: last_inv_def Let_def)

lemma overload_cleanups: "overload s t \<Longrightarrow> cleanups t = cleanups s"
  by (auto simp: overload_def cleanups_def)

lemma no_terminals: "term_inv p \<Longrightarrow> in_event_admission (pl_inner p) \<noteq> Admission_Terminal \<Longrightarrow>
    terminals (pl_inner p) = [] \<and> pl_dispatcher p \<noteq> D_Exited"
  by (simp add: term_inv_def Let_def split: if_splits)

lemma butlast_terminals: "terminals s = [] \<Longrightarrow> filter is_terminal (butlast (in_spool s)) = []"
  by (auto simp: terminals_def filter_empty_conv dest: in_set_butlastD)

lemma last_offered:
  assumes "last_inv p" "offered sent item (pl_inner p) (pl_inner q)" "term_inv p" "\<not> is_terminal item"
    and "pl_fallback q = pl_fallback p" "pl_dispatcher q = pl_dispatcher p" "pl_pos q = pl_pos p"
    and "sent \<or> pl_log q = pl_log p"
  shows "last_inv q"
proof (cases sent)
  case True
  then have "terminals (pl_inner p) = []" "pl_dispatcher p \<noteq> D_Exited"
    using no_terminals[OF assms(3)] offeredD(8)[OF assms(2)] by (auto simp: open_admission_def)
  with True assms(1,5-7) offeredD(1,11)[OF assms(2)] overload_cleanups[OF offeredD(5)[OF assms(2)]]
    overload_closed[OF offeredD(5)[OF assms(2)]] assms(4)
  show ?thesis
    by - (rule last_upd[where p = p], auto simp: open_admission_def terminals_def simp del: set_filter)
next
  case False
  with assms(1,5-8) offeredD(1,11)[OF assms(2)] overload_cleanups[OF offeredD(5)[OF assms(2)]]
    overload_closed[OF offeredD(5)[OF assms(2)]]
  show ?thesis by - (rule last_same[where p = p], auto simp: open_admission_def)
qed

lemma last_tightened:
  assumes "last_inv p" "tightened s (pl_inner q)" "s = (pl_inner p)\<lparr>in_tasks := ts\<rparr>"
    and "filter is_cleanup ts = cleanups (pl_inner p)"
    and "pl_fallback q = pl_fallback p" "pl_dispatcher q = pl_dispatcher p" "pl_pos q = pl_pos p" "pl_log q = pl_log p"
  shows "last_inv q"
  using assms(1,3-) tightened_sel[OF assms(2)] tightened_admission[OF assms(2)]
  by - (rule last_same[where p = p], simp_all add: cleanups_def)

lemma last_finish:
  assumes "last_inv p" "term_inv p" "pl_inner q = finish r (pl_inner p)"
    and "pl_fallback q = pl_fallback p" "pl_dispatcher q = pl_dispatcher p" "pl_pos q = pl_pos p" "pl_log q = pl_log p"
  shows "last_inv q"
  using assms by (auto simp: last_inv_def term_inv_def cleanups_def Let_def)

lemma cleanups_split:
  "in_tasks s = xs @ k # ys \<Longrightarrow> cleanups s = filter is_cleanup xs @ (if is_cleanup k then [k] else []) @ filter is_cleanup ys"
  by (simp add: cleanups_def)

text \<open>A clean-up that moves on stays a clean-up of the same kind.\<close>

lemma last_moves:
  assumes inv: "last_inv p" and tasks: "in_tasks (pl_inner p) = xs @ k # ys" "is_cleanup k"
      "in_tasks (pl_inner q) = xs @ ys @ [task]"
    and task: "is_cleanup task" "\<not> is_fallback k \<Longrightarrow> \<not> is_fallback task"
    and same: "pl_fallback q = pl_fallback p" "pl_dispatcher q = pl_dispatcher p" "pl_pos q = pl_pos p"
      "in_phase (pl_inner q) = in_phase (pl_inner p)"
      "in_event_admission (pl_inner q) = in_event_admission (pl_inner p)"
    and spool: "in_spool (pl_inner q) = in_spool (pl_inner p) @ items" "filter is_terminal items = []"
    and log: "items = [] \<Longrightarrow> pl_log q = pl_log p" and tinv: "term_inv p"
  shows "last_inv q"
proof (cases "pl_fallback p")
  case True
  with inv same show ?thesis by (auto simp: last_inv_def Let_def)
next
  case False
  have "cleanups (pl_inner p) \<noteq> []" using tasks by (simp add: cleanups_split)
  then have "in_event_admission (pl_inner p) \<noteq> Admission_Terminal"
    using inv False by (auto simp: last_inv_def Let_def split: if_splits)
  from no_terminals[OF tinv this] have "terminals (pl_inner p) = []" "pl_dispatcher p \<noteq> D_Exited" by auto
  then have "filter is_terminal (butlast (in_spool (pl_inner q))) = []"
    using spool by (intro butlast_terminals) (simp add: terminals_def)
  moreover have "length (cleanups (pl_inner q)) = length (cleanups (pl_inner p))"
    using tasks task by (simp add: cleanups_split cleanups_def)
  moreover have "filter is_fallback (cleanups (pl_inner p)) = [] \<Longrightarrow> filter is_fallback (cleanups (pl_inner q)) = []"
    using tasks task by (simp add: cleanups_split cleanups_def split: if_splits)
  ultimately show ?thesis
    using same \<open>pl_dispatcher p \<noteq> D_Exited\<close> by (intro last_upd[OF inv]) simp_all
qed

lemma last_ended:
  assumes inv: "last_inv p" and tasks: "in_tasks (pl_inner p) = xs @ Cleanup_Finish # ys"
    and ended: "spool_ended (pl_inner (without_task xs ys p)) (pl_inner q)" and tinv: "term_inv p"
    and same: "pl_fallback q = pl_fallback p" "pl_dispatcher q = pl_dispatcher p"
  shows "last_inv q"
proof (cases "pl_fallback p")
  case True
  with inv same last_cleanup_closed[OF inv tasks] ended show ?thesis
    by (simp add: last_inv_def spool_ended_def Let_def)
next
  case False
  have admission: "in_event_admission (pl_inner p) \<noteq> Admission_Terminal"
    using ended by (simp add: spool_ended_def)
  from no_terminals[OF tinv this] have none: "terminals (pl_inner p) = []" "pl_dispatcher p \<noteq> D_Exited" by auto
  have closed: "in_phase (pl_inner p) = Phase_Closed" using last_cleanup_closed[OF inv tasks] by simp
  have "filter is_cleanup xs = []" "filter is_cleanup ys = []"
    using inv False closed admission tasks by (auto simp: last_inv_def cleanups_def Let_def)
  then have "cleanups (pl_inner q) = []"
    using ended by (auto simp: spool_ended_def cleanups_def simp del: set_filter)
  moreover have "filter is_terminal (butlast (in_spool (pl_inner q))) = []"
    using ended none butlast_terminals[of "pl_inner p"]
    by (auto simp: spool_ended_def terminals_def simp del: set_filter)
  ultimately show ?thesis
    using ended closed none same by (auto simp: last_inv_def spool_ended_def Let_def)
qed

lemma last_retry:
  assumes inv: "last_inv p" and tasks: "in_tasks (pl_inner p) = xs @ Terminal_Retry item # ys"
    and q: "in_spool (pl_inner q) = in_spool (pl_inner p) @ [item]" "in_tasks (pl_inner q) = xs @ ys"
      "in_event_admission (pl_inner q) = in_event_admission (pl_inner p)"
      "in_phase (pl_inner q) = in_phase (pl_inner p)" "pl_fallback q = pl_fallback p"
      "pl_dispatcher q = pl_dispatcher p"
    and tinv: "term_inv p"
  shows "last_inv q"
proof -
  have "retries (pl_inner p) \<noteq> []" using tasks by (simp add: retries_def)
  then have "terminals (pl_inner p) = []" "pl_dispatcher p \<noteq> D_Exited"
    using tinv by (cases "retries (pl_inner p)"; auto simp: term_inv_def Let_def split: if_splits)+
  moreover have "cleanups (pl_inner q) = cleanups (pl_inner p)"
    using tasks q by (simp add: cleanups_def)
  ultimately show ?thesis
    using q by (intro last_upd[OF inv]) (simp_all add: terminals_def)
qed

lemma last_task_gone:
  assumes "last_inv p" "in_tasks (pl_inner p) = xs @ k # ys" "is_fallback k" "is_cleanup k"
    and "in_tasks (pl_inner q) = xs @ ys" "in_phase (pl_inner q) = in_phase (pl_inner p)" "pl_fallback q = pl_fallback p"
  shows "last_inv q"
  using assms last_cleanup_closed[OF assms(1,2,4)]
  by (auto simp: last_inv_def cleanups_def Let_def)

lemma last_cleanups_dispatch:
  assumes "last_inv p" "overload (pl_inner p) (pl_inner q)" "pl_dispatcher q \<noteq> D_Exited"
    and "in_event_admission (pl_inner q) = Admission_Terminal \<longleftrightarrow> in_event_admission (pl_inner p) = Admission_Terminal"
    and "in_spool (pl_inner q) = in_spool (pl_inner p)" "pl_fallback q = pl_fallback p"
  shows "last_inv q"
  using assms overload_cleanups[OF assms(2)] overload_closed[OF assms(2)]
  by - (rule last_upd[where p = p], simp_all)

lemma direct_admission:
  assumes "dispatch_direct_event timed_out discard_events e c s = (f, discard', c', t)" "f \<noteq> Fate_Waiting"
  shows "in_event_admission t = Admission_Terminal \<longleftrightarrow> in_event_admission s = Admission_Terminal"
  using assms by (cases rule: dispatch_direct_cases) (auto simp: degraded_def open_admission_def)

lemma last_dispatch:
  assumes "event_dispatcher timed_out (pl_dispatcher p) (pl_discard p) (pl_channel p) (pl_inner p) =
      Some (f, d, discard', c, t)"
    and inv: "last_inv p" and queue: "queue_inv p"
    and q: "pl_inner q = t" "pl_dispatcher q = d" "pl_fallback q = pl_fallback p" "pl_log q = pl_log p"
      "pl_pos q = pl_pos p + (if f = Fate_Waiting then 0 else 1)"
  shows "last_inv q"
  using assms(1)
proof (cases rule: dispatcher_cases)
  case (taken item rest)
  with inv q show ?thesis
    by - (rule last_upd[where p = p], auto simp: cleanups_def simp del: set_filter split: if_splits)
next
  case (skipped n rest)
  with inv q show ?thesis
    by - (rule last_upd[where p = p], auto simp: cleanups_def simp del: set_filter split: if_splits)
next
  case (exit reason rest)
  show ?thesis
  proof (cases "pl_fallback p")
    case True
    with exit inv q show ?thesis by (simp add: last_inv_def cleanups_def Let_def)
  next
    case False
    then have "filter is_terminal (butlast (Spool_Terminal reason # rest)) = []"
      using inv exit by (simp add: last_inv_def Let_def)
    then have "rest = []" by (cases rest) auto
    then have "drop (pl_pos p) (pl_log p) = []" "pl_pos p \<le> length (pl_log p)"
      using queue exit by (simp_all add: queue_inv_def Let_def)
    then have "pl_pos p = length (pl_log p)" by simp
    with exit inv q show ?thesis by - (rule last_upd[where p = p], simp_all add: cleanups_def)
  qed
next
  case (direct e es m)
  with inv q direct_spool[OF direct(4,3)] direct_admission[OF direct(4,3)] show ?thesis
    by - (rule last_cleanups_dispatch[where p = p], simp_all)
next
  case (ticket n e u)
  with inv q direct_spool[OF ticket(5,4)] direct_admission[OF ticket(5,4)] show ?thesis
    by - (rule last_cleanups_dispatch[where p = p], simp_all)
next
  case (orphan n)
  with inv q show ?thesis by - (rule last_cleanups_dispatch[where p = p], simp_all add: overload_def)
next
  case (finished m)
  with inv q show ?thesis by - (rule last_cleanups_dispatch[where p = p], simp_all)
qed

lemma last_inv_step:
  assumes "pipe_step p q" "last_inv p" "term_inv p" "queue_inv p"
  shows "last_inv q"
  using assms
proof (induction rule: pipe_step.induct)
  case (emit e p sent t)
  with emit_event_offered[OF emit(1)] show ?case
    by - (rule last_offered[where p = p and item = "Spool_Direct e" and sent = sent], simp_all)
next
  case (reserve p n t)
  with reserve_deferred_offered[OF reserve(1)] show ?case
    by - (rule last_offered[where p = p and item = "Spool_Event (in_next_oneshot (pl_inner p))" and sent = True], simp_all)
next
  case (reserve_err p r t)
  with reserve_deferred_offered[OF reserve_err(1)] show ?case
    by - (rule last_offered[where p = p and item = "Spool_Event (in_next_oneshot (pl_inner p))" and sent = False], simp_all)
next
  case (publish n p e ok t)
  then show ?case
    by - (rule last_same[where p = p], auto simp: Cmpp_Events.publish_def Let_def cleanups_def split: if_splits)
next
  case (drain p)
  with tightened_begin_drain[of "pl_inner p"] show ?case
    by - (rule last_tightened[where p = p and ts = "in_tasks (pl_inner p)"], simp_all add: cleanups_def)
next
  case (seal timed_out p ended t)
  with tightened_drain_tickets[OF seal(1)] show ?case
    by - (rule last_tightened[where p = p and ts = "in_tasks (pl_inner p)"], simp_all add: cleanups_def)
next
  case (closing drain_submits p started t)
  from begin_closing_eq[OF closing(1)] closing show ?case
    by - (rule last_same[where p = p], auto simp: same_pipe_def cleanups_def simp del: set_filter)
next
  case (finish p reason)
  then show ?case by - (rule last_finish[where p = p], simp_all)
next
  case (overload_begin p xs ys q)
  let ?q = "q\<lparr>pl_inner := begin_event_drain (pl_inner q)\<rparr>"
  have "last_inv ?q"
    by (rule last_tightened[where p = p and ts = "xs @ ys" and s = "pl_inner q"])
      (use overload_begin tightened_begin_drain in \<open>simp_all add: without_task_def cleanups_def\<close>)
  then show ?case by (rule last_same) (simp_all add: cleanups_def)
next
  case (overload_drain p xs ys q timed_out ended t)
  let ?q = "q\<lparr>pl_inner := t\<rparr>"
  note drain = tightened_drain_tickets[OF overload_drain(3)]
  have "last_inv ?q"
    by (rule last_tightened[where p = p and ts = "xs @ ys" and s = "pl_inner q"])
      (use overload_drain drain in \<open>simp_all add: without_task_def cleanups_def\<close>)
  moreover have "term_inv ?q"
    by (rule term_tightened[where p = p and ts = "xs @ ys" and s = "pl_inner q"])
      (use overload_drain drain in \<open>simp_all add: without_task_def retries_def\<close>)
  ultimately show ?case
    by (cases ended) (auto intro: last_finish[where p = ?q] last_same[where p = ?q] simp: cleanups_def)
next
  case (cleanup_start p xs fallback ys q order task t)
  have "is_fallback task \<longrightarrow> fallback"
    using cleanup_start(4)
    by (auto simp: fail_all_pending_def dest: next_chunk_cases split: prod.splits)
  with cleanup_start chunk_step_start[OF cleanup_start(4)] show ?case
    by - (rule last_moves[where p = p and xs = xs and ys = ys and items = "[]" and k = "Cleanup fallback" and task = task],
        auto simp: chunk_step_def)
next
  case (cleanup_publish p xs fallback c rest ys q give_up task t sent given_up)
  have fb: "is_fallback task \<longrightarrow> fallback"
    using cleanup_publish(3)
    by (auto simp: publish_chunk_def spool_try_send_eq dest: next_chunk_cases split: if_splits)
  show ?case
    by (rule publish_chunk_cases[OF cleanup_publish(3)];
        rule last_moves[where p = p and xs = xs and ys = ys and k = "Cleanup_Publish fallback c rest"
          and task = task and items = "if sent then [Spool_Batch c] else []"];
        use cleanup_publish fb in \<open>auto simp: chunk_step_def spool_try_send_eq room_def split: if_splits\<close>)
next
  case (cleanup_end p xs ys q order)
  show ?case
  proof (cases rule: cleanup_finish_cases[of "pl_inner q" order])
    case again
    show ?thesis
    proof (cases "pl_fallback p")
      case True
      with again cleanup_end last_cleanup_closed[OF cleanup_end(4,1)] show ?thesis
        by (simp add: last_inv_def same_pipeD Let_def)
    next
      case False
      have "cleanups (pl_inner p) \<noteq> []" using cleanup_end(1) by (simp add: cleanups_split)
      with False again cleanup_end show ?thesis by (simp add: last_inv_def Let_def)
    qed
  next
    case ended
    with cleanup_end show ?thesis by - (rule last_ended[where p = p and xs = xs and ys = ys], simp_all)
  qed
next
  case (fallback p)
  then show ?case by (simp add: last_inv_def Let_def)
next
  case (fallback_cancelled p xs c rest ys q)
  then show ?case
    by - (rule last_task_gone[where p = p and xs = xs and ys = ys and k = "Cleanup_Publish True c rest"], simp_all)
next
  case (retry p xs item ys q task t)
  from retry(3) show ?case
  proof (cases rule: terminal_retry_cases)
    case sent
    with retry show ?thesis by - (rule last_retry[where p = p and xs = xs and ys = ys], simp_all)
  qed (rule last_same[where p = p]; use retry in \<open>simp add: cleanups_def\<close>)+
next
  case (dispatch timed_out p f d discard_events c t appended)
  then show ?case by - (rule last_dispatch[where p = p, OF dispatch(1)], simp_all)
next
  case (environment p t)
  then show ?case by - (rule last_same[where p = p], simp_all add: besideD cleanups_def)
qed (rule last_same; auto simp: ticket_drop_def Let_def cleanups_def simp del: set_filter)+

end
