(* ===== verification/Cmpp_Guarantees.thy ===== *)
theory Cmpp_Guarantees
  imports Cmpp_Delivery
begin

text \<open>
  The order of delivery, the public channel and the bound of the spool, and the properties of the
  event pipeline that follow from its invariants.
\<close>

section \<open>The order of delivery\<close>

lemma slot_event_mono:
  "slot_event f i = Some e \<Longrightarrow> (\<And>n. f n = Some e \<Longrightarrow> g n = Some e) \<Longrightarrow> slot_event g i = Some e"
  by (cases i) auto

lemma out_upd:
  assumes inv: "out_inv p" and out: "pl_out q = pl_out p" and pos: "pl_pos p \<le> pl_pos q"
    and log: "pl_log q = pl_log p @ slots" "pl_pos p \<le> length (pl_log p)"
    and published: "\<And>n e. pl_published p n = Some e \<Longrightarrow> pl_published q n = Some e"
  shows "out_inv q"
proof -
  have "i < pl_pos q \<and> slot_event (pl_published q) (pl_log q ! i) = Some e"
    if "(i, e) \<in> set (pl_out p)" for i e
  proof -
    have "i < pl_pos p" "slot_event (pl_published p) (pl_log p ! i) = Some e"
      using inv that unfolding out_inv_def by auto
    then show ?thesis using pos log published
      by (auto simp: nth_append intro: slot_event_mono[of "pl_published p"])
  qed
  with inv out show ?thesis unfolding out_inv_def by auto
qed

lemma out_delivered:
  assumes inv: "out_inv p" and out: "pl_out q = pl_out p @ [(pl_pos p, e)]" "pl_pos q = pl_pos p + 1"
    and log: "pl_log q = pl_log p" "pl_published q = pl_published p"
    and slot: "slot_event (pl_published p) (pl_log p ! pl_pos p) = Some e"
  shows "out_inv q"
  using assms unfolding out_inv_def by (auto simp: sorted_wrt_append)

lemma queue_pos: "queue_inv p \<Longrightarrow> pl_pos p \<le> length (pl_log p)"
  by (simp add: queue_inv_def Let_def)

lemma queue_head:
  assumes "queue_inv p" "pl_dispatcher p \<noteq> D_Exited" "hand_slots (pl_dispatcher p) = i # rest"
  shows "pl_log p ! pl_pos p = i"
proof -
  have drop: "drop (pl_pos p) (pl_log p) = i # rest @ concat (map item_slots (in_spool (pl_inner p)))"
    using assms by (simp add: queue_inv_def Let_def)
  then have "pl_pos p < length (pl_log p)"
    by (metis drop_all list.distinct(1) not_less)
  then show ?thesis using drop by (metis Cons_nth_drop_Suc list.inject)
qed

lemma direct_delivered:
  assumes "dispatch_direct_event timed_out discard_events e c s = (Fate_Delivered, discard', c', t)"
  shows "last (ec_events c') = e"
  using assms by (cases rule: dispatch_direct_cases) auto

lemma out_dispatch:
  assumes "event_dispatcher timed_out (pl_dispatcher p) (pl_discard p) (pl_channel p) (pl_inner p) =
      Some (f, d, discard', c, t)"
    and inv: "out_inv p" "queue_inv p" "ticket_inv p"
    and q: "pl_log q = pl_log p" "pl_published q = pl_published p"
      "pl_pos q = pl_pos p + (if f = Fate_Waiting then 0 else 1)"
      "pl_out q = pl_out p @ (if f = Fate_Delivered then [(pl_pos p, last (ec_events c))] else [])"
  shows "out_inv q"
proof (cases "f = Fate_Delivered")
  case True
  have "slot_event (pl_published p) (pl_log p ! pl_pos p) = Some (last (ec_events c))"
    using assms(1)
  proof (cases rule: dispatcher_cases)
    case (direct e es m)
    with queue_head[OF inv(2)] direct_delivered[of timed_out "pl_discard p" e "pl_channel p"] True
    show ?thesis by simp
  next
    case (ticket n e u)
    with queue_head[OF inv(2)] direct_delivered[of timed_out "pl_discard p" e "pl_channel p"] True inv(3)
    show ?thesis by (simp add: ticket_inv_def Let_def)
  qed (use True in simp_all)
  with True q show ?thesis by - (rule out_delivered[OF inv(1)], simp_all)
next
  case False
  with q show ?thesis by - (rule out_upd[OF inv(1) _ _ _ queue_pos[OF inv(2)], where slots = "[]"], simp_all)
qed

lemma out_same:
  "out_inv p \<Longrightarrow> pl_out q = pl_out p \<Longrightarrow> pl_pos q = pl_pos p \<Longrightarrow> pl_log q = pl_log p \<Longrightarrow>
     pl_published q = pl_published p \<Longrightarrow> out_inv q"
  by (simp add: out_inv_def)

lemma out_inv_step:
  assumes "pipe_step p q" "out_inv p" "queue_inv p" "ticket_inv p"
  shows "out_inv q"
  using assms
proof (induction rule: pipe_step.induct)
  case (emit e p sent t)
  then show ?case
    by - (rule out_upd[where p = p, OF _ _ _ _ queue_pos[OF emit(3)]], simp_all)
next
  case (reserve p n t)
  then show ?case
    by - (rule out_upd[where p = p, OF _ _ _ _ queue_pos[OF reserve(3)]], simp_all)
next
  case (publish n p e ok t)
  then have "pl_published p n = None" by (simp add: ticket_inv_def Let_def)
  with publish show ?case
    by - (rule out_upd[where p = p and slots = "[]", OF _ _ _ _ queue_pos[OF publish(4)]], auto)
next
  case (overload_drain p xs ys q timed_out ended t)
  then show ?case
    by (cases ended) (rule out_upd[where p = p and slots = "[]", OF _ _ _ _ queue_pos[OF overload_drain(5)]]; simp)+
next
  case (cleanup_publish p xs fallback c rest ys q give_up task t sent given_up)
  then show ?case
    by - (rule out_upd[where p = p, OF _ _ _ _ queue_pos[OF cleanup_publish(7)]], simp_all)
next
  case (dispatch timed_out p f d discard_events c t appended)
  then show ?case by - (rule out_dispatch[where p = p, OF dispatch(1)], simp_all)
qed (erule out_same; simp)+

section \<open>The public channel\<close>

definition terminal_events :: "error option \<Rightarrow> event list" where
  "terminal_events reason = (case reason of None \<Rightarrow> [] | Some r \<Rightarrow> [Disconnected r])"

definition public_inv :: "pipe \<Rightarrow> bool" where
  "public_inv p \<longleftrightarrow>
     (let d = pl_dispatcher p; c = pl_channel p in
        ec_capacity c = INCOMING_CHANNEL_CAPACITY \<and>
        (d \<noteq> D_Exited \<longrightarrow>
           length (ec_events c) < INCOMING_CHANNEL_CAPACITY \<and> pl_public p = map snd (pl_out p)) \<and>
        (d = D_Exited \<longrightarrow>
           (\<exists>tail. pl_public p = map snd (pl_out p) @ tail \<and>
              (tail = terminal_events (pl_reason p) \<or> tail = [] \<and> ec_closed c))))"

lemma public_same:
  "public_inv p \<Longrightarrow> pl_public q = pl_public p \<Longrightarrow> pl_out q = pl_out p \<Longrightarrow>
     pl_dispatcher q = pl_dispatcher p \<Longrightarrow> pl_channel q = pl_channel p \<Longrightarrow>
     (pl_dispatcher p = D_Exited \<Longrightarrow> pl_reason q = pl_reason p) \<Longrightarrow> public_inv q"
  by (auto simp: public_inv_def Let_def)

lemma exited_closed: "term_inv p \<Longrightarrow> pl_dispatcher p = D_Exited \<Longrightarrow> in_phase (pl_inner p) = Phase_Closed"
  by (auto simp: term_inv_def Let_def split: if_splits)

lemma exited_terminal: "term_inv p \<Longrightarrow> pl_dispatcher p = D_Exited \<Longrightarrow> in_event_admission (pl_inner p) = Admission_Terminal"
  by (auto simp: term_inv_def Let_def split: if_splits)

lemma public_dispatch:
  assumes "event_dispatcher timed_out (pl_dispatcher p) (pl_discard p) (pl_channel p) (pl_inner p) =
      Some (f, d, discard', c, t)"
    and inv: "public_inv p" "term_inv p"
    and q: "pl_dispatcher q = d" "pl_channel q = c" "pl_reason q = pl_reason p"
      "pl_out q = pl_out p @ (if f = Fate_Delivered then [(pl_pos p, last (ec_events c))] else [])"
      "pl_public q = pl_public p @ drop (length (ec_events (pl_channel p))) (ec_events c)"
  shows "public_inv q"
proof -
  have passed: "public_inv q"
    if "dispatch_direct_event timed_out (pl_discard p) e (pl_channel p) (pl_inner p) = (f, discard', c, u)"
      "f \<noteq> Fate_Waiting" "pl_dispatcher p \<noteq> D_Exited" "d \<noteq> D_Exited" for e u
    using that(1,2)
    by (cases rule: dispatch_direct_cases) (use that(3,4) inv q in \<open>auto simp: public_inv_def Let_def\<close>)
  from assms(1) show ?thesis
  proof (cases rule: dispatcher_cases)
    case (exit reason rest)
    have "reason = pl_reason p"
      using exit inv(2) by (auto simp: term_inv_def Let_def terminals_def)
    moreover have "length (ec_events (pl_channel p)) < ec_capacity (pl_channel p)"
      "pl_public p = map snd (pl_out p)"
      using inv(1) exit by (auto simp: public_inv_def Let_def)
    ultimately show ?thesis
      using exit inv(1) q
      by (auto simp: public_inv_def Let_def terminal_events_def channel_try_send_def split: option.splits if_splits)
  next
    case (direct e es m)
    then show ?thesis by (intro passed[of e t]) auto
  next
    case (ticket n e u)
    then show ?thesis by (intro passed[of e u]) auto
  qed (use inv q in \<open>auto simp: public_inv_def Let_def\<close>)
qed

lemma public_inv_step:
  assumes "pipe_step p q" "public_inv p" "term_inv p"
  shows "public_inv q"
  using assms
proof (induction rule: pipe_step.induct)
  case (finish p reason)
  then show ?case by - (rule public_same[where p = p], simp_all add: exited_terminal)
next
  case (overload_drain p xs ys q timed_out ended t)
  have "in_event_admission t = Admission_Terminal \<longleftrightarrow> in_event_admission (pl_inner p) = Admission_Terminal"
    using tightened_admission[OF tightened_drain_tickets[OF overload_drain(3)]] overload_drain(2) by simp
  with overload_drain show ?case
    by (cases ended) (rule public_same[where p = p]; simp add: exited_terminal)+
next
  case (dispatch timed_out p f d discard_events c t appended)
  then show ?case by - (rule public_dispatch[where p = p, OF dispatch(1)], simp_all)
next
  case (consume p e es)
  then show ?case by (auto simp: public_inv_def Let_def)
next
  case (receiver_dropped p)
  then show ?case by (auto simp: public_inv_def Let_def INCOMING_CHANNEL_CAPACITY_def)
qed (erule public_same; simp)+

section \<open>The bound of the spool\<close>

definition bound_inv :: "pipe \<Rightarrow> bool" where
  "bound_inv p \<longleftrightarrow>
     (let s = pl_inner p in
        in_phase s \<noteq> Phase_Closed \<longrightarrow>
          (\<forall>i\<in>set (in_spool s). item_depth i = 1) \<and>
          in_event_depth s \<le> in_event_spool_capacity s + (if open_admission s then 0 else 1))"

lemma bound_closed: "in_phase (pl_inner p) = Phase_Closed \<Longrightarrow> bound_inv p"
  by (simp add: bound_inv_def)

lemma bound_less:
  assumes inv: "bound_inv p"
    and phase: "in_phase (pl_inner p) = Phase_Closed \<Longrightarrow> in_phase (pl_inner q) = Phase_Closed"
    and spool: "set (in_spool (pl_inner q)) \<subseteq> set (in_spool (pl_inner p))"
    and depth: "in_event_depth (pl_inner q) \<le> in_event_depth (pl_inner p)"
      "in_event_spool_capacity (pl_inner q) = in_event_spool_capacity (pl_inner p)"
    and admission: "open_admission (pl_inner q) \<Longrightarrow> open_admission (pl_inner p)"
  shows "bound_inv q"
proof (cases "in_phase (pl_inner q) = Phase_Closed")
  case False
  with assms show ?thesis unfolding bound_inv_def Let_def by (auto split: if_splits)
qed (rule bound_closed)

lemma bound_offered:
  assumes inv: "bound_inv p" and offered: "offered sent item (pl_inner p) (pl_inner q)" "item_depth item = 1"
  shows "bound_inv q"
proof (cases "in_phase (pl_inner q) = Phase_Closed")
  case False
  with overload_closed[OF offeredD(5)[OF offered(1)]] have open_phase: "in_phase (pl_inner p) \<noteq> Phase_Closed" by simp
  note fields = offeredD[OF offered(1)]
  show ?thesis
  proof (cases sent)
    case True
    with inv open_phase fields(1,3,6,8,10) offered(2) show ?thesis
      unfolding bound_inv_def Let_def by auto
  next
    case no: False
    have "open_admission (pl_inner q) \<Longrightarrow> open_admission (pl_inner p)"
      using fields(11) by (auto simp: open_admission_def)
    with no open_phase fields(1,3,6) show ?thesis by (intro bound_less[OF inv]) auto
  qed
qed (rule bound_closed)

lemma tightened_open: "tightened s t \<Longrightarrow> open_admission t \<Longrightarrow> open_admission s"
  by (auto simp: tightened_def open_admission_def)

lemma bound_tightened:
  assumes "bound_inv p" "tightened s (pl_inner q)" "s = (pl_inner p)\<lparr>in_tasks := ts\<rparr>"
  shows "bound_inv q"
  using assms(3) tightened_sel[OF assms(2)] tightened_open[OF assms(2)]
  by (intro bound_less[OF assms(1)]) (simp_all add: open_admission_def)

lemma bound_dispatch:
  assumes "event_dispatcher timed_out d discard_events c (pl_inner p) = Some (f, d', discard', c', t)"
    and inv: "bound_inv p" and q: "pl_inner q = t"
  shows "bound_inv q"
proof -
  have passed: "bound_inv (q\<lparr>pl_inner := u\<rparr>)"
    if "dispatch_direct_event timed_out discard_events e c (pl_inner p) = (f, discard', c', u)" "f \<noteq> Fate_Waiting" for e u
    using that
  proof (cases rule: dispatch_direct_cases)
    case delivered
    then show ?thesis by (intro bound_less[OF inv]) simp_all
  next
    case dropped
    with overload_closed[of "count_dropped 1 (pl_inner p)" u] show ?thesis
      by (intro bound_less[OF inv]) (auto simp: degraded_def frame_spool_def open_admission_def)
  qed
  from assms(1) show ?thesis
  proof (cases rule: dispatcher_cases)
    case (direct e es m)
    have "bound_inv (q\<lparr>pl_inner := t\<rparr>)" by (rule passed) (use direct in auto)
    then show ?thesis using q by (simp add: bound_inv_def)
  next
    case (ticket n e u)
    have "bound_inv (q\<lparr>pl_inner := u\<rparr>)" by (rule passed) (use ticket in auto)
    then show ?thesis using q ticket(6) by - (erule bound_less, simp_all add: open_admission_def)
  qed (rule bound_less[OF inv]; use q in \<open>auto simp: open_admission_def\<close>)+
qed

lemma bound_inv_step:
  assumes "pipe_step p q" "bound_inv p" "last_inv p" "term_inv p"
  shows "bound_inv q"
  using assms
proof (induction rule: pipe_step.induct)
  case (emit e p sent t)
  with emit_event_offered[OF emit(1)] show ?case
    by - (rule bound_offered[where p = p and item = "Spool_Direct e"], simp_all)
next
  case (reserve p n t)
  with reserve_deferred_offered[OF reserve(1)] show ?case
    by - (rule bound_offered[where p = p and item = "Spool_Event (in_next_oneshot (pl_inner p))"], simp_all)
next
  case (reserve_err p r t)
  with reserve_deferred_offered[OF reserve_err(1)] show ?case
    by - (rule bound_offered[where p = p and item = "Spool_Event (in_next_oneshot (pl_inner p))"], simp_all)
next
  case (publish n p e ok t)
  then show ?case
    by - (rule bound_less[where p = p], auto simp: Cmpp_Events.publish_def Let_def open_admission_def split: if_splits)
next
  case (drain p)
  with tightened_begin_drain[of "pl_inner p"] show ?case
    by - (rule bound_tightened[where p = p and ts = "in_tasks (pl_inner p)"], simp_all)
next
  case (seal timed_out p ended t)
  with tightened_drain_tickets[OF seal(1)] show ?case
    by - (rule bound_tightened[where p = p and ts = "in_tasks (pl_inner p)"], simp_all)
next
  case (closing drain_submits p started t)
  from begin_closing_eq[OF closing(1)] closing show ?case
    by - (rule bound_less[where p = p], auto simp: same_pipe_def open_admission_def)
next
  case (overload_begin p xs ys q)
  let ?q = "q\<lparr>pl_inner := begin_event_drain (pl_inner q)\<rparr>"
  have "bound_inv ?q"
    by (rule bound_tightened[where p = p and ts = "xs @ ys" and s = "pl_inner q"])
      (use overload_begin tightened_begin_drain in \<open>simp_all add: without_task_def\<close>)
  then show ?case by (rule bound_less) (simp_all add: open_admission_def)
next
  case (overload_drain p xs ys q timed_out ended t)
  let ?q = "q\<lparr>pl_inner := t\<rparr>"
  have "bound_inv ?q"
    by (rule bound_tightened[where p = p and ts = "xs @ ys" and s = "pl_inner q"])
      (use overload_drain tightened_drain_tickets[OF overload_drain(3)] in \<open>simp_all add: without_task_def\<close>)
  then show ?case
    by (cases ended) (simp add: bound_closed, rule bound_less[where p = ?q], simp_all add: open_admission_def)
next
  case (cleanup_start p xs fallback ys q order task t)
  with chunk_step_start[OF cleanup_start(4)] last_cleanup_closed[OF cleanup_start(6,1)] show ?case
    by - (rule bound_closed, simp add: chunk_step_def)
next
  case (cleanup_publish p xs fallback c rest ys q give_up task t sent given_up)
  show ?case
    by (rule publish_chunk_cases[OF cleanup_publish(3)]; rule bound_closed;
        use cleanup_publish(2) last_cleanup_closed[OF cleanup_publish(7,1)] in \<open>simp add: chunk_step_def\<close>)
next
  case (cleanup_end p xs ys q order)
  show ?case
    by (rule cleanup_finish_cases[of "pl_inner q" order]; rule bound_closed;
        use cleanup_end(2) last_cleanup_closed[OF cleanup_end(5,1)] in \<open>simp add: same_pipeD spool_ended_def\<close>)
next
  case (fallback_cancelled p xs c rest ys q)
  then show ?case by - (rule bound_less[where p = p], simp_all add: open_admission_def)
next
  case (retry p xs item ys q task t)
  have "retries (pl_inner p) \<noteq> []" using retry(1) by (simp add: retries_def)
  then have "in_phase (pl_inner p) = Phase_Closed"
    using retry(6) by (auto simp: term_inv_def Let_def split: if_splits)
  then show ?case
    by - (rule terminal_retry_cases[OF retry(3)]; rule bound_closed; use retry(2) in simp)
next
  case (dispatch timed_out p f d discard_events c t appended)
  then show ?case by - (rule bound_dispatch[where p = p, OF dispatch(1)], simp_all)
next
  case (environment p t)
  then show ?case by - (rule bound_less[where p = p], simp_all add: besideD open_admission_def)
next
  case (discount p)
  then show ?case by - (rule bound_less[where p = p], simp_all add: open_admission_def)
next
  case (drop_ticket n p)
  then show ?case by - (rule bound_less[where p = p], auto simp: ticket_drop_def Let_def open_admission_def split: if_splits)
next
  case (consume p e es)
  then show ?case by (simp add: bound_inv_def)
next
  case (receiver_dropped p)
  then show ?case by (simp add: bound_inv_def)
qed (rule bound_closed, simp)+

section \<open>Reachable states\<close>

definition pipe_inv :: "pipe \<Rightarrow> bool" where
  "pipe_inv p \<longleftrightarrow> queue_inv p \<and> count_inv p \<and> ticket_inv p \<and> term_inv p \<and> last_inv p \<and> out_inv p \<and>
     public_inv p \<and> bound_inv p"

lemma pipe_new_inv: "pipe_inv (pipe_new (inner_new params) INCOMING_CHANNEL_CAPACITY)"
  by (simp add: pipe_inv_def queue_inv_def count_inv_def ticket_inv_def term_inv_def last_inv_def out_inv_def
      public_inv_def bound_inv_def pipe_new_def inner_new_def Let_def terminals_def retries_def cleanups_def
      INCOMING_CHANNEL_CAPACITY_def)

lemma pipe_step_inv: "pipe_step p q \<Longrightarrow> pipe_inv p \<Longrightarrow> pipe_inv q"
  unfolding pipe_inv_def
  by (auto intro: queue_inv_step count_inv_step ticket_inv_step term_inv_step last_inv_step out_inv_step
      public_inv_step bound_inv_step term_retries)

lemma pipe_reachable_inv: "pipe_reachable params p \<Longrightarrow> pipe_inv p"
  by (induction rule: pipe_reachable.induct) (auto intro: pipe_new_inv pipe_step_inv)

section \<open>Executing a schedule\<close>

text \<open>The steps a schedule needs, as functions; each of them is a step of the pipeline.\<close>

definition do_emit :: "event \<Rightarrow> pipe \<Rightarrow> pipe" where
  "do_emit e p =
     (case emit_event e (pl_inner p) of
        (sent, t) \<Rightarrow>
          p\<lparr>pl_inner := t, pl_log := pl_log p @ (if sent then [Slot_Event e] else []),
            pl_refused := pl_refused p + (if sent then 0 else 1)\<rparr>)"

definition do_dispatch :: "bool \<Rightarrow> pipe \<Rightarrow> pipe" where
  "do_dispatch timed_out p =
     (case event_dispatcher timed_out (pl_dispatcher p) (pl_discard p) (pl_channel p) (pl_inner p) of
        None \<Rightarrow> p
      | Some (f, d, discard_events, c, t) \<Rightarrow>
          p\<lparr>pl_inner := t, pl_dispatcher := d, pl_discard := discard_events, pl_channel := c,
            pl_pos := pl_pos p + (if f = Fate_Waiting then 0 else 1),
            pl_out := pl_out p @ (if f = Fate_Delivered then [(pl_pos p, last (ec_events c))] else []),
            pl_public := pl_public p @ drop (length (ec_events (pl_channel p))) (ec_events c)\<rparr>)"

lemma reachable_emit: "pipe_reachable params p \<Longrightarrow> pipe_reachable params (do_emit e p)"
  unfolding do_emit_def by (cases "emit_event e (pl_inner p)") (simp only: prod.case pipe_reachable.step[OF _ pipe_step.emit])

lemma pipe_run_reachable: "pipe_step\<^sup>*\<^sup>* p q \<Longrightarrow> pipe_reachable params p \<Longrightarrow> pipe_reachable params q"
  by (induction rule: rtranclp_induct) (auto intro: pipe_reachable.step)

lemma run_dispatch: "pipe_step\<^sup>*\<^sup>* p (do_dispatch timed_out p)"
  unfolding do_dispatch_def
  by (cases "event_dispatcher timed_out (pl_dispatcher p) (pl_discard p) (pl_channel p) (pl_inner p)")
    (auto simp only: option.case prod.case intro: r_into_rtranclp pipe_step.dispatch)

lemmas reachable_dispatch = pipe_run_reachable[OF run_dispatch]

lemma reachable_finish: "pipe_reachable params p \<Longrightarrow> pipe_reachable params (run_finish reason p)"
  by (auto intro: pipe_reachable.step pipe_step.finish)

text \<open>The first task, when it is a clean-up.\<close>

definition do_cleanup :: "u32 list \<Rightarrow> pipe \<Rightarrow> pipe" where
  "do_cleanup order p =
     (case in_tasks (pl_inner p) of
        Cleanup fallback # ys \<Rightarrow>
          (let q = without_task [] ys p in
             case fail_all_pending fallback order (pl_inner q) of
               (task, t) \<Rightarrow> q\<lparr>pl_inner := with_task task t\<rparr>)
      | Cleanup_Finish # ys \<Rightarrow>
          (let q = without_task [] ys p in q\<lparr>pl_inner := cleanup_finish order (pl_inner q)\<rparr>)
      | _ \<Rightarrow> p)"

lemma run_cleanup:
  assumes p: "enumerates order (in_pending_submits (pl_inner p))" "enumerates order (in_heartbeat_pending (pl_inner p))"
  shows "pipe_step\<^sup>*\<^sup>* p (do_cleanup order p)"
proof (cases "in_tasks (pl_inner p)")
  case (Cons k ys)
  let ?q = "without_task [] ys p"
  have order: "enumerates order (in_pending_submits (pl_inner ?q))" "enumerates order (in_heartbeat_pending (pl_inner ?q))"
    using p by (simp_all add: without_task_def)
  show ?thesis
  proof (cases k)
    case (Cleanup fallback)
    obtain task t where run: "fail_all_pending fallback order (pl_inner ?q) = (task, t)"
      by (cases "fail_all_pending fallback order (pl_inner ?q)")
    have "pipe_step p (?q\<lparr>pl_inner := with_task task t\<rparr>)"
      using Cons Cleanup by (intro pipe_step.cleanup_start[OF _ refl order(1) run]) simp
    with Cons Cleanup run show ?thesis
      by (simp add: do_cleanup_def Let_def r_into_rtranclp)
  next
    case Cleanup_Finish
    have "pipe_step p (?q\<lparr>pl_inner := cleanup_finish order (pl_inner ?q)\<rparr>)"
      using Cons Cleanup_Finish by (intro pipe_step.cleanup_end[OF _ refl order(2)]) simp
    with Cons Cleanup_Finish show ?thesis
      by (simp add: do_cleanup_def Let_def r_into_rtranclp)
  qed (use Cons in \<open>simp_all add: do_cleanup_def\<close>)
qed (simp add: do_cleanup_def)

text \<open>What these steps do in the states a schedule passes.\<close>

lemma do_emit_open:
  "in_event_admission (pl_inner p) = Admission_Open \<Longrightarrow> room (pl_inner p) \<Longrightarrow>
     in_event_depth (pl_inner p) < in_event_spool_capacity (pl_inner p) \<Longrightarrow>
     do_emit e p = p\<lparr>pl_inner := accept (Spool_Direct e) (pl_inner p), pl_log := pl_log p @ [Slot_Event e]\<rparr>"
  by (simp add: do_emit_def emit_event_def spool_offer_eq)

lemma do_dispatch_take:
  "pl_dispatcher p = D_Idle \<Longrightarrow> in_spool (pl_inner p) = Spool_Direct e # rest \<Longrightarrow>
     do_dispatch timed_out p =
       p\<lparr>pl_inner := (pl_inner p)\<lparr>in_spool := rest\<rparr>, pl_dispatcher := D_Events [e] 1\<rparr>"
  by (simp add: do_dispatch_def event_dispatcher_def)

lemma do_dispatch_event:
  "pl_dispatcher p = D_Events (e # es) m \<Longrightarrow> \<not> pl_discard p \<Longrightarrow> \<not> ec_closed (pl_channel p) \<Longrightarrow>
     length (ec_events (pl_channel p)) + 2 \<le> ec_capacity (pl_channel p) \<Longrightarrow>
     do_dispatch timed_out p =
       p\<lparr>pl_dispatcher := D_Events es m,
         pl_channel := (pl_channel p)\<lparr>ec_events := ec_events (pl_channel p) @ [e]\<rparr>,
         pl_pos := pl_pos p + 1, pl_out := pl_out p @ [(pl_pos p, e)], pl_public := pl_public p @ [e]\<rparr>"
  by (simp add: do_dispatch_def event_dispatcher_def dispatch_direct_event_def dispatch_event_with_budget_def)

lemma do_dispatch_done:
  "pl_dispatcher p = D_Events [] m \<Longrightarrow>
     do_dispatch timed_out p = p\<lparr>pl_inner := depth_permit_drop m (pl_inner p), pl_dispatcher := D_Idle\<rparr>"
  by (simp add: do_dispatch_def event_dispatcher_def)

lemma inner_new_sel [simp]:
  "in_spool (inner_new params) = []" "\<not> in_spool_closed (inner_new params)"
  "in_event_admission (inner_new params) = Admission_Open" "in_event_depth (inner_new params) = 0"
  "in_phase (inner_new params) = Phase_Open" "in_tasks (inner_new params) = []"
  "in_pending_submits (inner_new params) = Map.empty" "in_heartbeat_pending (inner_new params) = Map.empty"
  "in_pending_terminate (inner_new params) = None" "\<not> in_peer_terminate_seen (inner_new params)"
  "\<not> in_event_overflowed (inner_new params)" "in_events_dropped (inner_new params) = 0"
  by (simp_all add: inner_new_def Let_def)

lemma default_capacity [simp]: "in_event_spool_capacity (inner_new params_default) = 256"
  by (simp add: inner_new_def params_default_def div_ceil_def SUBMIT_DROPPED_BATCH_SIZE_def)

definition idle_pipe :: pipe where
  "idle_pipe = pipe_new (inner_new params_default) INCOMING_CHANNEL_CAPACITY"

definition busy_pipe :: pipe where
  "busy_pipe = do_dispatch False (do_dispatch False (do_emit (SubmitDropped 7) idle_pipe))"

lemma idle_reachable: "pipe_reachable params_default idle_pipe"
  unfolding idle_pipe_def by (rule pipe_reachable.start)

lemma busy_reachable: "pipe_reachable params_default busy_pipe"
  unfolding busy_pipe_def by (intro reachable_dispatch reachable_emit idle_reachable)

lemma busy_eq:
  "busy_pipe =
     idle_pipe\<lparr>pl_inner := (accept (Spool_Direct (SubmitDropped 7)) (inner_new params_default))\<lparr>in_spool := []\<rparr>,
       pl_dispatcher := D_Events [] 1, pl_log := [Slot_Event (SubmitDropped 7)], pl_pos := 1,
       pl_channel := \<lparr>ec_events = [SubmitDropped 7], ec_closed = False, ec_capacity = 1000\<rparr>,
       pl_out := [(0, SubmitDropped 7)], pl_public := [SubmitDropped 7]\<rparr>"
  by (simp add: busy_pipe_def idle_pipe_def pipe_new_def do_emit_open do_dispatch_take do_dispatch_event
      room_def INCOMING_CHANNEL_CAPACITY_def)

lemma do_cleanup_start:
  "in_tasks (pl_inner p) = [Cleanup fallback] \<Longrightarrow>
     do_cleanup [] p = p\<lparr>pl_inner := (pl_inner p)\<lparr>in_tasks := [Cleanup_Finish]\<rparr>\<rparr>"
  by (simp add: do_cleanup_def fail_all_pending_def drain_pending_def next_chunk_def without_task_def with_task_def)

lemma do_cleanup_end:
  "in_tasks (pl_inner p) = [Cleanup_Finish] \<Longrightarrow> in_pending_terminate (pl_inner p) = None \<Longrightarrow>
     in_event_admission (pl_inner p) \<noteq> Admission_Terminal \<Longrightarrow> room (pl_inner p) \<Longrightarrow>
     do_cleanup [] p =
       p\<lparr>pl_inner := (accept (Spool_Terminal (in_terminal_reason (pl_inner p)))
           ((pl_inner p)\<lparr>in_tasks := [], in_event_admission := Admission_Terminal, in_terminal_reason := None\<rparr>))
           \<lparr>in_cleanup_complete := True\<rparr>\<rparr>"
  by (simp add: do_cleanup_def cleanup_finish_def close_event_spool_def take_pending_terminate_def
      without_task_def spool_try_send_eq room_def accept_def raise_peak_def depth_permit_new_n_def)

lemma do_dispatch_exit:
  "pl_dispatcher p = D_Idle \<Longrightarrow> in_spool (pl_inner p) = [Spool_Terminal (Some r)] \<Longrightarrow>
     \<not> ec_closed (pl_channel p) \<Longrightarrow> length (ec_events (pl_channel p)) < ec_capacity (pl_channel p) \<Longrightarrow>
     do_dispatch timed_out p =
       p\<lparr>pl_inner := depth_permit_drop 1 (spool_receiver_drop ((pl_inner p)\<lparr>in_spool := []\<rparr>)),
         pl_dispatcher := D_Exited,
         pl_channel := (pl_channel p)\<lparr>ec_events := ec_events (pl_channel p) @ [Disconnected r]\<rparr>,
         pl_public := pl_public p @ [Disconnected r]\<rparr>"
  by (simp add: do_dispatch_def event_dispatcher_def channel_try_send_def)

definition closed_pipe :: pipe where
  "closed_pipe = run_finish (Some Error_Closed) (do_dispatch False busy_pipe)"

lemma closed_facts:
  "in_tasks (pl_inner closed_pipe) = [Cleanup False]" "in_phase (pl_inner closed_pipe) = Phase_Closed"
  "in_spool (pl_inner closed_pipe) = []" "\<not> in_spool_closed (pl_inner closed_pipe)"
  "in_event_admission (pl_inner closed_pipe) = Admission_Open" "pl_dispatcher closed_pipe = D_Idle"
  "in_terminal_reason (pl_inner closed_pipe) = Some Error_Closed" "room (pl_inner closed_pipe)"
  "in_pending_terminate (pl_inner closed_pipe) = None" "in_pending_submits (pl_inner closed_pipe) = Map.empty"
  "in_heartbeat_pending (pl_inner closed_pipe) = Map.empty" "\<not> in_cleanup_complete (pl_inner closed_pipe)"
  "pl_channel closed_pipe = \<lparr>ec_events = [SubmitDropped 7], ec_closed = False, ec_capacity = 1000\<rparr>"
  "pl_public closed_pipe = [SubmitDropped 7]" "pl_log closed_pipe = [Slot_Event (SubmitDropped 7)]"
  "pl_out closed_pipe = [(0, SubmitDropped 7)]" "pl_pos closed_pipe = 1" "\<not> pl_fallback closed_pipe"
  "pl_reason closed_pipe = Some Error_Closed" "pl_refused closed_pipe = 0"
  by (simp_all add: closed_pipe_def busy_eq do_dispatch_done idle_pipe_def pipe_new_def finish_eq run_finish_def
      Let_def closing_reason_def room_def accept_def raise_peak_def depth_permit_drop_def inner_new_def)

lemma closed_reachable: "pipe_reachable params_default closed_pipe"
  unfolding closed_pipe_def by (intro reachable_finish reachable_dispatch busy_reachable)

definition ended_pipe :: pipe where
  "ended_pipe = do_dispatch False (do_cleanup [] (do_cleanup [] closed_pipe))"

lemma enumerates_none [simp]: "enumerates [] Map.empty"
  by (simp add: enumerates_def)

lemma ended_run: "pipe_step\<^sup>*\<^sup>* closed_pipe ended_pipe"
proof -
  have "pipe_step\<^sup>*\<^sup>* closed_pipe (do_cleanup [] closed_pipe)"
    "pipe_step\<^sup>*\<^sup>* (do_cleanup [] closed_pipe) (do_cleanup [] (do_cleanup [] closed_pipe))"
    by (rule run_cleanup; simp add: closed_facts do_cleanup_start[of _ False])+
  then show ?thesis unfolding ended_pipe_def using run_dispatch by (meson rtranclp_trans)
qed

lemma ended_reachable: "pipe_reachable params_default ended_pipe"
  by (rule pipe_run_reachable[OF ended_run closed_reachable])

lemma ended_facts:
  "pl_dispatcher ended_pipe = D_Exited" "pl_reason ended_pipe = Some Error_Closed" "\<not> pl_fallback ended_pipe"
  "\<not> ec_closed (pl_channel ended_pipe)" "pl_out ended_pipe = [(0, SubmitDropped 7)]"
  "pl_log ended_pipe = [Slot_Event (SubmitDropped 7)]" "pl_refused ended_pipe = 0"
  "pl_public ended_pipe = [SubmitDropped 7, Disconnected Error_Closed]"
proof -
  let ?p = "do_cleanup [] (do_cleanup [] closed_pipe)"
  have room: "room ((pl_inner closed_pipe)\<lparr>in_tasks := ts\<rparr>)" for ts
    using closed_facts(8) by (simp add: room_def)
  have p: "?p = closed_pipe\<lparr>pl_inner := (accept (Spool_Terminal (Some Error_Closed))
           ((pl_inner closed_pipe)\<lparr>in_tasks := [], in_event_admission := Admission_Terminal, in_terminal_reason := None\<rparr>))
           \<lparr>in_cleanup_complete := True\<rparr>\<rparr>"
    by (simp add: do_cleanup_start[of _ False] do_cleanup_end closed_facts room)
  then show "pl_dispatcher ended_pipe = D_Exited" "pl_reason ended_pipe = Some Error_Closed" "\<not> pl_fallback ended_pipe"
    "\<not> ec_closed (pl_channel ended_pipe)" "pl_out ended_pipe = [(0, SubmitDropped 7)]"
    "pl_log ended_pipe = [Slot_Event (SubmitDropped 7)]" "pl_refused ended_pipe = 0"
    "pl_public ended_pipe = [SubmitDropped 7, Disconnected Error_Closed]"
    unfolding ended_pipe_def p by (simp_all add: do_dispatch_exit closed_facts)
qed

section \<open>Properties\<close>

lemma offered_accepts: "offered sent item s t \<Longrightarrow> open_admission s \<Longrightarrow> room s \<Longrightarrow> sent"
  unfolding offered_def room_def by blast

lemma sum_depth_ones: "\<forall>i\<in>set xs. item_depth i = 1 \<Longrightarrow> sum_list (map item_depth xs) = length xs"
  by (induction xs) auto

lemma pipe_invD:
  assumes "pipe_reachable params p"
  shows "queue_inv p" "count_inv p" "ticket_inv p" "term_inv p" "last_inv p" "out_inv p" "public_inv p" "bound_inv p"
  using pipe_reachable_inv[OF assms] by (simp_all add: pipe_inv_def)

text \<open>
  C18: No event of the pipeline is lost without being counted. In every reachable state the counter
  \<open>events_dropped\<close> is, modulo \<open>2^64\<close>, the number of the events that were refused plus those the
  dispatcher took and did not deliver; the accepted events the dispatcher has not passed are, in
  order, what it holds and what is in the spool; and when it has exited it has passed all of them,
  unless the fallback clean-up of \<open>reap_background_tasks\<close> has run.
\<close>

theorem events_accounted:
  assumes "pipe_reachable params p"
  shows "in_events_dropped (pl_inner p) = of_nat (pl_refused p + (pl_pos p - length (pl_out p))) \<and>
    length (pl_out p) \<le> pl_pos p \<and> pl_pos p \<le> length (pl_log p) \<and>
    (if pl_dispatcher p = D_Exited then pl_fallback p \<or> pl_pos p = length (pl_log p)
     else drop (pl_pos p) (pl_log p) =
            hand_slots (pl_dispatcher p) @ concat (map item_slots (in_spool (pl_inner p))))"
  using pipe_invD[OF assms] by (auto simp: count_inv_def queue_inv_def last_inv_def Let_def)

theorem events_accounted_witness:
  "pl_dispatcher ended_pipe = D_Exited \<and> pl_pos ended_pipe = 1 \<and> in_events_dropped (pl_inner ended_pipe) = 0"
  using events_accounted[OF ended_reachable] by (simp add: ended_facts)

text \<open>
  C19: The consumer gets the events in the order in which they were accepted, each at most once: the
  positions of the delivered events in the log of accepted events increase strictly, and each
  delivered event is the one accepted at its position, or the one published through its ticket.
  Until the dispatcher exits, the public channel has received these events and nothing else.
\<close>

theorem delivery_in_order:
  assumes "pipe_reachable params p"
  shows "sorted_wrt (<) (map fst (pl_out p)) \<and>
    (\<forall>(i, e)\<in>set (pl_out p).
       i < length (pl_log p) \<and> slot_event (pl_published p) (pl_log p ! i) = Some e) \<and>
    (if pl_dispatcher p = D_Exited then take (length (pl_out p)) (pl_public p) = map snd (pl_out p)
     else pl_public p = map snd (pl_out p))"
  using pipe_invD(1,6,7)[OF assms]
  by (fastforce simp: out_inv_def public_inv_def queue_inv_def Let_def)

theorem delivery_in_order_witness:
  "pl_out busy_pipe = [(0, SubmitDropped 7)] \<and> pl_public busy_pipe = [SubmitDropped 7]"
  using delivery_in_order[OF busy_reachable] by (simp add: busy_eq)

text \<open>
  C33: Until the connection is closed the event spool cannot reject an event that the admission lets
  through: while the admission is open or draining, \<open>emit_event\<close> accepts every event and
  \<open>reserve_deferred_event\<close> every reservation, also the one that overflows the backlog, for which an
  emergency slot is kept. The backlog never exceeds its capacity by more than that one event.
\<close>

theorem open_admission_accepts:
  assumes "pipe_reachable params p" "in_phase (pl_inner p) \<noteq> Phase_Closed" "open_admission (pl_inner p)"
  shows "fst (emit_event e (pl_inner p)) \<and> (\<exists>n. fst (reserve_deferred_event (pl_inner p)) = Ok n) \<and>
    length (in_spool (pl_inner p)) \<le> in_event_depth (pl_inner p) \<and>
    in_event_depth (pl_inner p) \<le> in_event_spool_capacity (pl_inner p)"
proof -
  let ?s = "pl_inner p"
  note inv = pipe_invD[OF assms(1)]
  have items: "\<forall>i\<in>set (in_spool ?s). item_depth i = 1" and depth: "in_event_depth ?s \<le> in_event_spool_capacity ?s"
    using inv(8) assms(2,3) by (auto simp: bound_inv_def Let_def)
  have "sum_list (map item_depth (in_spool ?s)) = length (in_spool ?s)"
    by (rule sum_depth_ones[OF items])
  then have spool: "length (in_spool ?s) \<le> in_event_depth ?s"
    using inv(1) by (simp add: queue_inv_def Let_def)
  have "pl_dispatcher p \<noteq> D_Exited" using exited_closed[OF inv(4)] assms(2) by blast
  then have room: "room ?s" using queue_closed[OF inv(1)] spool depth by (simp add: room_def)
  have "fst (emit_event e ?s)"
    by (rule offered_accepts[OF emit_event_offered[OF surjective_pairing] assms(3) room])
  moreover have "\<exists>n. fst (reserve_deferred_event ?s) = Ok n"
    using offered_accepts[OF reserve_deferred_offered[OF surjective_pairing] assms(3) room]
    by (cases "fst (reserve_deferred_event ?s)") simp_all
  ultimately show ?thesis using spool depth by simp
qed

theorem open_admission_accepts_witness:
  "fst (emit_event (SubmitDropped 9) (pl_inner idle_pipe)) \<and> in_event_spool_capacity (pl_inner idle_pipe) = 256"
  using open_admission_accepts[OF idle_reachable] by (simp add: idle_pipe_def pipe_new_def open_admission_def)

text \<open>
  The backlog counter is exact. The event depth is the number of the events in the spool, of those
  the dispatcher and the clean-up hold, and of the terminal item; the reported peak is never below
  it; and before the connection is closed it exceeds the configured capacity by one event at most.
\<close>

lemma event_depth_exact:
  assumes "pipe_reachable params p"
  shows "in_event_depth (pl_inner p) =
      hand_depth (pl_dispatcher p) + sum_list (map item_depth (in_spool (pl_inner p))) +
      sum_list (map task_depth (in_tasks (pl_inner p))) \<and>
    in_event_depth (pl_inner p) \<le> in_event_depth_peak (pl_inner p) \<and>
    (if in_phase (pl_inner p) = Phase_Closed then True
     else in_event_depth (pl_inner p) \<le> in_event_spool_capacity (pl_inner p) + 1)"
  using pipe_invD(1,8)[OF assms] by (auto simp: queue_inv_def bound_inv_def Let_def split: if_splits)

text \<open>The admission in the order in which it tightens.\<close>

fun admission_rank :: "event_admission \<Rightarrow> nat" where
  "admission_rank Admission_Open = 0"
| "admission_rank Admission_Draining = 1"
| "admission_rank Admission_Overflowed = 2"
| "admission_rank Admission_Sealed = 3"
| "admission_rank Admission_Terminal = 4"

definition advances :: "pipe \<Rightarrow> pipe \<Rightarrow> bool" where
  "advances p q \<longleftrightarrow>
     in_phase (pl_inner p) \<le> in_phase (pl_inner q) \<and>
     admission_rank (in_event_admission (pl_inner p)) \<le> admission_rank (in_event_admission (pl_inner q))"

lemma advancesI:
  "in_phase (pl_inner q) = in_phase (pl_inner p) \<Longrightarrow> in_event_admission (pl_inner q) = in_event_admission (pl_inner p) \<Longrightarrow>
     advances p q"
  by (simp add: advances_def)

lemma overload_phase: "overload s t \<Longrightarrow> in_phase s \<le> in_phase t"
  by (auto simp: overload_def)

lemma offered_advances:
  assumes "offered sent item (pl_inner p) (pl_inner q)"
  shows "advances p q"
  using offeredD(11)[OF assms(1)] overload_phase[OF offeredD(5)[OF assms(1)]]
  by (auto simp: advances_def open_admission_def)

lemma tightened_rank: "tightened s t \<Longrightarrow> admission_rank (in_event_admission s) \<le> admission_rank (in_event_admission t)"
  by (cases "in_event_admission s") (auto simp: tightened_def)

lemma direct_advances:
  assumes "dispatch_direct_event timed_out discard_events e c s = (f, discard', c', t)" "f \<noteq> Fate_Waiting"
  shows "in_phase s \<le> in_phase t \<and> admission_rank (in_event_admission s) \<le> admission_rank (in_event_admission t)"
  using assms
  by (cases rule: dispatch_direct_cases) (auto simp: degraded_def open_admission_def dest: overload_phase)

lemma step_advances:
  assumes "pipe_step p q"
  shows "advances p q"
  using assms
proof (induction rule: pipe_step.induct)
  case (emit e p sent t)
  with emit_event_offered[OF emit(1)] show ?case
    by - (rule offered_advances[where item = "Spool_Direct e"], simp_all)
next
  case (reserve p n t)
  with reserve_deferred_offered[OF reserve(1)] show ?case
    by - (rule offered_advances[where item = "Spool_Event (in_next_oneshot (pl_inner p))"], simp_all)
next
  case (reserve_err p r t)
  with reserve_deferred_offered[OF reserve_err(1)] show ?case
    by - (rule offered_advances[where item = "Spool_Event (in_next_oneshot (pl_inner p))"], simp_all)
next
  case (publish n p e ok t)
  then show ?case by (intro advancesI) (auto simp: Cmpp_Events.publish_def Let_def split: if_splits)
next
  case (drop_ticket n p)
  then show ?case by (intro advancesI) (auto simp: ticket_drop_def Let_def)
next
  case (drain p)
  with tightened_begin_drain[of "pl_inner p"] show ?case
    by (auto simp: advances_def tightened_sel tightened_rank)
next
  case (seal timed_out p ended t)
  with tightened_drain_tickets[OF seal(1)] show ?case
    by (auto simp: advances_def tightened_sel tightened_rank)
next
  case (closing drain_submits p started t)
  from begin_closing_eq[OF closing(1)] show ?case by (auto simp: advances_def same_pipe_def)
next
  case (overload_begin p xs ys q)
  with tightened_rank[OF tightened_begin_drain[of "pl_inner q"]] tightened_sel[OF tightened_begin_drain[of "pl_inner q"]]
  show ?case by (simp add: advances_def)
next
  case (overload_drain p xs ys q timed_out ended t)
  note drain = tightened_drain_tickets[OF overload_drain(3)]
  from overload_drain tightened_rank[OF drain] tightened_sel[OF drain] show ?case
    by (simp add: advances_def)
next
  case (cleanup_start p xs fallback ys q order task t)
  with chunk_step_start[OF cleanup_start(4)] show ?case by (intro advancesI) (simp_all add: chunk_step_def)
next
  case (cleanup_publish p xs fallback c rest ys q give_up task t sent given_up)
  show ?case
    by (rule publish_chunk_cases[OF cleanup_publish(3)]; rule advancesI;
        use cleanup_publish(2) in \<open>simp add: chunk_step_def\<close>)
next
  case (cleanup_end p xs ys q order)
  show ?case
    by (rule cleanup_finish_cases[of "pl_inner q" order];
        use cleanup_end(2) in \<open>cases "in_event_admission (pl_inner p)"; simp add: advances_def same_pipeD spool_ended_def\<close>)
next
  case (retry p xs item ys q task t)
  show ?case
    by (rule terminal_retry_cases[OF retry(3)]; rule advancesI; use retry(2) in simp)
next
  case (dispatch timed_out p f d discard_events c t appended)
  from dispatch(1) have "in_phase (pl_inner p) \<le> in_phase t \<and>
      admission_rank (in_event_admission (pl_inner p)) \<le> admission_rank (in_event_admission t)"
  proof (cases rule: dispatcher_cases)
    case (direct e es m)
    from direct_advances[OF direct(4,3)] show ?thesis .
  next
    case (ticket n e u)
    from direct_advances[OF ticket(5,4)] ticket(6) show ?thesis by simp
  qed auto
  then show ?case by (simp add: advances_def)
next
  case (environment p t)
  then show ?case by (intro advancesI) (simp_all add: besideD)
qed (simp_all add: advances_def)

lemma phase_closed_le: "Phase_Closed \<le> ph \<longleftrightarrow> ph = Phase_Closed"
  by (cases ph) (simp_all add: less_eq_connection_phase_def word_le_nat_alt)

lemma advances_trans: "advances p q \<Longrightarrow> advances q r \<Longrightarrow> advances p r"
  unfolding advances_def by (metis order_trans)

lemma run_advances: "pipe_step\<^sup>*\<^sup>* p q \<Longrightarrow> advances p q"
  by (induction rule: rtranclp_induct) (auto intro: advancesI advances_trans step_advances)

text \<open>The reason recorded by the closing \<open>finish\<close> stays, as long as the state has it and afterwards.\<close>

lemma step_reason:
  assumes "pipe_step p q" "term_inv p" "in_phase (pl_inner p) = Phase_Closed"
  shows "pl_reason q = pl_reason p"
  using assms
proof (induction rule: pipe_step.induct)
  case (finish p reason)
  then show ?case by (simp add: finish_eq term_inv_def Let_def)
next
  case (overload_drain p xs ys q timed_out ended t)
  note drain = tightened_drain_tickets[OF overload_drain(3)]
  show ?case
    using overload_drain(2,4,5) tightened_sel[OF drain] tightened_admission[OF drain]
    by (simp add: finish_eq term_inv_def Let_def)
qed simp_all

lemma run_reason:
  assumes "pipe_step\<^sup>*\<^sup>* p q" "pipe_reachable params p" "in_phase (pl_inner p) = Phase_Closed"
  shows "pl_reason q = pl_reason p"
  using assms
proof (induction rule: rtranclp_induct)
  case (step q r)
  have "in_phase (pl_inner q) = Phase_Closed"
    using run_advances[OF step(1)] step(5) by (simp add: advances_def phase_closed_le)
  then show ?case
    using step_reason[OF step(2) pipe_invD(4)[OF pipe_run_reachable[OF step(1,4)]]] step(3)[OF step(4,5)] by simp
qed simp

text \<open>The reasons that the state holds for the end of the stream.\<close>

definition end_reasons :: "inner \<Rightarrow> error option set" where
  "end_reasons s =
     (if in_event_admission s = Admission_Terminal then {} else {in_terminal_reason s}) \<union>
     {r. Spool_Terminal r \<in> set (in_spool s)} \<union> {r. Terminal_Retry (Spool_Terminal r) \<in> set (in_tasks s)}"

lemma term_end_reasons:
  assumes "term_inv p" "in_phase (pl_inner p) = Phase_Closed"
  shows "end_reasons (pl_inner p) \<subseteq> {pl_reason p}"
  using assms by (auto simp: end_reasons_def term_inv_def terminals_def retries_def Let_def)

text \<open>
  C20: A closed connection ends the event stream with one terminal event. From any state after the closing
  \<open>finish\<close> on, with the reason it has recorded: once the admission is terminal there is exactly one
  terminal item, in the spool, in its retry or consumed by the dispatcher, before that there is none, and
  it carries this reason. When the dispatcher exits and the receiver is alive, \<open>Disconnected\<close> with this
  reason is the last event of the stream, whatever the consumer has left unread: its slot of the public
  channel is kept free.
\<close>

theorem terminal_event_last:
  assumes "pipe_reachable params p" "in_phase (pl_inner p) = Phase_Closed"
    and "in_event_admission (pl_inner p) \<noteq> Admission_Terminal" "pipe_step\<^sup>*\<^sup>* p q"
  shows "length (terminals (pl_inner q)) + length (retries (pl_inner q)) + (if pl_dispatcher q = D_Exited then 1 else 0) =
      (if in_event_admission (pl_inner q) = Admission_Terminal then 1 else (0 :: nat)) \<and>
    set (terminals (pl_inner q)) \<subseteq> {Spool_Terminal (in_terminal_reason (pl_inner p))} \<and>
    set (retries (pl_inner q)) \<subseteq> {Terminal_Retry (Spool_Terminal (in_terminal_reason (pl_inner p)))} \<and>
    (pl_dispatcher q = D_Exited \<longrightarrow> \<not> ec_closed (pl_channel q) \<longrightarrow>
       pl_public q = map snd (pl_out q) @ terminal_events (in_terminal_reason (pl_inner p)))"
proof -
  have "pl_reason q = in_terminal_reason (pl_inner p)"
    using run_reason[OF assms(4,1,2)] pipe_invD(4)[OF assms(1)] assms(2,3) by (simp add: term_inv_def Let_def)
  then show ?thesis
    using pipe_invD(4,7)[OF pipe_run_reachable[OF assms(4,1)]] by (auto simp: public_inv_def term_inv_def Let_def)
qed

theorem terminal_event_last_witness:
  "in_terminal_reason (pl_inner closed_pipe) = Some Error_Closed \<and> pl_dispatcher ended_pipe = D_Exited \<and>
     \<not> ec_closed (pl_channel ended_pipe) \<and> terminals (pl_inner ended_pipe) = [] \<and>
     pl_public ended_pipe = [SubmitDropped 7] @ [Disconnected Error_Closed]"
  using terminal_event_last[OF closed_reachable _ _ ended_run] by (simp add: ended_facts closed_facts terminal_events_def split: if_splits)

text \<open>
  C34: A connection never goes back. Along every run the phase only moves from open over closing to
  closed, the admission only tightens, from open over draining, overflowed and sealed to terminal,
  and the reason that the closing \<open>finish\<close> recorded is never replaced: in its field, and in the terminal
  item that takes it from there.
\<close>

theorem pipeline_monotone:
  assumes "pipe_reachable params p" "pipe_step\<^sup>*\<^sup>* p q"
  shows "in_phase (pl_inner p) \<le> in_phase (pl_inner q) \<and>
     admission_rank (in_event_admission (pl_inner p)) \<le> admission_rank (in_event_admission (pl_inner q)) \<and>
     (in_phase (pl_inner p) = Phase_Closed \<longrightarrow>
        (\<exists>r. end_reasons (pl_inner p) \<subseteq> {r} \<and> end_reasons (pl_inner q) \<subseteq> {r}) \<and>
        (in_event_admission (pl_inner q) \<noteq> Admission_Terminal \<longrightarrow>
           in_terminal_reason (pl_inner q) = in_terminal_reason (pl_inner p)))"
proof -
  have A: "advances p q" by (rule run_advances[OF assms(2)])
  have reasons: "end_reasons (pl_inner p) \<subseteq> {pl_reason p}" "end_reasons (pl_inner q) \<subseteq> {pl_reason p}"
    if "in_phase (pl_inner p) = Phase_Closed"
  proof -
    have "in_phase (pl_inner q) = Phase_Closed" using A that by (simp add: advances_def phase_closed_le)
    then show "end_reasons (pl_inner p) \<subseteq> {pl_reason p}" "end_reasons (pl_inner q) \<subseteq> {pl_reason p}"
      using term_end_reasons[OF pipe_invD(4)[OF assms(1)] that] run_reason[OF assms(2,1) that]
        term_end_reasons[OF pipe_invD(4)[OF pipe_run_reachable[OF assms(2,1)]]] by simp_all
  qed
  moreover have "in_event_admission (pl_inner p) \<noteq> Admission_Terminal" if "in_event_admission (pl_inner q) \<noteq> Admission_Terminal"
    using A that by (cases "in_event_admission (pl_inner q)") (auto simp: advances_def)
  ultimately have "in_terminal_reason (pl_inner q) = in_terminal_reason (pl_inner p)"
    if "in_phase (pl_inner p) = Phase_Closed" "in_event_admission (pl_inner q) \<noteq> Admission_Terminal"
    using that by (auto simp: end_reasons_def)
  then show ?thesis using A reasons unfolding advances_def by blast
qed

theorem pipeline_monotone_witness:
  "in_phase (pl_inner closed_pipe) \<le> in_phase (pl_inner ended_pipe) \<and>
     in_terminal_reason (pl_inner closed_pipe) = Some Error_Closed \<and>
     (\<exists>r. end_reasons (pl_inner closed_pipe) \<subseteq> {r} \<and> end_reasons (pl_inner ended_pipe) \<subseteq> {r})"
  using pipeline_monotone[OF closed_reachable ended_run] by (simp add: closed_facts)

end
