(* ===== verification/Cmpp_Window.thy ===== *)
theory Cmpp_Window
  imports Cmpp_Events Cmpp_Submit "HOL-Library.Product_Lexorder"
begin

text \<open>
  The life of a SUBMIT on a connection (\<open>src/connection.rs\<close>): its admission through the sliding
  window, the claim and completion of its attempts by the writer, the matching of its response, and
  the scan that retries or gives up what has timed out; and the same for the heartbeat. A call that
  waits returns \<open>None\<close> until it can go on.
\<close>

section \<open>Submitting\<close>

definition release_window :: "inner \<Rightarrow> inner" where
  "release_window s = s\<lparr>in_window_available := in_window_available s + 1\<rparr>"

definition drop_lease :: "sequence_lease \<Rightarrow> inner \<Rightarrow> inner" where
  "drop_lease l s = s\<lparr>in_registry := lease_drop l (in_registry s)\<rparr>"

definition drop_udh :: "udh_lease option \<Rightarrow> inner \<Rightarrow> inner" where
  "drop_udh l s = (case l of None \<Rightarrow> s | Some u \<Rightarrow> s\<lparr>in_dropped_udh := in_dropped_udh s @ [u]\<rparr>)"

definition acquire_window :: "inner \<Rightarrow> (unit result \<times> inner) option" where
  "acquire_window s =
     (if in_phase s \<noteq> Phase_Open then Some (Err Error_Closed, s)
      else if in_window_closed s then Some (Err Error_Closed, s)
      else if in_window_available s = 0 then None
      else Some (Ok (), s\<lparr>in_window_available := in_window_available s - 1\<rparr>))"

definition acquire_manual_batch :: "inner \<Rightarrow> (unit result \<times> inner) option" where
  "acquire_manual_batch s =
     (if in_phase s \<noteq> Phase_Open then Some (Err Error_Closed, s)
      else if in_manual_batch_closed s then Some (Err Error_Closed, s)
      else if in_manual_batch_available s = 0 then None
      else Some (Ok (), s\<lparr>in_manual_batch_available := in_manual_batch_available s - 1\<rparr>))"

text \<open>
  A submission on its way into the window: it holds a window permit, a sequence lease and a clone of
  the UDH lease. Giving it up gives all three back.
\<close>

record submission =
  sb_lease :: sequence_lease
  sb_bytes :: bytes
  sb_key :: submit_attempt_key
  sb_udh :: "udh_lease option"

definition abandon :: "sequence_lease \<Rightarrow> udh_lease option \<Rightarrow> inner \<Rightarrow> inner" where
  "abandon l u s = drop_udh u (release_window (drop_lease l s))"

definition abandon_manual :: "sequence_lease option \<Rightarrow> udh_lease option \<Rightarrow> inner \<Rightarrow> inner" where
  "abandon_manual l u s =
     drop_udh u (release_window (case l of None \<Rightarrow> s | Some k \<Rightarrow> drop_lease k s))"

text \<open>\<open>send_submit\<close> between the window permit and the wait for a queue slot.\<close>

definition submit_prepare ::
  "(rstr \<Rightarrow> bytes) \<Rightarrow> sequence_lease option \<Rightarrow> submit \<Rightarrow> submit_content_plan \<Rightarrow> nat \<Rightarrow> u8 option \<Rightarrow>
     udh_lease option \<Rightarrow> inner \<Rightarrow> submission result \<times> inner" where
  "submit_prepare gbk manual template plan index reference u s =
     (case plan_segment gbk plan index reference of
        Err e \<Rightarrow> (Err e, abandon_manual manual u s)
      | Panic \<Rightarrow> (Panic, abandon_manual manual u s)
      | Ok segment \<Rightarrow>
          (let message = apply_segment template segment;
               (lease, s) =
                 (case manual of
                    Some l \<Rightarrow> (Some l, s)
                  | None \<Rightarrow> (case reserve_next (in_registry s) of (l, r) \<Rightarrow> (l, s\<lparr>in_registry := r\<rparr>)))
           in
             case lease of
               None \<Rightarrow>
                 (Err Error_ChannelClosed,
                  drop_udh u (release_window (finish (Some Error_ChannelClosed) s)))
             | Some l \<Rightarrow>
                 (case submit_try_encode message (lease_id l) of
                    Err e \<Rightarrow> (Err e, abandon l u s)
                  | Panic \<Rightarrow> (Panic, abandon l u s)
                  | Ok bs \<Rightarrow>
                      (case next_submission_id s of
                         (submission_id, s) \<Rightarrow>
                           (Ok \<lparr>sb_lease = l, sb_bytes = bs,
                                sb_key = \<lparr>ak_sequence_id = lease_id l, ak_submission_id = submission_id,
                                          ak_attempt = 1\<rparr>,
                                sb_udh = u\<rparr>, s)))))"

text \<open>The wait for a slot of the submit queue.\<close>

definition await_submit_slot :: "inner \<Rightarrow> unit result option" where
  "await_submit_slot s =
     (if in_phase s \<noteq> Phase_Open then Some (Err Error_Closed)
      else if in_queues_closed s then Some (Err Error_ChannelClosed)
      else if length (in_submit_queue s) < SEND_CHANNEL_CAPACITY then Some (Ok ())
      else None)"

text \<open>The commit: the critical section under the locks of the pending map and the admission.\<close>

definition insert_pending :: "u32 \<Rightarrow> pending_submit \<Rightarrow> inner \<Rightarrow> inner" where
  "insert_pending k p s =
     (let s' = (case in_pending_submits s k of None \<Rightarrow> s | Some old \<Rightarrow> drop_pending old s) in
      s'\<lparr>in_pending_submits := (in_pending_submits s')(k \<mapsto> p)\<rparr>)"

definition submit_commit :: "submission \<Rightarrow> inner \<Rightarrow> u32 result \<times> inner" where
  "submit_commit b s =
     (let k = ak_sequence_id (sb_key b) in
      if in_phase s \<noteq> Phase_Open then (Err Error_Closed, abandon (sb_lease b) (sb_udh b) s)
      else
        (let (isolated, l, r) =
           (if lease_manual (sb_lease b) then lease_retire (sb_lease b) (in_registry s)
            else (True, sb_lease b, in_registry s));
             s = s\<lparr>in_registry := r\<rparr>
         in
           if \<not> isolated then
             (Err Error_ChannelClosed,
              abandon l (sb_udh b) (finish (Some Error_ChannelClosed) s))
           else
             (let s = insert_pending k
                \<lparr>ps_submission_id = ak_submission_id (sb_key b), ps_packet = sb_bytes b,
                 ps_state = Queued 1, ps_udh_lease = map_option mark_exposed (sb_udh b),
                 ps_sequence_lease = l\<rparr> s
              in
                (Ok k,
                 s\<lparr>in_submits_admitted := in_submits_admitted s + 1,
                   in_submit_queue := in_submit_queue s @ [outbound_submit (sb_bytes b) (sb_key b)]\<rparr>))))"

section \<open>The writer's side\<close>

definition can_send_submit :: "inner \<Rightarrow> bool" where
  "can_send_submit s \<longleftrightarrow>
     in_phase s = Phase_Open \<or> in_phase s = Phase_Closing \<and> in_drain_submits_on_close s"

definition claim_attempt :: "submit_attempt_key \<Rightarrow> inner \<Rightarrow> bool \<times> inner" where
  "claim_attempt key s =
     (case in_pending_submits s (ak_sequence_id key) of
        None \<Rightarrow> (False, s)
      | Some p \<Rightarrow>
          if ps_submission_id p \<noteq> ak_submission_id key then (False, s)
          else if ps_state p = Queued (ak_attempt key) then
            (True, s\<lparr>in_pending_submits := (in_pending_submits s)
                      (ak_sequence_id key \<mapsto> p\<lparr>ps_state := Writing (ak_attempt key)\<rparr>)\<rparr>)
          else (False, s))"

text \<open>The lock of the admission is held for the whole batch, so the phase is read once.\<close>

fun claim_batch :: "bool \<Rightarrow> outbound list \<Rightarrow> inner \<Rightarrow> outbound list \<times> inner" where
  "claim_batch allowed [] s = ([], s)"
| "claim_batch allowed (ob # obs) s =
     (case ob_submit_attempt ob of
        None \<Rightarrow> (case claim_batch allowed obs s of (kept, t) \<Rightarrow> (ob # kept, t))
      | Some key \<Rightarrow>
          (let (claimed, t) = (if allowed then claim_attempt key s else (False, s));
               (kept, u) = claim_batch allowed obs t
           in (if claimed then ob # kept else kept, u)))"

definition claim_submit_attempts :: "outbound list \<Rightarrow> inner \<Rightarrow> outbound list \<times> inner" where
  "claim_submit_attempts batch s = claim_batch (can_send_submit s) batch s"

definition complete_attempt :: "nat \<Rightarrow> submit_attempt_key \<Rightarrow> inner \<Rightarrow> inner" where
  "complete_attempt written_at key s =
     (case in_pending_submits s (ak_sequence_id key) of
        None \<Rightarrow> s
      | Some p \<Rightarrow>
          if ps_submission_id p \<noteq> ak_submission_id key then s
          else if ps_state p = Writing (ak_attempt key) then
            s\<lparr>in_pending_submits := (in_pending_submits s)
                (ak_sequence_id key \<mapsto> p\<lparr>ps_state := AwaitingResponse (ak_attempt key) written_at\<rparr>)\<rparr>
          else if ps_state p = RespondedWhileWriting (ak_attempt key) then
            remove_pending (ak_sequence_id key) s
          else s)"

definition complete_submit_attempts :: "submit_attempt_key list \<Rightarrow> nat \<Rightarrow> inner \<Rightarrow> inner" where
  "complete_submit_attempts keys written_at s = fold (complete_attempt written_at) keys s"

definition claim_heartbeat_attempt :: "heartbeat_attempt_key \<Rightarrow> inner \<Rightarrow> bool \<times> inner" where
  "claim_heartbeat_attempt key s =
     (if in_phase s \<noteq> Phase_Open then (False, s)
      else
        (case in_heartbeat_pending s (hk_sequence_id key) of
           None \<Rightarrow> (False, s)
         | Some h \<Rightarrow>
             if ph_heartbeat_id h \<noteq> hk_heartbeat_id key \<or> ph_state h \<noteq> Heartbeat_Queued (hk_attempt key)
             then (False, s)
             else
               (True, s\<lparr>in_heartbeat_pending := (in_heartbeat_pending s)
                         (hk_sequence_id key \<mapsto> h\<lparr>ph_state := Heartbeat_Writing (hk_attempt key)\<rparr>)\<rparr>)))"

definition complete_heartbeat_attempt :: "heartbeat_attempt_key \<Rightarrow> nat \<Rightarrow> inner \<Rightarrow> inner" where
  "complete_heartbeat_attempt key written_at s =
     (case in_heartbeat_pending s (hk_sequence_id key) of
        None \<Rightarrow> s
      | Some h \<Rightarrow>
          if ph_heartbeat_id h = hk_heartbeat_id key \<and> ph_state h = Heartbeat_Writing (hk_attempt key)
          then s\<lparr>in_heartbeat_pending := (in_heartbeat_pending s)
                 (hk_sequence_id key \<mapsto> h\<lparr>ph_state := Heartbeat_Awaiting (hk_attempt key) written_at\<rparr>)\<rparr>
          else s)"

section \<open>The reader's side\<close>

text \<open>The first pass of \<open>flush_submit_resps\<close>, under the lock of the pending map.\<close>

definition match_resp :: "u32 \<Rightarrow> inner \<Rightarrow> bool \<times> inner" where
  "match_resp k s =
     (case in_pending_submits s k of
        None \<Rightarrow> (False, s)
      | Some p \<Rightarrow>
          (case ps_state p of
             Writing attempt \<Rightarrow>
               (True, s\<lparr>in_pending_submits := (in_pending_submits s)
                         (k \<mapsto> p\<lparr>ps_state := RespondedWhileWriting attempt\<rparr>)\<rparr>)
           | RespondedWhileWriting _ \<Rightarrow> (False, s)
           | _ \<Rightarrow> (True, remove_pending k s)))"

fun match_resps :: "(u32 \<times> bytes \<times> u8) list \<Rightarrow> inner \<Rightarrow> (u32 \<times> bytes \<times> u8) list \<times> inner" where
  "match_resps [] s = ([], s)"
| "match_resps (r # rs) s =
     (let (handled, t) = match_resp (fst r) s; (kept, u) = match_resps rs t in
      (if handled then r # kept else kept, u))"

definition publish_resp :: "u32 \<times> bytes \<times> u8 \<Rightarrow> inner \<Rightarrow> inner" where
  "publish_resp r s =
     (let s = s\<lparr>in_submit_responses := in_submit_responses s + 1\<rparr> in
      if in_event_overflowed s then count_dropped 1 s
      else snd (emit_event (SubmitResp (fst r) (fst (snd r)) (snd (snd r))) s))"

definition flush_submit_resps :: "(u32 \<times> bytes \<times> u8) list \<Rightarrow> inner \<Rightarrow> inner" where
  "flush_submit_resps resps s =
     (case match_resps resps s of (handled, t) \<Rightarrow> fold publish_resp handled t)"

section \<open>Time-outs\<close>

text \<open>One scan: the written attempts whose budget has passed, oldest first, at most a batch.\<close>

definition expired_attempt ::
  "nat \<Rightarrow> nat \<Rightarrow> (u32 \<rightharpoonup> pending_submit) \<Rightarrow> u32 \<Rightarrow> (nat \<times> submit_attempt_key) option" where
  "expired_attempt now timeout m k =
     (case m k of
        None \<Rightarrow> None
      | Some p \<Rightarrow>
          (case ps_state p of
             AwaitingResponse attempt written_at \<Rightarrow>
               if timeout \<le> now - written_at then
                 Some (written_at, \<lparr>ak_sequence_id = k, ak_submission_id = ps_submission_id p, ak_attempt = attempt\<rparr>)
               else None
           | _ \<Rightarrow> None))"

definition expiry_order :: "nat \<times> submit_attempt_key \<Rightarrow> nat \<times> u32 \<times> u64" where
  "expiry_order e = (fst e, ak_sequence_id (snd e), ak_submission_id (snd e))"

definition expired_submits :: "nat \<Rightarrow> u32 list \<Rightarrow> inner \<Rightarrow> submit_attempt_key list" where
  "expired_submits now order s =
     map snd (take (in_submit_retry_batch_size s)
       (sort_key expiry_order
         (List.map_filter (expired_attempt now (in_response_timeout s) (in_pending_submits s)) order)))"

text \<open>Whether the entry still awaits the response of this attempt.\<close>

definition still_awaiting :: "submit_attempt_key \<Rightarrow> inner \<Rightarrow> pending_submit option" where
  "still_awaiting key s =
     (case in_pending_submits s (ak_sequence_id key) of
        None \<Rightarrow> None
      | Some p \<Rightarrow>
          (case ps_state p of
             AwaitingResponse attempt _ \<Rightarrow>
               if ps_submission_id p = ak_submission_id key \<and> attempt = ak_attempt key then Some p else None
           | _ \<Rightarrow> None))"

text \<open>
  The last attempt has timed out: the event is published first, and only when it is accepted the
  entry goes and its sequence is retired. The result says whether the task goes on.
\<close>

definition give_up_submit :: "submit_attempt_key \<Rightarrow> inner \<Rightarrow> bool \<times> inner" where
  "give_up_submit key s =
     (case still_awaiting key s of
        None \<Rightarrow> (True, s)
      | Some _ \<Rightarrow>
          (case emit_event (SubmitTimeout (ak_sequence_id key) (ak_attempt key)) s of
             (False, t) \<Rightarrow> (True, t)
           | (True, t) \<Rightarrow>
               (case in_pending_submits t (ak_sequence_id key) of
                  None \<Rightarrow> (True, t)
                | Some p \<Rightarrow>
                    (let (isolated, l, r) = lease_retire (ps_sequence_lease p) (in_registry t);
                         t = drop_pending (p\<lparr>ps_sequence_lease := l\<rparr>)
                           (t\<lparr>in_registry := r,
                              in_pending_submits := (in_pending_submits t)(ak_sequence_id key := None)\<rparr>);
                         t = t\<lparr>in_submit_timeouts := in_submit_timeouts t + 1\<rparr>
                     in if isolated then (True, t) else (False, finish (Some Error_ChannelClosed) t)))))"

definition requeue_submit :: "submit_attempt_key \<Rightarrow> inner \<Rightarrow> inner" where
  "requeue_submit key s =
     (if SEND_CHANNEL_CAPACITY \<le> length (in_submit_queue s) then s
      else if in_phase s \<noteq> Phase_Open then s
      else
        (case still_awaiting key s of
           None \<Rightarrow> s
         | Some p \<Rightarrow>
             (let attempt = ak_attempt key + 1 in
              s\<lparr>in_pending_submits := (in_pending_submits s)
                  (ak_sequence_id key \<mapsto> p\<lparr>ps_state := Queued attempt\<rparr>),
                in_submit_queue := in_submit_queue s @
                  [outbound_submit (ps_packet p) (key\<lparr>ak_attempt := attempt\<rparr>)],
                in_submit_retries := in_submit_retries s + 1\<rparr>)))"

text \<open>When the queue is closed the task ends, and ends an open connection.\<close>

definition queues_lost :: "inner \<Rightarrow> inner" where
  "queues_lost s = (if in_phase s = Phase_Open then finish (Some Error_ChannelClosed) s else s)"

definition retry_submit :: "submit_attempt_key \<Rightarrow> inner \<Rightarrow> bool \<times> inner" where
  "retry_submit key s =
     (if in_queues_closed s then (False, queues_lost s) else (True, requeue_submit key s))"

definition timeout_submit :: "submit_attempt_key \<Rightarrow> inner \<Rightarrow> bool \<times> inner" where
  "timeout_submit key s =
     (if in_retry_count s \<le> ak_attempt key then give_up_submit key s else retry_submit key s)"

fun timeout_submits :: "submit_attempt_key list \<Rightarrow> inner \<Rightarrow> bool \<times> inner" where
  "timeout_submits [] s = (True, s)"
| "timeout_submits (key # keys) s =
     (case timeout_submit key s of
        (False, t) \<Rightarrow> (False, t)
      | (True, t) \<Rightarrow> timeout_submits keys t)"

section \<open>Heartbeats\<close>

text \<open>The frames without a body; \<open>expect\<close> cannot fail on them.\<close>

definition encoded :: "pdu \<Rightarrow> u32 \<Rightarrow> bytes" where
  "encoded p k = (case pdu_encode p k of Ok bs \<Rightarrow> bs | _ \<Rightarrow> [])"

text \<open>
  A turn of \<open>heartbeat_task\<close>: when nothing is pending it takes a sequence and an identifier, and after
  the wait for a slot of the control queue it commits. The result says whether the task goes on.
\<close>

definition heartbeat_prepare :: "inner \<Rightarrow> (sequence_lease \<times> heartbeat_attempt_key) option \<times> bool \<times> inner" where
  "heartbeat_prepare s =
     (if in_phase s \<noteq> Phase_Open then (None, False, s)
      else if in_heartbeat_pending s \<noteq> Map.empty then (None, True, s)
      else
        (case reserve_next (in_registry s) of
           (None, r) \<Rightarrow> (None, False, finish (Some Error_ChannelClosed) (s\<lparr>in_registry := r\<rparr>))
         | (Some l, r) \<Rightarrow>
             (case next_heartbeat_id (s\<lparr>in_registry := r\<rparr>) of
                (heartbeat_id, t) \<Rightarrow>
                  (Some (l, \<lparr>hk_sequence_id = lease_id l, hk_heartbeat_id = heartbeat_id, hk_attempt = 1\<rparr>),
                   True, t))))"

definition await_control_slot :: "inner \<Rightarrow> bool option" where
  "await_control_slot s =
     (if in_phase s \<noteq> Phase_Open \<or> in_queues_closed s then Some False
      else if length (in_control_queue s) < CONTROL_CHANNEL_CAPACITY then Some True
      else None)"

definition heartbeat_commit :: "sequence_lease \<Rightarrow> heartbeat_attempt_key \<Rightarrow> inner \<Rightarrow> bool \<times> inner" where
  "heartbeat_commit l key s =
     (if in_phase s \<noteq> Phase_Open then (False, drop_lease l s)
      else if in_heartbeat_pending s \<noteq> Map.empty then (True, drop_lease l s)
      else
        (True,
         s\<lparr>in_heartbeat_pending := (in_heartbeat_pending s)
             (hk_sequence_id key \<mapsto>
                \<lparr>ph_heartbeat_id = hk_heartbeat_id key, ph_state = Heartbeat_Queued 1, ph_sequence_lease = l\<rparr>),
           in_control_queue := in_control_queue s @
             [outbound_heartbeat (encoded Pdu_ActiveTest (hk_sequence_id key)) key]\<rparr>))"

text \<open>The wait has ended without a slot: so does the task, and its lease goes.\<close>

definition heartbeat_end :: "sequence_lease \<Rightarrow> inner \<Rightarrow> inner" where
  "heartbeat_end l s = drop_lease l (queues_lost s)"

definition expired_heartbeat :: "nat \<Rightarrow> u32 list \<Rightarrow> inner \<Rightarrow> heartbeat_attempt_key option" where
  "expired_heartbeat now order s =
     (case List.map_filter (\<lambda>k.
          (case in_heartbeat_pending s k of
             None \<Rightarrow> None
           | Some h \<Rightarrow>
               (case ph_state h of
                  Heartbeat_Awaiting attempt written_at \<Rightarrow>
                    if in_response_timeout s \<le> now - written_at then
                      Some \<lparr>hk_sequence_id = k, hk_heartbeat_id = ph_heartbeat_id h, hk_attempt = attempt\<rparr>
                    else None
                | _ \<Rightarrow> None))) order of
        [] \<Rightarrow> None
      | key # _ \<Rightarrow> Some key)"

definition heartbeat_awaiting :: "heartbeat_attempt_key \<Rightarrow> inner \<Rightarrow> pending_heartbeat option" where
  "heartbeat_awaiting key s =
     (case in_heartbeat_pending s (hk_sequence_id key) of
        None \<Rightarrow> None
      | Some h \<Rightarrow>
          (case ph_state h of
             Heartbeat_Awaiting attempt _ \<Rightarrow>
               if ph_heartbeat_id h = hk_heartbeat_id key \<and> attempt = hk_attempt key then Some h else None
           | _ \<Rightarrow> None))"

text \<open>
  The result says whether the task ends: the heartbeat is exhausted, and the connection finished, or the
  control queue is closed.
\<close>

definition timeout_heartbeat :: "heartbeat_attempt_key \<Rightarrow> inner \<Rightarrow> bool \<times> inner" where
  "timeout_heartbeat key s =
     (if in_retry_count s \<le> hk_attempt key then
        (case heartbeat_awaiting key s of
           None \<Rightarrow> (False, s)
         | Some _ \<Rightarrow> (True, finish (Some Error_Closed) (remove_heartbeat (hk_sequence_id key) s)))
      else if in_queues_closed s then (True, queues_lost s)
      else if CONTROL_CHANNEL_CAPACITY \<le> length (in_control_queue s) then (False, s)
      else if in_phase s \<noteq> Phase_Open then (False, s)
      else
        (case heartbeat_awaiting key s of
           None \<Rightarrow> (False, s)
         | Some h \<Rightarrow>
             (let attempt = hk_attempt key + 1 in
              (False,
               s\<lparr>in_heartbeat_pending := (in_heartbeat_pending s)
                   (hk_sequence_id key \<mapsto> h\<lparr>ph_state := Heartbeat_Queued attempt\<rparr>),
                 in_control_queue := in_control_queue s @
                   [outbound_heartbeat (encoded Pdu_ActiveTest (hk_sequence_id key))
                      (key\<lparr>hk_attempt := attempt\<rparr>)]\<rparr>))))"

text \<open>A turn of \<open>timeout_task\<close>; the two orders are those in which the maps are enumerated.\<close>

definition timeout_scan :: "nat \<Rightarrow> u32 list \<Rightarrow> u32 list \<Rightarrow> inner \<Rightarrow> bool \<times> inner" where
  "timeout_scan now heartbeat_order submit_order s =
     (if in_phase s \<noteq> Phase_Open then (False, s)
      else
        (let (ended, t) =
           (case expired_heartbeat now heartbeat_order s of
              None \<Rightarrow> (False, s)
            | Some key \<Rightarrow> timeout_heartbeat key s)
         in if ended then (False, t)
            else timeout_submits (expired_submits now submit_order t) t))"

section \<open>A whole message\<close>

text \<open>
  \<open>submit\<close> up to its first segment. \<open>hash\<close> is the hasher of the UDH pool, \<open>now\<close> its clock and
  \<open>cooldown\<close> the connection's UDH cooldown; a manual batch has been admitted by
  \<open>acquire_manual_batch\<close> when \<open>base\<close> is given.
\<close>

definition submit_check :: "submit_options \<Rightarrow> rstr \<Rightarrow> u32 \<Rightarrow> inner \<Rightarrow> submit_content_plan result \<times> u32" where
  "submit_check options content counter s =
     (if is_closed s then (Err Error_Closed, counter)
      else if 255 < length (op_dest_terminal_ids options) then (Err (Error_Config Submit_destinations), counter)
      else prepare_submit_content counter content)"

definition submit_udh ::
  "(bytes \<Rightarrow> bytes \<Rightarrow> u64) \<Rightarrow> nat \<Rightarrow> nat \<Rightarrow> submit_options \<Rightarrow> submit_content_plan \<Rightarrow> udh_bucket list \<Rightarrow>
     (udh_lease option \<times> udh_bucket list) result" where
  "submit_udh hash now cooldown options plan pool =
     (if plan_segment_count plan \<le> 1 then Ok (None, pool)
      else
        (case pl_preferred_ref plan of
           None \<Rightarrow> Err (Error_Config Long_sms_udh)
         | Some preferred \<Rightarrow>
             res_bind (try_acquire (bucket_ids hash (op_src_id options) (op_dest_terminal_ids options))
                         preferred cooldown now pool)
               (\<lambda>(l, pool). case l of None \<Rightarrow> Err Error_ResourceExhausted | Some k \<Rightarrow> Ok (Some k, pool))))"

definition submit_leases ::
  "u32 option \<Rightarrow> nat \<Rightarrow> udh_lease option \<Rightarrow> inner \<Rightarrow> sequence_lease list option result \<times> inner" where
  "submit_leases base segments u s =
     (case base of
        None \<Rightarrow> (Ok None, s)
      | Some b \<Rightarrow>
          (case reserve_batch b segments (in_registry s) of
             (None, r) \<Rightarrow> (Err (Error_Config Base_sequence_range), drop_udh u (s\<lparr>in_registry := r\<rparr>))
           | (Some ls, r) \<Rightarrow> (Ok (Some ls), s\<lparr>in_registry := r\<rparr>)))"

definition partial_submit_error :: "u32 list \<Rightarrow> error \<Rightarrow> error" where
  "partial_submit_error sequence_ids source = Error_PartialSubmit sequence_ids source"

text \<open>The segments one after the other: the outcomes of \<open>send_submit\<close> become the outcome of \<open>submit\<close>.\<close>

fun submit_collect :: "u32 list \<Rightarrow> u32 result list \<Rightarrow> u32 list result" where
  "submit_collect ids [] = Ok ids"
| "submit_collect ids (Ok k # rs) = submit_collect (ids @ [k]) rs"
| "submit_collect ids (Err e # rs) = Err (partial_submit_error ids e)"
| "submit_collect ids (Panic # rs) = Panic"

end
