(* ===== verification/Cmpp_Lifecycle.thy ===== *)
theory Cmpp_Lifecycle
  imports Cmpp_Window
begin

text \<open>
  The life of every SUBMIT as a step relation: submitting tasks, the writer, the reader, the timeout
  task and the clean-up interleave at their critical sections. Ghost fields record the permits and
  leases that tasks hold, the sequences admitted so far, the attempts
  the writer claimed and the terminal outcomes.
\<close>

section \<open>The state and its steps\<close>

datatype outcome = Answered | Timed_out | Dropped

record life =
  lf_inner :: inner
  lf_permits :: nat
  lf_manual :: "sequence_lease list"
  lf_ready :: "submission list"
  lf_other :: "sequence_lease list"
  lf_batch :: "outbound list"
  lf_writing :: "submit_attempt_key list"
  lf_admitted :: "u32 list"
  lf_claimed :: "submit_attempt_key list"
  lf_done :: "(outcome \<times> u32) list"

definition life_new :: "inner \<Rightarrow> life" where
  "life_new s =
     \<lparr>lf_inner = s, lf_permits = 0, lf_manual = [], lf_ready = [], lf_other = [], lf_batch = [],
      lf_writing = [], lf_admitted = [], lf_claimed = [], lf_done = []\<rparr>"

definition submit_keys :: "outbound list \<Rightarrow> submit_attempt_key list" where
  "submit_keys obs = List.map_filter ob_submit_attempt obs"

text \<open>Steps of the rest of the connection: they keep the fields a SUBMIT depends on, and never reopen.\<close>

definition same_life :: "inner \<Rightarrow> inner \<Rightarrow> bool" where
  "same_life s t \<longleftrightarrow>
     in_registry t = in_registry s \<and> in_pending_submits t = in_pending_submits s \<and>
     in_window_available t = in_window_available s \<and> in_window_size t = in_window_size s \<and>
     in_submit_queue t = in_submit_queue s \<and> in_retry_count t = in_retry_count s \<and>
     (in_phase t = Phase_Open \<longrightarrow> in_phase s = Phase_Open)"

inductive life_step :: "life \<Rightarrow> life \<Rightarrow> bool" where
  acquire:
    "acquire_window (lf_inner l) = Some (Ok (), t) \<Longrightarrow>
     life_step l (l\<lparr>lf_inner := t, lf_permits := lf_permits l + 1\<rparr>)"
| permit_dropped:
    "0 < lf_permits l \<Longrightarrow>
     life_step l (l\<lparr>lf_inner := release_window (lf_inner l), lf_permits := lf_permits l - 1\<rparr>)"
| leases:
    "submit_leases (Some base) segments u (lf_inner l) = (Ok (Some ls), t) \<Longrightarrow>
     life_step l (l\<lparr>lf_inner := t, lf_manual := ls @ lf_manual l\<rparr>)"
| lease_dropped:
    "lf_manual l = xs @ k # ys \<Longrightarrow>
     life_step l (l\<lparr>lf_inner := drop_lease k (lf_inner l), lf_manual := xs @ ys\<rparr>)"
| prepare_auto:
    "0 < lf_permits l \<Longrightarrow> submit_prepare gbk None template plan index reference u (lf_inner l) = (r, t) \<Longrightarrow>
     life_step l
       (l\<lparr>lf_inner := t, lf_permits := lf_permits l - 1,
          lf_ready := (case r of Ok b \<Rightarrow> b # lf_ready l | _ \<Rightarrow> lf_ready l)\<rparr>)"
| prepare_manual:
    "0 < lf_permits l \<Longrightarrow> lf_manual l = xs @ k # ys \<Longrightarrow>
     submit_prepare gbk (Some k) template plan index reference u (lf_inner l) = (r, t) \<Longrightarrow>
     life_step l
       (l\<lparr>lf_inner := t, lf_permits := lf_permits l - 1, lf_manual := xs @ ys,
          lf_ready := (case r of Ok b \<Rightarrow> b # lf_ready l | _ \<Rightarrow> lf_ready l)\<rparr>)"
| abandoned:
    "lf_ready l = xs @ b # ys \<Longrightarrow>
     life_step l (l\<lparr>lf_inner := abandon (sb_lease b) (sb_udh b) (lf_inner l), lf_ready := xs @ ys\<rparr>)"
| commit:
    "lf_ready l = xs @ b # ys \<Longrightarrow> submit_commit b (lf_inner l) = (r, t) \<Longrightarrow>
     life_step l
       (l\<lparr>lf_inner := t, lf_ready := xs @ ys,
          lf_admitted := (case r of Ok k \<Rightarrow> k # lf_admitted l | _ \<Rightarrow> lf_admitted l)\<rparr>)"
| take:
    "in_submit_queue (lf_inner l) = ob # obs \<Longrightarrow>
     life_step l (l\<lparr>lf_inner := (lf_inner l)\<lparr>in_submit_queue := obs\<rparr>, lf_batch := lf_batch l @ [ob]\<rparr>)"
| claim:
    "lf_writing l = [] \<Longrightarrow> claim_submit_attempts (lf_batch l) (lf_inner l) = (kept, t) \<Longrightarrow>
     life_step l (l\<lparr>lf_inner := t, lf_batch := [], lf_writing := submit_keys kept,
          lf_claimed := submit_keys kept @ lf_claimed l\<rparr>)"
| written:
    "life_step l
       (l\<lparr>lf_inner := complete_submit_attempts (lf_writing l) now (lf_inner l), lf_writing := []\<rparr>)"
| marker:
    "in_phase (lf_inner l) \<noteq> Phase_Open \<Longrightarrow>
     life_step l
       (l\<lparr>lf_inner := (lf_inner l)\<lparr>in_submit_queue := in_submit_queue (lf_inner l) @ [outbound_submit_drain_marker n]\<rparr>\<rparr>)"
| writer_gone:
    "in_phase (lf_inner l) = Phase_Closed \<Longrightarrow> life_step l (l\<lparr>lf_batch := [], lf_writing := []\<rparr>)"
| respond:
    "match_resps resps (lf_inner l) = (handled, t) \<Longrightarrow>
     life_step l
       (l\<lparr>lf_inner := fold publish_resp handled t,
          lf_done := map (\<lambda>r. (Answered, fst r)) handled @ lf_done l\<rparr>)"
| timeout:
    "timeout_submit key (lf_inner l) = (continue, t) \<Longrightarrow>
     gone = (in_pending_submits (lf_inner l) (ak_sequence_id key) \<noteq> None \<and>
             in_pending_submits t (ak_sequence_id key) = None) \<Longrightarrow>
     life_step l
       (l\<lparr>lf_inner := t, lf_done := (if gone then [(Timed_out, ak_sequence_id key)] else []) @ lf_done l\<rparr>)"
| drain:
    "set order = dom (in_pending_submits (lf_inner l)) \<Longrightarrow> distinct order \<Longrightarrow>
     in_phase (lf_inner l) = Phase_Closed \<Longrightarrow> drain_pending order (lf_inner l) = (dropped, t) \<Longrightarrow>
     life_step l (l\<lparr>lf_inner := t, lf_done := map (\<lambda>k. (Dropped, k)) dropped @ lf_done l\<rparr>)"
| other_reserve:
    "reserve_next (in_registry (lf_inner l)) = (Some k, r) \<Longrightarrow>
     life_step l (l\<lparr>lf_inner := (lf_inner l)\<lparr>in_registry := r\<rparr>, lf_other := k # lf_other l\<rparr>)"
| other_exhausted:
    "reserve_next (in_registry (lf_inner l)) = (None, r) \<Longrightarrow>
     life_step l (l\<lparr>lf_inner := (lf_inner l)\<lparr>in_registry := r\<rparr>\<rparr>)"
| other_dropped:
    "lf_other l = xs @ k # ys \<Longrightarrow>
     life_step l (l\<lparr>lf_inner := drop_lease k (lf_inner l), lf_other := xs @ ys\<rparr>)"
| environment:
    "same_life (lf_inner l) t \<Longrightarrow> life_step l (l\<lparr>lf_inner := t\<rparr>)"

inductive life_reachable :: "cmpp_protocol_params \<Rightarrow> life \<Rightarrow> bool" for params where
  start: "life_reachable params (life_new (inner_new params))"
| step: "life_reachable params l \<Longrightarrow> life_step l m \<Longrightarrow> life_reachable params m"

section \<open>Frames\<close>

text \<open>The operations of the event pipeline leave the SUBMITs alone.\<close>

lemma same_life_refl [simp]: "same_life s s"
  by (simp add: same_life_def)

lemma same_life_trans: "same_life s t \<Longrightarrow> same_life t u \<Longrightarrow> same_life s u"
  by (simp add: same_life_def)

lemma same_life_begin_closing: "same_life s (snd (begin_closing b s))"
  by (simp add: begin_closing_def same_life_def)

lemma same_life_overload: "same_life s (start_event_overload_close s)"
  using same_life_begin_closing[of s False]
  by (auto simp: start_event_overload_close_def same_life_def split: prod.splits bool.splits)

lemma same_life_try_send: "same_life s (snd (spool_try_send i s))"
  by (simp add: spool_try_send_def same_life_def)

lemma same_life_permit [simp]:
  "same_life s (depth_permit_new_n n s)" "same_life s (depth_permit_drop n s)"
  "same_life s (overflow_admission s)"
  by (simp_all add: depth_permit_new_n_def depth_permit_drop_def overflow_admission_def same_life_def Let_def)

lemma same_life_offer: "same_life s (snd (spool_offer i s))"
proof -
  obtain r t where t: "spool_try_send i (depth_permit_new_n (item_depth i) s) = (r, t)" by force
  then have "same_life (depth_permit_new_n (item_depth i) s) t"
    using same_life_try_send[of "depth_permit_new_n (item_depth i) s" i] by simp
  then have "same_life s t" by (rule same_life_trans[OF same_life_permit(1)])
  moreover have "same_life t (depth_permit_drop (item_depth i) t)" by simp
  ultimately have "same_life s t" "same_life s (depth_permit_drop (item_depth i) t)"
    by (blast intro: same_life_trans)+
  then show ?thesis by (cases r) (simp_all add: spool_offer_def t)
qed

text \<open>Every branch of \<open>emit_event\<close> is such a chain, closed by the overload and a counter.\<close>

lemma same_life_emit: "same_life s (snd (emit_event e s))"
proof -
  obtain a t where t: "spool_offer (Spool_Direct e) s = (a, t)" by force
  obtain b u where u: "spool_offer (Spool_Direct e) (overflow_admission s) = (b, u)" by force
  have st: "same_life s t" using same_life_offer[of s "Spool_Direct e"] by (simp add: t)
  have su: "same_life s u"
    using same_life_trans[OF same_life_permit(3)] same_life_offer[of "overflow_admission s" "Spool_Direct e"]
    by (simp add: u)
  have o: "same_life s (start_event_overload_close v)" if "same_life s v" for v
    using that same_life_overload by (rule same_life_trans)
  have d: "same_life s (v\<lparr>in_events_dropped := n\<rparr>)" if "same_life s v" for v n
    using that by (simp add: same_life_def)
  show ?thesis
    using st su
    by (cases a; cases b; cases "in_event_admission s")
      (simp_all add: emit_event_def t u o d Let_def same_life_trans[OF st])
qed

lemma same_life_finish: "same_life s (finish r s)"
  by (simp add: finish_def transition_to_closed_def Let_def same_life_def)

lemma same_life_queues_lost: "same_life s (queues_lost s)"
  by (simp add: queues_lost_def same_life_finish)

lemma timeout_submit_cases:
  assumes "timeout_submit key s = (continue, t)"
  obtains (last) "in_retry_count s \<le> ak_attempt key" "give_up_submit key s = (continue, t)"
  | (again) "ak_attempt key < in_retry_count s" "t = requeue_submit key s"
  | (lost) "ak_attempt key < in_retry_count s" "t = queues_lost s"
  using assms that by (auto simp: timeout_submit_def retry_submit_def split: if_splits)

lemma same_life_publish: "same_life s (publish_resp r s)"
proof -
  let ?s = "s\<lparr>in_submit_responses := in_submit_responses s + 1\<rparr>"
  have "same_life s ?s" "same_life ?s (count_dropped 1 ?s)" by (simp_all add: count_dropped_def same_life_def)
  then show ?thesis
    using same_life_emit[of ?s] unfolding publish_resp_def Let_def by (auto intro: same_life_trans)
qed

lemma same_life_fold: "(\<And>x s. same_life s (f x s)) \<Longrightarrow> same_life s (fold f xs s)"
  by (induction xs arbitrary: s) (auto intro: same_life_trans)

end
