(* ===== verification/Cmpp_Invariant.thy ===== *)
theory Cmpp_Invariant
  imports Cmpp_Lifecycle "HOL-Library.Multiset"
begin

text \<open>
  The invariants of the life of the SUBMITs: leases and admitted sequences never collide, the window
  is conserved, every admitted SUBMIT has exactly one outcome or is pending, attempts stay within the
  retry count and no entry is stuck. Each operation has a lemma on the shared state; the steps combine
  them.
\<close>

section \<open>The registry and the leases in hand\<close>

definition reg_inv :: "sequence_state \<Rightarrow> sequence_lease list \<Rightarrow> u32 list \<Rightarrow> bool" where
  "reg_inv r held admitted \<longleftrightarrow>
     seq_inv r \<and> distinct (map lease_id held) \<and>
     (\<forall>k \<in> set held. lease_id k \<in> burned r \<and> (\<not> lease_manual k \<longrightarrow> lease_id k \<in> quarantined r) \<and>
        lease_id k \<notin> set admitted) \<and>
     set admitted \<subseteq> quarantined r \<and> distinct admitted"

lemma reg_inv_perm: "mset h = mset h' \<Longrightarrow> reg_inv r h a = reg_inv r h' a"
proof -
  assume m: "mset h = mset h'"
  then have "set h = set h'" by (rule mset_eq_setD)
  moreover have "distinct (map lease_id h) = distinct (map lease_id h')"
    using m by (intro mset_eq_imp_distinct_iff) simp
  ultimately show ?thesis by (simp add: reg_inv_def)
qed

lemma reg_inv_reserve:
  assumes "reg_inv r h a" "reserve_next r = (Some k, r')"
  shows "reg_inv r' (k # h) a" "lease_manual k = False"
proof -
  have i: "issues_least r (Some k) r'" using reserve_next_spec[of r] assms by (simp add: reg_inv_def)
  note D = issues_leastD[OF i]
  have "lease_id k \<notin> set (map lease_id h)" using assms(1) D(2) by (auto simp: reg_inv_def)
  moreover have "lease_id k \<notin> set a" using assms(1) D(2) by (auto simp: reg_inv_def burned_def)
  ultimately show "reg_inv r' (k # h) a"
    using assms(1) D(1,3-5) unfolding reg_inv_def by auto
  show "lease_manual k = False" using i by (simp add: issues_least_def)
qed

lemma reg_inv_reserve_None: "reg_inv r h a \<Longrightarrow> reserve_next r = (None, r') \<Longrightarrow> reg_inv r' h a"
  using reserve_next_spec[of r] unfolding reg_inv_def issues_least_def by auto

lemma reg_inv_batch:
  assumes "reg_inv r h a" "reserve_batch base n r = (Some ls, r')"
  shows "reg_inv r' (ls @ h) a"
proof -
  have inv: "seq_inv r" using assms(1) by (simp add: reg_inv_def)
  have n: "n \<le> 255" "set (batch_sequences base n) \<inter> burned r = {}"
    and ls: "map lease_id ls = batch_sequences base n" "\<forall>k \<in> set ls. lease_manual k"
    and r': "r' = r\<lparr>reserved := reserved r \<union> set (batch_sequences base n)\<rparr>"
    using assms(2) unfolding reserve_batch_spec[OF inv] by (auto split: if_splits simp: comp_def)
  have ids: "lease_id ` set ls = set (batch_sequences base n)" using ls(1) by (metis list.set_map)
  have b: "burned r' = burned r \<union> set (batch_sequences base n)" "quarantined r' = quarantined r" "seq_inv r'"
    using inv by (auto simp: r' burned_def)
  have "lease_id ` set h \<subseteq> burned r" "set a \<subseteq> burned r" using assms(1) by (auto simp: reg_inv_def burned_def)
  then have "distinct (map lease_id (ls @ h))" "lease_id ` set ls \<inter> set a = {}"
    using assms(1) n ls(1) ids distinct_batch[OF n(1)] by (auto simp: reg_inv_def)
  then show ?thesis
    using assms(1) ls(2) b ids unfolding reg_inv_def by (auto 0 3)
qed

lemma lease_drop_sets:
  "quarantined (lease_drop k r) = quarantined r" "seq_inv (lease_drop k r) = seq_inv r"
  "burned r - {lease_id k} \<subseteq> burned (lease_drop k r)"
  by (auto simp: lease_drop_def release_def burned_def)

text \<open>The drop of a lease that is none of \<open>held\<close> keeps what they burned.\<close>

lemma reg_inv_drop_other:
  assumes "reg_inv r h a" "lease_id k \<notin> lease_id ` set h"
  shows "reg_inv (lease_drop k r) h a"
proof -
  have "lease_id x \<in> burned (lease_drop k r)" if "x \<in> set h" for x
  proof -
    have "lease_id x \<noteq> lease_id k" using assms(2) that by (metis imageI)
    then show ?thesis using assms(1) that lease_drop_sets(3)[where k = k and r = r] by (auto simp: reg_inv_def)
  qed
  then show ?thesis using assms(1) by (simp add: reg_inv_def lease_drop_sets)
qed

lemma reg_inv_drop: "reg_inv r (k # h) a \<Longrightarrow> reg_inv (lease_drop k r) h a"
  by (rule reg_inv_drop_other) (simp_all add: reg_inv_def)

lemma reg_inv_drop_admitted: "reg_inv r h a \<Longrightarrow> lease_id k \<in> set a \<Longrightarrow> reg_inv (lease_drop k r) h a"
  by (rule reg_inv_drop_other) (auto simp: reg_inv_def)

lemma lease_retire_cases:
  assumes "seq_inv r" "lease_retire k r = (isolated, k', r')"
  shows "seq_inv r'" "quarantined r \<subseteq> quarantined r'" "burned r \<subseteq> burned r'" "lease_id k' = lease_id k"
    "isolated \<Longrightarrow> lease_id k \<in> quarantined r'" "lease_drop k' r'' = r''"
proof -
  obtain t where t: "retire (lease_id k) r = (isolated, t)" "k' = k\<lparr>lease_release_on_drop := False\<rparr>" "r' = t"
    using assms(2) by (auto simp: lease_retire_def Let_def split: prod.splits)
  note R = retire_spec[OF assms(1) t(1)]
  show "seq_inv r'" "quarantined r \<subseteq> quarantined r'" "burned r \<subseteq> burned r'" "lease_id k' = lease_id k"
    "isolated \<Longrightarrow> lease_id k \<in> quarantined r'" "lease_drop k' r'' = r''"
    using R t by (auto simp: burned_def lease_drop_def split: if_splits)
qed

lemma reg_inv_retire:
  assumes "reg_inv r h a" "lease_retire k r = (isolated, k', r')"
  shows "reg_inv r' h a"
  using lease_retire_cases[of r k isolated k' r'] assms unfolding reg_inv_def by auto

lemma reg_inv_forget: "reg_inv r (k # h) a \<Longrightarrow> reg_inv r h a"
  by (simp add: reg_inv_def)

lemma reg_inv_admit:
  "reg_inv r (k # h) a \<Longrightarrow> lease_id k \<in> quarantined r \<Longrightarrow> reg_inv r h (lease_id k # a)"
  by (auto simp: reg_inv_def) (metis imageI)

section \<open>The shared state\<close>

fun attempt_of :: "submit_attempt_state \<Rightarrow> u32" where
  "attempt_of (Queued a) = a"
| "attempt_of (Writing a) = a"
| "attempt_of (AwaitingResponse a _) = a"
| "attempt_of (RespondedWhileWriting a) = a"

definition pend_inv :: "u32 \<Rightarrow> (u32 \<rightharpoonup> pending_submit) \<Rightarrow> u32 list \<Rightarrow> bool" where
  "pend_inv retries m admitted \<longleftrightarrow>
     finite (dom m) \<and>
     (\<forall>k p. m k = Some p \<longrightarrow>
        k \<in> set admitted \<and> lease_id (ps_sequence_lease p) = k \<and>
        1 \<le> attempt_of (ps_state p) \<and> attempt_of (ps_state p) \<le> retries)"

text \<open>
  \<open>held\<close>: the leases tasks hold; \<open>n\<close>: the window permits they hold; \<open>ended\<close>: the sequences whose
  SUBMIT has its terminal outcome.
\<close>

definition core_inv :: "inner \<Rightarrow> sequence_lease list \<Rightarrow> u32 list \<Rightarrow> u32 list \<Rightarrow> nat \<Rightarrow> bool" where
  "core_inv s held admitted ended n \<longleftrightarrow>
     reg_inv (in_registry s) held admitted \<and> 1 \<le> in_retry_count s \<and>
     pend_inv (in_retry_count s) (in_pending_submits s) admitted \<and>
     in_window_available s + card (dom (in_pending_submits s)) + n = in_window_size s \<and>
     distinct ended \<and> set ended \<union> {k. unfinished (in_pending_submits s) k} = set admitted \<and>
     (\<forall>k \<in> set ended. \<not> unfinished (in_pending_submits s) k)"

lemma core_inv_same: "same_life s t \<Longrightarrow> core_inv s h a e n \<Longrightarrow> core_inv t h a e n"
  by (simp add: core_inv_def same_life_def)

lemma core_inv_perm:
  "mset h = mset h' \<Longrightarrow> mset e = mset e' \<Longrightarrow> core_inv s h a e n = core_inv s h' a e' n"
  using reg_inv_perm[of h h'] mset_eq_setD[of e e'] mset_eq_imp_distinct_iff[of e e']
  by (simp add: core_inv_def)

lemma core_inv_shift: "core_inv s h a (xs @ k # e) n = core_inv s h a (k # xs @ e) n"
  by (rule core_inv_perm) simp_all

lemma core_inv_registry:
  "core_inv s h a e n \<Longrightarrow> reg_inv r h' a \<Longrightarrow> core_inv (s\<lparr>in_registry := r\<rparr>) h' a e n"
  by (simp add: core_inv_def)

lemma core_inv_drop_lease: "core_inv s (k # h) a e n \<Longrightarrow> core_inv (drop_lease k s) h a e n"
  by (simp add: core_inv_def drop_lease_def reg_inv_drop)

lemma core_inv_drop_udh [simp]: "core_inv (drop_udh u s) h a e n = core_inv s h a e n"
  by (simp add: core_inv_def drop_udh_def split: option.split)

lemma core_inv_release: "core_inv s h a e (Suc n) \<Longrightarrow> core_inv (release_window s) h a e n"
  by (simp add: core_inv_def release_window_def)

lemma core_inv_abandon: "core_inv s (k # h) a e (Suc n) \<Longrightarrow> core_inv (abandon k u s) h a e n"
  by (simp add: abandon_def core_inv_release core_inv_drop_lease)

lemma core_inv_finish: "core_inv s h a e n \<Longrightarrow> core_inv (finish r s) h a e n"
  using same_life_finish by (rule core_inv_same)

text \<open>Changes of the pending map: an entry goes, changes its state, or is added.\<close>

lemma unfinished_update:
  "unfinished (m(k := None)) j \<longleftrightarrow> j \<noteq> k \<and> unfinished m j"
  "unfinished (m(k \<mapsto> p)) j \<longleftrightarrow> (if j = k then \<not> responded_while_writing (ps_state p) else unfinished m j)"
  by (auto simp: unfinished_def)

lemma unfinished_set:
  "{j. unfinished (m(k := None)) j} = {j. unfinished m j} - {k}"
  "{j. unfinished (m(k \<mapsto> p)) j} =
     (if responded_while_writing (ps_state p) then {j. unfinished m j} - {k} else insert k {j. unfinished m j})"
  by (auto simp: unfinished_update)

lemma card_dom_remove: "finite (dom m) \<Longrightarrow> m k = Some p \<Longrightarrow> Suc (card (dom m - {k})) = card (dom m)"
  by (intro card_Suc_Diff1) (auto simp: dom_def)

lemma core_inv_remove:
  assumes I: "core_inv s h a e n" and p: "in_pending_submits s k = Some p"
  shows "core_inv (remove_pending k s) h a
    (if responded_while_writing (ps_state p) then e else k # e) n"
proof -
  have fin: "finite (dom (in_pending_submits s))" and k: "k \<in> set a" "lease_id (ps_sequence_lease p) = k"
    using I p by (auto simp: core_inv_def pend_inv_def)
  have u: "unfinished (in_pending_submits s) k \<longleftrightarrow> \<not> responded_while_writing (ps_state p)"
    using p by (simp add: unfinished_def)
  have "reg_inv (lease_drop (ps_sequence_lease p) (in_registry s)) h a"
    using I k by (intro reg_inv_drop_admitted) (simp_all add: core_inv_def)
  moreover have "pend_inv (in_retry_count s) ((in_pending_submits s)(k := None)) a"
    using I by (auto simp: core_inv_def pend_inv_def)
  ultimately show ?thesis
    using I u k(1) card_dom_remove[OF fin p]
    by (auto simp: core_inv_def remove_pending_def drop_pending_def p unfinished_set unfinished_update)
qed

lemma core_inv_state:
  assumes I: "core_inv s h a e n" and p: "in_pending_submits s k = Some p"
    and st: "\<not> responded_while_writing (ps_state p)" "1 \<le> attempt_of st" "attempt_of st \<le> in_retry_count s"
  shows "core_inv (s\<lparr>in_pending_submits := (in_pending_submits s)(k \<mapsto> p\<lparr>ps_state := st\<rparr>)\<rparr>) h a
    (if responded_while_writing st then k # e else e) n"
proof -
  have u: "unfinished (in_pending_submits s) k" using p st(1) by (simp add: unfinished_def)
  have k: "k \<in> set a" "lease_id (ps_sequence_lease p) = k" using I p by (auto simp: core_inv_def pend_inv_def)
  have "dom ((in_pending_submits s)(k \<mapsto> p\<lparr>ps_state := st\<rparr>)) = dom (in_pending_submits s)" using p by auto
  moreover have "pend_inv (in_retry_count s) ((in_pending_submits s)(k \<mapsto> p\<lparr>ps_state := st\<rparr>)) a"
    using I k st by (auto simp: core_inv_def pend_inv_def)
  ultimately show ?thesis
    using I u k by (auto simp: core_inv_def unfinished_set unfinished_update)
qed

lemma core_inv_attempt:
  "core_inv s h a e n \<Longrightarrow> in_pending_submits s k = Some p \<Longrightarrow>
   1 \<le> attempt_of (ps_state p) \<and> attempt_of (ps_state p) \<le> in_retry_count s"
  by (auto simp: core_inv_def pend_inv_def)

text \<open>A sequence in hand is not pending, so that the insertion adds an entry.\<close>

lemma core_inv_insert:
  assumes I: "core_inv s (l # h) a e (Suc n)" and k: "k = lease_id l" "lease_id (ps_sequence_lease p) = k"
    and q: "k \<in> quarantined (in_registry s)" and st: "ps_state p = Queued 1"
  shows "core_inv (insert_pending k p s) h (k # a) e n" "in_pending_submits s k = None"
proof -
  have "k \<notin> set a" using I k by (auto simp: core_inv_def reg_inv_def)
  then have none: "in_pending_submits s k = None" and e: "k \<notin> set e"
    using I by (auto simp: core_inv_def pend_inv_def dest!: not_None_eq[THEN iffD1])
  have "reg_inv (in_registry s) h (k # a)" using I q unfolding k(1) by (intro reg_inv_admit) (simp_all add: core_inv_def)
  moreover have "pend_inv (in_retry_count s) ((in_pending_submits s)(k \<mapsto> p)) (k # a)"
    using I k(2) st by (auto simp: core_inv_def pend_inv_def)
  moreover have "k \<notin> dom (in_pending_submits s)" "finite (dom (in_pending_submits s))"
    using none I by (auto simp: core_inv_def pend_inv_def)
  ultimately show "core_inv (insert_pending k p s) h (k # a) e n"
    using I none e st by (auto simp: core_inv_def insert_pending_def unfinished_set unfinished_update)
  show "in_pending_submits s k = None" by (rule none)
qed

section \<open>The operations\<close>

lemma core_inv_claim_attempt: "core_inv s h a e n \<Longrightarrow> claim_attempt key s = (c, t) \<Longrightarrow> core_inv t h a e n"
  using core_inv_attempt core_inv_state[where st = "Writing (ak_attempt key)"]
  by (fastforce simp: claim_attempt_def split: option.splits if_splits)

lemma core_inv_claim_batch:
  "core_inv s h a e n \<Longrightarrow> claim_batch allowed obs s = (kept, t) \<Longrightarrow> core_inv t h a e n"
proof (induction obs arbitrary: s kept)
  case (Cons ob obs)
  then show ?case
    by (auto split: option.splits prod.splits if_splits simp: Let_def dest: core_inv_claim_attempt)
qed simp

lemma core_inv_complete: "core_inv s h a e n \<Longrightarrow> core_inv (complete_attempt now key s) h a e n"
  using core_inv_attempt core_inv_state[where st = "AwaitingResponse (ak_attempt key) now"]
    core_inv_remove[where k = "ak_sequence_id key"]
  by (fastforce simp: complete_attempt_def split: option.splits if_splits)

lemma core_inv_complete_all:
  "core_inv s h a e n \<Longrightarrow> core_inv (complete_submit_attempts keys now s) h a e n"
  by (induction keys arbitrary: s) (simp_all add: complete_submit_attempts_def core_inv_complete)

lemma core_inv_match_resp:
  assumes I: "core_inv s h a e n" and m: "match_resp k s = (handled, t)"
  shows "core_inv t h a (if handled then k # e else e) n"
proof (cases "in_pending_submits s k")
  case (Some p)
  show ?thesis
    using core_inv_attempt[OF I Some] core_inv_remove[OF I Some]
      core_inv_state[OF I Some, where st = "RespondedWhileWriting (attempt_of (ps_state p))"] I m
    by (cases "ps_state p") (auto simp: match_resp_def Some)
qed (use I m in \<open>simp add: match_resp_def\<close>)

lemma core_inv_match_resps:
  "core_inv s h a e n \<Longrightarrow> match_resps rs s = (handled, t) \<Longrightarrow> core_inv t h a (map fst handled @ e) n"
proof (induction rs arbitrary: s e handled t)
  case (Cons r rs)
  obtain b u where u: "match_resp (fst r) s = (b, u)" by force
  obtain kept v where v: "match_resps rs u = (kept, v)" by force
  note core_inv_match_resp[OF Cons.prems(1) u]
  note Cons.IH[OF this v]
  then show ?case using Cons.prems(2) by (cases b) (auto simp: u v Let_def core_inv_shift)
qed simp

lemma core_inv_drain:
  assumes "core_inv s h a e n" "distinct order" "set order \<subseteq> dom (in_pending_submits s)"
  shows "core_inv (fold remove_pending order s) h a
    (List.filter (unfinished (in_pending_submits s)) order @ e) n"
  using assms
proof (induction order arbitrary: s e)
  case (Cons k order)
  obtain p where p: "in_pending_submits s k = Some p" using Cons.prems(3) by auto
  let ?t = "remove_pending k s"
  have m: "in_pending_submits ?t = (in_pending_submits s)(k := None)"
    by (simp add: remove_pending_def p drop_pending_def)
  have "set order \<subseteq> dom (in_pending_submits ?t)" using Cons.prems(2,3) by (auto simp: m)
  note IH = Cons.IH[OF core_inv_remove[OF Cons.prems(1) p] _ this]
  have f: "List.filter (unfinished (in_pending_submits ?t)) order =
      List.filter (unfinished (in_pending_submits s)) order"
    using Cons.prems(2) by (auto simp: m unfinished_update intro!: filter_cong)
  have u: "unfinished (in_pending_submits s) k \<longleftrightarrow> \<not> responded_while_writing (ps_state p)"
    using p by (simp add: unfinished_def)
  show ?case using IH Cons.prems(2) unfolding f by (auto simp: u core_inv_shift)
qed simp

lemma core_inv_still_awaiting:
  assumes "core_inv s h a e n" "still_awaiting key s = Some p"
  shows "in_pending_submits s (ak_sequence_id key) = Some p" "\<not> responded_while_writing (ps_state p)"
    "attempt_of (ps_state p) = ak_attempt key" "ps_submission_id p = ak_submission_id key"
  using assms by (auto simp: still_awaiting_def split: option.splits submit_attempt_state.splits if_splits)

lemma core_inv_emit: "core_inv s h a e n \<Longrightarrow> emit_event ev s = (b, t) \<Longrightarrow> core_inv t h a e n"
  using same_life_emit[of s ev] by (simp add: core_inv_same)

lemma remove_retired:
  assumes I: "core_inv s h a e n" and p: "in_pending_submits s k = Some p"
    and live: "\<not> responded_while_writing (ps_state p)"
    and r: "lease_retire (ps_sequence_lease p) (in_registry s) = (isolated, l, r)"
  shows "core_inv (drop_pending (p\<lparr>ps_sequence_lease := l\<rparr>)
    (s\<lparr>in_registry := r, in_pending_submits := (in_pending_submits s)(k := None)\<rparr>)) h a (k # e) n"
proof -
  have fin: "finite (dom (in_pending_submits s))" and k: "k \<in> set a"
    and ri: "reg_inv (in_registry s) h a"
    using I p by (auto simp: core_inv_def pend_inv_def)
  have u: "unfinished (in_pending_submits s) k" using p live by (simp add: unfinished_def)
  have "lease_drop l r = r" by (rule lease_retire_cases(6)[OF _ r]) (use ri in \<open>simp add: reg_inv_def\<close>)
  moreover have "reg_inv r h a" by (rule reg_inv_retire[OF ri r])
  moreover have "pend_inv (in_retry_count s) ((in_pending_submits s)(k := None)) a"
    using I by (auto simp: core_inv_def pend_inv_def)
  ultimately show ?thesis
    using I u k card_dom_remove[OF fin p]
    by (auto simp: core_inv_def drop_pending_def unfinished_set unfinished_update)
qed

text \<open>What a step of the timeout task does to the entry: nothing, a new attempt, or its end.\<close>

definition timeout_ended :: "submit_attempt_key \<Rightarrow> inner \<Rightarrow> inner \<Rightarrow> u32 list" where
  "timeout_ended key s t =
     (if in_pending_submits s (ak_sequence_id key) \<noteq> None \<and> in_pending_submits t (ak_sequence_id key) = None
      then [ak_sequence_id key] else [])"

lemma emit_pending: "emit_event ev s = (b, t) \<Longrightarrow> in_pending_submits t = in_pending_submits s"
  using same_life_emit[of s ev] by (simp add: same_life_def)

lemma finish_pending [simp]: "in_pending_submits (finish r s) = in_pending_submits s"
  using same_life_finish[of s r] by (simp add: same_life_def)

lemma core_inv_give_up:
  assumes I: "core_inv s h a e n" and g: "give_up_submit key s = (c, t)"
  shows "core_inv t h a (timeout_ended key s t @ e) n"
proof (cases "still_awaiting key s")
  case None
  then show ?thesis using I g by (auto simp: give_up_submit_def timeout_ended_def)
next
  case (Some p)
  note A = core_inv_still_awaiting[OF I Some]
  obtain b u where u: "emit_event (SubmitTimeout (ak_sequence_id key) (ak_attempt key)) s = (b, u)" by force
  have Iu: "core_inv u h a e n" by (rule core_inv_emit[OF I u])
  have pu: "in_pending_submits u (ak_sequence_id key) = Some p" using A(1) by (simp add: emit_pending[OF u])
  obtain i l r where r: "lease_retire (ps_sequence_lease p) (in_registry u) = (i, l, r)"
    by (cases "lease_retire (ps_sequence_lease p) (in_registry u)")
  let ?v = "drop_pending (p\<lparr>ps_sequence_lease := l\<rparr>)
    (u\<lparr>in_registry := r, in_pending_submits := (in_pending_submits u)(ak_sequence_id key := None)\<rparr>)"
  let ?w = "?v\<lparr>in_submit_timeouts := in_submit_timeouts ?v + 1\<rparr>"
  have "core_inv ?w h a (ak_sequence_id key # e) n"
    using remove_retired[OF Iu pu A(2) r] by (simp add: core_inv_def)
  then have W: "core_inv ?w h a (ak_sequence_id key # e) n"
    "core_inv (finish (Some Error_ChannelClosed) ?w) h a (ak_sequence_id key # e) n"
    by (simp_all add: core_inv_finish)
  have gone: "in_pending_submits ?w (ak_sequence_id key) = None" by (simp add: drop_pending_def)
  show ?thesis
  proof (cases b)
    case False
    then show ?thesis
      using Iu g pu by (auto simp: give_up_submit_def Some u timeout_ended_def)
  next
    case True
    then have "t = (if i then ?w else finish (Some Error_ChannelClosed) ?w)"
      using g by (auto simp: give_up_submit_def Some u pu r Let_def split: if_splits)
    then show ?thesis using W gone A(1) by (simp add: timeout_ended_def)
  qed
qed

lemma u32_next_attempt:
  assumes "(x :: u32) < m" shows "1 \<le> x + 1 \<and> x + 1 \<le> m"
proof -
  have "x \<noteq> - 1" using assms by auto
  then have "unat (x + 1) = Suc (unat x)" by (rule unat_u32_Suc)
  then show ?thesis using assms by (simp add: word_le_nat_alt word_less_nat_alt)
qed

lemma core_inv_retry:
  assumes I: "core_inv s h a e n" and lt: "ak_attempt key < in_retry_count s"
  shows "core_inv (requeue_submit key s) h a e n"
    "in_pending_submits s k = None \<longleftrightarrow> in_pending_submits (requeue_submit key s) k = None"
proof -
  have "core_inv (requeue_submit key s) h a e n \<and>
    (in_pending_submits s k = None \<longleftrightarrow> in_pending_submits (requeue_submit key s) k = None)"
  proof (cases "still_awaiting key s")
    case None
    then show ?thesis using I by (simp add: requeue_submit_def)
  next
    case (Some p)
    note A = core_inv_still_awaiting[OF I Some]
    have "1 \<le> ak_attempt key + 1 \<and> ak_attempt key + 1 \<le> in_retry_count s"
      using lt by (rule u32_next_attempt)
    then have "core_inv (s\<lparr>in_pending_submits := (in_pending_submits s)(ak_sequence_id key \<mapsto>
        p\<lparr>ps_state := Queued (ak_attempt key + 1)\<rparr>)\<rparr>) h a e n"
      using core_inv_state[OF I A(1,2), of "Queued (ak_attempt key + 1)"] by simp
    then show ?thesis using I A(1) by (auto simp: requeue_submit_def Some Let_def core_inv_def)
  qed
  then show "core_inv (requeue_submit key s) h a e n"
    "in_pending_submits s k = None \<longleftrightarrow> in_pending_submits (requeue_submit key s) k = None" by simp_all
qed

lemma core_inv_timeout:
  assumes I: "core_inv s h a e n" and t: "timeout_submit key s = (c, t)"
  shows "core_inv t h a (timeout_ended key s t @ e) n"
  using t
proof (cases rule: timeout_submit_cases)
  case last
  then show ?thesis by (intro core_inv_give_up[OF I])
next
  case again
  then show ?thesis
    using core_inv_retry(1)[OF I, of key] core_inv_retry(2)[OF I, of key "ak_sequence_id key"]
    by (auto simp: timeout_ended_def)
next
  case lost
  then have "same_life s t" by (simp add: same_life_queues_lost)
  then show ?thesis using core_inv_same[OF _ I] by (auto simp: timeout_ended_def same_life_def)
qed

lemma core_inv_acquire:
  "core_inv s h a e n \<Longrightarrow> acquire_window s = Some (Ok (), t) \<Longrightarrow> core_inv t h a e (Suc n)"
  by (auto simp: acquire_window_def core_inv_def split: if_splits)

lemma core_inv_leases:
  assumes I: "core_inv s h a e n" and l: "submit_leases (Some base) segments u s = (Ok (Some ls), t)"
  shows "core_inv t (ls @ h) a e n"
proof -
  obtain r where r: "reserve_batch base segments (in_registry s) = (Some ls, r)" "t = s\<lparr>in_registry := r\<rparr>"
    using l by (auto simp: submit_leases_def split: prod.splits option.splits)
  have "reg_inv r (ls @ h) a" by (rule reg_inv_batch[OF _ r(1)]) (use I in \<open>simp add: core_inv_def\<close>)
  then show ?thesis using I by (simp add: r(2) core_inv_registry)
qed

text \<open>The submissions that wait for a slot: their key is that of the lease they hold.\<close>

definition ready_ok :: "submission \<Rightarrow> bool" where
  "ready_ok b \<longleftrightarrow> ak_sequence_id (sb_key b) = lease_id (sb_lease b) \<and> ak_attempt (sb_key b) = 1"

definition new_ready :: "'a result \<Rightarrow> 'a list" where
  "new_ready r = (case r of Ok b \<Rightarrow> [b] | _ \<Rightarrow> [])"

definition prepared :: "submission result \<Rightarrow> sequence_lease list" where
  "prepared r = (case r of Ok b \<Rightarrow> [sb_lease b] | _ \<Rightarrow> [])"

lemma prepared_sel [simp]: "prepared (Ok b) = [sb_lease b]" "prepared (Err e) = []" "prepared Panic = []"
  by (simp_all add: prepared_def)

lemma core_inv_next_id: "core_inv s h a e n \<Longrightarrow> next_submission_id s = (i, t) \<Longrightarrow> core_inv t h a e n"
  by (auto simp: next_submission_id_def core_inv_def)

text \<open>From the lease on, both ways into \<open>submit_prepare\<close> are the same.\<close>

definition prepare_with :: "sequence_lease \<Rightarrow> submit \<Rightarrow> udh_lease option \<Rightarrow> inner \<Rightarrow> submission result \<times> inner" where
  "prepare_with l message u s =
     (case submit_try_encode message (lease_id l) of
        Err e \<Rightarrow> (Err e, abandon l u s)
      | Panic \<Rightarrow> (Panic, abandon l u s)
      | Ok bs \<Rightarrow>
          (case next_submission_id s of
             (submission_id, s) \<Rightarrow>
               (Ok \<lparr>sb_lease = l, sb_bytes = bs,
                    sb_key = \<lparr>ak_sequence_id = lease_id l, ak_submission_id = submission_id, ak_attempt = 1\<rparr>,
                    sb_udh = u\<rparr>, s)))"

lemma core_inv_prepare_with:
  assumes "core_inv s (l # h) a e (Suc n)" "prepare_with l message u s = (r, t)"
  shows "core_inv t (prepared r @ h) a e (length (prepared r) + n)" "r = Ok b \<Longrightarrow> ready_ok b"
proof -
  obtain i v where i: "next_submission_id s = (i, v)" by force
  note V = core_inv_next_id[OF assms(1) i] and A = core_inv_abandon[OF assms(1)]
  show "core_inv t (prepared r @ h) a e (length (prepared r) + n)" "r = Ok b \<Longrightarrow> ready_ok b"
    using assms(2) V A by (auto simp: prepare_with_def i ready_ok_def split: res.splits)
qed

lemma core_inv_prepare:
  assumes I: "core_inv s ((case manual of None \<Rightarrow> [] | Some l \<Rightarrow> [l]) @ h) a e (Suc n)"
    and P: "submit_prepare gbk manual template plan index reference u s = (r, t)"
  shows "core_inv t (prepared r @ h) a e (length (prepared r) + n) \<and> (\<forall>b. r = Ok b \<longrightarrow> ready_ok b)"
proof (cases "plan_segment gbk plan index reference")
  case (Ok segment)
  let ?m = "apply_segment template segment"
  show ?thesis
  proof (cases manual)
    case (Some l)
    then have "prepare_with l ?m u s = (r, t)"
      using P by (simp add: submit_prepare_def Ok prepare_with_def Let_def)
    then show ?thesis using core_inv_prepare_with[where l = l and s = s] I Some by auto
  next
    case None
    obtain k q where q: "reserve_next (in_registry s) = (k, q)" by force
    let ?s = "s\<lparr>in_registry := q\<rparr>"
    show ?thesis
    proof (cases k)
      case (Some l)
      then have "reg_inv q (l # h) a" using I q reg_inv_reserve(1)[of "in_registry s"] None by (simp add: core_inv_def)
      then have "core_inv ?s (l # h) a e (Suc n)" using I None by (simp add: core_inv_registry)
      moreover have "prepare_with l ?m u ?s = (r, t)"
        using P by (simp add: submit_prepare_def Ok None q Some prepare_with_def Let_def)
      ultimately show ?thesis using core_inv_prepare_with[where l = l and s = ?s] by auto
    next
      case none: None
      then have "reg_inv q h a" using I q reg_inv_reserve_None[of "in_registry s"] None by (simp add: core_inv_def)
      then have "core_inv ?s h a e (Suc n)" using I None by (simp add: core_inv_registry)
      then have "core_inv (release_window (finish (Some Error_ChannelClosed) ?s)) h a e n"
        by (intro core_inv_release core_inv_finish)
      then show ?thesis using P by (auto simp: submit_prepare_def Ok None q none)
    qed
  qed
next
  case (Err er)
  then show ?thesis
    using I P by (cases manual) (auto simp: submit_prepare_def abandon_manual_def
        intro!: core_inv_release core_inv_drop_lease)
next
  case Panic
  then show ?thesis
    using I P by (cases manual) (auto simp: submit_prepare_def abandon_manual_def
        intro!: core_inv_release core_inv_drop_lease)
qed

lemma core_inv_commit:
  assumes I: "core_inv s (sb_lease b # h) a e (Suc n)" and k: "ready_ok b" and c: "submit_commit b s = (r, t)"
  shows "core_inv t h (new_ready r @ a) e n"
proof -
  let ?k = "ak_sequence_id (sb_key b)"
  have key: "?k = lease_id (sb_lease b)" using k by (simp add: ready_ok_def)
  define ri where "ri = (if lease_manual (sb_lease b) then lease_retire (sb_lease b) (in_registry s)
            else (True, sb_lease b, in_registry s))"
  obtain i l q where q: "ri = (i, l, q)" by (cases ri)
  have R: "reg_inv (in_registry s) (sb_lease b # h) a" using I by (simp add: core_inv_def)
  have rq: "reg_inv q (sb_lease b # h) a" "lease_id l = ?k" "i \<Longrightarrow> ?k \<in> quarantined q"
    "\<not> i \<Longrightarrow> lease_drop l q = q"
  proof -
    have inv: "seq_inv (in_registry s)" using R by (simp add: reg_inv_def)
    note C = lease_retire_cases[OF inv]
    show "reg_inv q (sb_lease b # h) a" "lease_id l = ?k" "i \<Longrightarrow> ?k \<in> quarantined q"
      "\<not> i \<Longrightarrow> lease_drop l q = q"
      using q R C reg_inv_retire[OF R] key unfolding ri_def
      by (auto simp: reg_inv_def split: if_splits)
  qed
  let ?s = "s\<lparr>in_registry := q\<rparr>"
  have Is: "core_inv ?s (sb_lease b # h) a e (Suc n)" using I rq(1) by (rule core_inv_registry)
  show ?thesis
  proof (cases "in_phase s = Phase_Open")
    case False
    then show ?thesis using c core_inv_abandon[OF I] by (auto simp: submit_commit_def Let_def new_ready_def)
  next
    case op: True
    show ?thesis
    proof (cases i)
      case False
      have "core_inv (finish (Some Error_ChannelClosed) ?s) h a e (Suc n)"
        using core_inv_finish[OF Is] by (simp add: core_inv_def reg_inv_def)
      moreover have "lease_drop l (in_registry (finish (Some Error_ChannelClosed) ?s)) =
          in_registry (finish (Some Error_ChannelClosed) ?s)"
        using rq(4)[OF False] same_life_finish[of ?s] by (simp add: same_life_def)
      ultimately have "core_inv (abandon l (sb_udh b) (finish (Some Error_ChannelClosed) ?s)) h a e n"
        by (simp add: abandon_def drop_lease_def core_inv_release)
      then show ?thesis
        using c op False q by (auto simp: submit_commit_def ri_def[symmetric] new_ready_def)
    next
      case True
      let ?p = "\<lparr>ps_submission_id = ak_submission_id (sb_key b), ps_packet = sb_bytes b,
                 ps_state = Queued 1, ps_udh_lease = map_option mark_exposed (sb_udh b),
                 ps_sequence_lease = l\<rparr>"
      have "core_inv (insert_pending ?k ?p ?s) h (?k # a) e n"
        by (rule core_inv_insert(1)[OF Is key]) (simp_all add: rq True)
      then show ?thesis
        using c op True q by (auto simp: submit_commit_def ri_def[symmetric] Let_def core_inv_def new_ready_def)
    qed
  qed
qed

section \<open>The steps\<close>

definition held :: "life \<Rightarrow> sequence_lease list" where
  "held l = lf_manual l @ map sb_lease (lf_ready l) @ lf_other l"

definition life_core :: "life \<Rightarrow> bool" where
  "life_core l \<longleftrightarrow>
     core_inv (lf_inner l) (held l) (lf_admitted l) (map snd (lf_done l)) (lf_permits l + length (lf_ready l)) \<and>
     (\<forall>b \<in> set (lf_ready l). ready_ok b)"

lemma life_coreI:
  assumes "core_inv s h a e n" "mset h = mset (held l)" "s = lf_inner l" "a = lf_admitted l"
    "e = map snd (lf_done l)" "n = lf_permits l + length (lf_ready l)" "\<And>b. b \<in> set (lf_ready l) \<Longrightarrow> ready_ok b"
  shows "life_core l"
  using assms core_inv_perm[OF assms(2) refl] by (simp add: life_core_def)

lemma life_coreD:
  assumes "life_core l" "mset h = mset (held l)" "n = lf_permits l + length (lf_ready l)"
  shows "core_inv (lf_inner l) h (lf_admitted l) (map snd (lf_done l)) n"
  using assms core_inv_perm[OF assms(2) refl] by (simp add: life_core_def)

lemma life_core_ready: "life_core l \<Longrightarrow> b \<in> set (lf_ready l) \<Longrightarrow> ready_ok b"
  by (simp add: life_core_def)

text \<open>The queues are no part of it.\<close>

lemma core_inv_queue: "life_core l \<Longrightarrow> life_core (l\<lparr>lf_inner := (lf_inner l)\<lparr>in_submit_queue := q\<rparr>\<rparr>)"
  by (simp add: life_core_def core_inv_def held_def)

lemma ready_case: "(case r of Ok b \<Rightarrow> b # xs | _ \<Rightarrow> xs) = new_ready r @ xs"
  by (simp add: new_ready_def split: res.split)

lemma prepared_map: "map sb_lease (new_ready r) = prepared r" "length (new_ready r) = length (prepared r)"
  by (simp_all add: prepared_def new_ready_def split: res.split)

lemma new_ready_ok: "b \<in> set (new_ready r) \<longleftrightarrow> r = Ok b"
  by (auto simp: new_ready_def split: res.split)

lemma life_core_step: "life_step l m \<Longrightarrow> life_core l \<Longrightarrow> life_core m"
proof (induction rule: life_step.induct)
  case (acquire l t)
  show ?case
    by (rule life_coreI[OF core_inv_acquire[OF life_coreD[OF acquire(2) refl refl] acquire(1)]])
      (use life_core_ready[OF acquire(2)] in \<open>simp_all add: held_def\<close>)
next
  case (permit_dropped l)
  show ?case
    by (rule life_coreI[OF core_inv_release, OF life_coreD[OF permit_dropped(2) refl]])
      (use life_core_ready[OF permit_dropped(2)] permit_dropped(1) in \<open>simp_all add: held_def\<close>)
next
  case (leases base segments u l ls t)
  show ?case
    by (rule life_coreI[OF core_inv_leases[OF life_coreD[OF leases(2) refl refl] leases(1)]])
      (use life_core_ready[OF leases(2)] in \<open>simp_all add: held_def\<close>)
next
  case (lease_dropped l xs k ys)
  show ?case
    by (rule life_coreI[OF core_inv_drop_lease, OF life_coreD[OF lease_dropped(2), of "k # xs @ ys @ map sb_lease (lf_ready l) @ lf_other l", OF _ refl]])
      (use life_core_ready[OF lease_dropped(2)] lease_dropped(1) in \<open>simp_all add: held_def\<close>)
next
  case (prepare_auto l gbk template plan index reference u r t)
  obtain n where n: "lf_permits l = Suc n" using prepare_auto(1) gr0_implies_Suc by blast
  have C: "core_inv t (prepared r @ held l) (lf_admitted l) (map snd (lf_done l))
      (length (prepared r) + (n + length (lf_ready l))) \<and> (\<forall>b. r = Ok b \<longrightarrow> ready_ok b)"
    using life_coreD[OF prepare_auto(3) refl] n by (intro core_inv_prepare[OF _ prepare_auto(2)]) simp
  have ok: "ready_ok b" if "b \<in> set (new_ready r @ lf_ready l)" for b
    using that C life_core_ready[OF prepare_auto(3)] by (auto simp: new_ready_ok)
  show ?case
    by (rule life_coreI[OF conjunct1[OF C]])
      (use ok in \<open>simp_all add: held_def ready_case n prepared_map\<close>)
next
  case (prepare_manual l xs k ys gbk template plan index reference u r t)
  obtain n where n: "lf_permits l = Suc n" using prepare_manual(1) gr0_implies_Suc by blast
  let ?h = "xs @ ys @ map sb_lease (lf_ready l) @ lf_other l"
  have "core_inv (lf_inner l) (k # ?h) (lf_admitted l) (map snd (lf_done l)) (Suc (n + length (lf_ready l)))"
    by (rule life_coreD[OF prepare_manual(4)]) (simp_all add: n held_def prepare_manual(2))
  then have C: "core_inv t (prepared r @ ?h) (lf_admitted l) (map snd (lf_done l))
      (length (prepared r) + (n + length (lf_ready l))) \<and> (\<forall>b. r = Ok b \<longrightarrow> ready_ok b)"
    by (intro core_inv_prepare[OF _ prepare_manual(3)]) simp
  have ok: "ready_ok b" if "b \<in> set (new_ready r @ lf_ready l)" for b
    using that C life_core_ready[OF prepare_manual(4)] by (auto simp: new_ready_ok)
  show ?case
    by (rule life_coreI[OF conjunct1[OF C]])
      (use ok in \<open>simp_all add: held_def ready_case n prepared_map\<close>)
next
  case (abandoned l xs b ys)
  let ?h = "lf_manual l @ map sb_lease xs @ map sb_lease ys @ lf_other l"
  have "core_inv (lf_inner l) (sb_lease b # ?h) (lf_admitted l) (map snd (lf_done l))
      (Suc (lf_permits l + length xs + length ys))"
    by (rule life_coreD[OF abandoned(2)]) (simp_all add: abandoned(1) held_def)
  then show ?case
    by (rule life_coreI[OF core_inv_abandon])
      (use life_core_ready[OF abandoned(2)] abandoned(1) in \<open>simp_all add: held_def\<close>)
next
  case (commit l xs b ys r t)
  let ?h = "lf_manual l @ map sb_lease xs @ map sb_lease ys @ lf_other l"
  have "core_inv (lf_inner l) (sb_lease b # ?h) (lf_admitted l) (map snd (lf_done l))
      (Suc (lf_permits l + length xs + length ys))"
    by (rule life_coreD[OF commit(3)]) (simp_all add: commit(1) held_def)
  moreover have "ready_ok b" using life_core_ready[OF commit(3)] commit(1) by simp
  ultimately have "core_inv t ?h (new_ready r @ lf_admitted l) (map snd (lf_done l))
      (lf_permits l + length xs + length ys)"
    by (rule core_inv_commit[OF _ _ commit(2)])
  then show ?case
    by (rule life_coreI)
      (use life_core_ready[OF commit(3)] commit(1) in \<open>simp_all add: held_def ready_case\<close>)
next
  case (take l ob obs)
  show ?case
    by (rule life_coreI[OF life_coreD[OF core_inv_queue[OF take(2)] refl refl]])
      (use life_core_ready[OF take(2)] in \<open>simp_all add: held_def\<close>)
next
  case (claim l kept t)
  show ?case
    by (rule life_coreI[OF core_inv_claim_batch[OF life_coreD[OF claim(3) refl refl]], OF claim(2)[unfolded claim_submit_attempts_def]])
      (use life_core_ready[OF claim(3)] in \<open>simp_all add: held_def\<close>)
next
  case (written l now)
  show ?case
    by (rule life_coreI[OF core_inv_complete_all[OF life_coreD[OF written(1) refl refl]]])
      (use life_core_ready[OF written(1)] in \<open>simp_all add: held_def\<close>)
next
  case (marker l n)
  show ?case
    by (rule life_coreI[OF life_coreD[OF core_inv_queue[OF marker(2)] refl refl]])
      (use life_core_ready[OF marker(2)] in \<open>simp_all add: held_def\<close>)
next
  case (writer_gone l)
  then show ?case by (simp add: life_core_def held_def)
next
  case (respond resps l handled t)
  have "core_inv (fold publish_resp handled t) (held l) (lf_admitted l)
      (map fst handled @ map snd (lf_done l)) (lf_permits l + length (lf_ready l))"
    by (rule core_inv_same[OF same_life_fold[OF same_life_publish]])
      (rule core_inv_match_resps[OF life_coreD[OF respond(2) refl refl] respond(1)])
  then show ?case
    by (rule life_coreI) (use life_core_ready[OF respond(2)] in \<open>simp_all add: held_def comp_def\<close>)
next
  case (timeout key l continue t gone)
  have "core_inv t (held l) (lf_admitted l)
      (timeout_ended key (lf_inner l) t @ map snd (lf_done l)) (lf_permits l + length (lf_ready l))"
    by (rule core_inv_timeout[OF life_coreD[OF timeout(3) refl refl] timeout(1)])
  then show ?case
    by (rule life_coreI)
      (use life_core_ready[OF timeout(3)] timeout(2) in \<open>simp_all add: held_def timeout_ended_def\<close>)
next
  case (drain order l dropped t)
  have "core_inv (fold remove_pending order (lf_inner l)) (held l) (lf_admitted l)
      (List.filter (unfinished (in_pending_submits (lf_inner l))) order @ map snd (lf_done l))
      (lf_permits l + length (lf_ready l))"
    by (rule core_inv_drain[OF life_coreD[OF drain(5) refl refl] drain(2)]) (simp add: drain(1))
  moreover have "dropped = List.filter (unfinished (in_pending_submits (lf_inner l))) order"
    "t = fold remove_pending order (lf_inner l)"
    using drain(4) by (simp_all add: drain_pending_def)
  ultimately have "core_inv t (held l) (lf_admitted l) (dropped @ map snd (lf_done l))
      (lf_permits l + length (lf_ready l))" by simp
  then show ?case
    by (rule life_coreI)
      (use life_core_ready[OF drain(5)] in \<open>simp_all add: held_def comp_def\<close>)
next
  case (other_reserve l k r)
  have "reg_inv r (k # held l) (lf_admitted l)"
    by (rule reg_inv_reserve(1)[OF _ other_reserve(1)])
      (use life_coreD[OF other_reserve(2) refl refl] in \<open>simp add: core_inv_def\<close>)
  then have "core_inv ((lf_inner l)\<lparr>in_registry := r\<rparr>) (k # held l) (lf_admitted l) (map snd (lf_done l))
      (lf_permits l + length (lf_ready l))"
    by (rule core_inv_registry[OF life_coreD[OF other_reserve(2) refl refl]])
  then show ?case
    by (rule life_coreI) (use life_core_ready[OF other_reserve(2)] in \<open>simp_all add: held_def\<close>)
next
  case (other_exhausted l r)
  have "reg_inv r (held l) (lf_admitted l)"
    by (rule reg_inv_reserve_None[OF _ other_exhausted(1)])
      (use life_coreD[OF other_exhausted(2) refl refl] in \<open>simp add: core_inv_def\<close>)
  then have "core_inv ((lf_inner l)\<lparr>in_registry := r\<rparr>) (held l) (lf_admitted l) (map snd (lf_done l))
      (lf_permits l + length (lf_ready l))"
    by (rule core_inv_registry[OF life_coreD[OF other_exhausted(2) refl refl]])
  then show ?case
    by (rule life_coreI) (use life_core_ready[OF other_exhausted(2)] in \<open>simp_all add: held_def\<close>)
next
  case (other_dropped l xs k ys)
  let ?h = "lf_manual l @ map sb_lease (lf_ready l) @ xs @ ys"
  have "core_inv (lf_inner l) (k # ?h) (lf_admitted l) (map snd (lf_done l)) (lf_permits l + length (lf_ready l))"
    by (rule life_coreD[OF other_dropped(2)]) (simp_all add: other_dropped(1) held_def)
  then show ?case
    by (rule life_coreI[OF core_inv_drop_lease])
      (use life_core_ready[OF other_dropped(2)] in \<open>simp_all add: held_def\<close>)
next
  case (environment l t)
  show ?case
    by (rule life_coreI[OF core_inv_same[OF environment(1)], OF life_coreD[OF environment(2) refl refl]])
      (use life_core_ready[OF environment(2)] in \<open>simp_all add: held_def\<close>)
qed

end
