(* ===== verification/Cmpp_Attempts.thy ===== *)
theory Cmpp_Attempts
  imports Cmpp_Invariant
begin

text \<open>
  The attempts of a SUBMIT: while the connection is open every pending attempt is on its way (in the
  queue, with the writer, or written and awaited), and each attempt is claimed for the wire at most
  once, with a number between 1 and the retry count.
\<close>

section \<open>Where an attempt is\<close>

definition key_of :: "u32 \<Rightarrow> pending_submit \<Rightarrow> submit_attempt_key" where
  "key_of k p =
     \<lparr>ak_sequence_id = k, ak_submission_id = ps_submission_id p, ak_attempt = attempt_of (ps_state p)\<rparr>"

lemma key_of_sel [simp]:
  "ak_sequence_id (key_of k p) = k" "ak_submission_id (key_of k p) = ps_submission_id p"
  "ak_attempt (key_of k p) = attempt_of (ps_state p)"
  by (simp_all add: key_of_def)

fun place :: "submit_attempt_key set \<Rightarrow> submit_attempt_key set \<Rightarrow> submit_attempt_state \<Rightarrow> submit_attempt_key \<Rightarrow> bool" where
  "place queued writing (Queued _) key \<longleftrightarrow> key \<in> queued"
| "place queued writing (Writing _) key \<longleftrightarrow> key \<in> writing"
| "place queued writing (AwaitingResponse _ _) key \<longleftrightarrow> True"
| "place queued writing (RespondedWhileWriting _) key \<longleftrightarrow> key \<in> writing"

definition tracked :: "(u32 \<rightharpoonup> pending_submit) \<Rightarrow> submit_attempt_key set \<Rightarrow> submit_attempt_key set \<Rightarrow> bool" where
  "tracked m queued writing \<longleftrightarrow>
     (\<forall>k p. m k = Some p \<longrightarrow> place queued writing (ps_state p) (key_of k p))"

lemma place_mono: "place q w st key \<Longrightarrow> q \<subseteq> q' \<Longrightarrow> w \<subseteq> w' \<Longrightarrow> place q' w' st key"
  by (cases st) auto

lemma tracked_mono: "tracked m q w \<Longrightarrow> q \<subseteq> q' \<Longrightarrow> w \<subseteq> w' \<Longrightarrow> tracked m q' w'"
  unfolding tracked_def using place_mono by blast

lemma tracked_UNIV: "tracked m UNIV UNIV"
proof -
  have "place UNIV UNIV st key" for st key by (cases st) simp_all
  then show ?thesis by (simp add: tracked_def)
qed

lemma tracked_update:
  "tracked m q w \<Longrightarrow> place q w (ps_state p) (key_of k p) \<Longrightarrow> tracked (m(k \<mapsto> p)) q w"
  "tracked m q w \<Longrightarrow> tracked (m(k := None)) q w"
  by (auto simp: tracked_def)

lemma tracked_remove: "tracked (in_pending_submits s) q w \<Longrightarrow> tracked (in_pending_submits (remove_pending k s)) q w"
  by (auto simp: remove_pending_def drop_pending_def tracked_update split: option.split)

section \<open>Which attempts were sent\<close>

fun sent_before :: "u32 \<Rightarrow> submit_attempt_state \<Rightarrow> bool" where
  "sent_before x (Queued a) \<longleftrightarrow> x < a"
| "sent_before x st \<longleftrightarrow> x \<le> attempt_of st"

definition sent_inv :: "u32 \<Rightarrow> (u32 \<rightharpoonup> pending_submit) \<Rightarrow> submit_attempt_key list \<Rightarrow> u32 list \<Rightarrow> bool" where
  "sent_inv retries m claimed admitted \<longleftrightarrow>
     distinct (map (\<lambda>c. (ak_sequence_id c, ak_attempt c)) claimed) \<and>
     (\<forall>c \<in> set claimed.
        ak_sequence_id c \<in> set admitted \<and> 1 \<le> ak_attempt c \<and> ak_attempt c \<le> retries \<and>
        (\<forall>p. m (ak_sequence_id c) = Some p \<longrightarrow> sent_before (ak_attempt c) (ps_state p)))"

lemma sent_inv_update:
  assumes "sent_inv n m cs a" "\<And>c. c \<in> set cs \<Longrightarrow> ak_sequence_id c = k \<Longrightarrow> sent_before (ak_attempt c) (ps_state p)"
  shows "sent_inv n (m(k \<mapsto> p)) cs a"
  using assms by (auto simp: sent_inv_def)

lemma sent_inv_None: "sent_inv n m cs a \<Longrightarrow> sent_inv n (m(k := None)) cs a"
  by (auto simp: sent_inv_def)

lemma sent_inv_remove: "sent_inv n (in_pending_submits s) cs a \<Longrightarrow> sent_inv n (in_pending_submits (remove_pending k s)) cs a"
  by (auto simp: remove_pending_def drop_pending_def sent_inv_None split: option.split)

lemma sent_invD:
  "sent_inv n m cs a \<Longrightarrow> c \<in> set cs \<Longrightarrow> m (ak_sequence_id c) = Some p \<Longrightarrow> sent_before (ak_attempt c) (ps_state p)"
  by (auto simp: sent_inv_def)

section \<open>The operations\<close>

lemma claim_attempt_cases:
  assumes "claim_attempt key s = (c, t)"
  obtains p where "c" "in_pending_submits s (ak_sequence_id key) = Some p" "ps_submission_id p = ak_submission_id key"
      "ps_state p = Queued (ak_attempt key)"
      "t = s\<lparr>in_pending_submits := (in_pending_submits s)
         (ak_sequence_id key \<mapsto> p\<lparr>ps_state := Writing (ak_attempt key)\<rparr>)\<rparr>"
  | "\<not> c" "t = s" "\<And>p. in_pending_submits s (ak_sequence_id key) = Some p \<Longrightarrow>
      ps_submission_id p = ak_submission_id key \<Longrightarrow> ps_state p \<noteq> Queued (ak_attempt key)"
  using assms by (auto simp: claim_attempt_def split: option.splits if_splits)

lemma tracked_claim_attempt:
  assumes T: "tracked (in_pending_submits s) (insert key q) w" and c: "claim_attempt key s = (c, t)"
  shows "tracked (in_pending_submits t) q (if c then insert key w else w)"
  using c
proof (cases rule: claim_attempt_cases)
  case (1 p)
  have "place q (insert key w) (ps_state p') (key_of k p')"
    if "in_pending_submits s k = Some p'" "k \<noteq> ak_sequence_id key" for k p'
  proof -
    have "place (insert key q) w (ps_state p') (key_of k p')" using T that(1) by (simp add: tracked_def)
    moreover have "key_of k p' \<noteq> key" using that(2) by auto
    ultimately show ?thesis by (cases "ps_state p'") auto
  qed
  then show ?thesis using 1 by (auto simp: tracked_def key_of_def)
next
  case 2
  have "place q w (ps_state p) (key_of k p)" if p: "in_pending_submits s k = Some p" for k p
  proof (cases "key_of k p = key \<and> (\<exists>a. ps_state p = Queued a)")
    case True
    then show ?thesis using 2(3)[of p] p by (auto simp: key_of_def)
  next
    case False
    have "place (insert key q) w (ps_state p) (key_of k p)" using T p by (simp add: tracked_def)
    then show ?thesis using False by (cases "ps_state p") auto
  qed
  then show ?thesis using 2 by (simp add: tracked_def)
qed

lemma sent_claim_attempt:
  assumes S: "sent_inv (in_retry_count s) (in_pending_submits s) cs a" and c: "claim_attempt key s = (c, t)"
    and I: "core_inv s h a e n"
  shows "sent_inv (in_retry_count t) (in_pending_submits t) (if c then key # cs else cs) a"
  using c
proof (cases rule: claim_attempt_cases)
  case (1 p)
  have att: "ak_sequence_id key \<in> set a" "1 \<le> ak_attempt key" "ak_attempt key \<le> in_retry_count s"
    using I 1 by (auto simp: core_inv_def pend_inv_def dest!: spec)
  have lt: "ak_attempt d < ak_attempt key" if "d \<in> set cs" "ak_sequence_id d = ak_sequence_id key" for d
    using sent_invD[OF S that(1), of p] 1 that(2) by simp
  have "sent_inv (in_retry_count s) (in_pending_submits t) cs a"
    unfolding 1(5) using lt by (auto intro!: sent_inv_update[OF S] less_imp_le)
  then show ?thesis using 1 lt att by (fastforce simp: sent_inv_def)
next
  case 2
  then show ?thesis using S by simp
qed

text \<open>What no operation on the pending map touches.\<close>

definition keeps :: "inner \<Rightarrow> inner \<Rightarrow> bool" where
  "keeps s t \<longleftrightarrow>
     in_retry_count t = in_retry_count s \<and> in_window_size t = in_window_size s \<and>
     in_submit_queue t = in_submit_queue s \<and> (in_phase t = Phase_Open \<longrightarrow> in_phase s = Phase_Open)"

lemma keeps_refl [simp]: "keeps s s"
  by (simp add: keeps_def)

lemma keeps_trans: "keeps s t \<Longrightarrow> keeps t u \<Longrightarrow> keeps s u"
  by (simp add: keeps_def)

lemma keeps_same: "same_life s t \<Longrightarrow> keeps s t"
  by (simp add: keeps_def same_life_def)

lemma keeps_update [simp]: "keeps s (s\<lparr>in_pending_submits := m\<rparr>)" "keeps s (s\<lparr>in_registry := r\<rparr>)"
  by (simp_all add: keeps_def)

lemma keeps_remove: "keeps s (remove_pending k s)"
  by (simp add: remove_pending_def drop_pending_def keeps_def split: option.split)

lemma keeps_fold: "(\<And>x s. keeps s (f x s)) \<Longrightarrow> keeps s (fold f xs s)"
  by (induction xs arbitrary: s) (auto intro: keeps_trans)

lemma submit_keys_simps [simp]:
  "submit_keys [] = []" "submit_keys (xs @ ys) = submit_keys xs @ submit_keys ys"
  "submit_keys (ob # obs) = (case ob_submit_attempt ob of None \<Rightarrow> submit_keys obs | Some k \<Rightarrow> k # submit_keys obs)"
  by (simp_all add: submit_keys_def map_filter_def split: option.split)

lemma claim_batch_refused: "claim_batch False obs s = (kept, t) \<Longrightarrow> t = s \<and> submit_keys kept = []"
  by (induction obs arbitrary: kept) (auto split: option.splits prod.splits)

lemma tracked_claim_batch:
  "tracked (in_pending_submits s) (set (submit_keys obs) \<union> q) w \<Longrightarrow> claim_batch True obs s = (kept, t) \<Longrightarrow>
   tracked (in_pending_submits t) q (set (submit_keys kept) \<union> w)"
proof (induction obs arbitrary: s w kept t)
  case (Cons ob obs)
  show ?case
  proof (cases "ob_submit_attempt ob")
    case None
    then show ?thesis using Cons by (auto split: prod.splits)
  next
    case (Some key)
    obtain c u where u: "claim_attempt key s = (c, u)" by force
    obtain ks v where v: "claim_batch True obs u = (ks, v)" by force
    have "tracked (in_pending_submits s) (insert key (set (submit_keys obs) \<union> q)) w"
      using Cons.prems(1) Some by simp
    then have "tracked (in_pending_submits u) (set (submit_keys obs) \<union> q) (if c then insert key w else w)"
      by (rule tracked_claim_attempt[OF _ u])
    note Cons.IH[OF this v]
    then show ?thesis
      using Cons.prems(2) by (auto simp: Some u v Let_def split: if_splits)
  qed
qed simp

lemma keeps_claim_attempt: "claim_attempt key s = (c, t) \<Longrightarrow> keeps s t"
  by (auto simp: claim_attempt_def split: option.splits if_splits)

lemma keeps_claim_batch: "claim_batch allowed obs s = (kept, t) \<Longrightarrow> keeps s t"
proof (induction obs arbitrary: s kept t)
  case (Cons ob obs)
  then show ?case
    by (auto split: option.splits prod.splits if_splits simp: Let_def
        intro: keeps_trans dest: keeps_claim_attempt)
qed simp

lemma sent_inv_shift: "sent_inv n m (xs @ k # cs) a \<longleftrightarrow> sent_inv n m (k # xs @ cs) a"
  by (auto simp: sent_inv_def)

lemma sent_claim_batch:
  "sent_inv (in_retry_count s) (in_pending_submits s) cs a \<Longrightarrow> core_inv s h a e n \<Longrightarrow>
   claim_batch allowed obs s = (kept, t) \<Longrightarrow>
   sent_inv (in_retry_count t) (in_pending_submits t) (submit_keys kept @ cs) a"
proof (induction obs arbitrary: s cs kept t)
  case (Cons ob obs)
  show ?case
  proof (cases "ob_submit_attempt ob")
    case None
    then show ?thesis using Cons by (auto split: prod.splits)
  next
    case (Some key)
    obtain c u where u: "(if allowed then claim_attempt key s else (False, s)) = (c, u)" by force
    obtain ks v where v: "claim_batch allowed obs u = (ks, v)" by force
    have "sent_inv (in_retry_count u) (in_pending_submits u) (if c then key # cs else cs) a" "core_inv u h a e n"
      using u sent_claim_attempt[OF Cons.prems(1) _ Cons.prems(2), of key c u]
        core_inv_claim_attempt[OF Cons.prems(2), of key c u] Cons.prems(1,2) by (auto split: if_splits)
    note Cons.IH[OF this v]
    then show ?thesis
      using Cons.prems(3) by (auto simp: Some u v Let_def sent_inv_shift split: if_splits)
  qed
qed simp

text \<open>Completion empties the hands of the writer.\<close>

lemma tracked_complete:
  assumes T: "tracked (in_pending_submits s) q (insert key w)"
  shows "tracked (in_pending_submits (complete_attempt now key s)) q w"
proof -
  have other: "place q w (ps_state p) (key_of k p)"
    if p: "in_pending_submits s k = Some p" and n: "key_of k p = key \<Longrightarrow> place q w (ps_state p) key" for k p
  proof (cases "key_of k p = key")
    case False
    have "place q (insert key w) (ps_state p) (key_of k p)" using T p by (simp add: tracked_def)
    then show ?thesis using False by (cases "ps_state p") auto
  qed (use n in simp)
  let ?k = "ak_sequence_id key"
  show ?thesis
  proof (cases "in_pending_submits s ?k")
    case None
    then have "key_of k p \<noteq> key" if "in_pending_submits s k = Some p" for k p using that by auto
    then show ?thesis using other None by (auto simp: complete_attempt_def tracked_def)
  next
    case (Some p)
    have diff: "place q w (ps_state p') (key_of k p')" if "in_pending_submits s k = Some p'" "k \<noteq> ?k" for k p'
    proof (rule other[OF that(1)])
      show "key_of k p' = key \<Longrightarrow> place q w (ps_state p') key" using that(2) by auto
    qed
    have same: "place q w (ps_state p) (key_of ?k p)"
      if "ps_submission_id p = ak_submission_id key \<Longrightarrow>
        ps_state p \<noteq> Writing (ak_attempt key) \<and> ps_state p \<noteq> RespondedWhileWriting (ak_attempt key)"
    proof (rule other[OF Some])
      assume k: "key_of ?k p = key"
      then have e: "ps_submission_id p = ak_submission_id key" "attempt_of (ps_state p) = ak_attempt key"
        by (metis k key_of_sel(2), metis k key_of_sel(3))
      have n: "ps_state p \<noteq> Writing (ak_attempt key) \<and> ps_state p \<noteq> RespondedWhileWriting (ak_attempt key)"
        by (rule that) (rule e(1))
      have "place q (insert key w) (ps_state p) (key_of ?k p)" using T Some by (simp add: tracked_def)
      then have "place q (insert key w) (ps_state p) key" by (simp only: k)
      then show "place q w (ps_state p) key" using n e(2) by (cases "ps_state p") simp_all
    qed
    have rest: "complete_attempt now key s = s"
      if "ps_submission_id p \<noteq> ak_submission_id key \<or>
        ps_state p \<noteq> Writing (ak_attempt key) \<and> ps_state p \<noteq> RespondedWhileWriting (ak_attempt key)"
      using that by (auto simp: complete_attempt_def Some)
    consider "ps_submission_id p = ak_submission_id key" "ps_state p = Writing (ak_attempt key)"
      | "ps_submission_id p = ak_submission_id key" "ps_state p = RespondedWhileWriting (ak_attempt key)"
      | "ps_submission_id p \<noteq> ak_submission_id key \<or>
        ps_state p \<noteq> Writing (ak_attempt key) \<and> ps_state p \<noteq> RespondedWhileWriting (ak_attempt key)"
      by blast
    then show ?thesis
    proof cases
      case 1
      then show ?thesis using diff by (auto simp: complete_attempt_def Some tracked_def)
    next
      case 2
      then show ?thesis using diff
        by (auto simp: complete_attempt_def Some tracked_def remove_pending_def drop_pending_def)
    next
      case 3
      have "place q w (ps_state p') (key_of k p')" if p': "in_pending_submits s k = Some p'" for k p'
      proof (cases "k = ?k")
        case True
        then show ?thesis using same 3 p' Some by auto
      qed (use diff p' in blast)
      then show ?thesis using rest[OF 3] by (simp add: tracked_def)
    qed
  qed
qed

lemma tracked_complete_all:
  "tracked (in_pending_submits s) q (set keys \<union> w) \<Longrightarrow>
   tracked (in_pending_submits (complete_submit_attempts keys now s)) q w"
  unfolding complete_submit_attempts_def
  by (induction keys arbitrary: s) (auto intro: tracked_complete)

lemma sent_state:
  assumes S: "sent_inv n m cs a" and p: "m k = Some p"
    and st: "\<And>x. sent_before x (ps_state p) \<Longrightarrow> sent_before x st"
  shows "sent_inv n (m(k \<mapsto> p\<lparr>ps_state := st\<rparr>)) cs a"
  by (rule sent_inv_update[OF S]) (use S p st in \<open>auto dest: sent_invD\<close>)

lemma sent_complete:
  assumes S: "sent_inv n (in_pending_submits s) cs a"
  shows "sent_inv n (in_pending_submits (complete_attempt now key s)) cs a"
proof (cases "in_pending_submits s (ak_sequence_id key)")
  case (Some p)
  have "sent_inv n ((in_pending_submits s)(ak_sequence_id key \<mapsto>
      p\<lparr>ps_state := AwaitingResponse (ak_attempt key) now\<rparr>)) cs a" if "ps_state p = Writing (ak_attempt key)"
    by (rule sent_state[OF S Some]) (simp add: that)
  then show ?thesis using S by (auto simp: complete_attempt_def Some sent_inv_remove)
qed (use S in \<open>simp add: complete_attempt_def\<close>)

lemma keeps_complete: "keeps s (complete_attempt now key s)"
  using keeps_remove by (simp add: complete_attempt_def split: option.split)

lemma complete_all:
  "sent_inv n (in_pending_submits s) cs a \<Longrightarrow>
   sent_inv n (in_pending_submits (complete_submit_attempts keys now s)) cs a"
  "keeps s (complete_submit_attempts keys now s)"
proof -
  show "sent_inv n (in_pending_submits s) cs a \<Longrightarrow>
      sent_inv n (in_pending_submits (complete_submit_attempts keys now s)) cs a"
    unfolding complete_submit_attempts_def by (induction keys arbitrary: s) (auto intro: sent_complete)
  show "keeps s (complete_submit_attempts keys now s)"
    unfolding complete_submit_attempts_def by (rule keeps_fold) (rule keeps_complete)
qed

lemma match_resp_track:
  assumes T: "tracked (in_pending_submits s) q w" and S: "sent_inv n (in_pending_submits s) cs a"
    and m: "match_resp k s = (handled, t)"
  shows "tracked (in_pending_submits t) q w \<and> sent_inv n (in_pending_submits t) cs a \<and> keeps s t"
proof (cases "in_pending_submits s k")
  case (Some p)
  have "tracked ((in_pending_submits s)(k \<mapsto> p\<lparr>ps_state := RespondedWhileWriting x\<rparr>)) q w \<and>
      sent_inv n ((in_pending_submits s)(k \<mapsto> p\<lparr>ps_state := RespondedWhileWriting x\<rparr>)) cs a"
    if "ps_state p = Writing x" for x
  proof -
    have "place q w (Writing x) (key_of k p)" using T Some that by (force simp: tracked_def)
    then have "tracked ((in_pending_submits s)(k \<mapsto> p\<lparr>ps_state := RespondedWhileWriting x\<rparr>)) q w"
      by (intro tracked_update(1)[OF T]) (simp add: key_of_def that)
    then show ?thesis using sent_state[OF S Some] that by simp
  qed
  then show ?thesis
    using m T S by (cases "ps_state p")
      (auto simp: match_resp_def Some tracked_remove sent_inv_remove keeps_remove)
qed (use T S m in \<open>simp add: match_resp_def\<close>)

lemma match_resps_track:
  "tracked (in_pending_submits s) q w \<Longrightarrow> sent_inv n (in_pending_submits s) cs a \<Longrightarrow>
   match_resps rs s = (handled, t) \<Longrightarrow>
   tracked (in_pending_submits t) q w \<and> sent_inv n (in_pending_submits t) cs a \<and> keeps s t"
proof (induction rs arbitrary: s handled t)
  case (Cons r rs)
  obtain b u where u: "match_resp (fst r) s = (b, u)" by force
  obtain kept v where v: "match_resps rs u = (kept, v)" by force
  note M = match_resp_track[OF Cons.prems(1,2) u]
  have "tracked (in_pending_submits v) q w \<and> sent_inv n (in_pending_submits v) cs a \<and> keeps u v"
    by (rule Cons.IH[OF _ _ v]) (use M in simp_all)
  then show ?case using M Cons.prems(3) by (auto simp: u v Let_def intro: keeps_trans)
qed simp

lemma give_up_track:
  assumes T: "tracked (in_pending_submits s) q w" and S: "sent_inv n (in_pending_submits s) cs a"
    and g: "give_up_submit key s = (c, t)"
  shows "tracked (in_pending_submits t) q w \<and> sent_inv n (in_pending_submits t) cs a \<and> keeps s t"
proof (cases "still_awaiting key s")
  case None
  then show ?thesis using T S g by (simp add: give_up_submit_def)
next
  case (Some p)
  obtain b u where u: "emit_event (SubmitTimeout (ak_sequence_id key) (ak_attempt key)) s = (b, u)" by force
  have k: "keeps s u" using same_life_emit[of s] u keeps_same by (metis snd_conv)
  have pu: "in_pending_submits u = in_pending_submits s" by (rule emit_pending[OF u])
  show ?thesis
  proof (cases b)
    case False
    then have "t = u" using g by (simp add: give_up_submit_def Some u)
    then show ?thesis using T S k pu by simp
  next
    case True
    obtain p' where p': "in_pending_submits u (ak_sequence_id key) = Some p'"
      using Some by (auto simp: pu still_awaiting_def split: option.splits)
    obtain i l r where r: "lease_retire (ps_sequence_lease p') (in_registry u) = (i, l, r)"
      by (cases "lease_retire (ps_sequence_lease p') (in_registry u)")
    define v where "v = drop_pending (p'\<lparr>ps_sequence_lease := l\<rparr>)
      (u\<lparr>in_registry := r, in_pending_submits := (in_pending_submits u)(ak_sequence_id key := None)\<rparr>)"
    define x where "x = v\<lparr>in_submit_timeouts := in_submit_timeouts v + 1\<rparr>"
    have t: "t = (if i then x else finish (Some Error_ChannelClosed) x)"
      using g True by (auto simp: give_up_submit_def Some u p' r Let_def v_def x_def split: if_splits)
    have px: "in_pending_submits x = (in_pending_submits s)(ak_sequence_id key := None)"
      by (simp add: x_def v_def drop_pending_def pu)
    have "keeps u x" by (simp add: x_def v_def drop_pending_def keeps_def)
    then have kx: "keeps s x" by (rule keeps_trans[OF k])
    have "keeps x (finish (Some Error_ChannelClosed) x)" using same_life_finish by (rule keeps_same)
    then have "keeps s (finish (Some Error_ChannelClosed) x)" by (rule keeps_trans[OF kx])
    then show ?thesis
      using T S kx px by (cases i) (simp_all add: t tracked_update(2) sent_inv_None)
  qed
qed

lemma u32_le_next:
  assumes "x \<le> y" "(y :: u32) < m" shows "x < y + 1"
proof -
  have "y \<noteq> - 1" using assms(2) by auto
  then have "unat (y + 1) = Suc (unat y)" by (rule unat_u32_Suc)
  then show ?thesis using assms(1) by (simp add: word_le_nat_alt word_less_nat_alt)
qed

lemma still_awaiting_Some:
  assumes "still_awaiting key s = Some p"
  obtains now where "in_pending_submits s (ak_sequence_id key) = Some p" "ps_submission_id p = ak_submission_id key"
    "ps_state p = AwaitingResponse (ak_attempt key) now"
  using assms by (auto simp: still_awaiting_def split: option.splits submit_attempt_state.splits if_splits)

lemma retry_sent:
  assumes S: "sent_inv n (in_pending_submits s) cs a" and lt: "ak_attempt key < in_retry_count s"
  shows "sent_inv n (in_pending_submits (requeue_submit key s)) cs a"
    "in_retry_count (requeue_submit key s) = in_retry_count s" "in_window_size (requeue_submit key s) = in_window_size s"
    "in_phase (requeue_submit key s) = in_phase s"
proof -
  show "in_retry_count (requeue_submit key s) = in_retry_count s" "in_window_size (requeue_submit key s) = in_window_size s"
    "in_phase (requeue_submit key s) = in_phase s"
    by (simp_all add: requeue_submit_def Let_def split: option.split)
  show "sent_inv n (in_pending_submits (requeue_submit key s)) cs a"
  proof (cases "still_awaiting key s")
    case (Some p)
    obtain now where A: "in_pending_submits s (ak_sequence_id key) = Some p" "ps_state p = AwaitingResponse (ak_attempt key) now"
      using still_awaiting_Some[OF Some] by metis
    have "sent_inv n ((in_pending_submits s)(ak_sequence_id key \<mapsto> p\<lparr>ps_state := Queued (ak_attempt key + 1)\<rparr>)) cs a"
      by (rule sent_state[OF S A(1)]) (simp add: A(2) u32_le_next[OF _ lt])
    then show ?thesis using S by (simp add: requeue_submit_def Some Let_def)
  qed (use S in \<open>simp add: requeue_submit_def\<close>)
qed

lemma retry_track:
  assumes T: "tracked (in_pending_submits s) (set (submit_keys (batch @ in_submit_queue s))) w"
    and t_def: "t = requeue_submit key s"
  shows "tracked (in_pending_submits t) (set (submit_keys (batch @ in_submit_queue t))) w"
proof (cases "still_awaiting key s")
  case None
  then show ?thesis using T by (simp add: t_def requeue_submit_def)
next
  case (Some p)
  obtain now where A: "ps_submission_id p = ak_submission_id key" using still_awaiting_Some[OF Some] by metis
  let ?key = "key\<lparr>ak_attempt := ak_attempt key + 1\<rparr>"
  let ?p = "p\<lparr>ps_state := Queued (ak_attempt key + 1)\<rparr>"
  let ?m = "(in_pending_submits s)(ak_sequence_id key \<mapsto> ?p)"
  have "key_of (ak_sequence_id key) ?p = ?key" by (simp add: key_of_def A)
  then have "tracked ?m (set (submit_keys (batch @ in_submit_queue s @ [outbound_submit (ps_packet p) ?key]))) w"
    by (intro tracked_update(1)[OF tracked_mono[OF T]]) (auto simp: outbound_submit_def)
  then show ?thesis using T by (simp add: t_def requeue_submit_def Some Let_def)
qed

section \<open>The steps\<close>

text \<open>Operations that leave the pending map and the queue alone.\<close>

definition still :: "inner \<Rightarrow> inner \<Rightarrow> bool" where
  "still s t \<longleftrightarrow> keeps s t \<and> in_pending_submits t = in_pending_submits s"

lemma still_refl [simp]: "still s s"
  by (simp add: still_def)

lemma still_trans: "still s t \<Longrightarrow> still t u \<Longrightarrow> still s u"
  by (auto simp: still_def intro: keeps_trans)

lemma still_same: "same_life s t \<Longrightarrow> still s t"
  by (simp add: still_def keeps_same) (simp add: same_life_def)

lemma still_registry [simp]: "still s (s\<lparr>in_registry := r\<rparr>)"
  by (simp add: still_def)

lemma still_release: "still s (release_window s)" "still s (drop_lease k s)" "still s (drop_udh u s)"
  by (simp_all add: still_def keeps_def release_window_def drop_lease_def drop_udh_def split: option.split)

lemma still_abandon: "still s (abandon k u s)"
  unfolding abandon_def
  by (rule still_trans[OF still_trans[OF still_release(2) still_release(1)] still_release(3)])

lemma still_abandon_manual: "still s (abandon_manual k u s)"
  using still_trans[OF still_release(1) still_release(3)] still_abandon[of s _ u]
  unfolding abandon_manual_def abandon_def by (cases k) simp_all

lemma still_finish: "still s (finish r s)"
  using same_life_finish by (rule still_same)

lemma still_acquire: "acquire_window s = Some (r, t) \<Longrightarrow> still s t"
  by (auto simp: acquire_window_def still_def keeps_def split: if_splits)

lemma still_leases: "submit_leases base segments u s = (r, t) \<Longrightarrow> still s t"
  using still_trans[OF still_registry still_release(3)]
  by (auto simp: submit_leases_def split: option.splits prod.splits)

lemma still_prepare:
  assumes "submit_prepare gbk manual template plan index reference u s = (r, t)"
  shows "still s t"
proof -
  have i: "still v w" if "next_submission_id v = (x, w)" for v w x
    using that by (auto simp: next_submission_id_def still_def keeps_def)
  have e: "still s (drop_udh u (release_window (finish r (s\<lparr>in_registry := q\<rparr>))))" for q r
    by (intro still_trans[OF still_trans[OF still_trans[OF still_registry still_finish] still_release(1)] still_release(3)])
  have a: "still s (abandon l u (s\<lparr>in_registry := q\<rparr>))" for l q
    by (rule still_trans[OF still_registry still_abandon])
  have w: "still s w" if "next_submission_id (s\<lparr>in_registry := q\<rparr>) = (x, w)" for q x w
    by (rule still_trans[OF still_registry i[OF that]])
  show ?thesis
    using assms still_abandon_manual[of s manual u] still_abandon[of s _ u] i[of s] e a w
    unfolding submit_prepare_def Let_def
    by (auto split: res.splits option.splits prod.splits)
qed

definition life_inv :: "cmpp_protocol_params \<Rightarrow> life \<Rightarrow> bool" where
  "life_inv params l \<longleftrightarrow>
     life_core l \<and> window_size params = in_window_size (lf_inner l) \<and>
     retry_count params = in_retry_count (lf_inner l) \<and>
     (in_phase (lf_inner l) = Phase_Open \<longrightarrow>
        tracked (in_pending_submits (lf_inner l))
          (set (submit_keys (lf_batch l @ in_submit_queue (lf_inner l)))) (set (lf_writing l))) \<and>
     sent_inv (in_retry_count (lf_inner l)) (in_pending_submits (lf_inner l)) (lf_claimed l) (lf_admitted l)"

lemma life_inv_still:
  assumes "life_inv params l" "life_core m" "still (lf_inner l) (lf_inner m)" "lf_batch m = lf_batch l"
    "lf_writing m = lf_writing l" "lf_claimed m = lf_claimed l" "lf_admitted m = lf_admitted l"
  shows "life_inv params m"
  using assms by (simp add: life_inv_def still_def keeps_def)

text \<open>The commit puts the new entry into the map and its first attempt into the queue.\<close>

lemma commit_cases:
  assumes "submit_commit b s = (r, t)"
  obtains k p where "r = Ok k" "k = ak_sequence_id (sb_key b)" "ps_state p = Queued 1"
      "ps_submission_id p = ak_submission_id (sb_key b)"
      "in_pending_submits t = (in_pending_submits s)(k \<mapsto> p)"
      "in_submit_queue t = in_submit_queue s @ [outbound_submit (sb_bytes b) (sb_key b)]"
      "in_retry_count t = in_retry_count s" "in_window_size t = in_window_size s" "in_phase t = in_phase s"
  | "\<And>k. r \<noteq> Ok k" "still s t"
proof (cases "\<exists>k. r = Ok k")
  case True
  define ri where "ri = (if lease_manual (sb_lease b) then lease_retire (sb_lease b) (in_registry s)
    else (True, sb_lease b, in_registry s))"
  obtain i l q where q: "ri = (i, l, q)" by (cases ri)
  have op: "in_phase s = Phase_Open"
    using assms True by (cases "in_phase s = Phase_Open") (auto simp: submit_commit_def Let_def)
  moreover have i
    using assms True op by (cases i) (auto simp: submit_commit_def ri_def[symmetric] q)
  ultimately have C: "submit_commit b s = (r, t)" "in_phase s = Phase_Open" i using assms by simp_all
  let ?p = "\<lparr>ps_submission_id = ak_submission_id (sb_key b), ps_packet = sb_bytes b, ps_state = Queued 1,
    ps_udh_lease = map_option mark_exposed (sb_udh b), ps_sequence_lease = l\<rparr>"
  show thesis
    using C by (intro that(1)[of "ak_sequence_id (sb_key b)" ?p];
      cases "in_pending_submits s (ak_sequence_id (sb_key b))")
      (auto simp: submit_commit_def ri_def[symmetric] q Let_def insert_pending_def drop_pending_def)
next
  case False
  have "still s (abandon l (sb_udh b) (finish e (s\<lparr>in_registry := q\<rparr>)))" for l e q
    by (rule still_trans[OF still_trans[OF still_registry still_finish] still_abandon])
  then have "still s t"
    using assms False still_abandon[of s] by (auto simp: submit_commit_def Let_def split: if_splits prod.splits)
  then show thesis using False that(2) by blast
qed

lemma tracked_commit:
  assumes T: "tracked m q w" and k: "ak_sequence_id key = k" "ak_attempt key = 1"
    and p: "ps_state p = Queued 1" "ps_submission_id p = ak_submission_id key"
  shows "tracked (m(k \<mapsto> p)) (insert key q) w"
proof -
  have "key_of k p = key" using k p by (simp add: key_of_def)
  then show ?thesis by (intro tracked_update(1)[OF tracked_mono[OF T]]) (auto simp: p(1))
qed

lemma sent_commit:
  assumes S: "sent_inv n m cs a" and k: "k \<notin> set a"
  shows "sent_inv n (m(k \<mapsto> p)) cs (k # a)"
  using S k unfolding sent_inv_def by auto

lemma life_inv_step: "life_step l m \<Longrightarrow> life_inv params l \<Longrightarrow> life_inv params m"
proof -
  assume st: "life_step l m" and inv: "life_inv params l"
  have core: "life_core m" using inv by (intro life_core_step[OF st]) (simp add: life_inv_def)
  note S = life_inv_still[OF inv core]
  have C: "core_inv (lf_inner l) (held l) (lf_admitted l) (map snd (lf_done l)) (lf_permits l + length (lf_ready l))"
    using inv by (simp add: life_inv_def life_core_def)
  have W: "window_size params = in_window_size (lf_inner l)" "retry_count params = in_retry_count (lf_inner l)"
    using inv by (simp_all add: life_inv_def)
  have T: "in_phase (lf_inner l) = Phase_Open \<Longrightarrow>
      tracked (in_pending_submits (lf_inner l)) (set (submit_keys (lf_batch l @ in_submit_queue (lf_inner l)))) (set (lf_writing l))"
    and N: "sent_inv (in_retry_count (lf_inner l)) (in_pending_submits (lf_inner l)) (lf_claimed l) (lf_admitted l)"
    using inv by (simp_all add: life_inv_def)
  show ?thesis
    using st
  proof (cases rule: life_step.cases)
    case (acquire t)
    then show ?thesis by (intro S) (simp_all add: still_acquire)
  next
    case permit_dropped
    then show ?thesis by (intro S) (simp_all add: still_release)
  next
    case (leases base segments u ls t)
    then show ?thesis by (intro S) (simp_all add: still_leases[OF leases(2)])
  next
    case (lease_dropped xs k ys)
    then show ?thesis by (intro S) (simp_all add: still_release)
  next
    case (prepare_auto gbk template plan index reference u r t)
    then show ?thesis by (intro S) (simp_all add: still_prepare[OF prepare_auto(3)])
  next
    case (prepare_manual xs k ys gbk template plan index reference u r t)
    then show ?thesis by (intro S) (simp_all add: still_prepare[OF prepare_manual(4)])
  next
    case (abandoned xs b ys)
    then show ?thesis by (intro S) (simp_all add: still_abandon)
  next
    case (commit xs b ys r t)
    have b: "ready_ok b" using inv commit(2) by (auto simp: life_inv_def life_core_def)
    show ?thesis
      using commit(3)
    proof (cases rule: commit_cases)
      case (1 k p)
      have key: "ak_sequence_id (sb_key b) = k" "ak_attempt (sb_key b) = 1" using 1(2) b by (simp_all add: ready_ok_def)
      have "k \<notin> set (lf_admitted l)"
        using C commit(2) b 1(2) by (auto simp: core_inv_def reg_inv_def held_def ready_ok_def)
      from sent_commit[OF N this] have "sent_inv (in_retry_count t) (in_pending_submits t) (lf_claimed l) (k # lf_admitted l)"
        using 1 by simp
      moreover have "tracked (in_pending_submits t) (set (submit_keys (lf_batch l @ in_submit_queue t))) (set (lf_writing l))"
        if "in_phase (lf_inner l) = Phase_Open"
        using tracked_commit[OF T[OF that] key 1(3,4)] 1 by (simp add: outbound_submit_def)
      ultimately show ?thesis using core 1 commit(1) W by (simp add: life_inv_def)
    next
      case 2
      have "(case r of Ok k \<Rightarrow> k # lf_admitted l | _ \<Rightarrow> lf_admitted l) = lf_admitted l"
        using 2(1) by (auto split: res.split)
      then show ?thesis using commit 2 by (intro S) simp_all
    qed
  next
    case (take ob obs)
    then show ?thesis using core W T N by (auto simp: life_inv_def split: option.splits)
  next
    case (claim kept t)
    have c: "claim_batch (can_send_submit (lf_inner l)) (lf_batch l) (lf_inner l) = (kept, t)"
      using claim(3) by (simp add: claim_submit_attempts_def)
    note K = keeps_claim_batch[OF c]
    have "tracked (in_pending_submits t) (set (submit_keys (in_submit_queue t))) (set (submit_keys kept))"
      if "in_phase t = Phase_Open"
    proof -
      have op: "in_phase (lf_inner l) = Phase_Open" and q: "in_submit_queue t = in_submit_queue (lf_inner l)"
        using K that by (simp_all add: keeps_def)
      have "claim_batch True (lf_batch l) (lf_inner l) = (kept, t)" using c op by (simp add: can_send_submit_def)
      from tracked_claim_batch[OF _ this, of "set (submit_keys (in_submit_queue t))" "{}"]
      show ?thesis using T[OF op] claim(2) by (simp add: q)
    qed
    then show ?thesis using core W claim(1) sent_claim_batch[OF N C c] K by (simp add: life_inv_def keeps_def)
  next
    case (written now)
    let ?t = "complete_submit_attempts (lf_writing l) now (lf_inner l)"
    have K: "keeps (lf_inner l) ?t" by (rule complete_all(2))
    have "tracked (in_pending_submits ?t) (set (submit_keys (lf_batch l @ in_submit_queue ?t))) {}"
      if "in_phase ?t = Phase_Open"
      using T K that by (intro tracked_complete_all) (simp add: keeps_def)
    then show ?thesis
      using core W written complete_all(1)[OF N] K by (simp add: life_inv_def keeps_def)
  next
    case (marker n)
    then show ?thesis using core W N by (simp add: life_inv_def)
  next
    case writer_gone
    then show ?thesis using core W N by (simp add: life_inv_def)
  next
    case (respond resps handled t)
    let ?t = "fold publish_resp handled t"
    have "same_life t ?t" by (rule same_life_fold) (rule same_life_publish)
    then have s: "still t ?t" by (rule still_same)
    have M: "tracked (in_pending_submits t) q w \<and> sent_inv n (in_pending_submits t) cs a \<and> keeps (lf_inner l) t"
      if "tracked (in_pending_submits (lf_inner l)) q w" "sent_inv n (in_pending_submits (lf_inner l)) cs a" for q w n cs a
      by (rule match_resps_track[OF that respond(2)])
    have U: "keeps (lf_inner l) t" "sent_inv (in_retry_count (lf_inner l)) (in_pending_submits t) (lf_claimed l) (lf_admitted l)"
      using M[OF tracked_UNIV N] by simp_all
    have "tracked (in_pending_submits ?t) (set (submit_keys (lf_batch l @ in_submit_queue ?t))) (set (lf_writing l))"
      if "in_phase ?t = Phase_Open"
      using M[OF T N] U(1) s that by (simp add: still_def keeps_def)
    then show ?thesis using core W respond(1) U s by (simp add: life_inv_def still_def keeps_def)
  next
    case (timeout key continue t gone)
    from timeout(2) show ?thesis
    proof (cases rule: timeout_submit_cases)
      case last
      note G = give_up_track[OF _ _ last(2)]
      have U: "keeps (lf_inner l) t" "sent_inv (in_retry_count (lf_inner l)) (in_pending_submits t) (lf_claimed l) (lf_admitted l)"
        using G[OF tracked_UNIV N] by simp_all
      then have "tracked (in_pending_submits t) (set (submit_keys (lf_batch l @ in_submit_queue t))) (set (lf_writing l))"
        if "in_phase t = Phase_Open"
        using G[OF T N] that by (simp add: keeps_def)
      then show ?thesis using core W timeout(1) U by (simp add: life_inv_def keeps_def)
    next
      case again
      have R: "tracked (in_pending_submits t) (set (submit_keys (lf_batch l @ in_submit_queue t))) (set (lf_writing l))"
        if "in_phase (lf_inner l) = Phase_Open"
        by (rule retry_track[OF T[OF that] again(2)])
      have "sent_inv (in_retry_count t) (in_pending_submits t) (lf_claimed l) (lf_admitted l)" "in_phase t = in_phase (lf_inner l)"
        "in_window_size t = in_window_size (lf_inner l)" "in_retry_count t = in_retry_count (lf_inner l)"
        using retry_sent[OF N again(1)] by (simp_all add: again(2))
      then show ?thesis using core W timeout(1) R by (simp add: life_inv_def)
    next
      case lost
      then have "same_life (lf_inner l) t" by (simp add: same_life_queues_lost)
      then show ?thesis using core W N T timeout(1) by (auto simp: life_inv_def same_life_def)
    qed
  next
    case (drain order dropped t)
    have t: "t = fold remove_pending order (lf_inner l)" using drain(5) by (simp add: drain_pending_def)
    have "keeps (lf_inner l) t" unfolding t by (rule keeps_fold) (rule keeps_remove)
    moreover have "sent_inv n (in_pending_submits (fold remove_pending ks s)) cs a"
      if "sent_inv n (in_pending_submits s) cs a" for n ks s cs a
      using that by (induction ks arbitrary: s) (simp_all add: sent_inv_remove)
    ultimately show ?thesis using core W drain(1,4) N t by (simp add: life_inv_def keeps_def)
  next
    case (other_reserve k r)
    then show ?thesis by (intro S) simp_all
  next
    case (other_exhausted r)
    then show ?thesis by (intro S) simp_all
  next
    case (other_dropped xs k ys)
    then show ?thesis by (intro S) (simp_all add: still_release)
  next
    case (environment t)
    then show ?thesis by (intro S) (simp_all add: still_same)
  qed
qed

lemma life_reachable_inv:
  assumes "life_reachable params l" "0 < retry_count params"
  shows "life_inv params l"
  using assms
proof (induction rule: life_reachable.induct)
  case start
  have "in_registry (inner_new params) = registry_new 2" "in_pending_submits (inner_new params) = Map.empty"
    "in_window_available (inner_new params) = window_size params" "in_window_size (inner_new params) = window_size params"
    "in_retry_count (inner_new params) = retry_count params"
    by (simp_all add: inner_new_def Let_def)
  then show ?case
    using start registry_new_inv[of 2]
    by (simp add: life_inv_def life_core_def life_new_def core_inv_def reg_inv_def pend_inv_def held_def
        unfinished_def tracked_def sent_inv_def word_le_nat_alt word_less_nat_alt)
next
  case (step l m)
  then show ?case by (blast intro: life_inv_step)
qed

text \<open>The facts about a reachable state that the properties use.\<close>

lemma life_reachable_facts:
  assumes "life_reachable params l" "0 < retry_count params"
  shows "core_inv (lf_inner l) (held l) (lf_admitted l) (map snd (lf_done l)) (lf_permits l + length (lf_ready l))"
    "in_window_size (lf_inner l) = window_size params" "in_retry_count (lf_inner l) = retry_count params"
    "in_phase (lf_inner l) = Phase_Open \<Longrightarrow>
       tracked (in_pending_submits (lf_inner l))
         (set (submit_keys (lf_batch l @ in_submit_queue (lf_inner l)))) (set (lf_writing l))"
    "sent_inv (retry_count params) (in_pending_submits (lf_inner l)) (lf_claimed l) (lf_admitted l)"
  using life_reachable_inv[OF assms] by (simp_all add: life_inv_def life_core_def)

lemma distinct_words_bounded:
  assumes "distinct (map f xs)" "unat ` set (map f xs) \<subseteq> {1..n}"
  shows "length xs \<le> n"
proof -
  have "inj_on unat (set (map f xs))" by (rule inj_onI) (simp add: word_unat_eq_iff)
  then have "length xs = card (unat ` set (map f xs))"
    using distinct_card[OF assms(1)] by (simp add: card_image)
  also have "\<dots> \<le> card {1..n}" by (rule card_mono[OF _ assms(2)]) simp
  finally show ?thesis by simp
qed

lemma commit_counts:
  assumes "submit_commit b s = (Ok k, t)"
  shows "in_submits_admitted t = in_submits_admitted s + 1"
proof -
  define ri where "ri = (if lease_manual (sb_lease b) then lease_retire (sb_lease b) (in_registry s)
    else (True, sb_lease b, in_registry s))"
  obtain i l q where q: "ri = (i, l, q)" by (cases ri)
  have op: "in_phase s = Phase_Open"
    using assms by (cases "in_phase s = Phase_Open") (auto simp: submit_commit_def Let_def)
  moreover have i using assms op by (cases i) (auto simp: submit_commit_def ri_def[symmetric] q)
  ultimately show ?thesis
    using assms by (auto simp: submit_commit_def ri_def[symmetric] q Let_def insert_pending_def drop_pending_def
        split: option.splits)
qed

lemma drained_empty:
  "dom (in_pending_submits s) \<subseteq> set order \<Longrightarrow> in_pending_submits (fold remove_pending order s) = Map.empty"
proof (induction order arbitrary: s)
  case (Cons k order)
  have "dom (in_pending_submits (remove_pending k s)) \<subseteq> set order"
    using Cons.prems by (auto simp: remove_pending_def drop_pending_def split: option.splits if_splits)
  then show ?case by (simp add: Cons.IH)
qed simp

end
