(* ===== verification/Cmpp_Submits.thy ===== *)
theory Cmpp_Submits
  imports Cmpp_Attempts
begin

text \<open>
  What the invariants say of the life of a SUBMIT: its outcomes, the window, its attempts, its
  admission and the end of the connection, and a run that witnesses the hypotheses.
\<close>

section \<open>A run\<close>

text \<open>One short SUBMIT from its window permit to its first written attempt, for the witnesses.\<close>

definition sample_plan :: submit_content_plan where
  "sample_plan = \<lparr>pl_content = str_lit ''hi'', pl_encoding = Ascii, pl_ranges = [(0, 2)], pl_preferred_ref = None\<rparr>"

definition sample_template :: submit where
  "sample_template = build_submit_template
     (submit_options_new (str_lit ''SVC'') (str_lit ''901234'') (str_lit ''1069'') (str_lit ''138''))"

definition sample_segment :: sms_segment where
  "sample_segment =
     \<lparr>seg_msg_fmt = 0, seg_tp_udhi = 0, seg_pk_total = 1, seg_pk_number = 1, seg_content = [104, 105]\<rparr>"

definition sample_packet :: bytes where
  "sample_packet = (case submit_try_encode (apply_segment sample_template sample_segment) 2 of Ok bs \<Rightarrow> bs | _ \<Rightarrow> [])"

definition sample_key :: submit_attempt_key where
  "sample_key = \<lparr>ak_sequence_id = 2, ak_submission_id = 1, ak_attempt = 1\<rparr>"

definition sample_lease :: sequence_lease where
  "sample_lease = \<lparr>lease_id = 2, lease_manual = False, lease_release_on_drop = True\<rparr>"

definition sample_submission :: submission where
  "sample_submission = \<lparr>sb_lease = sample_lease, sb_bytes = sample_packet, sb_key = sample_key, sb_udh = None\<rparr>"

definition sample_acquired :: inner where
  "sample_acquired = (inner_new params_default)\<lparr>in_window_available := 15\<rparr>"

definition sample_registry :: sequence_state where
  "sample_registry = \<lparr>next_automatic = Some 3, automatic_start = 2, automatic_used_through = Some 2,
     reserved = {2}, retired = []\<rparr>"

definition sample_prepared :: inner where
  "sample_prepared = sample_acquired\<lparr>in_registry := sample_registry,
     in_submission_id_generator := 2\<rparr>"

definition sample_pending :: "submit_attempt_state \<Rightarrow> pending_submit" where
  "sample_pending st = \<lparr>ps_submission_id = 1, ps_packet = sample_packet, ps_state = st, ps_udh_lease = None,
     ps_sequence_lease = sample_lease\<rparr>"

definition sample_committed :: inner where
  "sample_committed = sample_prepared\<lparr>in_pending_submits := [2 \<mapsto> sample_pending (Queued 1)],
     in_submits_admitted := 1, in_submit_queue := [outbound_submit sample_packet sample_key]\<rparr>"

definition sample_life :: "inner \<Rightarrow> life" where
  "sample_life s = (life_new s)\<lparr>lf_admitted := [2]\<rparr>"

lemma sample_encode: "submit_try_encode (apply_segment sample_template sample_segment) 2 = Ok sample_packet"
proof -
  have "(case submit_try_encode (apply_segment sample_template sample_segment) 2 of Ok _ \<Rightarrow> True | _ \<Rightarrow> False)"
    by code_simp
  then show ?thesis by (simp add: sample_packet_def split: res.splits)
qed

lemma sample_segment: "plan_segment (\<lambda>_. []) sample_plan 0 None = Ok sample_segment"
  by code_simp

lemma sample_reserve: "reserve_next (registry_new 2) = (Some sample_lease, sample_registry)"
proof -
  let ?r = "\<lparr>next_automatic = Some 2, automatic_start = 2, automatic_used_through = None, reserved = {},
    retired = []\<rparr>"
  have "reserve_next ?r = (Some sample_lease, sample_registry)"
    by (simp add: reserve_next.simps[of ?r] retired_range_def advance_def bt_floor_def
        sample_lease_def sample_registry_def u32_checked_add1_def)
  moreover have "registry_new 2 = ?r" by (simp add: registry_new_def Let_def max_def word_le_nat_alt)
  ultimately show ?thesis by simp
qed

lemma sample_inner [simp]:
  "in_phase (inner_new params_default) = Phase_Open" "in_window_closed (inner_new params_default) = False"
  "in_window_available (inner_new params_default) = 16" "in_registry (inner_new params_default) = registry_new 2"
  "in_submission_id_generator (inner_new params_default) = 1" "in_pending_submits (inner_new params_default) = Map.empty"
  "in_submit_queue (inner_new params_default) = []" "in_submits_admitted (inner_new params_default) = 0"
  by (simp_all add: inner_new_def Let_def params_default_def)

lemma sample_acquire: "acquire_window (inner_new params_default) = Some (Ok (), sample_acquired)"
  by (simp add: acquire_window_def sample_acquired_def)

lemma sample_prepare:
  "submit_prepare (\<lambda>_. []) None sample_template sample_plan 0 None None sample_acquired =
    (Ok sample_submission, sample_prepared)"
  using sample_encode
  by (simp add: submit_prepare_def sample_segment sample_reserve Let_def sample_acquired_def sample_prepared_def
      next_submission_id_def sample_submission_def sample_key_def sample_lease_def)

lemma sample_reach_ready:
  "life_reachable params_default ((life_new sample_prepared)\<lparr>lf_ready := [sample_submission]\<rparr>)"
proof -
  have "life_step (life_new (inner_new params_default)) ((life_new sample_acquired)\<lparr>lf_permits := 1\<rparr>)"
    using life_step.acquire[of "life_new (inner_new params_default)" sample_acquired] sample_acquire
    by (simp add: life_new_def)
  then have "life_reachable params_default ((life_new sample_acquired)\<lparr>lf_permits := 1\<rparr>)"
    by (rule life_reachable.step[OF life_reachable.start])
  moreover have "life_step ((life_new sample_acquired)\<lparr>lf_permits := 1\<rparr>) ((life_new sample_prepared)\<lparr>lf_ready := [sample_submission]\<rparr>)"
    using life_step.prepare_auto[of "(life_new sample_acquired)\<lparr>lf_permits := 1\<rparr>" "\<lambda>_. []" sample_template
        sample_plan 0 None None "Ok sample_submission" sample_prepared] sample_prepare
    by (simp add: life_new_def)
  ultimately show ?thesis by (rule life_reachable.step)
qed

lemma sample_commit: "submit_commit sample_submission sample_prepared = (Ok 2, sample_committed)"
  by (simp add: submit_commit_def sample_submission_def sample_lease_def sample_prepared_def sample_acquired_def
      sample_key_def insert_pending_def sample_committed_def sample_pending_def Let_def)

lemma sample_reach_committed: "life_reachable params_default (sample_life sample_committed)"
proof -
  have "life_step ((life_new sample_prepared)\<lparr>lf_ready := [sample_submission]\<rparr>) (sample_life sample_committed)"
    using life_step.commit[of "(life_new sample_prepared)\<lparr>lf_ready := [sample_submission]\<rparr>" "[]" sample_submission "[]"]
      sample_commit by (simp add: life_new_def sample_life_def)
  then show ?thesis by (rule life_reachable.step[OF sample_reach_ready])
qed

lemma sample_retries: "0 < retry_count params_default"
  by (simp add: params_default_def)

definition sample_claimed :: life where
  "sample_claimed = (sample_life (sample_committed\<lparr>in_submit_queue := [],
     in_pending_submits := [2 \<mapsto> sample_pending (Writing 1)]\<rparr>))
     \<lparr>lf_writing := [sample_key], lf_claimed := [sample_key]\<rparr>"

lemma sample_reach_claimed: "life_reachable params_default sample_claimed"
proof -
  let ?ob = "outbound_submit sample_packet sample_key"
  let ?s = "sample_committed\<lparr>in_submit_queue := []\<rparr>"
  have "life_step (sample_life sample_committed) ((sample_life ?s)\<lparr>lf_batch := [?ob]\<rparr>)"
    using life_step.take[of "sample_life sample_committed" ?ob "[]"]
    by (simp add: sample_life_def life_new_def sample_committed_def)
  moreover have "claim_submit_attempts [?ob] ?s = ([?ob], ?s\<lparr>in_pending_submits := [2 \<mapsto> sample_pending (Writing 1)]\<rparr>)"
    by (simp add: claim_submit_attempts_def can_send_submit_def claim_attempt_def outbound_submit_def
        sample_committed_def sample_prepared_def sample_acquired_def sample_pending_def sample_key_def Let_def)
  then have "life_step ((sample_life ?s)\<lparr>lf_batch := [?ob]\<rparr>) sample_claimed"
    using life_step.claim[of "(sample_life ?s)\<lparr>lf_batch := [?ob]\<rparr>" "[?ob]"
        "?s\<lparr>in_pending_submits := [2 \<mapsto> sample_pending (Writing 1)]\<rparr>"]
    by (simp add: sample_life_def life_new_def sample_claimed_def outbound_submit_def)
  ultimately show ?thesis using sample_reach_committed by (blast intro: life_reachable.step)
qed

section \<open>Properties\<close>

text \<open>
  C21: in every run each admitted SUBMIT has at most one terminal outcome (answered, timed out or
  dropped), one that has none is still pending, and no sequence is admitted twice: the admitted
  sequences are the disjoint union of those with an outcome and those in flight.
\<close>

theorem submit_one_outcome:
  assumes "life_reachable params l" "0 < retry_count params"
  shows "distinct (lf_admitted l) \<and> distinct (map snd (lf_done l)) \<and>
    set (lf_admitted l) = snd ` set (lf_done l) \<union> {k. unfinished (in_pending_submits (lf_inner l)) k} \<and>
    snd ` set (lf_done l) \<inter> {k. unfinished (in_pending_submits (lf_inner l)) k} = {}"
  using life_reachable_facts(1)[OF assms] by (auto simp: core_inv_def reg_inv_def)

theorem submit_one_outcome_witness:
  "let l = sample_life sample_committed in
    distinct (lf_admitted l) \<and> distinct (map snd (lf_done l)) \<and>
    set (lf_admitted l) = snd ` set (lf_done l) \<union> {k. unfinished (in_pending_submits (lf_inner l)) k} \<and>
    snd ` set (lf_done l) \<inter> {k. unfinished (in_pending_submits (lf_inner l)) k} = {}"
  unfolding Let_def by (rule submit_one_outcome[OF sample_reach_committed sample_retries])

text \<open>
  C22: the window is conserved: its free permits, the pending SUBMITs and the permits held by tasks that
  are submitting always add up to the configured window size, so that at most that many SUBMITs are in
  flight. \<open>submits_in_flight\<close> of the metrics counts those permits as well.
\<close>

theorem window_conserved:
  assumes "life_reachable params l" "0 < retry_count params"
  shows "in_window_available (lf_inner l) + card (dom (in_pending_submits (lf_inner l))) +
      lf_permits l + length (lf_ready l) = window_size params \<and>
    card (dom (in_pending_submits (lf_inner l))) \<le> window_size params \<and>
    cm_submits_in_flight (metrics (lf_inner l)) =
      card (dom (in_pending_submits (lf_inner l))) + lf_permits l + length (lf_ready l)"
  using life_reachable_facts(1,2)[OF assms] by (auto simp: core_inv_def metrics_def)

theorem window_conserved_witness:
  "let l = sample_life sample_committed in
    in_window_available (lf_inner l) + card (dom (in_pending_submits (lf_inner l))) +
      lf_permits l + length (lf_ready l) = 16 \<and>
    cm_submits_in_flight (metrics (lf_inner l)) = 1"
  using window_conserved[OF sample_reach_committed sample_retries]
  by (simp add: sample_life_def life_new_def sample_committed_def params_default_def)

text \<open>
  C23: an attempt of a SUBMIT is claimed for the wire at most once, its number lies between 1 and the
  retry count, and so no sequence is ever sent more often than the retry count allows.
\<close>

theorem attempts_bounded:
  assumes "life_reachable params l" "0 < retry_count params"
  shows "distinct (map (\<lambda>c. (ak_sequence_id c, ak_attempt c)) (lf_claimed l)) \<and>
    (\<forall>c \<in> set (lf_claimed l). ak_sequence_id c \<in> set (lf_admitted l) \<and>
       1 \<le> ak_attempt c \<and> ak_attempt c \<le> retry_count params) \<and>
    length (List.filter (\<lambda>c. ak_sequence_id c = k) (lf_claimed l)) \<le> unat (retry_count params)"
proof -
  have S: "sent_inv (retry_count params) (in_pending_submits (lf_inner l)) (lf_claimed l) (lf_admitted l)"
    by (rule life_reachable_facts(5)[OF assms])
  let ?f = "List.filter (\<lambda>c. ak_sequence_id c = k) (lf_claimed l)"
  have "distinct (map ak_attempt ?f)"
    using S by (auto simp: sent_inv_def distinct_map inj_on_def)
  moreover have "unat ` set (map ak_attempt ?f) \<subseteq> {1..unat (retry_count params)}"
    using S by (auto simp: sent_inv_def word_le_nat_alt)
  ultimately have "length ?f \<le> unat (retry_count params)"
    by (rule distinct_words_bounded)
  then show ?thesis using S by (auto simp: sent_inv_def)
qed

theorem attempts_bounded_witness:
  "let l = sample_claimed in
    lf_claimed l = [sample_key] \<and>
    length (List.filter (\<lambda>c. ak_sequence_id c = 2) (lf_claimed l)) \<le> 3"
  using attempts_bounded[OF sample_reach_claimed sample_retries, of 2]
  by (simp add: sample_claimed_def params_default_def)

text \<open>
  While the connection is open no pending SUBMIT is stuck: the attempt it waits for is in the submit
  queue or in the writer's batch, is being written, or has been written and its time-out runs.
\<close>

lemma no_submit_stuck:
  assumes "life_reachable params l" "0 < retry_count params" "in_phase (lf_inner l) = Phase_Open"
    and "in_pending_submits (lf_inner l) k = Some p"
  shows "case ps_state p of
      Queued a \<Rightarrow> key_of k p \<in> set (submit_keys (lf_batch l @ in_submit_queue (lf_inner l)))
    | Writing a \<Rightarrow> key_of k p \<in> set (lf_writing l)
    | RespondedWhileWriting a \<Rightarrow> key_of k p \<in> set (lf_writing l)
    | AwaitingResponse a written_at \<Rightarrow> 1 \<le> a \<and> a \<le> retry_count params"
proof -
  have "place (set (submit_keys (lf_batch l @ in_submit_queue (lf_inner l)))) (set (lf_writing l)) (ps_state p) (key_of k p)"
    using life_reachable_facts(4)[OF assms(1-3)] assms(4) by (simp add: tracked_def)
  moreover have "1 \<le> attempt_of (ps_state p) \<and> attempt_of (ps_state p) \<le> retry_count params"
    using core_inv_attempt[OF life_reachable_facts(1)[OF assms(1,2)] assms(4)]
      life_reachable_facts(3)[OF assms(1,2)] by simp
  ultimately show ?thesis by (cases "ps_state p") simp_all
qed

lemma no_submit_stuck_witness:
  "let p = sample_pending (Queued 1); l = sample_life sample_committed in
    key_of 2 p \<in> set (submit_keys (lf_batch l @ in_submit_queue (lf_inner l)))"
  using no_submit_stuck[OF sample_reach_committed sample_retries, of 2 "sample_pending (Queued 1)"]
  by (simp add: sample_life_def life_new_def sample_committed_def sample_prepared_def sample_acquired_def
      sample_pending_def)

text \<open>
  An admission is fresh: the sequence a commit admits was neither pending nor admitted before, so
  that the insertion into the pending map never replaces an entry.
\<close>

lemma admission_fresh:
  assumes "life_reachable params l" "0 < retry_count params"
    and "lf_ready l = xs @ b # ys" "submit_commit b (lf_inner l) = (Ok k, t)"
  shows "k = lease_id (sb_lease b) \<and> k \<notin> set (lf_admitted l) \<and> in_pending_submits (lf_inner l) k = None \<and>
    in_phase (lf_inner l) = Phase_Open \<and> in_submits_admitted t = in_submits_admitted (lf_inner l) + 1"
proof -
  note C = life_reachable_facts(1)[OF assms(1,2)]
  have b: "ready_ok b" using life_reachable_inv[OF assms(1,2)] assms(3) by (auto simp: life_inv_def life_core_def)
  have k: "k = lease_id (sb_lease b)"
    using assms(4) b by (cases rule: commit_cases) (auto simp: ready_ok_def)
  then have "k \<notin> set (lf_admitted l)" using C assms(3) by (auto simp: core_inv_def reg_inv_def held_def)
  moreover from this have "in_pending_submits (lf_inner l) k = None"
    using C by (cases "in_pending_submits (lf_inner l) k") (auto simp: core_inv_def pend_inv_def)
  moreover have "in_phase (lf_inner l) = Phase_Open"
    using assms(4) by (cases "in_phase (lf_inner l) = Phase_Open") (auto simp: submit_commit_def Let_def)
  moreover have "in_submits_admitted t = in_submits_admitted (lf_inner l) + 1"
    using commit_counts[OF assms(4)] .
  ultimately show ?thesis using k by blast
qed

lemma admission_fresh_witness:
  "in_pending_submits sample_prepared 2 = None \<and> in_phase sample_prepared = Phase_Open \<and>
    in_submits_admitted sample_committed = in_submits_admitted sample_prepared + 1"
  using admission_fresh[OF sample_reach_ready sample_retries, of "[]" sample_submission "[]" 2 sample_committed]
    sample_commit by (simp add: life_new_def)

end
