(* ===== verification/Cmpp_System.thy ===== *)
theory Cmpp_System
  imports Main
begin

text \<open>
  Transition systems and their refinement, independent of the program: what a reachability predicate
  promises, and a forward simulation that maps every concrete step to a run of abstract ones.
\<close>

section \<open>Transition systems\<close>

locale transition_system =
  fixes step :: "'s \<Rightarrow> 's \<Rightarrow> bool"
    and reachable :: "'s \<Rightarrow> bool"
    and start :: 's
  assumes reachable_start: "reachable start"
    and reachable_step: "reachable s \<Longrightarrow> step s t \<Longrightarrow> reachable t"
    and reachable_induct:
      "reachable s \<Longrightarrow> P start \<Longrightarrow> (\<And>u v. reachable u \<Longrightarrow> P u \<Longrightarrow> step u v \<Longrightarrow> P v) \<Longrightarrow> P s"
begin

lemma reachable_run: "step\<^sup>*\<^sup>* s t \<Longrightarrow> reachable s \<Longrightarrow> reachable t"
  by (induction rule: rtranclp_induct) (auto intro: reachable_step)

lemma reachable_iff_run: "reachable s \<longleftrightarrow> step\<^sup>*\<^sup>* start s"
proof
  assume "reachable s"
  then show "step\<^sup>*\<^sup>* start s"
    by (rule reachable_induct) (auto intro: rtranclp.rtrancl_into_rtrancl)
qed (auto intro: reachable_run reachable_start)

lemma invariant:
  assumes "reachable s" "P start" "\<And>u v. reachable u \<Longrightarrow> P u \<Longrightarrow> step u v \<Longrightarrow> P v"
  shows "P s"
  using assms by (rule reachable_induct)

end

section \<open>Simulation\<close>

text \<open>
  \<open>related\<close> holds between a concrete and an abstract state; the laws may use that both are reachable, so
  that invariants of either system carry the simulation.
\<close>

locale simulation =
  concrete: transition_system cstep creachable cstart +
  abstract: transition_system astep areachable astart
  for cstep :: "'c \<Rightarrow> 'c \<Rightarrow> bool" and creachable :: "'c \<Rightarrow> bool" and cstart :: 'c
    and astep :: "'a \<Rightarrow> 'a \<Rightarrow> bool" and areachable :: "'a \<Rightarrow> bool" and astart :: 'a +
  fixes related :: "'c \<Rightarrow> 'a \<Rightarrow> bool"
  assumes related_start: "related cstart astart"
    and related_step:
      "creachable c \<Longrightarrow> areachable a \<Longrightarrow> related c a \<Longrightarrow> cstep c d \<Longrightarrow> \<exists>b. astep\<^sup>*\<^sup>* a b \<and> related d b"
begin

lemma refines: "creachable c \<Longrightarrow> \<exists>a. areachable a \<and> related c a"
proof (rule concrete.reachable_induct[of c])
  show "\<exists>a. areachable a \<and> related cstart a" using abstract.reachable_start related_start by blast
next
  fix u v
  assume u: "creachable u" "cstep u v" and "\<exists>a. areachable a \<and> related u a"
  then obtain a where a: "areachable a" "related u a" by blast
  then obtain b where "astep\<^sup>*\<^sup>* a b" "related v b" using related_step[OF u(1) a u(2)] by blast
  then show "\<exists>a. areachable a \<and> related v a" using abstract.reachable_run[OF _ a(1)] by blast
qed


end

end
