(* ===== verification/Cmpp_Contract.thy ===== *)
theory Cmpp_Contract
  imports Cmpp_Submits Cmpp_System
begin

text \<open>
  What a connection promises about its SUBMITs, as an abstract machine of one status per sequence
  identifier and the flag that admission is open, and the proof that the life cycle implements it.
\<close>

section \<open>The abstract machine\<close>

datatype submit_status = Unseen | In_flight | Settled outcome

record contract =
  ct_open :: bool
  ct_status :: "u32 \<Rightarrow> submit_status"

definition contract_new :: contract where
  "contract_new = \<lparr>ct_open = True, ct_status = (\<lambda>_. Unseen)\<rparr>"

definition in_flight :: "contract \<Rightarrow> u32 set" where
  "in_flight c = {k. ct_status c k = In_flight}"

text \<open>
  A SUBMIT is admitted once, while admission is open and the window has room, and settled once; it is
  only dropped after admission has been closed, and admission never opens again.
\<close>

inductive contract_step :: "nat \<Rightarrow> contract \<Rightarrow> contract \<Rightarrow> bool" for window where
  admit:
    "ct_open c \<Longrightarrow> ct_status c k = Unseen \<Longrightarrow> card (in_flight c) < window \<Longrightarrow>
     contract_step window c (c\<lparr>ct_status := (ct_status c)(k := In_flight)\<rparr>)"
| settle:
    "ct_status c k = In_flight \<Longrightarrow> r = Dropped \<longrightarrow> \<not> ct_open c \<Longrightarrow>
     contract_step window c (c\<lparr>ct_status := (ct_status c)(k := Settled r)\<rparr>)"
| shut: "contract_step window c (c\<lparr>ct_open := False\<rparr>)"

inductive contract_reachable :: "nat \<Rightarrow> contract \<Rightarrow> bool" for window where
  start: "contract_reachable window contract_new"
| step: "contract_reachable window c \<Longrightarrow> contract_step window c d \<Longrightarrow> contract_reachable window d"

interpretation contract: transition_system "contract_step window" "contract_reachable window" contract_new
  for window
proof
  show "contract_reachable window contract_new" by (rule contract_reachable.start)
  show "contract_reachable window d" if "contract_reachable window c" "contract_step window c d" for c d
    using that by (rule contract_reachable.step)
  show "P c" if "contract_reachable window c" "P contract_new"
    "\<And>u v. contract_reachable window u \<Longrightarrow> P u \<Longrightarrow> contract_step window u v \<Longrightarrow> P v" for P c
    using that by (induction rule: contract_reachable.induct) blast+
qed

text \<open>What the contract itself gives its users.\<close>

lemma contract_window:
  assumes "contract_reachable window c"
  shows "finite (in_flight c) \<and> card (in_flight c) \<le> window"
  using assms
proof (rule contract.invariant)
  show "finite (in_flight contract_new) \<and> card (in_flight contract_new) \<le> window"
    by (simp add: in_flight_def contract_new_def)
next
  fix c d
  assume I: "finite (in_flight c) \<and> card (in_flight c) \<le> window" and s: "contract_step window c d"
  from s show "finite (in_flight d) \<and> card (in_flight d) \<le> window"
  proof cases
    case (admit k)
    then have "in_flight d = insert k (in_flight c)" by (auto simp: in_flight_def)
    then show ?thesis using I admit by (auto simp: card_insert_if)
  next
    case (settle k r)
    then have "in_flight d = in_flight c - {k}" by (auto simp: in_flight_def)
    then show ?thesis using I by (auto intro: le_trans[OF card_Diff1_le])
  next
    case shut
    then show ?thesis using I by (simp add: in_flight_def)
  qed
qed

lemma contract_settled: "contract_step window c d \<Longrightarrow> ct_status c k = Settled r \<Longrightarrow> ct_status d k = Settled r"
  by (auto elim!: contract_step.cases)

section \<open>The life cycle as a transition system\<close>

interpretation life: transition_system life_step "life_reachable params" "life_new (inner_new params)"
  for params
proof
  show "life_reachable params (life_new (inner_new params))" by (rule life_reachable.start)
  show "life_reachable params m" if "life_reachable params l" "life_step l m" for l m
    using that by (rule life_reachable.step)
  show "P l" if "life_reachable params l" "P (life_new (inner_new params))"
    "\<And>u v. life_reachable params u \<Longrightarrow> P u \<Longrightarrow> life_step u v \<Longrightarrow> P v" for P l
    using that by (induction rule: life_reachable.induct) blast+
qed

text \<open>
  What a step does to the admissions and outcomes: it admits one SUBMIT while the connection is open, or
  settles some with one kind of outcome; none opens the connection again.
\<close>

definition admits :: "u32 \<Rightarrow> life \<Rightarrow> life \<Rightarrow> bool" where
  "admits k l m \<longleftrightarrow>
     lf_admitted m = k # lf_admitted l \<and> lf_done m = lf_done l \<and> lf_ready l \<noteq> [] \<and>
     in_phase (lf_inner l) = Phase_Open \<and> in_phase (lf_inner m) = Phase_Open"

definition settles :: "outcome \<Rightarrow> u32 list \<Rightarrow> life \<Rightarrow> life \<Rightarrow> bool" where
  "settles r ks l m \<longleftrightarrow>
     lf_admitted m = lf_admitted l \<and> lf_done m = map (Pair r) ks @ lf_done l \<and>
     (r = Dropped \<longrightarrow> ks \<noteq> [] \<longrightarrow> in_phase (lf_inner l) \<noteq> Phase_Open) \<and>
     (in_phase (lf_inner m) = Phase_Open \<longrightarrow> in_phase (lf_inner l) = Phase_Open)"

lemma settlesI:
  assumes "lf_admitted m = lf_admitted l" "lf_done m = map (Pair r) ks @ lf_done l" "keeps (lf_inner l) t"
    and "in_phase (lf_inner m) = in_phase t" "r = Dropped \<Longrightarrow> in_phase (lf_inner l) \<noteq> Phase_Open"
  shows "settles r ks l m"
  using assms by (simp add: settles_def keeps_def)

lemma settles_none:
  assumes "lf_admitted m = lf_admitted l" "lf_done m = lf_done l" "keeps (lf_inner l) t"
    and "in_phase (lf_inner m) = in_phase t"
  shows "\<exists>r ks. settles r ks l m"
  using settlesI[of m l Answered "[]" t] assms by auto

lemma sent_nothing: "sent_inv n m [] a"
  by (simp add: sent_inv_def)

lemma settles_timeout:
  assumes "timeout_submit key s = (continue, t)"
  shows "in_phase t = Phase_Open \<Longrightarrow> in_phase s = Phase_Open"
proof -
  assume open_t: "in_phase t = Phase_Open"
  from assms show ?thesis
  proof (cases rule: timeout_submit_cases)
    case last
    from give_up_track[OF tracked_UNIV sent_nothing this(2)] show ?thesis using open_t by (simp add: keeps_def)
  next
    case again
    then show ?thesis using retry_sent(4)[OF sent_nothing] open_t by simp
  next
    case lost
    then show ?thesis using open_t same_life_queues_lost[of s] by (simp add: same_life_def)
  qed
qed

lemma life_step_effect:
  assumes "life_step l m"
  shows "(\<exists>k. admits k l m) \<or> (\<exists>r ks. settles r ks l m)"
  using assms
proof (cases rule: life_step.cases)
  case (acquire t)
  then show ?thesis using still_acquire[OF acquire(2)] by (intro disjI2 settles_none[of _ _ t]) (simp_all add: still_def)
next
  case permit_dropped
  then show ?thesis by (intro disjI2 settles_none[of _ _ "lf_inner m"]) (simp_all add: keeps_def release_window_def)
next
  case (leases base segments u ls t)
  then show ?thesis using still_leases[OF leases(2)] by (intro disjI2 settles_none[of _ _ t]) (simp_all add: still_def)
next
  case (lease_dropped xs k ys)
  then show ?thesis by (intro disjI2 settles_none[of _ _ "lf_inner m"]) (simp_all add: keeps_def drop_lease_def)
next
  case (prepare_auto gbk template plan index reference u r t)
  then show ?thesis
    using still_prepare[OF prepare_auto(3)] by (intro disjI2 settles_none[of _ _ t]) (simp_all add: still_def)
next
  case (prepare_manual xs k ys gbk template plan index reference u r t)
  then show ?thesis
    using still_prepare[OF prepare_manual(4)] by (intro disjI2 settles_none[of _ _ t]) (simp_all add: still_def)
next
  case (abandoned xs b ys)
  then show ?thesis
    using still_abandon[of "lf_inner l" "sb_lease b" "sb_udh b"]
    by (intro disjI2 settles_none[of _ _ "lf_inner m"]) (simp_all add: still_def)
next
  case (commit xs b ys r t)
  show ?thesis
    using commit(3)
  proof (cases rule: commit_cases)
    case (1 k p)
    have "in_phase (lf_inner l) = Phase_Open"
      using commit(3) 1(1) by (cases "in_phase (lf_inner l) = Phase_Open") (auto simp: submit_commit_def Let_def)
    then show ?thesis using 1 commit(1,2) by (auto simp: admits_def)
  next
    case 2
    then have "(case r of Ok k \<Rightarrow> k # lf_admitted l | _ \<Rightarrow> lf_admitted l) = lf_admitted l" by (auto split: res.split)
    then show ?thesis using commit 2 by (intro disjI2 settles_none[of _ _ t]) (simp_all add: still_def)
  qed
next
  case (take ob obs)
  then show ?thesis by (intro disjI2 settles_none[of _ _ "lf_inner l"]) simp_all
next
  case (claim kept t)
  have "keeps (lf_inner l) t" by (rule keeps_claim_batch) (use claim(3) in \<open>simp add: claim_submit_attempts_def\<close>)
  then show ?thesis using claim(1) by (intro disjI2 settles_none[of _ _ t]) simp_all
next
  case (written now)
  then show ?thesis using complete_all(2) by (intro disjI2 settles_none[of _ _ "lf_inner m"]) simp_all
next
  case (marker n)
  then show ?thesis by (intro disjI2 settles_none[of _ _ "lf_inner l"]) simp_all
next
  case writer_gone
  then show ?thesis by (intro disjI2 settles_none[of _ _ "lf_inner l"]) simp_all
next
  case (respond resps handled t)
  have "same_life t (fold publish_resp handled t)" by (rule same_life_fold) (rule same_life_publish)
  then have "keeps (lf_inner l) (fold publish_resp handled t)"
    using match_resps_track[OF tracked_UNIV sent_nothing respond(2)] by (blast intro: keeps_trans keeps_same)
  moreover have "map (\<lambda>r. (Answered, fst r)) handled = map (Pair Answered) (map fst handled)" by simp
  ultimately have "settles Answered (map fst handled) l m"
    using respond(1) by (intro settlesI[of _ _ _ _ "fold publish_resp handled t"]) simp_all
  then show ?thesis by blast
next
  case (timeout key continue t gone)
  have "settles Timed_out (if gone then [ak_sequence_id key] else []) l m"
    using timeout(1) settles_timeout[OF timeout(2)] by (simp add: settles_def)
  then show ?thesis by blast
next
  case (drain order dropped t)
  have "keeps (lf_inner l) (fold remove_pending order (lf_inner l))" by (rule keeps_fold) (rule keeps_remove)
  then have "keeps (lf_inner l) t" using drain(5) by (simp add: drain_pending_def)
  then have "settles Dropped dropped l m" using drain(1,4) by (intro settlesI[of _ _ _ _ t]) simp_all
  then show ?thesis by blast
next
  case (other_reserve k r)
  then show ?thesis by (intro disjI2 settles_none[of _ _ "lf_inner l"]) simp_all
next
  case (other_exhausted r)
  then show ?thesis by (intro disjI2 settles_none[of _ _ "lf_inner l"]) simp_all
next
  case (other_dropped xs k ys)
  then show ?thesis by (intro disjI2 settles_none[of _ _ "lf_inner m"]) (simp_all add: keeps_def drop_lease_def)
next
  case (environment t)
  then show ?thesis using keeps_same by (intro disjI2 settles_none[of _ _ t]) simp_all
qed

section \<open>The life cycle implements the contract\<close>

text \<open>The abstract state of a run: the admissions and the outcomes it has recorded.\<close>

definition outcome_of :: "life \<Rightarrow> u32 \<Rightarrow> outcome option" where
  "outcome_of l k = map_of (map prod.swap (lf_done l)) k"

definition contract_of :: "life \<Rightarrow> contract" where
  "contract_of l =
     \<lparr>ct_open = (in_phase (lf_inner l) = Phase_Open),
      ct_status = (\<lambda>k. case outcome_of l k of
                         Some r \<Rightarrow> Settled r
                       | None \<Rightarrow> if k \<in> set (lf_admitted l) then In_flight else Unseen)\<rparr>"

lemma outcome_None: "outcome_of l k = None \<longleftrightarrow> k \<notin> snd ` set (lf_done l)"
  by (force simp: outcome_of_def map_of_eq_None_iff)

lemma in_flight_contract_of:
  "in_flight (contract_of l) = {k \<in> set (lf_admitted l). k \<notin> snd ` set (lf_done l)}"
  using outcome_None[of l] by (auto simp: in_flight_def contract_of_def split: option.splits if_splits)

text \<open>The facts of the invariant that the simulation needs.\<close>

lemma life_contract_facts:
  assumes "life_reachable params l" "0 < retry_count params"
  shows "distinct (map snd (lf_done l))" "snd ` set (lf_done l) \<subseteq> set (lf_admitted l)" "distinct (lf_admitted l)"
    "card (in_flight (contract_of l)) + lf_permits l + length (lf_ready l) \<le> window_size params"
proof -
  note F = life_reachable_facts[OF assms]
  show "distinct (map snd (lf_done l))" "snd ` set (lf_done l) \<subseteq> set (lf_admitted l)" "distinct (lf_admitted l)"
    using F(1) by (auto simp: core_inv_def reg_inv_def)
  have "in_flight (contract_of l) \<subseteq> dom (in_pending_submits (lf_inner l))"
    using F(1) by (auto simp: in_flight_contract_of core_inv_def unfinished_def split: option.splits)
  moreover have "finite (dom (in_pending_submits (lf_inner l)))" using F(1) by (simp add: core_inv_def pend_inv_def)
  ultimately have "card (in_flight (contract_of l)) \<le> card (dom (in_pending_submits (lf_inner l)))"
    by (intro card_mono)
  then show "card (in_flight (contract_of l)) + lf_permits l + length (lf_ready l) \<le> window_size params"
    using F(1,2) by (simp add: core_inv_def)
qed

lemma contract_settle_all:
  assumes "distinct ks" "\<forall>k \<in> set ks. ct_status c k = In_flight" "r = Dropped \<longrightarrow> ks \<noteq> [] \<longrightarrow> \<not> ct_open c"
  shows "(contract_step window)\<^sup>*\<^sup>* c
    (c\<lparr>ct_status := (\<lambda>k. if k \<in> set ks then Settled r else ct_status c k)\<rparr>)"
  using assms
proof (induction ks)
  case (Cons k ks)
  let ?st = "\<lambda>ks x. if x \<in> set ks then Settled r else ct_status c x"
  let ?d = "c\<lparr>ct_status := ?st ks\<rparr>"
  have "contract_step window ?d (?d\<lparr>ct_status := (ct_status ?d)(k := Settled r)\<rparr>)"
    by (rule contract_step.settle) (use Cons.prems in simp_all)
  moreover have "(?st ks)(k := Settled r) = ?st (k # ks)" by (rule ext) simp
  then have "?d\<lparr>ct_status := (ct_status ?d)(k := Settled r)\<rparr> = c\<lparr>ct_status := ?st (k # ks)\<rparr>" by simp
  moreover have "(contract_step window)\<^sup>*\<^sup>* c ?d" by (rule Cons.IH) (use Cons.prems in simp_all)
  ultimately show ?case by (simp only: rtranclp.rtrancl_into_rtrancl)
qed simp

lemma contract_shut_if:
  "b \<longrightarrow> ct_open c \<Longrightarrow> (contract_step window)\<^sup>*\<^sup>* c (c\<lparr>ct_open := b\<rparr>)"
proof (cases "b = ct_open c")
  case False
  then show ?thesis if "b \<longrightarrow> ct_open c" using that contract_step.shut[of window c] by auto
qed simp

lemma contract_of_admits:
  assumes "admits k l m" "k \<notin> set (lf_admitted l)" "snd ` set (lf_done l) \<subseteq> set (lf_admitted l)"
    and "card (in_flight (contract_of l)) < window"
  shows "contract_step window (contract_of l) (contract_of m)"
proof -
  have "outcome_of l k = None" using assms(2,3) outcome_None[of l k] by blast
  moreover have "outcome_of m = outcome_of l" using assms(1) by (simp add: outcome_of_def admits_def fun_eq_iff)
  ultimately have "contract_of m = (contract_of l)\<lparr>ct_status := (ct_status (contract_of l))(k := In_flight)\<rparr>"
    using assms(1) by (simp add: contract_of_def admits_def fun_eq_iff split: option.split)
  moreover have "ct_open (contract_of l)" "ct_status (contract_of l) k = Unseen"
    using assms(1,2) \<open>outcome_of l k = None\<close> by (simp_all add: contract_of_def admits_def)
  ultimately show ?thesis using contract_step.admit assms(4) by simp
qed

lemma outcome_settles:
  assumes "settles r ks l m" "distinct (map snd (lf_done m))"
  shows "outcome_of m k = (if k \<in> set ks then Some r else outcome_of l k)"
proof -
  have "map_of (map (\<lambda>k. (k, r)) ks) k = (if k \<in> set ks then Some r else None)" by (induction ks) auto
  then show ?thesis using assms(1) by (simp add: outcome_of_def settles_def comp_def map_add_def split: option.split)
qed

lemma contract_of_settles:
  assumes "settles r ks l m" "distinct (map snd (lf_done m))" "snd ` set (lf_done m) \<subseteq> set (lf_admitted m)"
  shows "(contract_step window)\<^sup>*\<^sup>* (contract_of l) (contract_of m)"
proof -
  let ?d = "(contract_of l)\<lparr>ct_status := (\<lambda>k. if k \<in> set ks then Settled r else ct_status (contract_of l) k)\<rparr>"
  have "set ks \<subseteq> set (lf_admitted l)" "set ks \<inter> snd ` set (lf_done l) = {}" "distinct ks"
    using assms by (simp_all add: settles_def comp_def image_Un image_image)
  then have "ct_status (contract_of l) k = In_flight" if "k \<in> set ks" for k
    using that outcome_None[of l k] by (auto simp: contract_of_def)
  then have "(contract_step window)\<^sup>*\<^sup>* (contract_of l) ?d"
    using assms(1) \<open>distinct ks\<close> by (intro contract_settle_all) (auto simp: settles_def contract_of_def)
  moreover have "contract_of m = ?d\<lparr>ct_open := (in_phase (lf_inner m) = Phase_Open)\<rparr>"
    using assms(1) outcome_settles[OF assms(1,2)] by (simp add: contract_of_def settles_def fun_eq_iff)
  moreover have "(contract_step window)\<^sup>*\<^sup>* ?d (?d\<lparr>ct_open := (in_phase (lf_inner m) = Phase_Open)\<rparr>)"
    using assms(1) by (intro contract_shut_if) (simp add: settles_def contract_of_def)
  ultimately show ?thesis by simp
qed

lemma life_implements_contract:
  assumes "0 < retry_count params" "life_reachable params l" "life_step l m"
  shows "(contract_step (window_size params))\<^sup>*\<^sup>* (contract_of l) (contract_of m)"
proof -
  note Fl = life_contract_facts[OF assms(2,1)]
  note Fm = life_contract_facts[OF life.reachable_step[OF assms(2,3)] assms(1)]
  from life_step_effect[OF assms(3)] show ?thesis
  proof (elim disjE exE)
    fix k
    assume k: "admits k l m"
    then have "k \<notin> set (lf_admitted l)" "0 < length (lf_ready l)" using Fm(3) by (auto simp: admits_def)
    moreover have "card (in_flight (contract_of l)) < window_size params" using calculation(2) Fl(4) by linarith
    ultimately show ?thesis using contract_of_admits[OF k _ Fl(2)] by blast
  next
    fix r ks
    assume "settles r ks l m"
    from contract_of_settles[OF this Fm(1,2)] show ?thesis .
  qed
qed

section \<open>Properties\<close>

interpretation submits: simulation life_step "life_reachable params" "life_new (inner_new params)"
    "contract_step (window_size params)" "contract_reachable (window_size params)" contract_new
    "\<lambda>l c. 0 < retry_count params \<longrightarrow> c = contract_of l"
  for params
proof
  have "in_phase (inner_new params) = Phase_Open" by (simp add: inner_new_def Let_def)
  then show "0 < retry_count params \<longrightarrow> contract_new = contract_of (life_new (inner_new params))"
    by (simp add: contract_new_def contract_of_def life_new_def outcome_of_def)
next
  fix l c m
  assume "life_reachable params l" "0 < retry_count params \<longrightarrow> c = contract_of l" "life_step l m"
  then show "\<exists>d. (contract_step (window_size params))\<^sup>*\<^sup>* c d \<and> (0 < retry_count params \<longrightarrow> d = contract_of m)"
    using life_implements_contract[of params l m] by (cases "0 < retry_count params") auto
qed

text \<open>
  C10: the life cycle implements the contract: read through its admissions and outcomes, every run is a
  run of the abstract machine in which a SUBMIT is admitted at most once, only while admission is open
  and the window has room, is settled at most once and only after its admission, and is dropped only
  after admission has closed for good; each step of the tasks is a run of it.
\<close>

theorem submits_meet_contract:
  assumes "life_reachable params l" "0 < retry_count params"
  shows "contract_reachable (window_size params) (contract_of l) \<and>
    (\<forall>m. life_step l m \<longrightarrow> (contract_step (window_size params))\<^sup>*\<^sup>* (contract_of l) (contract_of m))"
  using submits.refines[OF assms(1)] life_implements_contract[OF assms(2,1)] assms(2) by auto

theorem submits_meet_contract_witness:
  "contract_reachable 16 (contract_of (sample_life sample_committed)) \<and>
   ct_status (contract_of (sample_life sample_committed)) 2 = In_flight"
proof -
  have "window_size params_default = 16" by (simp add: params_default_def)
  then have "contract_reachable 16 (contract_of (sample_life sample_committed))"
    using submits_meet_contract[OF sample_reach_committed sample_retries] by simp
  moreover have "ct_status (contract_of (sample_life sample_committed)) 2 = In_flight"
    by (simp add: contract_of_def outcome_of_def sample_life_def life_new_def)
  ultimately show ?thesis by simp
qed

end
