(* ===== verification/Cmpp_Writer.thy ===== *)
theory Cmpp_Writer
  imports Cmpp_Window "HOL-Library.Sublist"
begin

text \<open>
  The writer task (\<open>writer_task\<close> of \<open>src/connection.rs\<close>): the choice of the next message, the assembly
  of a batch, its claim, its write and what follows a complete write. Other tasks may run between two
  turns of the assembly; a turn carries its time and what they did to the state.
\<close>

section \<open>The next message\<close>

text \<open>
  \<open>pick_outbound\<close> is the priority of both the blocking wait for the first message and the harvest of
  the others; \<open>None\<close> when there is none. The flag says that it comes from the submit queue.
\<close>

definition take_submit :: "inner \<Rightarrow> ((outbound \<times> bool) \<times> inner) option" where
  "take_submit s =
     (case in_submit_queue s of
        [] \<Rightarrow> None
      | ob # obs \<Rightarrow> Some ((ob, True), s\<lparr>in_submit_queue := obs\<rparr>))"

definition take_control :: "inner \<Rightarrow> ((outbound \<times> bool) \<times> inner) option" where
  "take_control s =
     (case in_control_queue s of
        [] \<Rightarrow> None
      | ob # obs \<Rightarrow> Some ((ob, False), s\<lparr>in_control_queue := obs\<rparr>))"

definition or_else :: "'a option \<Rightarrow> 'a option \<Rightarrow> 'a option" where
  "or_else x y = (case x of None \<Rightarrow> y | Some _ \<Rightarrow> x)"

definition pick_outbound :: "nat \<Rightarrow> inner \<Rightarrow> ((outbound \<times> bool) \<times> inner) option" where
  "pick_outbound control_burst s =
     (if can_send_submit s \<and> CONTROL_BURST_LIMIT \<le> control_burst
      then or_else (take_submit s) (take_control s)
      else if can_send_submit s then or_else (take_control s) (take_submit s)
      else take_control s)"

text \<open>The wait for the first message of a batch: \<open>Some None\<close> when the connection is closed.\<close>

definition writer_wait :: "nat \<Rightarrow> inner \<Rightarrow> ((outbound \<times> bool) \<times> inner) option option" where
  "writer_wait control_burst s =
     (if in_phase s = Phase_Closed then Some None
      else map_option Some (pick_outbound control_burst s))"

section \<open>The end of the task\<close>

text \<open>
  What the task holds when it returns goes with it, the rest of both queues included: a ticket that was
  not published is dropped.
\<close>

definition drop_outbound :: "outbound \<Rightarrow> inner \<Rightarrow> inner" where
  "drop_outbound ob s =
     (case ob_event_after_write ob of None \<Rightarrow> s | Some (ticket, _) \<Rightarrow> ticket_drop ticket s)"

definition writer_exit :: "outbound list \<Rightarrow> inner \<Rightarrow> inner" where
  "writer_exit batch s =
     (let obs = batch @ in_submit_queue s @ in_control_queue s in
      fold drop_outbound obs (s\<lparr>in_submit_queue := [], in_control_queue := [], in_queues_closed := True\<rparr>))"

section \<open>The assembly of a batch\<close>

record assembly =
  as_batch :: "outbound list"
  as_octets :: nat
  as_min_remaining :: "nat option"
  as_marker :: "outbound option"
  as_burst :: nat

definition assembly_new :: "nat \<Rightarrow> assembly" where
  "assembly_new control_burst =
     \<lparr>as_batch = [], as_octets = 0, as_min_remaining = None, as_marker = None, as_burst = control_burst\<rparr>"

datatype assembled = Batch_Open | Batch_Full | Writer_Exit

text \<open>
  One message: the drain marker ends the batch, a message that has expired is skipped, a response
  whose budget has passed ends the connection, anything else joins the batch.
\<close>

definition assemble_one :: "nat \<Rightarrow> outbound \<times> bool \<Rightarrow> assembly \<Rightarrow> inner \<Rightarrow> assembled \<times> assembly \<times> inner" where
  "assemble_one now picked a s =
     (case picked of
        (ob, is_submit) \<Rightarrow>
          (let a = a\<lparr>as_burst := (if is_submit then 0 else as_burst a + 1)\<rparr> in
           if ob_submit_drain_marker ob then (Batch_Full, a\<lparr>as_marker := Some ob\<rparr>, s)
           else if is_submit \<and> ob_submit_attempt ob = None
           then (Writer_Exit, a, writer_exit (as_batch a @ [ob]) (finish (Some Error_ChannelClosed) s))
           else
             (let (claimed, s) =
                (case ob_heartbeat_attempt ob of
                   None \<Rightarrow> (True, s)
                 | Some key \<Rightarrow> claim_heartbeat_attempt key s)
              in
                if \<not> claimed then (Batch_Open, a, s)
                else if ob_open_only ob \<and> in_phase s \<noteq> Phase_Open then (Batch_Open, a, s)
                else if ob_cancel_after_peer_terminate ob \<and> in_peer_terminate_response_written s
                then (Batch_Open, a, s)
                else
                  (let pushed = a\<lparr>as_batch := as_batch a @ [ob],
                                  as_octets := as_octets a + length (ob_packet ob)\<rparr>
                   in
                     case ob_response_budget_started_at ob of
                       None \<Rightarrow> (Batch_Open, pushed, s)
                     | Some started_at \<Rightarrow>
                         (let elapsed = now - started_at in
                          if in_response_timeout s \<le> elapsed
                          then (Writer_Exit, a, writer_exit (as_batch a @ [ob]) (finish (Some Error_Timeout) s))
                          else
                            (let remaining = in_response_timeout s - elapsed in
                             (Batch_Open,
                              pushed\<lparr>as_min_remaining :=
                                (case as_min_remaining a of
                                   None \<Rightarrow> Some remaining
                                 | Some current \<Rightarrow> Some (min current remaining))\<rparr>, s)))))))"

definition batch_full :: "assembly \<Rightarrow> inner \<Rightarrow> bool" where
  "batch_full a s \<longleftrightarrow>
     in_write_batch_max_frames s \<le> length (as_batch a) \<or> in_write_batch_max_bytes s \<le> as_octets a"

type_synonym turn = "nat \<times> (inner \<Rightarrow> inner)"

fun assemble_rest :: "turn list \<Rightarrow> assembly \<Rightarrow> inner \<Rightarrow> assembled \<times> assembly \<times> inner" where
  "assemble_rest [] a s = (Batch_Open, a, s)"
| "assemble_rest ((now, others) # turns) a s =
     (let s = others s in
      if batch_full a s then (Batch_Full, a, s)
      else
        (case pick_outbound (as_burst a) s of
           None \<Rightarrow> (Batch_Full, a, s)
         | Some (picked, s) \<Rightarrow>
             (case assemble_one now picked a s of
                (Batch_Open, a, s) \<Rightarrow> assemble_rest turns a s
              | r \<Rightarrow> r)))"

text \<open>The first message has been waited for, and joins without a look at the limits.\<close>

definition assemble :: "nat \<Rightarrow> outbound \<times> bool \<Rightarrow> turn list \<Rightarrow> nat \<Rightarrow> inner \<Rightarrow> assembled \<times> assembly \<times> inner" where
  "assemble now first turns control_burst s =
     (case assemble_one now first (assembly_new control_burst) s of
        (Batch_Open, a, s) \<Rightarrow> assemble_rest turns a s
      | r \<Rightarrow> r)"

section \<open>The write\<close>

definition complete_marker :: "outbound option \<Rightarrow> inner \<Rightarrow> inner" where
  "complete_marker marker s =
     (case marker of
        None \<Rightarrow> s
      | Some ob \<Rightarrow>
          (let s = s\<lparr>in_drain_submits_on_close := False\<rparr> in
           case ob_written_tx ob of
             None \<Rightarrow> s
           | Some n \<Rightarrow> s\<lparr>in_signals := in_signals s @ [n]\<rparr>))"

definition complete_outbound :: "nat \<Rightarrow> outbound \<Rightarrow> inner \<Rightarrow> inner" where
  "complete_outbound written_at ob s =
     (let s = (case ob_heartbeat_attempt ob of
                 None \<Rightarrow> s
               | Some key \<Rightarrow> complete_heartbeat_attempt key written_at s);
          s = (if ob_marks_peer_terminate_response ob
               then s\<lparr>in_peer_terminate_response_written := True\<rparr> else s);
          s = (if ob_written_flag ob
               then s\<lparr>in_pending_terminate := map_option (pt_written_update (\<lambda>_. True)) (in_pending_terminate s)\<rparr>
               else s);
          s = (case ob_event_after_write ob of
                 None \<Rightarrow> s
               | Some (ticket, e) \<Rightarrow> snd (publish ticket e s))
      in case ob_written_tx ob of
           None \<Rightarrow> s
         | Some n \<Rightarrow> s\<lparr>in_signals := in_signals s @ [n]\<rparr>)"

definition complete_batch :: "nat \<Rightarrow> outbound list \<Rightarrow> outbound option \<Rightarrow> inner \<Rightarrow> inner" where
  "complete_batch written_at batch marker s =
     (let s = s\<lparr>in_write_batches := in_write_batches s + 1,
                in_write_frames := in_write_frames s + of_nat (length batch)\<rparr>;
          s = complete_submit_attempts (List.map_filter ob_submit_attempt batch) written_at s;
          s = fold (complete_outbound written_at) batch s
      in complete_marker marker s)"

datatype write_outcome = Write_Done nat | Write_Closed | Write_Timeout | Write_Error io_error

definition write_budget :: "assembly \<Rightarrow> inner \<Rightarrow> nat" where
  "write_budget a s = (case as_min_remaining a of None \<Rightarrow> in_response_timeout s | Some r \<Rightarrow> r)"

text \<open>
  \<open>write_batch\<close> claims the SUBMITs of the batch and gives the bytes handed to the socket;
  \<open>after_write\<close> is what follows, with the outcome of the write. The flag says whether the task goes on.
\<close>

definition write_batch :: "assembly \<Rightarrow> inner \<Rightarrow> (outbound list \<times> bytes) \<times> inner" where
  "write_batch a s =
     (case claim_submit_attempts (as_batch a) s of
        (batch, t) \<Rightarrow> ((batch, concat (map ob_packet batch)), t))"

definition after_write :: "assembly \<Rightarrow> outbound list \<Rightarrow> write_outcome \<Rightarrow> inner \<Rightarrow> bool \<times> inner" where
  "after_write a batch outcome s =
     (if batch = [] then (True, complete_marker (as_marker a) s)
      else
        (case outcome of
           Write_Closed \<Rightarrow> (False, writer_exit batch s)
         | Write_Timeout \<Rightarrow>
             (False, writer_exit batch (finish (Some
                (if as_min_remaining a \<noteq> None then Error_Timeout else Error_Io Io_write_timed_out)) s))
         | Write_Error e \<Rightarrow> (False, writer_exit batch (finish (Some (Error_Io e)) s))
         | Write_Done written_at \<Rightarrow> (True, complete_batch written_at batch (as_marker a) s)))"

section \<open>Lemmas\<close>

text \<open>Clean-up in \<open>finish\<close>, the end of the task and the claim of a heartbeat keep limits and queues.\<close>

lemma finish_queues [simp]:
  "in_submit_queue (finish r s) = in_submit_queue s" "in_control_queue (finish r s) = in_control_queue s"
  "in_write_batch_max_frames (finish r s) = in_write_batch_max_frames s"
  "in_write_batch_max_bytes (finish r s) = in_write_batch_max_bytes s"
  by (simp_all add: finish_def transition_to_closed_def Let_def)

lemma claim_heartbeat_sel:
  assumes "claim_heartbeat_attempt key s = (c, t)"
  shows "in_submit_queue t = in_submit_queue s" "in_control_queue t = in_control_queue s"
    "in_write_batch_max_frames t = in_write_batch_max_frames s" "in_write_batch_max_bytes t = in_write_batch_max_bytes s"
    "in_response_timeout t = in_response_timeout s" "in_phase t = in_phase s"
  using assms by (auto simp: claim_heartbeat_attempt_def split: if_splits option.splits)

lemma finish_closed: "in_phase (finish r s) = Phase_Closed"
  by (simp add: finish_def transition_to_closed_def Let_def)

text \<open>What one message does: the marker ends the batch, the others are skipped or join at the end.\<close>

definition counted :: "bool \<Rightarrow> assembly \<Rightarrow> assembly" where
  "counted is_submit a = a\<lparr>as_burst := (if is_submit then 0 else as_burst a + 1)\<rparr>"

lemma assemble_one_cases:
  assumes A: "assemble_one now (ob, is_submit) a s = (r, a', s')" and r: "r \<noteq> Writer_Exit"
    and t: "(case ob_heartbeat_attempt ob of None \<Rightarrow> (True, s) | Some key \<Rightarrow> claim_heartbeat_attempt key s) = (c, t)"
  shows "ob_submit_drain_marker ob \<and> r = Batch_Full \<and> a' = (counted is_submit a)\<lparr>as_marker := Some ob\<rparr> \<and> s' = s \<or>
    \<not> ob_submit_drain_marker ob \<and> r = Batch_Open \<and> a' = counted is_submit a \<and> s' = t \<and>
      (ob_heartbeat_attempt ob \<noteq> None \<or> ob_open_only ob \<or> ob_cancel_after_peer_terminate ob) \<or>
    \<not> ob_submit_drain_marker ob \<and> r = Batch_Open \<and> s' = t \<and>
      (\<exists>m. a' = (counted is_submit a)\<lparr>as_batch := as_batch a @ [ob],
        as_octets := as_octets a + length (ob_packet ob), as_min_remaining := m\<rparr>)"
proof (cases "ob_submit_drain_marker ob")
  case True
  then show ?thesis using A by (simp add: assemble_one_def Let_def counted_def)
next
  case nm: False
  have ns: "\<not> (is_submit \<and> ob_submit_attempt ob = None)"
  proof
    assume "is_submit \<and> ob_submit_attempt ob = None"
    then show False using A r nm by (simp add: assemble_one_def Let_def)
  qed
  show ?thesis
  proof (cases "\<not> c \<or> ob_open_only ob \<and> in_phase t \<noteq> Phase_Open \<or>
      ob_cancel_after_peer_terminate ob \<and> in_peer_terminate_response_written t")
    case True
    then have "ob_heartbeat_attempt ob \<noteq> None \<or> ob_open_only ob \<or> ob_cancel_after_peer_terminate ob"
      using t by auto
    moreover have "a' = counted is_submit a \<and> r = Batch_Open \<and> s' = t"
      using True A nm ns
      by (elim disjE conjE) (simp_all add: assemble_one_def Let_def t counted_def split: if_split_asm)
    ultimately show ?thesis using nm by simp
  next
    case False
    show ?thesis
    proof (cases "ob_response_budget_started_at ob")
      case None
      then have "a' = (counted is_submit a)\<lparr>as_batch := as_batch a @ [ob],
          as_octets := as_octets a + length (ob_packet ob), as_min_remaining := as_min_remaining a\<rparr> \<and> r = Batch_Open \<and> s' = t"
        using A nm ns False by (auto simp: assemble_one_def Let_def t counted_def)
      then show ?thesis using nm by blast
    next
      case (Some started_at)
      have "\<not> in_response_timeout t \<le> now - started_at"
      proof
        assume "in_response_timeout t \<le> now - started_at"
        then show False using A r nm ns False Some by (auto simp: assemble_one_def Let_def t)
      qed
      then have "r = Batch_Open \<and> s' = t \<and> a' = (counted is_submit a)\<lparr>as_batch := as_batch a @ [ob],
          as_octets := as_octets a + length (ob_packet ob), as_min_remaining := as_min_remaining a'\<rparr>"
        using A nm ns False Some by (auto simp: assemble_one_def Let_def t counted_def)
      then show ?thesis using nm by blast
    qed
  qed
qed

lemma counted_sel [simp]:
  "as_batch (counted b a) = as_batch a" "as_octets (counted b a) = as_octets a" "as_marker (counted b a) = as_marker a"
  "as_burst (counted b a) = (if b then 0 else as_burst a + 1)"
  by (simp_all add: counted_def)

lemma assemble_one_open:
  assumes "assemble_one now (ob, is_submit) a s = (Batch_Open, a', s')"
  shows "as_batch a' = as_batch a \<and> as_octets a' = as_octets a \<and>
      (ob_heartbeat_attempt ob \<noteq> None \<or> ob_open_only ob \<or> ob_cancel_after_peer_terminate ob) \<or>
    as_batch a' = as_batch a @ [ob] \<and> as_octets a' = as_octets a + length (ob_packet ob)"
proof -
  obtain c t where t: "(case ob_heartbeat_attempt ob of None \<Rightarrow> (True, s) | Some key \<Rightarrow> claim_heartbeat_attempt key s) = (c, t)"
    by force
  from assemble_one_cases[OF assms _ t] show ?thesis by auto
qed

lemma assemble_one_sel:
  assumes "assemble_one now (ob, is_submit) a s = (r, a', s')" "r \<noteq> Writer_Exit"
  shows "in_submit_queue s' = in_submit_queue s \<and> in_control_queue s' = in_control_queue s \<and>
    in_write_batch_max_frames s' = in_write_batch_max_frames s \<and>
    in_write_batch_max_bytes s' = in_write_batch_max_bytes s \<and>
    as_burst a' = (if is_submit then 0 else as_burst a + 1) \<and>
    as_marker a' = (if ob_submit_drain_marker ob then Some ob else as_marker a) \<and>
    (r = Batch_Full \<longleftrightarrow> ob_submit_drain_marker ob) \<and>
    (ob_submit_drain_marker ob \<longrightarrow> as_batch a' = as_batch a \<and> as_octets a' = as_octets a)"
proof -
  obtain c t where t: "(case ob_heartbeat_attempt ob of None \<Rightarrow> (True, s) | Some key \<Rightarrow> claim_heartbeat_attempt key s) = (c, t)"
    by force
  have T: "in_submit_queue t = in_submit_queue s \<and> in_control_queue t = in_control_queue s \<and>
    in_write_batch_max_frames t = in_write_batch_max_frames s \<and> in_write_batch_max_bytes t = in_write_batch_max_bytes s"
    using t claim_heartbeat_sel[of _ s c t] by (cases "ob_heartbeat_attempt ob") auto
  from assemble_one_cases[OF assms t] show ?thesis using T by (elim disjE conjE exE) simp_all
qed

lemma pick_cases:
  assumes "pick_outbound b s = Some ((ob, is_submit), t)"
  obtains "is_submit" "in_submit_queue s = ob # in_submit_queue t" "in_control_queue t = in_control_queue s"
      "can_send_submit s"
  | "\<not> is_submit" "in_control_queue s = ob # in_control_queue t" "in_submit_queue t = in_submit_queue s"
      "can_send_submit s \<Longrightarrow> CONTROL_BURST_LIMIT \<le> b \<Longrightarrow> in_submit_queue s = []"
  using assms
  by (auto simp: pick_outbound_def or_else_def take_submit_def take_control_def split: if_splits list.splits option.splits)

section \<open>Runs of the assembly\<close>

text \<open>What the connection puts into the submit queue.\<close>

definition submit_message :: "outbound \<Rightarrow> bool" where
  "submit_message ob \<longleftrightarrow> (\<exists>packet key. ob = outbound_submit packet key) \<or> (\<exists>n. ob = outbound_submit_drain_marker n)"

definition control_message :: "outbound \<Rightarrow> bool" where
  "control_message ob \<longleftrightarrow> ob_submit_attempt ob = None \<and> \<not> ob_submit_drain_marker ob"

text \<open>What other tasks do between two turns leaves the limits alone and only appends to the queues.\<close>

definition appends :: "(inner \<Rightarrow> inner) \<Rightarrow> bool" where
  "appends others \<longleftrightarrow>
     (\<forall>s. (\<exists>new. in_submit_queue (others s) = in_submit_queue s @ new \<and> list_all submit_message new) \<and>
        (\<exists>new. in_control_queue (others s) = in_control_queue s @ new \<and>
           list_all control_message new) \<and>
        in_write_batch_max_frames (others s) = in_write_batch_max_frames s \<and>
        in_write_batch_max_bytes (others s) = in_write_batch_max_bytes s)"

text \<open>
  A property of the open batch that each turn keeps holds to the end, where a marker may give another.
\<close>

lemma assemble_rest_invariant:
  assumes step: "\<And>now a s ob is_submit t r a' s'. P a s \<Longrightarrow> \<not> batch_full a s \<Longrightarrow>
      pick_outbound (as_burst a) s = Some ((ob, is_submit), t) \<Longrightarrow>
      assemble_one now (ob, is_submit) a t = (r, a', s') \<Longrightarrow> r \<noteq> Writer_Exit \<Longrightarrow>
      if r = Batch_Open then P a' s' else Q a' s'"
    and final: "\<And>a s. P a s \<Longrightarrow> Q a s"
    and "\<forall>(now, others) \<in> set turns. \<forall>a s. P a s \<longrightarrow> P a (others s)"
    and "P a s" "assemble_rest turns a s = (r, a', s')" "r \<noteq> Writer_Exit"
  shows "Q a' s'"
  using assms(3-)
proof (induction turns arbitrary: a s)
  case Nil
  then show ?case using final by simp
next
  case (Cons turn turns)
  obtain now others where turn: "turn = (now, others)" by force
  let ?s = "others s"
  have P: "P a ?s" using Cons.prems(1,2) by (simp add: turn)
  show ?case
  proof (cases "batch_full a ?s \<or> pick_outbound (as_burst a) ?s = None")
    case True
    then have "a' = a \<and> s' = ?s" using Cons.prems(3) by (auto simp: turn Let_def split: if_splits)
    then show ?thesis using final[OF P] by simp
  next
    case False
    then obtain ob b t where p: "pick_outbound (as_burst a) ?s = Some ((ob, b), t)" by force
    obtain r1 a1 s1 where one: "assemble_one now (ob, b) a t = (r1, a1, s1)" by (cases "assemble_one now (ob, b) a t")
    have R: "(if r1 = Batch_Open then assemble_rest turns a1 s1 else (r1, a1, s1)) = (r, a', s')"
      using Cons.prems(3) False p one by (cases r1) (auto simp: turn Let_def)
    then have nx: "r1 \<noteq> Writer_Exit" using Cons.prems(4) by (auto split: if_splits)
    have P1: "if r1 = Batch_Open then P a1 s1 else Q a1 s1"
      by (rule step[OF P _ p one nx]) (use False in simp)
    show ?thesis
    proof (cases "r1 = Batch_Open")
      case True
      then have "assemble_rest turns a1 s1 = (r, a', s')" "P a1 s1" using R P1 by simp_all
      then show ?thesis using Cons.IH[OF _ _ _ Cons.prems(4)] Cons.prems(1) by simp
    next
      case False
      then show ?thesis using R P1 by simp
    qed
  qed
qed

lemma assemble_invariant:
  assumes first: "\<And>r a' s'. assemble_one now first (assembly_new burst) s = (r, a', s') \<Longrightarrow> r \<noteq> Writer_Exit \<Longrightarrow>
      if r = Batch_Open then P a' s' else Q a' s'"
    and rest: "\<And>a1 s1 r a' s'. P a1 s1 \<Longrightarrow> assemble_rest turns a1 s1 = (r, a', s') \<Longrightarrow> r \<noteq> Writer_Exit \<Longrightarrow> Q a' s'"
    and run: "assemble now first turns burst s = (r, a', s')" "r \<noteq> Writer_Exit"
  shows "Q a' s'"
proof -
  obtain r1 a1 s1 where one: "assemble_one now first (assembly_new burst) s = (r1, a1, s1)"
    by (cases "assemble_one now first (assembly_new burst) s")
  show ?thesis
    using first[OF one] rest[of a1 s1 r a' s'] run one by (cases r1) (auto simp: assemble_def)
qed

text \<open>Both together: what the first message establishes and every turn keeps holds at the end.\<close>

lemma assemble_rule:
  assumes run: "assemble now first turns burst s = (r, a', s')" "r \<noteq> Writer_Exit"
    and first: "\<And>r a' s'. assemble_one now first (assembly_new burst) s = (r, a', s') \<Longrightarrow> r \<noteq> Writer_Exit \<Longrightarrow>
      if r = Batch_Open then P a' s' else Q a' s'"
    and step: "\<And>now a s ob is_submit t r a' s'. P a s \<Longrightarrow> \<not> batch_full a s \<Longrightarrow>
      pick_outbound (as_burst a) s = Some ((ob, is_submit), t) \<Longrightarrow>
      assemble_one now (ob, is_submit) a t = (r, a', s') \<Longrightarrow> r \<noteq> Writer_Exit \<Longrightarrow>
      if r = Batch_Open then P a' s' else Q a' s'"
    and final: "\<And>a s. P a s \<Longrightarrow> Q a s"
    and idle: "\<And>now others a s. (now, others) \<in> set turns \<Longrightarrow> P a s \<Longrightarrow> P a (others s)"
  shows "Q a' s'"
proof (rule assemble_invariant[where P = P and Q = Q, OF first _ run])
  fix a1 s1 r1 a2 s2
  assume P: "P a1 s1" and rest: "assemble_rest turns a1 s1 = (r1, a2, s2)" "r1 \<noteq> Writer_Exit"
  show "Q a2 s2"
    by (rule assemble_rest_invariant[where P = P and Q = Q, OF step final _ P rest]) (use idle in auto)
qed assumption+

text \<open>Whether the message joins, and what it adds to the size.\<close>

lemma assemble_one_size:
  assumes "assemble_one now (ob, is_submit) a s = (r, a', s')" "r \<noteq> Writer_Exit"
  shows "as_batch a' = as_batch a \<and> as_octets a' = as_octets a \<or>
    as_batch a' = as_batch a @ [ob] \<and> as_octets a' = as_octets a + length (ob_packet ob)"
  using assemble_one_open[of now ob is_submit a s a' s'] assemble_one_sel[OF assms] assms by (cases r) auto

definition packets_size :: "outbound list \<Rightarrow> nat" where
  "packets_size batch = length (concat (map ob_packet batch))"

definition batch_within :: "nat \<Rightarrow> nat \<Rightarrow> assembly \<Rightarrow> bool" where
  "batch_within frames octets a \<longleftrightarrow>
     length (as_batch a) \<le> frames \<and> as_octets a = packets_size (as_batch a) \<and>
     (as_batch a \<noteq> [] \<longrightarrow> packets_size (butlast (as_batch a)) < octets)"

lemma assemble_one_within:
  assumes "assemble_one now (ob, is_submit) a s = (r, a', s')" "r \<noteq> Writer_Exit"
    and "batch_within frames octets a" "length (as_batch a) < frames" "as_octets a < octets"
  shows "batch_within frames octets a'"
  using assemble_one_size[OF assms(1,2)] assms(3-5) by (auto simp: batch_within_def packets_size_def)

section \<open>The order of the SUBMITs\<close>

definition carries_submit :: "outbound \<Rightarrow> bool" where
  "carries_submit ob \<longleftrightarrow> ob_submit_attempt ob \<noteq> None"

definition marked :: "assembly \<Rightarrow> outbound list" where
  "marked a = (case as_marker a of None \<Rightarrow> [] | Some m \<Rightarrow> [m])"

text \<open>The SUBMITs taken, then the marker, then what is left of the queue.\<close>

definition submits_through :: "assembly \<Rightarrow> inner \<Rightarrow> outbound list" where
  "submits_through a s = List.filter carries_submit (as_batch a) @ marked a @ in_submit_queue s"

lemma submit_message_cases:
  assumes "submit_message ob"
  shows "carries_submit ob \<and> \<not> ob_submit_drain_marker ob \<and> ob_heartbeat_attempt ob = None \<and> \<not> ob_open_only ob \<and>
      \<not> ob_cancel_after_peer_terminate ob \<or> \<not> carries_submit ob \<and> ob_submit_drain_marker ob"
  using assms
  by (auto simp: submit_message_def carries_submit_def outbound_submit_def outbound_submit_drain_marker_def
      outbound_tracked_def outbound_plain_def)

lemma assemble_one_order:
  assumes A: "assemble_one now (ob, b) a s = (r, a', s')" "r \<noteq> Writer_Exit" "as_marker a = None"
    and m: "if b then submit_message ob else control_message ob"
  shows "submits_through a' s' =
      List.filter carries_submit (as_batch a) @ (if b then [ob] else []) @ in_submit_queue s \<and>
    in_control_queue s' = in_control_queue s \<and> (r = Batch_Open \<longrightarrow> as_marker a' = None)"
proof -
  note S = assemble_one_sel[OF A(1,2)]
  show ?thesis
  proof (cases b)
    case True
    then have M: "submit_message ob" using m by simp
    show ?thesis
    proof (cases r)
      case Batch_Open
      then have "as_batch a' = as_batch a @ [ob]" "carries_submit ob" "as_marker a' = None"
        using assemble_one_open[of now ob b a s a' s'] A S submit_message_cases[OF M] by auto
      then show ?thesis using True S by (simp add: submits_through_def marked_def)
    next
      case Batch_Full
      then show ?thesis using True S A(3) submit_message_cases[OF M] by (simp add: submits_through_def marked_def)
    qed (use A(2) in simp)
  next
    case False
    then have C: "\<not> carries_submit ob" "\<not> ob_submit_drain_marker ob"
      using m by (simp_all add: control_message_def carries_submit_def)
    then have "r = Batch_Open" using S A(2) by (cases r) auto
    then show ?thesis
      using assemble_one_open[of now ob b a s a' s'] A S C False by (auto simp: submits_through_def marked_def)
  qed
qed

text \<open>An assembly for the witnesses: two SUBMITs and the marker, in two turns.\<close>

definition sample_outbound :: "u32 \<Rightarrow> outbound" where
  "sample_outbound k = outbound_submit [1, 2] \<lparr>ak_sequence_id = k, ak_submission_id = 1, ak_attempt = 1\<rparr>"

definition sample_queue :: inner where
  "sample_queue = (inner_new params_default)\<lparr>in_submit_queue := [sample_outbound 3, outbound_submit_drain_marker 7, sample_outbound 4]\<rparr>"

lemma sample_queue_sel [simp]:
  "in_submit_queue sample_queue = [sample_outbound 3, outbound_submit_drain_marker 7, sample_outbound 4]"
  "in_control_queue sample_queue = []" "in_phase sample_queue = Phase_Open"
  "in_write_batch_max_frames sample_queue = 64" "in_write_batch_max_bytes sample_queue = 65536"
  by (simp_all add: sample_queue_def inner_new_def Let_def params_default_def)

lemma sample_outbound_sel [simp]:
  "ob_submit_drain_marker (sample_outbound k) = False" "ob_heartbeat_attempt (sample_outbound k) = None"
  "ob_open_only (sample_outbound k) = False" "ob_cancel_after_peer_terminate (sample_outbound k) = False"
  "ob_response_budget_started_at (sample_outbound k) = None" "ob_packet (sample_outbound k) = [1, 2]"
  "ob_submit_attempt (sample_outbound k) \<noteq> None" "carries_submit (sample_outbound k)"
  "submit_message (sample_outbound k)" "submit_message (outbound_submit_drain_marker n)"
  "ob_submit_drain_marker (outbound_submit_drain_marker n)"
  by (auto simp: sample_outbound_def carries_submit_def outbound_submit_def outbound_plain_def submit_message_def
      outbound_submit_drain_marker_def outbound_tracked_def)

lemma sample_assembly:
  "assemble 0 (sample_outbound 2, True) [(0, \<lambda>s. s), (0, \<lambda>s. s)] 0 sample_queue =
    (Batch_Full,
     \<lparr>as_batch = [sample_outbound 2, sample_outbound 3], as_octets = 4, as_min_remaining = None,
      as_marker = Some (outbound_submit_drain_marker 7), as_burst = 0\<rparr>,
     sample_queue\<lparr>in_submit_queue := [sample_outbound 4]\<rparr>)"
  by (simp add: assemble_def assemble_one_def assembly_new_def Let_def batch_full_def pick_outbound_def
      can_send_submit_def CONTROL_BURST_LIMIT_def or_else_def take_control_def take_submit_def)

lemma appends_id: "appends (\<lambda>s. s)"
  by (simp add: appends_def)

section \<open>Properties\<close>

lemma appends_limits:
  "appends others \<Longrightarrow> in_write_batch_max_frames (others s) = in_write_batch_max_frames s \<and>
    in_write_batch_max_bytes (others s) = in_write_batch_max_bytes s"
  by (simp add: appends_def)

lemma pick_limits:
  "pick_outbound b s = Some ((ob, is_submit), t) \<Longrightarrow>
    in_write_batch_max_frames t = in_write_batch_max_frames s \<and> in_write_batch_max_bytes t = in_write_batch_max_bytes s"
  by (auto simp: pick_outbound_def or_else_def take_submit_def take_control_def split: if_splits list.splits option.splits)

text \<open>
  C28: a batch never has more frames than \<open>write_batch_max_frames\<close>, the size the writer keeps is that of
  the packets in it, and the batch without its last frame stays below \<open>write_batch_max_bytes\<close>, however
  the other tasks refill the queues during the assembly.
\<close>

theorem batch_within_limits:
  assumes "assemble now (ob, from_submit) turns burst s = (r, a, s')" "r \<noteq> Writer_Exit"
    and "\<forall>(now, others) \<in> set turns. appends others"
    and "1 \<le> in_write_batch_max_frames s" "1 \<le> in_write_batch_max_bytes s"
  shows "length (as_batch a) \<le> in_write_batch_max_frames s \<and>
    as_octets a = length (concat (map ob_packet (as_batch a))) \<and>
    (as_batch a \<noteq> [] \<longrightarrow>
       length (concat (map ob_packet (butlast (as_batch a)))) < in_write_batch_max_bytes s)"
proof -
  let ?f = "in_write_batch_max_frames s" and ?b = "in_write_batch_max_bytes s"
  let ?P = "\<lambda>a t. batch_within ?f ?b a \<and> in_write_batch_max_frames t = ?f \<and> in_write_batch_max_bytes t = ?b"
  have first: "?P a' t'" if "assemble_one now (ob, from_submit) (assembly_new burst) s = (r', a', t')" "r' \<noteq> Writer_Exit"
    for r' a' t'
    using assemble_one_within[OF that, where frames = ?f and octets = ?b] assemble_one_sel[OF that] assms(4,5)
    by (simp add: assembly_new_def batch_within_def packets_size_def)
  have step: "if r' = Batch_Open then ?P a' t' else ?P a' t'"
    if "?P a1 s1" "\<not> batch_full a1 s1" "pick_outbound (as_burst a1) s1 = Some ((ob1, b), t1)"
      "assemble_one now1 (ob1, b) a1 t1 = (r', a', t')" "r' \<noteq> Writer_Exit"
    for now1 a1 s1 ob1 b t1 r' a' t'
  proof -
    have l: "in_write_batch_max_frames t1 = ?f" "in_write_batch_max_bytes t1 = ?b"
      using pick_limits[OF that(3)] that(1) by simp_all
    have "length (as_batch a1) < ?f" "as_octets a1 < ?b" using that(1,2) by (simp_all add: batch_full_def)
    then have "batch_within ?f ?b a'" using that(1) by (intro assemble_one_within[OF that(4,5)]) simp_all
    moreover have "in_write_batch_max_frames t' = ?f \<and> in_write_batch_max_bytes t' = ?b"
      using assemble_one_sel[OF that(4,5)] l by simp
    ultimately show ?thesis by simp
  qed
  have "?P a s'"
  proof (rule assemble_rule[where P = ?P and Q = ?P, OF assms(1,2)])
    show "?P a1 (others s1)" if "(now1, others) \<in> set turns" "?P a1 s1" for now1 others a1 s1
    proof -
      have "appends others" using assms(3) that(1) by fast
      then show ?thesis using that(2) by (simp add: appends_limits)
    qed
  qed (simp only: if_cancel, rule first, assumption+, rule step)
  then show ?thesis by (simp add: batch_within_def packets_size_def)
qed

theorem batch_within_limits_witness:
  "\<exists>a s'. assemble 0 (sample_outbound 2, True) [(0, \<lambda>s. s), (0, \<lambda>s. s)] 0 sample_queue = (Batch_Full, a, s') \<and>
    length (as_batch a) \<le> 64 \<and> as_octets a = length (concat (map ob_packet (as_batch a)))"
  using batch_within_limits[OF sample_assembly] appends_id sample_assembly by simp

lemma pick_taken:
  assumes "pick_outbound burst s = Some ((ob, b), t)" "as_marker a = None"
    and "list_all submit_message (in_submit_queue s)" "list_all control_message (in_control_queue s)"
  shows "(if b then submit_message ob else control_message ob) \<and>
    submits_through a s = List.filter carries_submit (as_batch a) @ (if b then [ob] else []) @ in_submit_queue t \<and>
    list_all submit_message (in_submit_queue t) \<and> list_all control_message (in_control_queue t)"
  by (rule pick_cases[OF assms(1)]; use assms(2-4) in \<open>simp add: submits_through_def marked_def\<close>)

text \<open>The SUBMITs so far are those there were at the start with new ones behind them.\<close>

definition order_kept :: "outbound list \<Rightarrow> assembly \<Rightarrow> inner \<Rightarrow> bool" where
  "order_kept start a t \<longleftrightarrow> (\<exists>new. list_all submit_message new \<and> submits_through a t = start @ new)"

definition order_open :: "outbound list \<Rightarrow> assembly \<Rightarrow> inner \<Rightarrow> bool" where
  "order_open start a t \<longleftrightarrow>
     order_kept start a t \<and> as_marker a = None \<and> list_all submit_message (in_submit_queue t) \<and>
     list_all control_message (in_control_queue t)"

lemma order_open_one:
  assumes "assemble_one now (ob, b) a s = (r, a', s')" "r \<noteq> Writer_Exit" "as_marker a = None"
    and "if b then submit_message ob else control_message ob"
    and "list_all submit_message (in_submit_queue s)" "list_all control_message (in_control_queue s)"
    and "list_all submit_message new"
    and "List.filter carries_submit (as_batch a) @ (if b then [ob] else []) @ in_submit_queue s = start @ new"
  shows "if r = Batch_Open then order_open start a' s' else order_kept start a' s'"
  using assemble_one_order[OF assms(1-4)] assemble_one_sel[OF assms(1,2)] assms(5-)
  by (auto simp: order_open_def order_kept_def)

lemma order_open_turn:
  assumes "order_open start a s" "pick_outbound (as_burst a) s = Some ((ob, b), t)"
    and "assemble_one now (ob, b) a t = (r, a', s')" "r \<noteq> Writer_Exit"
  shows "if r = Batch_Open then order_open start a' s' else order_kept start a' s'"
proof -
  have O: "as_marker a = None" "list_all submit_message (in_submit_queue s)" "list_all control_message (in_control_queue s)"
    "order_kept start a s" using assms(1) by (simp_all add: order_open_def)
  then obtain new where new: "list_all submit_message new" "submits_through a s = start @ new"
    unfolding order_kept_def by (elim exE conjE)
  have m: "(if b then submit_message ob else control_message ob) \<and>
      submits_through a s = List.filter carries_submit (as_batch a) @ (if b then [ob] else []) @ in_submit_queue t \<and>
      list_all submit_message (in_submit_queue t) \<and> list_all control_message (in_control_queue t)"
    by (rule pick_taken[OF assms(2)]) (use O in simp_all)
  then show ?thesis using new by (intro order_open_one[OF assms(3,4) O(1), where new = new]) simp_all
qed

lemma order_open_others:
  assumes "appends others" "order_open start a s"
  shows "order_open start a (others s)"
proof -
  obtain new cnew where n: "in_submit_queue (others s) = in_submit_queue s @ new" "list_all submit_message new"
    "in_control_queue (others s) = in_control_queue s @ cnew" "list_all control_message cnew"
    using assms(1)[unfolded appends_def, THEN spec[of _ s]] by (elim conjE exE)
  obtain old where o: "list_all submit_message old" "submits_through a s = start @ old"
    using assms(2) unfolding order_open_def order_kept_def by (elim exE conjE)
  have "submits_through a (others s) = start @ old @ new" using o(2) n(1) by (simp add: submits_through_def)
  then have "order_kept start a (others s)"
    using o(1) n(2) by (auto simp: order_kept_def intro!: exI[of _ "old @ new"])
  then show ?thesis using assms(2) n by (simp add: order_open_def)
qed

text \<open>
  C27: SUBMITs are written in the order of the queue, and the drain marker means what it says: the SUBMITs
  of a batch, then the marker if the batch ended at one, then what is left in the queue are the queue as
  it was with what was appended meanwhile; nothing overtakes, is lost or is doubled.
\<close>

theorem batch_in_order:
  assumes "assemble now (ob, from_submit) turns burst s = (r, a, s')" "r \<noteq> Writer_Exit"
    and "\<forall>(now, others) \<in> set turns. appends others"
    and "if from_submit then submit_message ob else control_message ob"
    and "list_all submit_message (in_submit_queue s)" "list_all control_message (in_control_queue s)"
  shows "\<exists>new. list_all submit_message new \<and>
    List.filter carries_submit (as_batch a) @ (case as_marker a of None \<Rightarrow> [] | Some m \<Rightarrow> [m]) @ in_submit_queue s' =
      (if from_submit then [ob] else []) @ in_submit_queue s @ new"
proof -
  let ?start = "(if from_submit then [ob] else []) @ in_submit_queue s"
  have "order_kept ?start a s'"
  proof (rule assemble_rule[where P = "order_open ?start" and Q = "order_kept ?start", OF assms(1,2)])
    show "if r' = Batch_Open then order_open ?start a' t' else order_kept ?start a' t'"
      if "assemble_one now (ob, from_submit) (assembly_new burst) s = (r', a', t')" "r' \<noteq> Writer_Exit" for r' a' t'
      by (rule order_open_one[OF that _ assms(4-6), where new = "[]"]) (simp_all add: assembly_new_def)
    show "order_open ?start a1 (others s1)" if "(now1, others) \<in> set turns" "order_open ?start a1 s1" for now1 others a1 s1
      using order_open_others[OF _ that(2)] assms(3) that(1) by fast
  qed (rule order_open_turn, assumption+, simp only: order_open_def)
  then show ?thesis by (simp add: order_kept_def submits_through_def marked_def)
qed

theorem batch_in_order_witness:
  "\<exists>a s' new. assemble 0 (sample_outbound 2, True) [(0, \<lambda>s. s), (0, \<lambda>s. s)] 0 sample_queue = (Batch_Full, a, s') \<and>
    as_marker a = Some (outbound_submit_drain_marker 7) \<and>
    List.filter carries_submit (as_batch a) @ [outbound_submit_drain_marker 7] @ in_submit_queue s' =
      [sample_outbound 2] @ in_submit_queue sample_queue @ new"
  using batch_in_order[OF sample_assembly] appends_id sample_assembly by auto

end
