(* ===== verification/Cmpp_Reader.thy ===== *)
theory Cmpp_Reader
  imports Cmpp_Writer Cmpp_Codec Cmpp_Pipeline
begin

text \<open>
  The reader task (\<open>reader_task\<close> of \<open>src/connection.rs\<close>): the buffer of SUBMIT responses, what each
  inbound PDU does, the waits for a slot of the control queue, and the reads. Where the task waits, the
  function ends with what it waits for and another goes on with the state it finds then.
\<close>

section \<open>State and waits\<close>

text \<open>The SUBMIT responses not yet matched, and whether the local TERMINATE has been acknowledged.\<close>

record reader =
  rd_resps :: "(u32 \<times> bytes \<times> u8) list"
  rd_acked :: bool

definition reader_new :: reader where
  "reader_new = \<lparr>rd_resps = [], rd_acked = False\<rparr>"

definition reader_flush :: "reader \<Rightarrow> inner \<Rightarrow> reader \<times> inner" where
  "reader_flush r s = (r\<lparr>rd_resps := []\<rparr>, flush_submit_resps (rd_resps r) s)"

text \<open>
  \<open>send_outbound_until_closed\<close> on the control queue: a message that is not sent is dropped. The queue
  is closed once the writer has ended.
\<close>

datatype sent = Sent_Ok | Not_Sent | Still_Waiting

definition send_outbound_until_closed :: "outbound \<Rightarrow> inner \<Rightarrow> sent \<times> inner" where
  "send_outbound_until_closed ob s =
     (if in_phase s = Phase_Closed \<or> in_queues_closed s then (Not_Sent, drop_outbound ob s)
      else if length (in_control_queue s) < CONTROL_CHANNEL_CAPACITY
      then (Sent_Ok, s\<lparr>in_control_queue := in_control_queue s @ [ob]\<rparr>)
      else (Still_Waiting, s))"

text \<open>What the task does next: the next frame, a wait, its silent end, or its end through \<open>finish\<close>.\<close>

datatype reader_next =
    Go_On
  | Await_Deliver_Resp outbound
  | Await_Active_Test_Resp outbound
  | Await_Terminate_Resp outbound nat
  | Await_Terminate_Written nat
  | Reader_Return
  | Reader_Break error

section \<open>One inbound PDU\<close>

definition new_signal :: "inner \<Rightarrow> nat \<times> inner" where
  "new_signal s = (in_next_oneshot s, s\<lparr>in_next_oneshot := Suc (in_next_oneshot s)\<rparr>)"

text \<open>
  A DELIVER is reserved a place in the event stream before it is acknowledged; its event is published
  by the writer once the response is on the wire. \<open>now\<close> is the start of its budget, \<open>elapsed\<close> what has
  passed of it before the wait.
\<close>

definition read_deliver :: "nat \<Rightarrow> nat \<Rightarrow> u32 \<Rightarrow> deliver \<Rightarrow> inner \<Rightarrow> reader_next \<times> inner" where
  "read_deliver now elapsed k d s =
     (case reserve_deferred_event (s\<lparr>in_delivers_received := in_delivers_received s + 1\<rparr>) of
        (Ok ticket, t) \<Rightarrow>
          (let ob = outbound_event_after_write
             (encoded (Pdu_DeliverResp \<lparr>dr_msg_id = dl_msg_id d, dr_result = 0\<rparr>) k) now ticket (Event_Deliver d)
           in
             if in_response_timeout t \<le> elapsed then (Reader_Break Error_Timeout, drop_outbound ob t)
             else (Await_Deliver_Resp ob, t))
      | (_, t) \<Rightarrow> (Reader_Return, t))"

definition read_terminate :: "u32 \<Rightarrow> inner \<Rightarrow> reader_next \<times> inner" where
  "read_terminate k s =
     (let s = s\<lparr>in_peer_terminate_seen := True\<rparr>;
          s = snd (begin_closing False s);
          s = begin_event_drain s
      in case new_signal s of
           (n, t) \<Rightarrow>
             (Await_Terminate_Resp (outbound_peer_terminate_response (encoded Pdu_TerminateResp k) n) n, t))"

definition read_terminate_resp :: "u32 \<Rightarrow> inner \<Rightarrow> bool \<times> inner" where
  "read_terminate_resp k s =
     (case in_pending_terminate s of
        None \<Rightarrow> (False, s)
      | Some p \<Rightarrow>
          if pt_sequence_id p = k then
            (True, (take_pending_terminate s)\<lparr>in_signals := in_signals s @ [pt_response_tx p]\<rparr>)
          else (False, s))"

definition read_frame :: "nat \<Rightarrow> nat \<Rightarrow> frame \<Rightarrow> reader \<Rightarrow> inner \<Rightarrow> reader_next \<times> reader \<times> inner" where
  "read_frame now elapsed fr r s =
     (let k = fr_sequence_id fr in
      case fr_pdu fr of
        Pdu_SubmitResp resp \<Rightarrow>
          (let r = r\<lparr>rd_resps := rd_resps r @ [(k, sr_msg_id resp, sr_result resp)]\<rparr> in
           if SUBMIT_RESP_BATCH_MAX \<le> length (rd_resps r)
           then (case reader_flush r s of (r, s) \<Rightarrow> (Go_On, r, s))
           else (Go_On, r, s))
      | p \<Rightarrow>
          (case reader_flush r s of
             (r, s) \<Rightarrow>
               (case p of
                  Pdu_Deliver d \<Rightarrow> (case read_deliver now elapsed k d s of (nx, s) \<Rightarrow> (nx, r, s))
                | Pdu_ActiveTest \<Rightarrow>
                    (Await_Active_Test_Resp (outbound_plain (encoded Pdu_ActiveTestResp k)), r, s)
                | Pdu_ActiveTestResp \<Rightarrow> (Go_On, r, remove_heartbeat k s)
                | Pdu_Terminate \<Rightarrow> (case read_terminate k s of (nx, s) \<Rightarrow> (nx, r, s))
                | Pdu_TerminateResp \<Rightarrow>
                    (case read_terminate_resp k s of
                       (acked, s) \<Rightarrow> (Go_On, r\<lparr>rd_acked := rd_acked r \<or> acked\<rparr>, s))
                | _ \<Rightarrow> (Go_On, r, s\<lparr>in_unexpected_pdus := in_unexpected_pdus s + 1\<rparr>))))"

section \<open>The waits\<close>

text \<open>
  One look at the control queue while the task waits; the last argument but one says that its time is
  up. \<open>None\<close> when it goes on waiting.
\<close>

definition await_deliver_resp :: "outbound \<Rightarrow> bool \<Rightarrow> inner \<Rightarrow> (reader_next \<times> inner) option" where
  "await_deliver_resp ob timed_out s =
     (case send_outbound_until_closed ob s of
        (Sent_Ok, t) \<Rightarrow> Some (Go_On, t)
      | (Not_Sent, t) \<Rightarrow> Some (if in_phase t = Phase_Closed then Reader_Return else Reader_Break Error_ChannelClosed, t)
      | (Still_Waiting, t) \<Rightarrow>
          if timed_out then Some (Reader_Break Error_Timeout, drop_outbound ob t) else None)"

definition await_active_test_resp :: "outbound \<Rightarrow> inner \<Rightarrow> (reader_next \<times> inner) option" where
  "await_active_test_resp ob s =
     (case send_outbound_until_closed ob s of
        (Sent_Ok, t) \<Rightarrow> Some (Go_On, t)
      | (Not_Sent, t) \<Rightarrow> Some (Reader_Break Error_ChannelClosed, t)
      | (Still_Waiting, t) \<Rightarrow> None)"

text \<open>
  The response to the peer's TERMINATE: whether it was written in time decides, together with the local
  TERMINATE, whether the task still waits for the acknowledgement of the latter.
\<close>

definition after_terminate_resp :: "bool \<Rightarrow> inner \<Rightarrow> reader_next" where
  "after_terminate_resp response_written s =
     (if response_written \<and> (case in_pending_terminate s of None \<Rightarrow> False | Some p \<Rightarrow> pt_written p)
      then Go_On else Reader_Break Error_Terminated)"

text \<open>
  The response is queued, then its write is awaited, both within one time limit. \<open>lost\<close> says that the
  writer dropped the message.
\<close>

definition await_terminate_resp :: "outbound \<Rightarrow> nat \<Rightarrow> bool \<Rightarrow> inner \<Rightarrow> (reader_next \<times> inner) option" where
  "await_terminate_resp ob n timed_out s =
     (case send_outbound_until_closed ob s of
        (Sent_Ok, t) \<Rightarrow> Some (Await_Terminate_Written n, t)
      | (Not_Sent, t) \<Rightarrow> Some (after_terminate_resp False t, t)
      | (Still_Waiting, t) \<Rightarrow>
          if timed_out then Some (after_terminate_resp False t, drop_outbound ob t) else None)"

definition await_terminate_written :: "nat \<Rightarrow> bool \<Rightarrow> bool \<Rightarrow> inner \<Rightarrow> (reader_next \<times> inner) option" where
  "await_terminate_written n lost timed_out s =
     (if n \<in> set (in_signals s) then Some (after_terminate_resp True s, s)
      else if lost \<or> timed_out then Some (after_terminate_resp False s, s)
      else None)"

section \<open>The loop\<close>

text \<open>
  The buffered frames: at most one is taken. \<open>None\<close> when the buffer has no complete frame; then the
  task reads on.
\<close>

definition read_buffered ::
  "nat \<Rightarrow> nat \<Rightarrow> bytes \<Rightarrow> reader \<Rightarrow> inner \<Rightarrow> (reader_next \<times> bytes \<times> reader \<times> inner) option" where
  "read_buffered now elapsed buf r s =
     (if in_phase s = Phase_Closed then
        (case reader_flush r s of (r, s) \<Rightarrow> Some (Reader_Return, buf, r, s))
      else
        (case codec_decode buf of
           (Ok (Some fr), rest) \<Rightarrow>
             (case read_frame now elapsed fr r s of (nx, r, s) \<Rightarrow> Some (nx, rest, r, s))
         | (Ok None, rest) \<Rightarrow> None
         | (Err e, rest) \<Rightarrow> (case reader_flush r s of (r, s) \<Rightarrow> Some (Reader_Break e, rest, r, s))
         | (Panic, rest) \<Rightarrow> Some (Reader_Return, rest, r, s)))"

datatype read_outcome = Read_Bytes bytes | Read_Error io_error | Read_Idle_Timeout | Read_Closed

text \<open>
  The read that follows: the responses are flushed first. \<open>eof\<close> is what the framing of the library
  says of the bytes that are left at the end of the stream.
\<close>

definition read_socket ::
  "(bytes \<Rightarrow> error option) \<Rightarrow> read_outcome \<Rightarrow> bytes \<Rightarrow> reader \<Rightarrow> inner \<Rightarrow> reader_next \<times> bytes \<times> reader \<times> inner" where
  "read_socket eof outcome buf r s =
     (case reader_flush r s of
        (r, s) \<Rightarrow>
          (case outcome of
             Read_Closed \<Rightarrow> (Reader_Return, buf, r, s)
           | Read_Error e \<Rightarrow> (Reader_Break (Error_Io e), buf, r, s)
           | Read_Idle_Timeout \<Rightarrow> (Reader_Break Error_Timeout, buf, r, s)
           | Read_Bytes bs \<Rightarrow>
               if bs = [] then
                 (case eof buf of
                    None \<Rightarrow> (if rd_acked r then Reader_Return else Reader_Break Error_Closed, buf, r, s)
                  | Some e \<Rightarrow> (Reader_Break e, buf, r, s))
               else (Go_On, buf @ bs, r, s)))"

definition reader_end :: "reader_next \<Rightarrow> inner \<Rightarrow> inner" where
  "reader_end nx s = (case nx of Reader_Break e \<Rightarrow> finish (Some e) s | _ \<Rightarrow> s)"

section \<open>The throttle of the warnings\<close>

text \<open>
  \<open>take_unexpected_pdu_log_slot\<close>: a warning at most once a second, with the number suppressed since the
  last; \<open>u64::MAX\<close> stands for none yet. The compare-and-exchange repeats until no other task interferes.
\<close>

record log_throttle =
  lt_at :: u64
  lt_suppressed :: nat

definition UNEXPECTED_PDU_LOG_INTERVAL :: u64 where "UNEXPECTED_PDU_LOG_INTERVAL = 1000"

definition u64_saturating_sub :: "u64 \<Rightarrow> u64 \<Rightarrow> u64" where
  "u64_saturating_sub a b = (if b \<le> a then a - b else 0)"

definition take_unexpected_pdu_log_slot :: "u64 \<Rightarrow> log_throttle \<Rightarrow> nat option \<times> log_throttle" where
  "take_unexpected_pdu_log_slot now_millis l =
     (if lt_at l \<noteq> - 1 \<and> u64_saturating_sub now_millis (lt_at l) < UNEXPECTED_PDU_LOG_INTERVAL
      then (None, l\<lparr>lt_suppressed := lt_suppressed l + 1\<rparr>)
      else (Some (lt_suppressed l), \<lparr>lt_at = now_millis, lt_suppressed = 0\<rparr>))"

text \<open>\<open>timeout_scan_jitter\<close>, with the value of its global counter; the multiplication wraps.\<close>

definition timeout_scan_jitter :: "u64 \<Rightarrow> nat \<Rightarrow> nat \<times> u64" where
  "timeout_scan_jitter counter interval_nanos =
     (if interval_nanos = 0 then (0, counter)
      else (unat (counter * 0x9E3779B97F4A7C15) mod interval_nanos, counter + 1))"

section \<open>Batches and single responses\<close>

text \<open>
  Matching touches the pending map, the registry, the window and the dropped UDH leases; publishing
  touches none of them. So the two passes of \<open>flush_submit_resps\<close> can be interleaved.
\<close>

definition with_submits ::
  "(u32 \<rightharpoonup> pending_submit) \<Rightarrow> sequence_state \<Rightarrow> nat \<Rightarrow> udh_lease list \<Rightarrow> inner \<Rightarrow> inner" where
  "with_submits m r w u s =
     s\<lparr>in_pending_submits := m, in_registry := r, in_window_available := w, in_dropped_udh := u\<rparr>"

lemma with_submits_sel [simp]:
  "in_phase (with_submits m r w u s) = in_phase s" "in_event_admission (with_submits m r w u s) = in_event_admission s"
  "in_event_depth (with_submits m r w u s) = in_event_depth s" "in_event_depth_peak (with_submits m r w u s) = in_event_depth_peak s"
  "in_event_spool_capacity (with_submits m r w u s) = in_event_spool_capacity s"
  "in_spool (with_submits m r w u s) = in_spool s" "in_spool_closed (with_submits m r w u s) = in_spool_closed s"
  "in_event_overflowed (with_submits m r w u s) = in_event_overflowed s"
  "in_events_dropped (with_submits m r w u s) = in_events_dropped s"
  "in_submit_responses (with_submits m r w u s) = in_submit_responses s"
  "in_tasks (with_submits m r w u s) = in_tasks s"
  "in_pending_submits (with_submits m r w u s) = m" "in_registry (with_submits m r w u s) = r"
  "in_window_available (with_submits m r w u s) = w" "in_dropped_udh (with_submits m r w u s) = u"
  by (simp_all add: with_submits_def)

lemma with_submits_overload:
  "start_event_overload_close (with_submits m r w u s) = with_submits m r w u (start_event_overload_close s)"
  by (simp add: start_event_overload_close_def begin_closing_def) (simp add: with_submits_def)

lemma with_submits_offer:
  "spool_offer i (with_submits m r w u s) = (case spool_offer i s of (b, t) \<Rightarrow> (b, with_submits m r w u t))"
  by (simp add: spool_offer_def spool_try_send_def depth_permit_new_n_def depth_permit_drop_def Let_def)
    (simp add: with_submits_def depth_permit_drop_def)

lemma with_submits_overflow:
  "overflow_admission (with_submits m r w u s) = with_submits m r w u (overflow_admission s)"
  "(with_submits m r w u s)\<lparr>in_events_dropped := n\<rparr> = with_submits m r w u (s\<lparr>in_events_dropped := n\<rparr>)"
  "(with_submits m r w u s)\<lparr>in_submit_responses := n\<rparr> = with_submits m r w u (s\<lparr>in_submit_responses := n\<rparr>)"
  by (simp_all add: overflow_admission_def with_submits_def)

lemma with_submits_emit:
  "emit_event e (with_submits m r w u s) = (case emit_event e s of (b, t) \<Rightarrow> (b, with_submits m r w u t))"
proof -
  obtain a t where t: "spool_offer (Spool_Direct e) s = (a, t)" by force
  obtain b v where v: "spool_offer (Spool_Direct e) (overflow_admission s) = (b, v)" by force
  show ?thesis
    by (cases a; cases b; cases "in_event_admission s")
      (simp_all add: emit_event_def t v with_submits_offer with_submits_overflow with_submits_overload Let_def)
qed

lemma with_submits_publish: "publish_resp x (with_submits m r w u s) = with_submits m r w u (publish_resp x s)"
  by (simp add: publish_resp_def Let_def count_dropped_def with_submits_emit with_submits_overflow split: prod.split)

lemma publish_keeps:
  "in_pending_submits (publish_resp x s) = in_pending_submits s" "in_registry (publish_resp x s) = in_registry s"
  "in_window_available (publish_resp x s) = in_window_available s" "in_dropped_udh (publish_resp x s) = in_dropped_udh s"
proof -
  have s: "with_submits (in_pending_submits s) (in_registry s) (in_window_available s) (in_dropped_udh s) s = s"
    by (simp add: with_submits_def)
  have "publish_resp x s = with_submits (in_pending_submits s) (in_registry s) (in_window_available s)
      (in_dropped_udh s) (publish_resp x s)"
    using with_submits_publish[of x "in_pending_submits s" "in_registry s" "in_window_available s" "in_dropped_udh s" s]
    by (simp only: s)
  note E = this
  show "in_pending_submits (publish_resp x s) = in_pending_submits s" by (subst E) simp
  show "in_registry (publish_resp x s) = in_registry s" by (subst E) simp
  show "in_window_available (publish_resp x s) = in_window_available s" by (subst E) simp
  show "in_dropped_udh (publish_resp x s) = in_dropped_udh s" by (subst E) simp
qed

lemma remove_pending_with:
  "in_pending_submits s k = Some p \<Longrightarrow>
   remove_pending k s = with_submits ((in_pending_submits s)(k := None)) (lease_drop (ps_sequence_lease p) (in_registry s))
     (in_window_available s + 1)
     (case ps_udh_lease p of None \<Rightarrow> in_dropped_udh s | Some l \<Rightarrow> in_dropped_udh s @ [l]) s"
  by (cases "ps_udh_lease p") (simp_all add: remove_pending_def drop_pending_def with_submits_def)

lemma pending_with:
  "s\<lparr>in_pending_submits := m\<rparr> =
    with_submits m (in_registry s) (in_window_available s) (in_dropped_udh s) s"
  by (simp add: with_submits_def)

lemma match_publish:
  "match_resp k (publish_resp x s) = (case match_resp k s of (b, t) \<Rightarrow> (b, publish_resp x t))"
proof (cases "in_pending_submits s k")
  case None
  then show ?thesis by (simp add: match_resp_def publish_keeps)
next
  case (Some p)
  then have q: "in_pending_submits (publish_resp x s) k = Some p" by (simp add: publish_keeps)
  show ?thesis
    by (cases "ps_state p")
      (simp_all add: match_resp_def Some publish_keeps remove_pending_with[OF Some] remove_pending_with[OF q]
        pending_with with_submits_publish split: option.split)
qed

text \<open>One response after the other: match it and, when it is handled, publish it.\<close>

definition handle_resp :: "u32 \<times> bytes \<times> u8 \<Rightarrow> inner \<Rightarrow> inner" where
  "handle_resp x s = (case match_resp (fst x) s of (handled, t) \<Rightarrow> if handled then publish_resp x t else t)"

lemma match_resps_publish:
  "match_resps xs (publish_resp y s) = (case match_resps xs s of (kept, t) \<Rightarrow> (kept, publish_resp y t))"
proof (induction xs arbitrary: s)
  case (Cons x xs)
  obtain b t where t: "match_resp (fst x) s = (b, t)" by force
  show ?case by (simp add: match_publish t Cons.IH Let_def split: prod.split)
qed simp

lemma flush_handles: "flush_submit_resps xs s = fold handle_resp xs s"
proof (induction xs arbitrary: s)
  case (Cons x xs)
  obtain b t where t: "match_resp (fst x) s = (b, t)" by force
  obtain kept v where v: "match_resps xs t = (kept, v)" by force
  have h: "handle_resp x s = (if b then publish_resp x t else t)" by (simp add: handle_resp_def t)
  have "flush_submit_resps (x # xs) s = fold publish_resp (if b then x # kept else kept) v"
    by (simp add: flush_submit_resps_def t v)
  also have "\<dots> = flush_submit_resps xs (if b then publish_resp x t else t)"
    using match_resps_publish[of xs x t] v by (simp add: flush_submit_resps_def)
  also have "\<dots> = fold handle_resp (x # xs) s" using t by (simp add: Cons.IH h)
  finally show ?case .
qed (simp add: flush_submit_resps_def)

section \<open>The response to a DELIVER\<close>

text \<open>
  The response has the sequence and the message id of the DELIVER and result 0, and carries the ticket of
  the place that is reserved for its event.
\<close>

definition deliver_response :: "u32 \<Rightarrow> deliver \<Rightarrow> nat \<Rightarrow> nat \<Rightarrow> outbound" where
  "deliver_response k d since n =
     outbound_event_after_write (frame_bytes CMPP_DELIVER_RESP k (dl_msg_id d @ [0])) since n (Event_Deliver d)"

lemma encoded_deliver_resp:
  "encoded (Pdu_DeliverResp \<lparr>dr_msg_id = m, dr_result = 0\<rparr>) k = frame_bytes CMPP_DELIVER_RESP k (m @ [0])"
  by (simp add: encoded_def pdu_encode_def pdu_try_encode_cases deliver_resp_wire_def)

lemma read_deliver_eq:
  "read_deliver now elapsed k d s =
     (case reserve_deferred_event (s\<lparr>in_delivers_received := in_delivers_received s + 1\<rparr>) of
        (Ok ticket, t) \<Rightarrow>
          (let ob = deliver_response k d now ticket in
             if in_response_timeout t \<le> elapsed then (Reader_Break Error_Timeout, drop_outbound ob t)
             else (Await_Deliver_Resp ob, t))
      | (_, t) \<Rightarrow> (Reader_Return, t))"
  unfolding read_deliver_def deliver_response_def encoded_deliver_resp ..

lemma deliver_reserved:
  assumes "read_deliver now elapsed k d s = (Await_Deliver_Resp ob, t)"
  shows "\<exists>n. ob = deliver_response k d now n \<and> in_oneshots t n = Unsent \<and>
    in_spool t = in_spool s @ [Spool_Event n] \<and> in_event_tickets t = in_event_tickets s + 1"
proof -
  let ?s = "s\<lparr>in_delivers_received := in_delivers_received s + 1\<rparr>"
  obtain r u where r: "reserve_deferred_event ?s = (r, u)" by force
  then obtain n where n: "r = Ok n" "t = u" "ob = deliver_response k d now n"
    using assms by (cases r) (auto simp: read_deliver_eq Let_def split: if_splits)
  then show ?thesis
    using reserve_deferred_offered[OF r] reserve_deferred_frame[OF r] by (simp add: offered_def)
qed

section \<open>Properties\<close>

text \<open>
  C29: matching and publishing the SUBMIT responses in batches is equivalent to handling them one by one
  in the order of their arrival, with the same matches, the same events in the same order and the same
  counters.
\<close>

theorem batched_responses_equivalent: "flush_submit_resps xs s = fold handle_resp xs s"
  by (rule flush_handles)

text \<open>
  C30: the buffer of responses never reaches \<open>SUBMIT_RESP_BATCH_MAX\<close> between frames, and every other PDU
  finds it empty: the responses received before it have been matched and published first.
\<close>

theorem responses_flushed_in_order:
  assumes "length (rd_resps r) < SUBMIT_RESP_BATCH_MAX" "read_frame now elapsed fr r s = (nx, r', s')"
  shows "length (rd_resps r') < SUBMIT_RESP_BATCH_MAX \<and>
    (case fr_pdu fr of
       Pdu_SubmitResp resp \<Rightarrow> nx = Go_On \<and>
         (let resps = rd_resps r @ [(fr_sequence_id fr, sr_msg_id resp, sr_result resp)]
          in rd_resps r' = resps \<and> s' = s \<or> rd_resps r' = [] \<and> s' = fold handle_resp resps s)
     | _ \<Rightarrow> rd_resps r' = [] \<and>
         (nx, r', s') = read_frame now elapsed fr (r\<lparr>rd_resps := []\<rparr>) (fold handle_resp (rd_resps r) s))"
proof -
  have flush_nil: "flush_submit_resps [] u = u" for u by (simp add: flush_submit_resps_def)
  have pos: "0 < SUBMIT_RESP_BATCH_MAX" by (simp add: SUBMIT_RESP_BATCH_MAX_def)
  show ?thesis
    using assms pos
    by (cases "fr_pdu fr")
      (auto simp: read_frame_def reader_flush_def Let_def flush_handles flush_nil split: prod.splits if_splits)
qed

theorem responses_flushed_in_order_witness:
  "let r = \<lparr>rd_resps = [(7, [1], 0)], rd_acked = False\<rparr>; fr = \<lparr>fr_sequence_id = 9, fr_pdu = Pdu_ActiveTestResp\<rparr>
   in \<exists>nx r' s'. read_frame 0 0 fr r (inner_new params_default) = (nx, r', s') \<and> rd_resps r' = [] \<and>
     (nx, r', s') = read_frame 0 0 fr (r\<lparr>rd_resps := []\<rparr>) (handle_resp (7, [1], 0) (inner_new params_default))"
proof -
  let ?r = "\<lparr>rd_resps = [(7, [1], 0)], rd_acked = False\<rparr> :: reader"
  let ?fr = "\<lparr>fr_sequence_id = 9, fr_pdu = Pdu_ActiveTestResp\<rparr>"
  obtain nx r' s' where e: "read_frame 0 0 ?fr ?r (inner_new params_default) = (nx, r', s')"
    by (cases "read_frame 0 0 ?fr ?r (inner_new params_default)")
  have "rd_resps r' = [] \<and> (nx, r', s') =
      read_frame 0 0 ?fr (?r\<lparr>rd_resps := []\<rparr>) (handle_resp (7, [1], 0) (inner_new params_default))"
    using responses_flushed_in_order[OF _ e] by (simp add: SUBMIT_RESP_BATCH_MAX_def)
  then show ?thesis unfolding Let_def using e by blast
qed

end
