(* ===== verification/Cmpp_Heartbeat.thy ===== *)
theory Cmpp_Heartbeat
  imports Cmpp_Reader Cmpp_Submits
begin

text \<open>
  The life of a heartbeat: the heartbeat task, the writer, the reader, the timeout task and the clean-up
  as steps on the shared state, with the invariant that at most one ACTIVE_TEST is unanswered.
\<close>

section \<open>Steps\<close>

inductive heartbeat_step :: "inner \<Rightarrow> inner \<Rightarrow> bool" where
  prepare: "heartbeat_prepare s = (r, continue, t) \<Longrightarrow> heartbeat_step s t"
| commit: "hk_attempt key = 1 \<Longrightarrow> heartbeat_commit l key s = (continue, t) \<Longrightarrow> heartbeat_step s t"
| claim: "claim_heartbeat_attempt key s = (claimed, t) \<Longrightarrow> heartbeat_step s t"
| complete: "heartbeat_step s (complete_heartbeat_attempt key now s)"
| answered: "heartbeat_step s (remove_heartbeat k s)"
| expired: "expired_heartbeat now order s = Some key \<Longrightarrow> timeout_heartbeat key s = (exhausted, t) \<Longrightarrow> heartbeat_step s t"
| environment: "in_heartbeat_pending t = in_heartbeat_pending s \<Longrightarrow> in_retry_count t = in_retry_count s \<Longrightarrow> heartbeat_step s t"

inductive heartbeat_reachable :: "cmpp_protocol_params \<Rightarrow> inner \<Rightarrow> bool" for params where
  start: "heartbeat_reachable params (inner_new params)"
| step: "heartbeat_reachable params s \<Longrightarrow> heartbeat_step s t \<Longrightarrow> heartbeat_reachable params t"

section \<open>The invariant\<close>

fun heartbeat_attempt :: "heartbeat_attempt_state \<Rightarrow> u32" where
  "heartbeat_attempt (Heartbeat_Queued a) = a"
| "heartbeat_attempt (Heartbeat_Writing a) = a"
| "heartbeat_attempt (Heartbeat_Awaiting a _) = a"

definition heartbeats_ok :: "u32 \<Rightarrow> (u32 \<rightharpoonup> pending_heartbeat) \<Rightarrow> bool" where
  "heartbeats_ok retries m \<longleftrightarrow>
     (\<forall>j k. j \<in> dom m \<longrightarrow> k \<in> dom m \<longrightarrow> j = k) \<and>
     (\<forall>k h. m k = Some h \<longrightarrow>
        1 \<le> heartbeat_attempt (ph_state h) \<and> heartbeat_attempt (ph_state h) \<le> retries)"

definition heartbeat_inv :: "cmpp_protocol_params \<Rightarrow> inner \<Rightarrow> bool" where
  "heartbeat_inv params s \<longleftrightarrow>
     in_retry_count s = retry_count params \<and> heartbeats_ok (retry_count params) (in_heartbeat_pending s)"

lemma heartbeats_ok_state:
  assumes "heartbeats_ok n m" "m k = Some h" "1 \<le> heartbeat_attempt st" "heartbeat_attempt st \<le> n"
  shows "heartbeats_ok n (m(k \<mapsto> h\<lparr>ph_state := st\<rparr>))"
  using assms by (auto simp: heartbeats_ok_def)

lemma heartbeats_ok_remove: "heartbeats_ok n m \<Longrightarrow> heartbeats_ok n (m(k := None))"
  by (auto simp: heartbeats_ok_def)

lemma heartbeats_ok_first:
  "1 \<le> n \<Longrightarrow> ph_state h = Heartbeat_Queued 1 \<Longrightarrow> heartbeats_ok n [k \<mapsto> h]"
  by (simp add: heartbeats_ok_def)

lemma heartbeats_ok_attempt:
  "heartbeats_ok n m \<Longrightarrow> m k = Some h \<Longrightarrow>
   1 \<le> heartbeat_attempt (ph_state h) \<and> heartbeat_attempt (ph_state h) \<le> n"
  by (auto simp: heartbeats_ok_def)

lemma finish_heartbeats [simp]:
  "in_heartbeat_pending (finish r s) = in_heartbeat_pending s" "in_retry_count (finish r s) = in_retry_count s"
  by (simp_all add: finish_def transition_to_closed_def Let_def)

lemma remove_heartbeat_sel [simp]:
  "in_heartbeat_pending (remove_heartbeat k s) = (in_heartbeat_pending s)(k := None)"
  "in_retry_count (remove_heartbeat k s) = in_retry_count s"
  by (auto simp: remove_heartbeat_def split: option.split)

lemma heartbeat_awaiting_Some:
  assumes "heartbeat_awaiting key s = Some h"
  obtains now where "in_heartbeat_pending s (hk_sequence_id key) = Some h"
    "ph_state h = Heartbeat_Awaiting (hk_attempt key) now" "ph_heartbeat_id h = hk_heartbeat_id key"
  using assms by (auto simp: heartbeat_awaiting_def split: option.splits heartbeat_attempt_state.splits if_splits)

lemma queues_lost_heartbeats [simp]:
  "in_heartbeat_pending (queues_lost s) = in_heartbeat_pending s" "in_retry_count (queues_lost s) = in_retry_count s"
  by (simp_all add: queues_lost_def)

text \<open>
  A time-out requeues the attempt it found when there is room, or ends the connection when it was the last
  or the writer has gone.
\<close>

definition requeue_heartbeat :: "heartbeat_attempt_key \<Rightarrow> pending_heartbeat \<Rightarrow> inner \<Rightarrow> inner" where
  "requeue_heartbeat key h s =
     s\<lparr>in_heartbeat_pending := (in_heartbeat_pending s)
         (hk_sequence_id key \<mapsto> h\<lparr>ph_state := Heartbeat_Queued (hk_attempt key + 1)\<rparr>),
       in_control_queue := in_control_queue s @
         [outbound_heartbeat (encoded Pdu_ActiveTest (hk_sequence_id key)) (key\<lparr>hk_attempt := hk_attempt key + 1\<rparr>)]\<rparr>"

lemma timeout_heartbeat_cases:
  assumes "timeout_heartbeat key s = (ended, t)"
  obtains (gone) "\<not> ended" "t = s" "heartbeat_awaiting key s = None"
  | (full) "\<not> ended" "t = s" "hk_attempt key < in_retry_count s" "\<not> in_queues_closed s"
      "in_phase s \<noteq> Phase_Open \<or> CONTROL_CHANNEL_CAPACITY \<le> length (in_control_queue s)"
  | (again) h where "\<not> ended" "hk_attempt key < in_retry_count s" "heartbeat_awaiting key s = Some h"
      "\<not> in_queues_closed s" "in_phase s = Phase_Open" "length (in_control_queue s) < CONTROL_CHANNEL_CAPACITY"
      "t = requeue_heartbeat key h s"
  | (last) h where "ended" "in_retry_count s \<le> hk_attempt key" "heartbeat_awaiting key s = Some h"
      "t = finish (Some Error_Closed) (remove_heartbeat (hk_sequence_id key) s)"
  | (lost) "ended" "hk_attempt key < in_retry_count s" "in_queues_closed s" "t = queues_lost s"
proof (cases "in_retry_count s \<le> hk_attempt key")
  case True
  then show thesis using assms that(1,4) by (auto simp: timeout_heartbeat_def split: option.splits)
next
  case False
  then have lt: "hk_attempt key < in_retry_count s" by simp
  show thesis
  proof (cases "in_queues_closed s")
    case True
    then show thesis using assms False that(5)[OF _ lt] by (simp add: timeout_heartbeat_def)
  next
    case writer: False
    show thesis
    proof (cases "in_phase s \<noteq> Phase_Open \<or> CONTROL_CHANNEL_CAPACITY \<le> length (in_control_queue s)")
      case True
      then have "\<not> ended \<and> t = s" using assms False writer by (elim disjE) (simp_all add: timeout_heartbeat_def split: if_split_asm)
      then show thesis using that(2)[OF _ _ lt writer True] by simp
    next
      case go: False
      then have "(ended, t) = (case heartbeat_awaiting key s of None \<Rightarrow> (False, s) | Some h \<Rightarrow> (False, requeue_heartbeat key h s))"
        using assms False writer by (simp add: timeout_heartbeat_def requeue_heartbeat_def Let_def split: option.splits)
      then show thesis using that(1) that(3)[OF _ lt _ writer] go by (auto split: option.splits)
    qed
  qed
qed

lemma heartbeat_step_inv:
  assumes "heartbeat_step s t" "heartbeat_inv params s" "0 < retry_count params"
  shows "heartbeat_inv params t"
  using assms(1,2)
proof (induction rule: heartbeat_step.induct)
  case (prepare s r continue t)
  then show ?case
    by (auto simp: heartbeat_prepare_def heartbeat_inv_def next_heartbeat_id_def split: if_splits option.splits prod.splits)
next
  case (commit key l s continue t)
  have "1 \<le> retry_count params" using assms(3) by (simp add: word_le_nat_alt word_less_nat_alt)
  then show ?case
    using commit heartbeats_ok_first
    by (auto simp: heartbeat_commit_def heartbeat_inv_def drop_lease_def split: if_splits)
next
  case (claim key s claimed t)
  then show ?case
    using heartbeats_ok_attempt heartbeats_ok_state[where st = "Heartbeat_Writing (hk_attempt key)"]
    by (fastforce simp: claim_heartbeat_attempt_def heartbeat_inv_def split: if_splits option.splits)
next
  case (complete s key now)
  then show ?case
    using heartbeats_ok_attempt heartbeats_ok_state[where st = "Heartbeat_Awaiting (hk_attempt key) now"]
    by (fastforce simp: complete_heartbeat_attempt_def heartbeat_inv_def split: if_splits option.splits)
next
  case (answered s k)
  then show ?case by (simp add: heartbeat_inv_def heartbeats_ok_remove)
next
  case (expired now order s key exhausted t)
  from expired(2) show ?case
  proof (cases rule: timeout_heartbeat_cases)
    case (again h)
    obtain w where h: "in_heartbeat_pending s (hk_sequence_id key) = Some h" using heartbeat_awaiting_Some[OF again(3)] by metis
    have "1 \<le> hk_attempt key + 1 \<and> hk_attempt key + 1 \<le> in_retry_count s" by (rule u32_next_attempt[OF again(2)])
    then show ?thesis
      using again(7) h expired(3) by (auto simp: heartbeat_inv_def requeue_heartbeat_def intro!: heartbeats_ok_state)
  qed (use expired(3) in \<open>simp_all add: heartbeat_inv_def heartbeats_ok_remove\<close>)
next
  case (environment t s)
  then show ?case by (simp add: heartbeat_inv_def)
qed

lemma heartbeat_reachable_inv:
  assumes "heartbeat_reachable params s" "0 < retry_count params"
  shows "heartbeat_inv params s"
  using assms
proof (induction rule: heartbeat_reachable.induct)
  case start
  then show ?case by (simp add: heartbeat_inv_def heartbeats_ok_def inner_new_def Let_def)
next
  case (step s t)
  then show ?case by (blast intro: heartbeat_step_inv)
qed

lemma map_filter_first:
  "(case List.map_filter f xs of [] \<Rightarrow> None | y # _ \<Rightarrow> Some y) = Some z \<Longrightarrow> \<exists>x. f x = Some z"
  by (induction xs) (auto simp: map_filter_simps split: option.splits)

lemma expired_awaiting:
  assumes "expired_heartbeat now order s = Some key"
  obtains h where "heartbeat_awaiting key s = Some h"
proof -
  from map_filter_first[OF assms[unfolded expired_heartbeat_def]]
  obtain k where k: "(case in_heartbeat_pending s k of
         None \<Rightarrow> None
       | Some h \<Rightarrow>
           (case ph_state h of
              Heartbeat_Awaiting attempt written_at \<Rightarrow>
                if in_response_timeout s \<le> now - written_at then
                  Some \<lparr>hk_sequence_id = k, hk_heartbeat_id = ph_heartbeat_id h, hk_attempt = attempt\<rparr>
                else None
            | _ \<Rightarrow> None)) = Some key"
    by (elim exE)
  then obtain h where h: "in_heartbeat_pending s k = Some h" by (cases "in_heartbeat_pending s k") simp_all
  then have "heartbeat_awaiting key s = Some h"
    using k by (cases "ph_state h") (auto simp: heartbeat_awaiting_def split: if_splits)
  then show thesis by (rule that)
qed

text \<open>What the time-out of an expired heartbeat does, on every branch.\<close>

lemma heartbeat_timed_out:
  assumes I: "heartbeats_ok R (in_heartbeat_pending s)" "in_retry_count s = R"
    and e: "expired_heartbeat now order s = Some key" and t: "timeout_heartbeat key s = (ended, t)"
  shows "(ended \<longleftrightarrow> hk_attempt key = R \<or> in_queues_closed s) \<and>
     (in_phase t = Phase_Closed \<longleftrightarrow>
        in_phase s = Phase_Closed \<or> hk_attempt key = R \<or> in_queues_closed s \<and> in_phase s = Phase_Open) \<and>
     (\<not> ended \<longrightarrow>
        (\<exists>h. in_heartbeat_pending s (hk_sequence_id key) = Some h \<and>
           t = (if in_phase s = Phase_Open \<and> length (in_control_queue s) < CONTROL_CHANNEL_CAPACITY
                then requeue_heartbeat key h s else s)))"
proof -
  obtain h where h: "heartbeat_awaiting key s = Some h" by (rule expired_awaiting[OF e])
  then obtain w where w: "in_heartbeat_pending s (hk_sequence_id key) = Some h"
    "ph_state h = Heartbeat_Awaiting (hk_attempt key) w" by (rule heartbeat_awaiting_Some)
  have le: "hk_attempt key \<le> R" using heartbeats_ok_attempt[OF I(1) w(1)] w(2) by simp
  have n: "in_phase (requeue_heartbeat key h s) = in_phase s" by (simp add: requeue_heartbeat_def)
  have q: "in_phase (queues_lost s) = Phase_Closed \<longleftrightarrow> in_phase s = Phase_Closed \<or> in_phase s = Phase_Open"
    using finish_closed by (simp add: queues_lost_def)
  from t show ?thesis
  proof (cases rule: timeout_heartbeat_cases)
    case gone
    then show ?thesis using h by simp
  next
    case full
    moreover from full have "hk_attempt key \<noteq> R" using I(2) by auto
    moreover from full have "\<not> (in_phase s = Phase_Open \<and> length (in_control_queue s) < CONTROL_CHANNEL_CAPACITY)"
      by linarith
    ultimately show ?thesis using w(1) by (intro conjI impI) auto
  next
    case (again g)
    then show ?thesis using h w(1) I(2) n by simp
  next
    case (last g)
    then show ?thesis using le I(2) finish_closed by simp
  next
    case lost
    then show ?thesis using I(2) q by auto
  qed
qed

section \<open>Properties\<close>

text \<open>
  C32: at most one heartbeat is unanswered at any time, its attempts stay between 1 and the retry count, and
  a time-out on its behalf closes the connection exactly when the last of them has been written and its
  time has passed, or the writer has gone: an earlier attempt is put back into the control queue under the
  next number while the connection is open and the queue has room, and otherwise nothing changes.
\<close>

theorem single_heartbeat:
  assumes "heartbeat_reachable params s" "0 < retry_count params"
  shows "card (dom (in_heartbeat_pending s)) \<le> 1 \<and>
    (\<forall>k h. in_heartbeat_pending s k = Some h \<longrightarrow>
       1 \<le> heartbeat_attempt (ph_state h) \<and> heartbeat_attempt (ph_state h) \<le> retry_count params) \<and>
    (\<forall>now order key ended t.
       expired_heartbeat now order s = Some key \<longrightarrow> timeout_heartbeat key s = (ended, t) \<longrightarrow>
       (ended \<longleftrightarrow> hk_attempt key = retry_count params \<or> in_queues_closed s) \<and>
       (in_phase t = Phase_Closed \<longleftrightarrow>
          in_phase s = Phase_Closed \<or> hk_attempt key = retry_count params \<or> in_queues_closed s \<and> in_phase s = Phase_Open) \<and>
       (\<not> ended \<longrightarrow>
          (\<exists>h. in_heartbeat_pending s (hk_sequence_id key) = Some h \<and>
             t = (if in_phase s = Phase_Open \<and> length (in_control_queue s) < CONTROL_CHANNEL_CAPACITY
                  then requeue_heartbeat key h s else s))))"
proof -
  have I: "heartbeats_ok (retry_count params) (in_heartbeat_pending s)" "in_retry_count s = retry_count params"
    using heartbeat_reachable_inv[OF assms] by (simp_all add: heartbeat_inv_def)
  have "dom (in_heartbeat_pending s) \<subseteq> {k}" if "k \<in> dom (in_heartbeat_pending s)" for k
    using I(1) that by (auto simp: heartbeats_ok_def)
  then have "dom (in_heartbeat_pending s) = {} \<or> (\<exists>k. dom (in_heartbeat_pending s) = {k})" by blast
  then have "card (dom (in_heartbeat_pending s)) \<le> 1" by auto
  then show ?thesis using heartbeats_ok_attempt[OF I(1)] heartbeat_timed_out[OF I] by blast
qed

definition sample_heartbeat_key :: heartbeat_attempt_key where
  "sample_heartbeat_key = \<lparr>hk_sequence_id = 2, hk_heartbeat_id = 1, hk_attempt = 1\<rparr>"

definition sample_heartbeat :: "heartbeat_attempt_state \<Rightarrow> pending_heartbeat" where
  "sample_heartbeat st = \<lparr>ph_heartbeat_id = 1, ph_state = st, ph_sequence_lease = sample_lease\<rparr>"

definition heartbeat_ready :: inner where
  "heartbeat_ready = (inner_new params_default)\<lparr>in_registry := sample_registry, in_heartbeat_id_generator := 2\<rparr>"

definition heartbeat_state :: "heartbeat_attempt_state \<Rightarrow> inner" where
  "heartbeat_state st = heartbeat_ready\<lparr>in_heartbeat_pending := [2 \<mapsto> sample_heartbeat st],
     in_control_queue := [outbound_heartbeat (encoded Pdu_ActiveTest 2) sample_heartbeat_key]\<rparr>"

lemma sample_heartbeat_reachable: "heartbeat_reachable params_default (heartbeat_state (Heartbeat_Awaiting 1 0))"
proof -
  have "in_heartbeat_pending (inner_new params_default) = Map.empty" "in_phase (inner_new params_default) = Phase_Open"
    "in_registry (inner_new params_default) = registry_new 2" "in_heartbeat_id_generator (inner_new params_default) = 1"
    "in_control_queue (inner_new params_default) = []"
    by (simp_all add: inner_new_def Let_def)
  note new = this
  have p: "heartbeat_prepare (inner_new params_default) = (Some (sample_lease, sample_heartbeat_key), True, heartbeat_ready)"
    by (simp add: heartbeat_prepare_def new sample_reserve next_heartbeat_id_def heartbeat_ready_def
        sample_heartbeat_key_def sample_lease_def)
  have c: "heartbeat_commit sample_lease sample_heartbeat_key heartbeat_ready = (True, heartbeat_state (Heartbeat_Queued 1))"
    by (simp add: heartbeat_commit_def heartbeat_state_def new heartbeat_ready_def sample_heartbeat_key_def
        sample_heartbeat_def)
  have w: "claim_heartbeat_attempt sample_heartbeat_key (heartbeat_state (Heartbeat_Queued 1)) =
      (True, heartbeat_state (Heartbeat_Writing 1))"
    by (simp add: claim_heartbeat_attempt_def heartbeat_state_def new heartbeat_ready_def sample_heartbeat_key_def
        sample_heartbeat_def)
  have a: "complete_heartbeat_attempt sample_heartbeat_key 0 (heartbeat_state (Heartbeat_Writing 1)) =
      heartbeat_state (Heartbeat_Awaiting 1 0)"
    by (simp add: complete_heartbeat_attempt_def heartbeat_state_def sample_heartbeat_key_def sample_heartbeat_def)
  have "heartbeat_reachable params_default heartbeat_ready"
    by (rule heartbeat_reachable.step[OF start prepare[OF p]])
  then have "heartbeat_reachable params_default (heartbeat_state (Heartbeat_Queued 1))"
    by (rule heartbeat_reachable.step[OF _ commit[OF _ c]]) (simp add: sample_heartbeat_key_def)
  then have "heartbeat_reachable params_default (heartbeat_state (Heartbeat_Writing 1))"
    by (rule heartbeat_reachable.step[OF _ claim[OF w]])
  then show ?thesis using heartbeat_reachable.step[OF _ complete[of _ sample_heartbeat_key 0]] a by metis
qed

theorem single_heartbeat_witness:
  "let s = heartbeat_state (Heartbeat_Awaiting 1 0); n = in_response_timeout s in
     card (dom (in_heartbeat_pending s)) \<le> 1 \<and> expired_heartbeat n [2] s = Some sample_heartbeat_key \<and>
     (\<exists>t. timeout_heartbeat sample_heartbeat_key s = (False, t) \<and> in_phase t \<noteq> Phase_Closed)"
proof -
  let ?s = "heartbeat_state (Heartbeat_Awaiting 1 0)"
  note S = single_heartbeat[OF sample_heartbeat_reachable sample_retries]
  have e: "expired_heartbeat (in_response_timeout ?s) [2] ?s = Some sample_heartbeat_key"
    by (simp add: expired_heartbeat_def heartbeat_state_def sample_heartbeat_def sample_heartbeat_key_def map_filter_simps)
  have f: "in_phase ?s = Phase_Open" "\<not> in_queues_closed ?s"
    by (simp_all add: heartbeat_state_def heartbeat_ready_def inner_new_def Let_def)
  have r: "hk_attempt sample_heartbeat_key \<noteq> retry_count params_default"
    by (simp add: sample_heartbeat_key_def params_default_def)
  obtain b t where t: "timeout_heartbeat sample_heartbeat_key ?s = (b, t)" by force
  then show ?thesis using S e f r by (auto simp: Let_def)
qed

end
