(* ===== verification/Cmpp_Connection.thy ===== *)
theory Cmpp_Connection
  imports Cmpp_Auth Cmpp_Config Cmpp_Reader
begin

text \<open>
  The connection as its callers hold it (\<open>CmppConnection\<close> of \<open>src/connection.rs\<close>): its handles and
  workers, and the login handshake that makes it. What the sockets and the framing of the library do in
  the handshake is an argument: the outcome of each wait.
\<close>

section \<open>The connection\<close>

text \<open>
  \<open>cx_read_buf\<close> is what the handshake has read beyond its response, where the reader starts;
  \<open>cx_events_rx\<close> says that the event receiver has not been taken.
\<close>

record connection =
  cx_inner :: inner
  cx_read_buf :: bytes
  cx_events_rx :: bool
  cx_external_handles :: nat
  cx_close_driver_started :: bool
  cx_takeover_started :: bool
  cx_close_complete :: bool
  cx_workers_remaining :: nat
  cx_workers_complete :: bool

definition connection_new :: "cmpp_protocol_params \<Rightarrow> bytes \<Rightarrow> connection" where
  "connection_new params read_buf =
     \<lparr>cx_inner = inner_new params, cx_read_buf = read_buf, cx_events_rx = True, cx_external_handles = 1,
      cx_close_driver_started = False, cx_takeover_started = False, cx_close_complete = False,
      cx_workers_remaining = 4, cx_workers_complete = False\<rparr>"

definition handle_clone :: "connection \<Rightarrow> connection" where
  "handle_clone c = c\<lparr>cx_external_handles := cx_external_handles c + 1\<rparr>"

definition handle_drop :: "connection \<Rightarrow> connection" where
  "handle_drop c =
     (let last = (cx_external_handles c = 1);
          c = c\<lparr>cx_external_handles := cx_external_handles c - 1\<rparr>
      in if last then c\<lparr>cx_inner := finish None (cx_inner c)\<rparr> else c)"

text \<open>The drop of a worker's guard when the worker ends or is aborted.\<close>

definition worker_drop :: "connection \<Rightarrow> connection" where
  "worker_drop c =
     (let last = (cx_workers_remaining c = 1);
          c = c\<lparr>cx_workers_remaining := cx_workers_remaining c - 1\<rparr>
      in if last then c\<lparr>cx_workers_complete := True\<rparr> else c)"

definition takeover_drop :: "connection \<Rightarrow> connection" where
  "takeover_drop c = c\<lparr>cx_takeover_started := False\<rparr>"

definition take_events :: "connection \<Rightarrow> bool \<times> connection" where
  "take_events c = (cx_events_rx c, c\<lparr>cx_events_rx := False\<rparr>)"

section \<open>The handshake\<close>

text \<open>The bound on the UDH cooldown, in nanoseconds.\<close>

definition MAX_UDH_REFERENCE_COOLDOWN :: nat where
  "MAX_UDH_REFERENCE_COOLDOWN = 24 * 60 * 60 * 1000000000"

text \<open>
  The outcomes of the three waits: the TCP connection, the write of CONNECT, and the first frame that
  the framing of the library yields, with the bytes left in its buffer.
\<close>

datatype tcp_outcome = Tcp_Connected | Tcp_No_Time | Tcp_Error io_error

datatype connect_write = Connect_Written | Connect_Write_No_Time | Connect_Write_Error io_error

datatype first_frame = First_Frame frame bytes | First_Error error | First_None | First_No_Time

text \<open>
  The options asked of the socket; a socket that refuses one is used as it is. No keep-alive time turns
  keep-alive off.
\<close>

record socket_options =
  so_nodelay :: bool
  so_keepalive :: "(u64 \<times> u64) option"

definition configure_keepalive :: "cmpp_protocol_params \<Rightarrow> (u64 \<times> u64) option" where
  "configure_keepalive params =
     (case tcp_keepalive_secs params of
        None \<Rightarrow> None
      | Some idle \<Rightarrow> Some (idle, tcp_keepalive_interval_secs params))"

definition setup_tcp :: "cmpp_config \<Rightarrow> tcp_outcome \<Rightarrow> socket_options result" where
  "setup_tcp config tcp =
     (case tcp of
        Tcp_Connected \<Rightarrow>
          Ok \<lparr>so_nodelay = tcp_nodelay (cfg_protocol_params config),
              so_keepalive = configure_keepalive (cfg_protocol_params config)\<rparr>
      | Tcp_No_Time \<Rightarrow> Err (Error_Connect (Tcp_timeout (connect_timeout (cfg_protocol_params config))))
      | Tcp_Error e \<Rightarrow> Err (Error_Connect (Tcp_failed e)))"

text \<open>What is checked before any network operation.\<close>

definition connect_check :: "cmpp_config \<Rightarrow> nat \<Rightarrow> unit result" where
  "connect_check config udh_reference_cooldown =
     (case config_validate config of
        Ok _ \<Rightarrow>
          if udh_reference_cooldown = 0 \<or> MAX_UDH_REFERENCE_COOLDOWN < udh_reference_cooldown
          then Err (Error_Config Udh_cooldown_range) else Ok ()
      | Err e \<Rightarrow> Err (Error_Config e)
      | Panic \<Rightarrow> Panic)"

definition connect_sent :: "connect_write \<Rightarrow> unit result" where
  "connect_sent w =
     (case w of
        Connect_Written \<Rightarrow> Ok ()
      | Connect_Write_No_Time \<Rightarrow> Err (Error_Connect Connect_write_timeout)
      | Connect_Write_Error e \<Rightarrow> Err (Error_Io e))"

definition connect_response :: "first_frame \<Rightarrow> (connect_resp \<times> bytes) result" where
  "connect_response first =
     (case first of
        First_No_Time \<Rightarrow> Err (Error_Connect Connect_resp_timeout)
      | First_Error e \<Rightarrow> Err e
      | First_None \<Rightarrow> Err (Error_Connect Handshake_closed)
      | First_Frame fr rest \<Rightarrow>
          (case fr_pdu fr of
             Pdu_ConnectResp cr \<Rightarrow> Ok (cr, rest)
           | other \<Rightarrow> Err (Error_Connect (Unexpected_command (pdu_command_id other)))))"

definition verify_login :: "(bytes \<Rightarrow> bytes) \<Rightarrow> cmpp_config \<Rightarrow> bytes \<Rightarrow> connect_resp \<Rightarrow> unit result" where
  "verify_login md5 config auth_source cr =
     (if cr_status cr \<noteq> 0 then Err (Error_Auth (cr_status cr))
      else if verify_authenticator (cfg_protocol_params config) then
        res_bind (compute_authenticator_ismg md5 (cr_status cr) auth_source (cfg_password config))
          (\<lambda>expected. if cr_authenticator_ismg cr \<noteq> expected then Err Error_AuthenticatorMismatch else Ok ())
      else Ok ())"

text \<open>
  \<open>connect_with_udh_reference_cooldown\<close>, with the packet written to the socket, when one is. CONNECT
  has the sequence identifier 1, the registry starts at 2.
\<close>

definition connect_packet :: "(bytes \<Rightarrow> bytes) \<Rightarrow> utc_now \<Rightarrow> cmpp_config \<Rightarrow> (bytes \<times> bytes) result" where
  "connect_packet md5 now config =
     res_bind (connect_new md5 now (cfg_account config) (cfg_password config) (cfg_version config))
       (\<lambda>cn. res_bind (pdu_encode (Pdu_Connect cn) 1) (\<lambda>packet. Ok (cn_authenticator_source cn, packet)))"

definition connect_with_udh_reference_cooldown ::
  "(bytes \<Rightarrow> bytes) \<Rightarrow> utc_now \<Rightarrow> cmpp_config \<Rightarrow> nat \<Rightarrow> tcp_outcome \<Rightarrow> connect_write \<Rightarrow> first_frame \<Rightarrow>
   connection result" where
  "connect_with_udh_reference_cooldown md5 now config udh_reference_cooldown tcp w first =
     res_bind (connect_check config udh_reference_cooldown) (\<lambda>_.
     res_bind (setup_tcp config tcp) (\<lambda>_.
     res_bind (connect_packet md5 now config) (\<lambda>(auth_source, packet).
     res_bind (connect_sent w) (\<lambda>_.
     res_bind (connect_response first) (\<lambda>(cr, rest).
     res_bind (verify_login md5 config auth_source cr) (\<lambda>_.
       Ok (connection_new (cfg_protocol_params config) rest)))))))"

section \<open>Lemmas\<close>

lemma connect_check_cases:
  "(connect_check config cooldown = Ok () \<longleftrightarrow>
     config_in_range config \<and> 0 < cooldown \<and> cooldown \<le> MAX_UDH_REFERENCE_COOLDOWN) \<and>
   connect_check config cooldown \<noteq> Panic"
  using config_validate_Ok_iff[of config] config_validate_not_Panic[of config]
  by (cases "config_validate config") (auto simp: connect_check_def)

lemma connect_packet_Ok:
  assumes "\<forall>x. length (md5 x) = 16"
  shows "\<exists>packet. connect_packet md5 now config =
    Ok (md5 (as_bytes (cfg_account config) @ replicate 9 0 @ as_bytes (cfg_password config) @
          as_bytes (fmt_zero_padded 10 (unat (connect_timestamp now)))), packet)"
proof -
  have "\<exists>out. pdu_encode (Pdu_Connect cn) 1 = Ok out" for cn
    by (auto simp: pdu_encode_def pdu_try_encode_cases res_ok_def expect_def)
  then show ?thesis
    using assms
    by (auto simp: connect_packet_def connect_new_def compute_authenticator_source_def copy_16_def Let_def res_bind_Ok_iff)
qed

lemma connect_response_Ok_iff:
  "connect_response first = Ok (cr, rest) \<longleftrightarrow>
     (\<exists>fr. first = First_Frame fr rest \<and> fr_pdu fr = Pdu_ConnectResp cr)"
  by (auto simp: connect_response_def split: first_frame.splits pdu.splits)

lemma connect_response_not_Panic: "connect_response first \<noteq> Panic"
  by (auto simp: connect_response_def split: first_frame.splits pdu.splits)

lemma setup_tcp_cases: "((\<exists>options. setup_tcp config tcp = Ok options) \<longleftrightarrow> tcp = Tcp_Connected) \<and> setup_tcp config tcp \<noteq> Panic"
  by (simp add: setup_tcp_def split: tcp_outcome.split)

lemma connect_sent_cases: "(connect_sent w = Ok () \<longleftrightarrow> w = Connect_Written) \<and> connect_sent w \<noteq> Panic"
  by (simp add: connect_sent_def split: connect_write.split)

text \<open>The digest the gateway proves its knowledge of the shared secret with.\<close>

definition login_digest :: "(bytes \<Rightarrow> bytes) \<Rightarrow> utc_now \<Rightarrow> cmpp_config \<Rightarrow> bytes" where
  "login_digest md5 now config =
     md5 (as_bytes (cfg_account config) @ replicate 9 0 @ as_bytes (cfg_password config) @
       as_bytes (fmt_zero_padded 10 (unat (connect_timestamp now))))"

definition gateway_digest :: "(bytes \<Rightarrow> bytes) \<Rightarrow> utc_now \<Rightarrow> cmpp_config \<Rightarrow> bytes" where
  "gateway_digest md5 now config =
     md5 (0 # login_digest md5 now config @ as_bytes (cfg_password config))"

lemma verify_login_outcome:
  assumes "\<forall>x. length (md5 x) = 16"
  shows "verify_login md5 config (login_digest md5 now config) cr =
    (if cr_status cr \<noteq> 0 then Err (Error_Auth (cr_status cr))
     else if verify_authenticator (cfg_protocol_params config) \<and> cr_authenticator_ismg cr \<noteq> gateway_digest md5 now config
     then Err Error_AuthenticatorMismatch else Ok ())"
  using assms
  by (simp add: verify_login_def compute_authenticator_ismg_def copy_16_def gateway_digest_def)

lemma connect_reaches_login:
  assumes "\<forall>x. length (md5 x) = 16" "config_in_range config" "0 < cooldown" "cooldown \<le> MAX_UDH_REFERENCE_COOLDOWN"
  shows "connect_with_udh_reference_cooldown md5 now config cooldown Tcp_Connected Connect_Written first =
    res_bind (connect_response first) (\<lambda>(cr, rest).
    res_bind (verify_login md5 config (login_digest md5 now config) cr) (\<lambda>_.
      Ok (connection_new (cfg_protocol_params config) rest)))"
proof -
  have "connect_check config cooldown = Ok ()" using assms(2-4) connect_check_cases by simp
  moreover obtain packet where "connect_packet md5 now config = Ok (login_digest md5 now config, packet)"
    using connect_packet_Ok[OF assms(1), of now config] by (auto simp: login_digest_def)
  ultimately show ?thesis
    by (simp add: connect_with_udh_reference_cooldown_def setup_tcp_def connect_sent_def)
qed

lemma connect_requires:
  assumes "connect_with_udh_reference_cooldown md5 now config cooldown tcp w first = Ok c"
  shows "config_in_range config \<and> 0 < cooldown \<and> cooldown \<le> MAX_UDH_REFERENCE_COOLDOWN \<and>
    tcp = Tcp_Connected \<and> w = Connect_Written"
  using assms connect_check_cases[of config cooldown] setup_tcp_cases[of config tcp] connect_sent_cases[of w]
  by (auto simp: connect_with_udh_reference_cooldown_def res_bind_Ok_iff)

lemma connect_not_Panic:
  assumes "\<forall>x. length (md5 x) = 16"
  shows "connect_with_udh_reference_cooldown md5 now config cooldown tcp w first \<noteq> Panic"
proof -
  obtain packet where "connect_packet md5 now config = Ok (login_digest md5 now config, packet)"
    using connect_packet_Ok[OF assms, of now config] by (auto simp: login_digest_def)
  then show ?thesis
    using connect_check_cases[of config cooldown] setup_tcp_cases[of config tcp] connect_sent_cases[of w]
      connect_response_not_Panic[of first] verify_login_outcome[OF assms, of config now]
    by (auto simp: connect_with_udh_reference_cooldown_def res_bind_Panic_iff split: if_splits)
qed

lemma connect_login:
  assumes "\<forall>x. length (md5 x) = 16" "config_in_range config" "0 < cooldown" "cooldown \<le> MAX_UDH_REFERENCE_COOLDOWN"
    and "fr_pdu fr = Pdu_ConnectResp cr"
  shows "connect_with_udh_reference_cooldown md5 now config cooldown Tcp_Connected Connect_Written (First_Frame fr rest) =
    (if cr_status cr \<noteq> 0 then Err (Error_Auth (cr_status cr))
     else if verify_authenticator (cfg_protocol_params config) \<and> cr_authenticator_ismg cr \<noteq> gateway_digest md5 now config
     then Err Error_AuthenticatorMismatch
     else Ok (connection_new (cfg_protocol_params config) rest))"
  using connect_reaches_login[OF assms(1-4), of now] assms(5)
  by (simp add: connect_response_def verify_login_outcome[OF assms(1)])

lemma connect_first_frame:
  assumes "\<forall>x. length (md5 x) = 16"
    and "connect_with_udh_reference_cooldown md5 now config cooldown tcp w first = Ok c"
  obtains fr cr rest where "first = First_Frame fr rest" "fr_pdu fr = Pdu_ConnectResp cr"
proof -
  note req = connect_requires[OF assms(2)]
  then have "\<exists>fr cr rest. first = First_Frame fr rest \<and> fr_pdu fr = Pdu_ConnectResp cr"
    using assms(2) connect_reaches_login[OF assms(1), of config cooldown now]
    by (auto simp: res_bind_Ok_iff connect_response_Ok_iff)
  then show thesis using that by (elim exE conjE)
qed

section \<open>Properties\<close>

text \<open>
  C26: a connection is made exactly when the configuration and the cooldown are in range, the socket
  connects and takes CONNECT, and the first frame is a CONNECT_RESP of status 0 that, unless the
  configuration waives it, carries the digest only a holder of the shared secret can compute. A refused
  login and a wrong digest are the errors that say so; the login never panics.
\<close>

theorem connect_authenticates:
  assumes "\<forall>x. length (md5 x) = 16"
  shows "(connect_with_udh_reference_cooldown md5 now config cooldown tcp w first = Ok c \<longleftrightarrow>
      config_in_range config \<and> 0 < cooldown \<and> cooldown \<le> MAX_UDH_REFERENCE_COOLDOWN \<and>
      tcp = Tcp_Connected \<and> w = Connect_Written \<and>
      (\<exists>fr cr rest. first = First_Frame fr rest \<and> fr_pdu fr = Pdu_ConnectResp cr \<and> cr_status cr = 0 \<and>
         (verify_authenticator (cfg_protocol_params config) \<longrightarrow>
            cr_authenticator_ismg cr = gateway_digest md5 now config) \<and>
         c = connection_new (cfg_protocol_params config) rest)) \<and>
    (config_in_range config \<longrightarrow> 0 < cooldown \<longrightarrow> cooldown \<le> MAX_UDH_REFERENCE_COOLDOWN \<longrightarrow>
      (\<forall>fr cr rest. fr_pdu fr = Pdu_ConnectResp cr \<longrightarrow>
         connect_with_udh_reference_cooldown md5 now config cooldown Tcp_Connected Connect_Written (First_Frame fr rest) =
           (if cr_status cr \<noteq> 0 then Err (Error_Auth (cr_status cr))
            else if verify_authenticator (cfg_protocol_params config) \<and>
                    cr_authenticator_ismg cr \<noteq> gateway_digest md5 now config
            then Err Error_AuthenticatorMismatch
            else Ok (connection_new (cfg_protocol_params config) rest)))) \<and>
    connect_with_udh_reference_cooldown md5 now config cooldown tcp w first \<noteq> Panic"
proof -
  note login = connect_login[OF assms]
  have accepted: "connect_with_udh_reference_cooldown md5 now config cooldown tcp w first = Ok c \<longleftrightarrow>
      config_in_range config \<and> 0 < cooldown \<and> cooldown \<le> MAX_UDH_REFERENCE_COOLDOWN \<and>
      tcp = Tcp_Connected \<and> w = Connect_Written \<and>
      (\<exists>fr cr rest. first = First_Frame fr rest \<and> fr_pdu fr = Pdu_ConnectResp cr \<and> cr_status cr = 0 \<and>
         (verify_authenticator (cfg_protocol_params config) \<longrightarrow>
            cr_authenticator_ismg cr = gateway_digest md5 now config) \<and>
         c = connection_new (cfg_protocol_params config) rest)" (is "?L \<longleftrightarrow> ?R")
  proof
    assume L: ?L
    obtain fr cr rest where f: "first = First_Frame fr rest" "fr_pdu fr = Pdu_ConnectResp cr"
      by (rule connect_first_frame[OF assms L])
    note req = connect_requires[OF L]
    then show ?R using L f login[of config cooldown fr cr now rest] by (auto split: if_splits)
  next
    assume ?R
    then show ?L using login by auto
  qed
  show ?thesis using accepted login connect_not_Panic[OF assms] by simp
qed

text \<open>A gateway that proves itself, and one that echoes an empty digest.\<close>

definition sample_config :: cmpp_config where
  "sample_config = \<lparr>cfg_host = [104], cfg_port = 7890, cfg_account = [65], cfg_password = [66], cfg_version = 0x20,
     cfg_protocol_params = params_default\<rparr>"

definition sample_now :: utc_now where
  "sample_now = \<lparr>now_month = 12, now_day = 31, now_hour = 23, now_minute = 59, now_second = 8\<rparr>"

definition sample_md5 :: "bytes \<Rightarrow> bytes" where
  "sample_md5 bs = replicate 16 (of_nat (length bs))"

definition sample_response :: "bytes \<Rightarrow> first_frame" where
  "sample_response digest = First_Frame \<lparr>fr_sequence_id = 1,
     fr_pdu = Pdu_ConnectResp \<lparr>cr_status = 0, cr_authenticator_ismg = digest, cr_version = 0x20\<rparr>\<rparr> []"

theorem connect_authenticates_witness:
  "connect_with_udh_reference_cooldown sample_md5 sample_now sample_config 1 Tcp_Connected Connect_Written
     (sample_response (gateway_digest sample_md5 sample_now sample_config)) =
       Ok (connection_new params_default []) \<and>
   connect_with_udh_reference_cooldown sample_md5 sample_now sample_config 1 Tcp_Connected Connect_Written
     (sample_response (replicate 16 0)) = Err Error_AuthenticatorMismatch"
proof -
  have md5: "\<forall>x. length (sample_md5 x) = 16" by (simp add: sample_md5_def)
  have "length (as_bytes [65]) \<le> 6" by code_simp
  then have range: "config_in_range sample_config"
    by (simp add: config_in_range_def sample_config_def params_in_range_def params_default_def)
  have "as_bytes [66] = [66]" by code_simp
  then have "gateway_digest sample_md5 sample_now sample_config = replicate 16 18"
    by (simp add: gateway_digest_def login_digest_def sample_md5_def sample_config_def)
  then have bad: "gateway_digest sample_md5 sample_now sample_config \<noteq> replicate 16 0" by simp
  have params: "verify_authenticator (cfg_protocol_params sample_config)" "cfg_protocol_params sample_config = params_default"
    by (simp_all add: sample_config_def params_default_def)
  show ?thesis
    using connect_authenticates[OF md5, of sample_now sample_config 1] range bad params
    by (simp add: sample_response_def MAX_UDH_REFERENCE_COOLDOWN_def)
qed

end
