(* ===== verification/Cmpp_Close.thy ===== *)
theory Cmpp_Close
  imports Cmpp_Connection
begin

text \<open>
  The close of a connection (\<open>close\<close>, \<open>graceful_close_task\<close> and \<open>reap_background_tasks\<close> of
  \<open>src/connection.rs\<close>) as a task that passes from one wait to the next. A turn is one look at what the
  task waits for; every wait has a time limit, and every turn of the task ends it when the limit is over.
\<close>

section \<open>The task\<close>

text \<open>
  The waits, in order: the drain marker into the submit queue and its completion; TERMINATE into the
  control queue, its write and its response; the event tickets; then the phase, the workers and their
  handles, the clean-up, and the fallback clean-up.
\<close>

datatype close_task =
    Drain_Send outbound nat
  | Drain_Wait nat
  | Terminate_Send outbound nat nat u32
  | Terminate_Wait nat nat u32
  | Response_Wait nat u32
  | Drain_Tickets "u32 option"
  | Forget_Terminate u32
  | Reap_Closed
  | Reap_Workers
  | Reap_Join
  | Reap_Cleanup
  | Reap_Fallback
  | Close_Done

definition close_reason :: "inner \<Rightarrow> error option" where
  "close_reason s = (if in_peer_terminate_seen s then Some Error_Terminated else None)"

definition send_marker_until_closed :: "outbound \<Rightarrow> inner \<Rightarrow> sent \<times> inner" where
  "send_marker_until_closed ob s =
     (if in_phase s = Phase_Closed \<or> in_queues_closed s then (Not_Sent, s)
      else if length (in_submit_queue s) < SEND_CHANNEL_CAPACITY
      then (Sent_Ok, s\<lparr>in_submit_queue := in_submit_queue s @ [ob]\<rparr>)
      else (Still_Waiting, s))"

definition graceful_start :: "inner \<Rightarrow> close_task \<times> inner" where
  "graceful_start s =
     (case new_signal s of (n, t) \<Rightarrow> (Drain_Send (outbound_submit_drain_marker n) n, t))"

text \<open>The SUBMITs are drained or given up: from here on none is written, and TERMINATE is prepared.\<close>

definition graceful_terminate :: "inner \<Rightarrow> close_task \<times> inner" where
  "graceful_terminate s =
     (let s = s\<lparr>in_drain_submits_on_close := False\<rparr> in
      case reserve_next (in_registry s) of
        (None, r) \<Rightarrow> (Reap_Closed, finish (Some Error_ChannelClosed) (s\<lparr>in_registry := r\<rparr>))
      | (Some l, r) \<Rightarrow>
          (case new_signal (s\<lparr>in_registry := r\<rparr>) of
             (response_rx, s) \<Rightarrow>
               (let p = \<lparr>pt_sequence_id = lease_id l, pt_response_tx = response_rx, pt_written = False,
                         pt_sequence_lease = l\<rparr>;
                    s = (take_pending_terminate s)\<lparr>in_pending_terminate := Some p\<rparr>
                in case new_signal s of
                     (written_rx, s) \<Rightarrow>
                       (Terminate_Send (outbound_local_terminate (encoded Pdu_Terminate (lease_id l)) written_rx)
                          written_rx response_rx (lease_id l), s))))"

definition graceful_tickets :: "u32 \<Rightarrow> inner \<Rightarrow> close_task \<times> inner" where
  "graceful_tickets k s = (Drain_Tickets (Some k), begin_event_drain s)"

text \<open>
  \<open>ready\<close> says that what the task waits for outside the state has come about: the sender it listens to
  was dropped, the handles were joined, the fallback clean-up has run.
\<close>

definition graceful_turn :: "bool \<Rightarrow> bool \<Rightarrow> close_task \<Rightarrow> inner \<Rightarrow> close_task \<times> inner" where
  "graceful_turn timed_out ready d s =
     (case d of
        Drain_Send ob n \<Rightarrow>
          (case send_marker_until_closed ob s of
             (Sent_Ok, t) \<Rightarrow> (Drain_Wait n, t)
           | (Not_Sent, t) \<Rightarrow> graceful_terminate t
           | (Still_Waiting, t) \<Rightarrow> if timed_out then graceful_terminate t else (d, t))
      | Drain_Wait n \<Rightarrow>
          if n \<in> set (in_signals s) \<or> ready \<or> timed_out then graceful_terminate s else (d, s)
      | Terminate_Send ob n rx k \<Rightarrow>
          (case send_outbound_until_closed ob s of
             (Sent_Ok, t) \<Rightarrow> (Terminate_Wait n rx k, t)
           | (Not_Sent, t) \<Rightarrow> graceful_tickets k t
           | (Still_Waiting, t) \<Rightarrow> if timed_out then graceful_tickets k t else (d, t))
      | Terminate_Wait n rx k \<Rightarrow>
          if n \<in> set (in_signals s) then (Response_Wait rx k, s)
          else if ready \<or> timed_out then graceful_tickets k s else (d, s)
      | Response_Wait rx k \<Rightarrow>
          if in_phase s = Phase_Closed \<or> rx \<in> set (in_signals s) \<or> ready \<or> timed_out
          then graceful_tickets k s else (d, s)
      | Drain_Tickets k \<Rightarrow>
          (case drain_event_tickets timed_out s of
             (False, t) \<Rightarrow> (d, t)
           | (True, t) \<Rightarrow>
               (case k of None \<Rightarrow> Reap_Closed | Some k \<Rightarrow> Forget_Terminate k, finish (close_reason t) t))
      | Forget_Terminate k \<Rightarrow>
          (Reap_Closed,
           case in_pending_terminate s of
             None \<Rightarrow> s
           | Some p \<Rightarrow> if pt_sequence_id p = k then take_pending_terminate s else s)
      | _ \<Rightarrow> (d, s))"

text \<open>
  The reaping of the workers. Their abort makes them end, each with its \<open>worker_drop\<close>; the fallback
  clean-up joins the other tasks of the connection, and a fallback that runs out of time is cancelled.
\<close>

definition reap_turn :: "bool \<Rightarrow> bool \<Rightarrow> close_task \<Rightarrow> connection \<Rightarrow> close_task \<times> connection" where
  "reap_turn timed_out ready d c =
     (let s = cx_inner c; complete = c\<lparr>cx_close_complete := True\<rparr> in
      case d of
        Reap_Closed \<Rightarrow>
          if in_phase s = Phase_Closed then (Reap_Workers, c)
          else if timed_out then (Reap_Workers, c\<lparr>cx_inner := finish (close_reason s) s\<rparr>)
          else (d, c)
      | Reap_Workers \<Rightarrow>
          if cx_workers_complete c then (Reap_Join, c)
          else if timed_out then (Reap_Cleanup, c) else (d, c)
      | Reap_Join \<Rightarrow> if ready \<or> timed_out then (Reap_Cleanup, c) else (d, c)
      | Reap_Cleanup \<Rightarrow>
          if in_cleanup_complete s then (Close_Done, complete)
          else if timed_out then (Reap_Fallback, c\<lparr>cx_inner := s\<lparr>in_tasks := in_tasks s @ [Cleanup True]\<rparr>\<rparr>)
          else (d, c)
      | Reap_Fallback \<Rightarrow> if ready \<or> timed_out then (Close_Done, complete) else (d, c)
      | _ \<Rightarrow> (d, c))"

fun reaping :: "close_task \<Rightarrow> bool" where
  "reaping Reap_Closed = True"
| "reaping Reap_Workers = True"
| "reaping Reap_Join = True"
| "reaping Reap_Cleanup = True"
| "reaping Reap_Fallback = True"
| "reaping Close_Done = True"
| "reaping _ = False"

definition close_turn :: "bool \<Rightarrow> bool \<Rightarrow> close_task \<Rightarrow> connection \<Rightarrow> close_task \<times> connection" where
  "close_turn timed_out ready d c =
     (if reaping d then reap_turn timed_out ready d c
      else case graceful_turn timed_out ready d (cx_inner c) of (d, s) \<Rightarrow> (d, c\<lparr>cx_inner := s\<rparr>))"

section \<open>The calls\<close>

text \<open>
  The first call of \<open>close\<close> starts the task; a caller that has waited in vain starts another that takes
  over, one at a time.
\<close>

definition close_call :: "connection \<Rightarrow> close_task option \<times> connection" where
  "close_call c =
     (if cx_close_driver_started c then (None, c)
      else
        (let c = c\<lparr>cx_close_driver_started := True\<rparr> in
         case begin_closing True (cx_inner c) of
           (True, s) \<Rightarrow>
             (case graceful_start (begin_event_drain s) of (d, s) \<Rightarrow> (Some d, c\<lparr>cx_inner := s\<rparr>))
         | (False, s) \<Rightarrow> (Some Reap_Closed, c\<lparr>cx_inner := s\<rparr>)))"

definition takeover_call :: "connection \<Rightarrow> close_task option \<times> connection" where
  "takeover_call c =
     (if cx_close_complete c \<or> cx_takeover_started c then (None, c)
      else
        (Some (Drain_Tickets None),
         c\<lparr>cx_takeover_started := True, cx_inner := begin_event_drain (cx_inner c)\<rparr>))"

text \<open>A run of the task; before each turn the rest of the program acts.\<close>

type_synonym close_turns = "(bool \<times> bool \<times> (connection \<Rightarrow> connection)) list"

fun close_run :: "close_turns \<Rightarrow> close_task \<Rightarrow> connection \<Rightarrow> close_task \<times> connection" where
  "close_run [] d c = (d, c)"
| "close_run ((timed_out, ready, others) # turns) d c =
     (case close_turn timed_out ready d (others c) of (d, c) \<Rightarrow> close_run turns d c)"

definition never_reopens :: "(connection \<Rightarrow> connection) \<Rightarrow> bool" where
  "never_reopens f \<longleftrightarrow>
     (\<forall>c. (in_phase (cx_inner c) = Phase_Closed \<longrightarrow> in_phase (cx_inner (f c)) = Phase_Closed) \<and>
          (cx_close_complete c \<longrightarrow> cx_close_complete (f c)))"

section \<open>Progress\<close>

fun waits_left :: "close_task \<Rightarrow> nat" where
  "waits_left Close_Done = 0"
| "waits_left Reap_Fallback = 1"
| "waits_left Reap_Cleanup = 2"
| "waits_left Reap_Join = 3"
| "waits_left Reap_Workers = 4"
| "waits_left Reap_Closed = 5"
| "waits_left (Forget_Terminate _) = 6"
| "waits_left (Drain_Tickets _) = 7"
| "waits_left (Response_Wait _ _) = 8"
| "waits_left (Terminate_Wait _ _ _) = 9"
| "waits_left (Terminate_Send _ _ _ _) = 10"
| "waits_left (Drain_Wait _) = 11"
| "waits_left (Drain_Send _ _) = 12"

text \<open>Past its wait for the phase the task has seen the connection closed.\<close>

definition close_ok :: "close_task \<Rightarrow> connection \<Rightarrow> bool" where
  "close_ok d c \<longleftrightarrow>
     (waits_left d < 5 \<longrightarrow> in_phase (cx_inner c) = Phase_Closed) \<and> (d = Close_Done \<longrightarrow> cx_close_complete c)"

lemma graceful_terminate_less: "graceful_terminate s = (d, t) \<Longrightarrow> 5 \<le> waits_left d \<and> waits_left d < 11"
  by (auto simp: graceful_terminate_def Let_def split: prod.splits option.splits)

lemma graceful_turn_progress:
  assumes "graceful_turn timed_out ready d s = (d', t)" "\<not> reaping d"
  shows "5 \<le> waits_left d'" "waits_left d' \<le> waits_left d" "timed_out \<Longrightarrow> waits_left d' < waits_left d"
proof -
  have "5 \<le> waits_left d' \<and> waits_left d' \<le> waits_left d \<and> (timed_out \<longrightarrow> waits_left d' < waits_left d)"
  proof (cases d)
    case (Drain_Send ob n)
    then show ?thesis
      using assms(1) graceful_terminate_less
      by (fastforce simp: graceful_turn_def split: prod.splits sent.splits if_splits)
  next
    case (Drain_Wait n)
    then show ?thesis
      using assms(1) graceful_terminate_less
      by (fastforce simp: graceful_turn_def split: if_splits)
  next
    case (Drain_Tickets k)
    then show ?thesis
      using assms(1)
      by (cases k) (auto simp: graceful_turn_def drain_event_tickets_def split: prod.splits bool.splits if_splits)
  qed (use assms in \<open>auto simp: graceful_turn_def graceful_tickets_def split: prod.splits sent.splits if_splits\<close>)
  then show "5 \<le> waits_left d'" "waits_left d' \<le> waits_left d" "timed_out \<Longrightarrow> waits_left d' < waits_left d"
    by auto
qed

lemma reap_turn_progress:
  assumes "reap_turn timed_out ready d c = (d', c')" "reaping d" "close_ok d c"
  shows "close_ok d' c' \<and> waits_left d' \<le> waits_left d \<and>
    (timed_out \<longrightarrow> d \<noteq> Close_Done \<longrightarrow> waits_left d' < waits_left d)"
  using assms
  by (cases d) (auto simp: reap_turn_def close_ok_def finish_closed Let_def split: if_splits)

lemma close_turn_progress:
  assumes "close_turn timed_out ready d c = (d', c')" "close_ok d c"
  shows "close_ok d' c' \<and> waits_left d' \<le> waits_left d \<and>
    (timed_out \<longrightarrow> waits_left d' \<le> waits_left d - 1)"
proof (cases "reaping d")
  case True
  then have "reap_turn timed_out ready d c = (d', c')" using assms(1) by (simp add: close_turn_def)
  from reap_turn_progress[OF this True assms(2)] show ?thesis by (cases d) auto
next
  case False
  then obtain t where t: "graceful_turn timed_out ready d (cx_inner c) = (d', t)"
    using assms(1) by (auto simp: close_turn_def split: prod.splits)
  have "5 \<le> waits_left d'" by (rule graceful_turn_progress(1)[OF t False])
  then have "close_ok d' c'" by (auto simp: close_ok_def)
  then show ?thesis using graceful_turn_progress(2,3)[OF t False] by auto
qed

lemma close_run_progress:
  assumes "\<forall>(timed_out, ready, others) \<in> set turns. never_reopens others" "close_ok d c"
  shows "close_ok (fst (close_run turns d c)) (snd (close_run turns d c)) \<and>
    waits_left (fst (close_run turns d c)) \<le> waits_left d - length (filter fst turns)"
  using assms
proof (induction turns arbitrary: d c)
  case (Cons turn turns)
  obtain timed_out ready others where turn: "turn = (timed_out, ready, others)" by (cases turn)
  have ok: "close_ok d (others c)" using Cons.prems turn by (auto simp: close_ok_def never_reopens_def)
  obtain d' c' where t: "close_turn timed_out ready d (others c) = (d', c')" by fastforce
  have p: "close_ok d' c'" "waits_left d' \<le> waits_left d" "timed_out \<longrightarrow> waits_left d' \<le> waits_left d - 1"
    using close_turn_progress[OF t ok] by simp_all
  have "close_run (turn # turns) d c = close_run turns d' c'" using turn t by simp
  moreover have "close_ok (fst (close_run turns d' c')) (snd (close_run turns d' c')) \<and>
      waits_left (fst (close_run turns d' c')) \<le> waits_left d' - length (filter fst turns)"
    using Cons.IH[OF _ p(1)] Cons.prems(1) by simp
  ultimately show ?case using p turn by auto
qed simp

lemma waits_left_0: "waits_left d = 0 \<longleftrightarrow> d = Close_Done"
  by (cases d) simp_all

section \<open>Properties\<close>

text \<open>
  C25: closing ends. Whatever the peer, the workers and the other tasks do, the task that a call of
  \<open>close\<close> starts, or one that takes over, reaches its end once twelve of its waits have run out of time,
  at the latest; then the connection is closed and every caller of \<open>close\<close> is released. The first call
  already stops the admission of SUBMITs.
\<close>

theorem close_completes:
  assumes "close_call c = (Some d, c0) \<or> takeover_call c = (Some d, c0)"
    and "\<forall>(timed_out, ready, others) \<in> set turns. never_reopens others"
    and "12 \<le> length (filter fst turns)"
  shows "\<exists>c1. close_run turns d c0 = (Close_Done, c1) \<and> in_phase (cx_inner c1) = Phase_Closed \<and>
    cx_close_complete c1 \<and>
    (close_call c = (Some d, c0) \<longrightarrow> (\<forall>b. fst (submit_commit b (cx_inner c0)) = Err Error_Closed))"
proof -
  have "5 \<le> waits_left d \<and> waits_left d \<le> 12"
    using assms(1)
    by (elim disjE) (auto simp: close_call_def takeover_call_def graceful_start_def Let_def split: if_splits prod.splits bool.splits)
  moreover from this have "close_ok d c0" by (auto simp: close_ok_def)
  moreover obtain d1 c1 where r: "close_run turns d c0 = (d1, c1)" by fastforce
  ultimately have "close_ok d1 c1 \<and> waits_left d1 = 0"
    using close_run_progress[OF assms(2), of d c0] assms(3) by auto
  then have "d1 = Close_Done" "in_phase (cx_inner c1) = Phase_Closed" "cx_close_complete c1"
    by (auto simp: close_ok_def waits_left_0)
  moreover have "in_phase (cx_inner c0) \<noteq> Phase_Open" if "close_call c = (Some d, c0)"
    using that
    by (auto simp: close_call_def graceful_start_def begin_closing_def begin_event_drain_def new_signal_def Let_def
        split: if_splits)
  ultimately show ?thesis using r by (auto simp: submit_commit_def)
qed

definition silent_turns :: close_turns where
  "silent_turns = replicate 12 (True, False, \<lambda>c. c)"

theorem close_completes_witness:
  "\<exists>d c0 c1. close_call (connection_new params_default []) = (Some d, c0) \<and>
     close_run silent_turns d c0 = (Close_Done, c1) \<and> in_phase (cx_inner c1) = Phase_Closed \<and> cx_close_complete c1"
proof -
  have "in_phase (inner_new params_default) = Phase_Open" by (simp add: inner_new_def Let_def)
  then have "fst (close_call (connection_new params_default [])) \<noteq> None"
    by (simp add: close_call_def connection_new_def begin_closing_def graceful_start_def new_signal_def Let_def)
  then obtain d c0 where c: "close_call (connection_new params_default []) = (Some d, c0)"
    by (cases "close_call (connection_new params_default [])") auto
  have "\<forall>(timed_out, ready, others) \<in> set silent_turns. never_reopens others" "12 \<le> length (filter fst silent_turns)"
    by (auto simp: silent_turns_def never_reopens_def)
  from close_completes[OF disjI1[OF c] this] show ?thesis using c by blast
qed

end
