(* ===== verification/Cmpp_Caller.thy ===== *)
theory Cmpp_Caller
  imports Cmpp_Submits
begin

text \<open>
  A call of \<open>submit\<close> (\<open>src/connection.rs\<close>) as a task that passes from one wait to the next: for a manual
  batch, for a window permit and for a slot of the submit queue, the last two for each segment.
\<close>

section \<open>The task\<close>

text \<open>
  What a call keeps between its waits. The permit of its manual batch is held until it returns. The
  template is shared by the segments, each of which overwrites the same fields of it, so that it is
  built afresh here.
\<close>

record submit_call =
  sc_options :: submit_options
  sc_plan :: submit_content_plan
  sc_base :: "u32 option"
  sc_permit :: bool
  sc_udh :: "udh_lease option"
  sc_leases :: "sequence_lease list option"
  sc_index :: nat
  sc_ids :: "u32 list"

text \<open>The lease of a manual batch is taken from the batch before the wait for the window.\<close>

datatype submit_wait =
    Await_Batch
  | Await_Window "sequence_lease option"
  | Await_Slot submission

datatype submit_task =
    Submitting submit_call submit_wait
  | Submitted "u32 list result"

definition release_manual_batch :: "inner \<Rightarrow> inner" where
  "release_manual_batch s = s\<lparr>in_manual_batch_available := in_manual_batch_available s + 1\<rparr>"

text \<open>What the call gives back when it returns: the rest of its batch, its UDH lease and its permit.\<close>

definition submit_end :: "submit_call \<Rightarrow> inner \<Rightarrow> inner" where
  "submit_end c s =
     (let s = (case sc_leases c of None \<Rightarrow> s | Some ls \<Rightarrow> fold drop_lease ls s);
          s = drop_udh (sc_udh c) s
      in if sc_permit c then release_manual_batch s else s)"

definition submit_fail :: "error \<Rightarrow> submit_call \<Rightarrow> inner \<Rightarrow> submit_task \<times> inner" where
  "submit_fail e c s = (Submitted (Err (partial_submit_error (sc_ids c) e)), submit_end c s)"

text \<open>The head of the loop over the segments.\<close>

definition submit_segment :: "submit_call \<Rightarrow> inner \<Rightarrow> submit_task \<times> inner" where
  "submit_segment c s =
     (if plan_segment_count (sc_plan c) \<le> sc_index c then (Submitted (Ok (sc_ids c)), submit_end c s)
      else
        (case sc_leases c of
           None \<Rightarrow> (Submitting c (Await_Window None), s)
         | Some [] \<Rightarrow> submit_fail Error_ChannelClosed c s
         | Some (l # ls) \<Rightarrow> (Submitting (c\<lparr>sc_leases := Some ls\<rparr>) (Await_Window (Some l)), s)))"

text \<open>
  The UDH pool is shared by all connections: a call finds it in some state, with a hasher, a clock and
  the cooldown of its connection.
\<close>

record udh_pool =
  up_hash :: "bytes \<Rightarrow> bytes \<Rightarrow> u64"
  up_now :: nat
  up_cooldown :: nat
  up_buckets :: "udh_bucket list"

text \<open>The UDH reference and the manual batch.\<close>

definition submit_reserve :: "udh_pool \<Rightarrow> submit_call \<Rightarrow> inner \<Rightarrow> submit_task \<times> inner" where
  "submit_reserve pool c s =
     (case submit_udh (up_hash pool) (up_now pool) (up_cooldown pool) (sc_options c) (sc_plan c) (up_buckets pool) of
        Err e \<Rightarrow> (Submitted (Err e), submit_end c s)
      | Panic \<Rightarrow> (Submitted Panic, submit_end c s)
      | Ok (u, buckets) \<Rightarrow>
          (case submit_leases (sc_base c) (plan_segment_count (sc_plan c)) u s of
             (Ok ls, t) \<Rightarrow> submit_segment (c\<lparr>sc_udh := u, sc_leases := ls\<rparr>) t
           | (Err e, t) \<Rightarrow> (Submitted (Err e), submit_end c t)
           | (Panic, t) \<Rightarrow> (Submitted Panic, submit_end c t)))"

definition submit_call_new :: "submit_options \<Rightarrow> submit_content_plan \<Rightarrow> u32 option \<Rightarrow> submit_call" where
  "submit_call_new options plan base =
     \<lparr>sc_options = options, sc_plan = plan, sc_base = base, sc_permit = False, sc_udh = None, sc_leases = None,
      sc_index = 0, sc_ids = []\<rparr>"

text \<open>The call up to its first wait; \<open>counter\<close> is the counter of the preferred references.\<close>

definition submit_begin ::
  "udh_pool \<Rightarrow> submit_options \<Rightarrow> rstr \<Rightarrow> u32 option \<Rightarrow> u32 \<Rightarrow> inner \<Rightarrow> submit_task \<times> inner" where
  "submit_begin pool options content base counter s =
     (case fst (submit_check options content counter s) of
        Err e \<Rightarrow> (Submitted (Err e), s)
      | Panic \<Rightarrow> (Submitted Panic, s)
      | Ok plan \<Rightarrow>
          (let c = submit_call_new options plan base in
           if base = None then submit_reserve pool c s else (Submitting c Await_Batch, s)))"

section \<open>Its turns\<close>

text \<open>\<open>send_submit\<close> from the window permit to the wait for a queue slot.\<close>

definition submit_window :: "(rstr \<Rightarrow> bytes) \<Rightarrow> sequence_lease option \<Rightarrow> submit_call \<Rightarrow> inner \<Rightarrow> submit_task \<times> inner" where
  "submit_window gbk lease c s =
     (case acquire_window s of
        None \<Rightarrow> (Submitting c (Await_Window lease), s)
      | Some (Ok _, t) \<Rightarrow>
          (case submit_prepare gbk lease (build_submit_template (sc_options c)) (sc_plan c) (sc_index c)
              (map_option ul_reference (sc_udh c)) (sc_udh c) t of
             (Ok b, u) \<Rightarrow> (Submitting c (Await_Slot b), u)
           | (Err e, u) \<Rightarrow> submit_fail e c u
           | (Panic, u) \<Rightarrow> (Submitted Panic, submit_end c u))
      | Some (Err e, t) \<Rightarrow>
          submit_fail e c (drop_udh (sc_udh c) (case lease of None \<Rightarrow> t | Some l \<Rightarrow> drop_lease l t))
      | Some (Panic, t) \<Rightarrow> (Submitted Panic, submit_end c t))"

text \<open>And from the slot to the commit.\<close>

definition submit_slot :: "submission \<Rightarrow> submit_call \<Rightarrow> inner \<Rightarrow> submit_task \<times> inner" where
  "submit_slot b c s =
     (case await_submit_slot s of
        None \<Rightarrow> (Submitting c (Await_Slot b), s)
      | Some (Ok _) \<Rightarrow>
          (case submit_commit b s of
             (Ok k, t) \<Rightarrow> submit_segment (c\<lparr>sc_udh := map_option mark_exposed (sc_udh c), sc_ids := sc_ids c @ [k],
                 sc_index := sc_index c + 1\<rparr>) t
           | (Err e, t) \<Rightarrow> submit_fail e c t
           | (Panic, t) \<Rightarrow> (Submitted Panic, submit_end c t))
      | Some (Err e) \<Rightarrow> submit_fail e c (abandon (sb_lease b) (sb_udh b) s)
      | Some Panic \<Rightarrow> (Submitted Panic, submit_end c (abandon (sb_lease b) (sb_udh b) s)))"

definition submit_turn :: "(rstr \<Rightarrow> bytes) \<Rightarrow> udh_pool \<Rightarrow> submit_task \<Rightarrow> inner \<Rightarrow> submit_task \<times> inner" where
  "submit_turn gbk pool d s =
     (case d of
        Submitted r \<Rightarrow> (d, s)
      | Submitting c Await_Batch \<Rightarrow>
          (case acquire_manual_batch s of
             None \<Rightarrow> (d, s)
           | Some (Ok _, t) \<Rightarrow> submit_reserve pool (c\<lparr>sc_permit := True\<rparr>) t
           | Some (Err e, t) \<Rightarrow> (Submitted (Err e), t)
           | Some (Panic, t) \<Rightarrow> (Submitted Panic, t))
      | Submitting c (Await_Window lease) \<Rightarrow> submit_window gbk lease c s
      | Submitting c (Await_Slot b) \<Rightarrow> submit_slot b c s)"

text \<open>A caller that gives up drops what its call holds at the wait.\<close>

definition submit_cancel :: "submit_task \<Rightarrow> inner \<Rightarrow> inner" where
  "submit_cancel d s =
     (case d of
        Submitted r \<Rightarrow> s
      | Submitting c Await_Batch \<Rightarrow> s
      | Submitting c (Await_Window lease) \<Rightarrow>
          submit_end c (drop_udh (sc_udh c) (case lease of None \<Rightarrow> s | Some l \<Rightarrow> drop_lease l s))
      | Submitting c (Await_Slot b) \<Rightarrow> submit_end c (abandon (sb_lease b) (sb_udh b) s))"

section \<open>A run of a call\<close>

text \<open>
  Before each turn the rest of the program acts. The run records the sequences that the call's commits
  admit.
\<close>

type_synonym submit_turns = "(udh_pool \<times> (inner \<Rightarrow> inner)) list"

definition committed :: "submit_task \<Rightarrow> inner \<Rightarrow> u32 list" where
  "committed d s =
     (case d of
        Submitting c (Await_Slot b) \<Rightarrow>
          (case await_submit_slot s of
             Some (Ok _) \<Rightarrow> (case fst (submit_commit b s) of Ok k \<Rightarrow> [k] | _ \<Rightarrow> [])
           | _ \<Rightarrow> [])
      | _ \<Rightarrow> [])"

fun submit_run :: "(rstr \<Rightarrow> bytes) \<Rightarrow> submit_turns \<Rightarrow> submit_task \<Rightarrow> inner \<Rightarrow> submit_task \<times> inner \<times> u32 list" where
  "submit_run gbk [] d s = (d, s, [])"
| "submit_run gbk ((pool, others) # turns) d s =
     (let s = others s; (d', t) = submit_turn gbk pool d s; (d'', u, ks) = submit_run gbk turns d' t
      in (d'', u, committed d s @ ks))"

text \<open>The parts of a call that cannot fail: the segments of a valid content, and their encoding.\<close>

lemma submit_try_encode_Ok:
  assumes "length (sm_dest_terminal_ids m) \<le> 255" "length (sm_msg_content m) \<le> 255"
  shows "\<exists>bs. submit_try_encode m k = Ok bs"
proof -
  have "submit_validate_encode m = Ok ()" using assms by (simp add: submit_validate_iff)
  moreover have "encode_frame_into [] CMPP_SUBMIT k (submit_encode_body m) = Ok ([] @ frame_bytes CMPP_SUBMIT k (submit_wire m))"
    using calculation by (intro encode_frame_into_append submit_encode_wire)
  ultimately show ?thesis by (simp add: submit_try_encode_def)
qed

lemma segment_ready:
  assumes "length (sms_pieces content) \<le> 255" "i < length (sms_pieces content)"
    and "1 < length (sms_pieces content) \<longrightarrow> u \<noteq> None" "length (op_dest_terminal_ids options) \<le> 255"
  shows "\<exists>g bs. plan_segment gbk (plan_of counter content) i (map_option ul_reference u) = Ok g \<and>
    submit_try_encode (apply_segment (build_submit_template options) g) k = Ok bs"
proof -
  let ?n = "length (sms_pieces content)"
  let ?r = "case u of None \<Rightarrow> ucast (counter AND 0xFF) | Some l \<Rightarrow> ul_reference l"
  let ?g = "segment_of (choose_encoding content) ?r ?n i (sms_pieces content ! i)"
  have "plan_segment gbk (plan_of counter content) i (map_option ul_reference u) = Ok ?g"
    by (rule plan_segment_spec) (use assms in \<open>auto split: option.split\<close>)
  moreover have "length (seg_content ?g) \<le> 140"
    using segment_content_bound[OF assms(2), of ?r] nth_segments_of[OF assms(2), of ?r] by simp
  then have "\<exists>bs. submit_try_encode (build_submit_from_segment options ?g) k = Ok bs"
    using assms(4) by (intro submit_try_encode_Ok) simp_all
  ultimately show ?thesis by (auto simp: build_submit_from_segment_def)
qed

lemma submit_prepare_outcome:
  assumes "plan_segment gbk plan i r = Ok g" "\<And>k. \<exists>bs. submit_try_encode (apply_segment template g) k = Ok bs"
    and "submit_prepare gbk lease template plan i r u s = (x, t)"
  shows "x = Err Error_ChannelClosed \<or> (\<exists>b. x = Ok b \<and> (\<forall>l. lease = Some l \<longrightarrow> ak_sequence_id (sb_key b) = lease_id l))"
proof -
  obtain l q where l: "reserve_next (in_registry s) = (l, q)" by force
  have e: "\<exists>bs. submit_try_encode (apply_segment template g) (lease_id l) = Ok bs" for l by (rule assms(2))
  show ?thesis
  proof (cases lease)
    case None
    show ?thesis
    proof (cases l)
      case (Some k)
      obtain bs where "submit_try_encode (apply_segment template g) (lease_id k) = Ok bs" using e by blast
      then show ?thesis using assms(3) None Some l
        by (auto simp: submit_prepare_def assms(1) Let_def next_submission_id_def)
    qed (use assms(3) None l in \<open>auto simp: submit_prepare_def assms(1) Let_def\<close>)
  next
    case (Some k)
    obtain bs where "submit_try_encode (apply_segment template g) (lease_id k) = Ok bs" using e by blast
    then show ?thesis using assms(3) Some by (auto simp: submit_prepare_def assms(1) Let_def next_submission_id_def)
  qed
qed

lemma submit_commit_outcome:
  "submit_commit b s = (Ok k, t) \<Longrightarrow> k = ak_sequence_id (sb_key b)"
  "submit_commit b s = (r, t) \<Longrightarrow> r = Err Error_Closed \<or> r = Err Error_ChannelClosed \<or> r = Ok (ak_sequence_id (sb_key b))"
  by (auto simp: submit_commit_def Let_def split: prod.splits if_splits)

lemma reserve_batch_ids:
  assumes "reserve_batch base n r = (Some ls, q)"
  shows "map lease_id ls = batch_sequences base n"
proof -
  have "n \<le> 255" using assms by (auto simp: reserve_batch_def split: if_splits)
  then have "batch_ids base 0 n [] = Some (batch_sequences base n)"
    using batch_ids_eq[of 0 n base] by (simp add: batch_sequences_def)
  then show ?thesis using assms by (auto simp: reserve_batch_def comp_def split: if_splits)
qed

section \<open>The invariant of a call\<close>

text \<open>
  \<open>ks\<close> are the sequences admitted so far, \<open>m\<close> the number of leases taken from a manual batch: the
  identifiers reported are those, and the leases left are those of the segments to come.
\<close>

abbreviation segments :: "rstr \<Rightarrow> nat" where
  "segments content \<equiv> length (sms_pieces content)"

definition call_ok :: "submit_options \<Rightarrow> rstr \<Rightarrow> u32 \<Rightarrow> u32 option \<Rightarrow> u32 list \<Rightarrow> submit_call \<Rightarrow> bool" where
  "call_ok options content counter base ks c \<longleftrightarrow>
     sc_options c = options \<and> sc_plan c = plan_of counter content \<and> sc_base c = base \<and>
     sc_index c = length ks \<and> sc_ids c = ks \<and> length (op_dest_terminal_ids options) \<le> 255 \<and> segments content \<le> 255"

definition loop_ok :: "rstr \<Rightarrow> u32 option \<Rightarrow> u32 list \<Rightarrow> nat \<Rightarrow> submit_call \<Rightarrow> bool" where
  "loop_ok content base ks m c \<longleftrightarrow>
     (1 < segments content \<longrightarrow> sc_udh c \<noteq> None) \<and>
     (case base of
        None \<Rightarrow> sc_leases c = None
      | Some b \<Rightarrow>
          ks = take (length ks) (batch_sequences b (segments content)) \<and>
          (\<exists>ls. sc_leases c = Some ls \<and> map lease_id ls = drop m (batch_sequences b (segments content))))"

definition batch_next :: "rstr \<Rightarrow> u32 option \<Rightarrow> u32 list \<Rightarrow> u32 option" where
  "batch_next content base ks = map_option (\<lambda>b. batch_sequences b (segments content) ! length ks) base"

fun report_ok :: "rstr \<Rightarrow> u32 option \<Rightarrow> u32 list \<Rightarrow> u32 list result \<Rightarrow> bool" where
  "report_ok content base ks (Ok ids) \<longleftrightarrow>
     ids = ks \<and> length ids = segments content \<and> (\<forall>b. base = Some b \<longrightarrow> ids = batch_sequences b (segments content))"
| "report_ok content base ks (Err e) \<longleftrightarrow>
     (case e of
        Error_PartialSubmit ids source \<Rightarrow>
          ids = ks \<and> length ids < segments content \<and> (source = Error_Closed \<or> source = Error_ChannelClosed)
      | _ \<Rightarrow> ks = [])"
| "report_ok content base ks Panic \<longleftrightarrow> False"

definition wait_ok :: "rstr \<Rightarrow> u32 option \<Rightarrow> u32 list \<Rightarrow> submit_call \<Rightarrow> submit_wait \<Rightarrow> bool" where
  "wait_ok content base ks c w \<longleftrightarrow>
     (case w of
        Await_Batch \<Rightarrow> ks = []
      | Await_Window lease \<Rightarrow>
          loop_ok content base ks (Suc (length ks)) c \<and> map_option lease_id lease = batch_next content base ks
      | Await_Slot b \<Rightarrow>
          loop_ok content base ks (Suc (length ks)) c \<and>
          (\<forall>k. batch_next content base ks = Some k \<longrightarrow> ak_sequence_id (sb_key b) = k))"

definition submit_ok :: "submit_options \<Rightarrow> rstr \<Rightarrow> u32 \<Rightarrow> u32 option \<Rightarrow> u32 list \<Rightarrow> submit_task \<Rightarrow> bool" where
  "submit_ok options content counter base ks d \<longleftrightarrow>
     (case d of
        Submitting c w \<Rightarrow>
          call_ok options content counter base ks c \<and> length ks < segments content \<and> wait_ok content base ks c w
      | Submitted r \<Rightarrow> report_ok content base ks r)"

lemma offsets_length [simp]: "length (offsets n ps) = length ps"
  by (induction ps arbitrary: n) simp_all

lemma plan_of_count [simp]: "plan_segment_count (plan_of counter content) = segments content"
  by (simp add: plan_segment_count_def plan_of_def)

lemma length_batch [simp]: "length (batch_sequences b n) = n"
  by (simp add: batch_sequences_def)

lemma submit_fail_ok:
  assumes "call_ok options content counter base ks c" "length ks < segments content"
    and "e = Error_Closed \<or> e = Error_ChannelClosed"
  shows "submit_ok options content counter base ks (fst (submit_fail e c s))"
  using assms by (auto simp: submit_ok_def submit_fail_def partial_submit_error_def call_ok_def)

text \<open>The head of the loop takes the next lease, or the call has admitted all its segments.\<close>

lemma submit_segment_ok:
  assumes C: "call_ok options content counter base ks c" "length ks \<le> segments content"
    and L: "loop_ok content base ks (length ks) c"
  shows "submit_ok options content counter base ks (fst (submit_segment c s))"
proof -
  have n: "plan_segment_count (sc_plan c) = segments content" "sc_index c = length ks" "sc_ids c = ks"
    using C by (simp_all add: call_ok_def)
  show ?thesis
  proof (cases "segments content \<le> length ks")
    case True
    then have "base = Some b \<longrightarrow> ks = batch_sequences b (segments content)" for b
      using C(2) L by (auto simp: loop_ok_def)
    then show ?thesis using True C(2) by (auto simp: submit_segment_def submit_ok_def n)
  next
    case False
    show ?thesis
    proof (cases base)
      case None
      then have "sc_leases c = None" "loop_ok content base ks (Suc (length ks)) c" using L by (simp_all add: loop_ok_def)
      then show ?thesis using False C None
        by (simp add: submit_segment_def submit_ok_def n wait_ok_def batch_next_def)
    next
      case (Some b)
      let ?q = "batch_sequences b (segments content)"
      obtain ls where ls: "sc_leases c = Some ls" "map lease_id ls = drop (length ks) ?q"
        using L Some by (auto simp: loop_ok_def)
      moreover have "drop (length ks) ?q = ?q ! length ks # drop (Suc (length ks)) ?q"
        using False by (simp add: Cons_nth_drop_Suc)
      ultimately obtain l ms where l: "ls = l # ms" "lease_id l = ?q ! length ks" "map lease_id ms = drop (Suc (length ks)) ?q"
        by (cases ls) auto
      then have "loop_ok content base ks (Suc (length ks)) (c\<lparr>sc_leases := Some ms\<rparr>)"
        using L Some by (auto simp: loop_ok_def)
      then show ?thesis using False C Some l ls(1)
        by (simp add: submit_segment_def submit_ok_def n wait_ok_def batch_next_def) (simp add: call_ok_def)
    qed
  qed
qed

lemma submit_udh_outcome:
  assumes "length (up_buckets pool) = UDH_REFERENCE_BUCKET_COUNT" "plan = plan_of counter content"
    and "submit_udh (up_hash pool) (up_now pool) (up_cooldown pool) options plan (up_buckets pool) = x"
  shows "x = Err (Error_Config Long_sms_udh) \<or> x = Err Error_ResourceExhausted \<or>
    (\<exists>u buckets. x = Ok (u, buckets) \<and> (1 < segments content \<longrightarrow> u \<noteq> None))"
proof -
  let ?ids = "bucket_ids (up_hash pool) (op_src_id options) (op_dest_terminal_ids options)"
  have "\<forall>i \<in> set ?ids. i < length (up_buckets pool)"
    using bucket_ids_less assms(1) by (simp add: UDH_REFERENCE_BUCKET_COUNT_def)
  then have P: "try_acquire ?ids r (up_cooldown pool) (up_now pool) (up_buckets pool) \<noteq> Panic" for r
    by (rule try_acquire_not_Panic)
  have E: "try_acquire ?ids r (up_cooldown pool) (up_now pool) (up_buckets pool) \<noteq> Err e" for r e
    by (simp add: try_acquire_def Let_def split: option.split)
  obtain l buckets where "try_acquire ?ids (ucast (counter AND 0xFF)) (up_cooldown pool) (up_now pool) (up_buckets pool) = Ok (l, buckets)"
    using P E by (metis res.exhaust surj_pair)
  moreover have "pl_preferred_ref plan = (if 1 < segments content then Some (ucast (counter AND 0xFF)) else None)"
    "plan_segment_count plan = segments content" using assms(2) by (simp_all add: plan_of_def plan_segment_count_def)
  ultimately show ?thesis
    using assms(3) by (cases "1 < segments content"; cases l) (auto simp: submit_udh_def)
qed


lemma submit_reserve_ok:
  assumes C: "call_ok options content counter base [] c" and p: "length (up_buckets pool) = UDH_REFERENCE_BUCKET_COUNT"
  shows "submit_ok options content counter base [] (fst (submit_reserve pool c s))"
proof -
  have c: "sc_options c = options" "sc_plan c = plan_of counter content" "sc_base c = base" using C by (simp_all add: call_ok_def)
  from submit_udh_outcome[OF p refl refl, of options counter content]
  consider e where "submit_udh (up_hash pool) (up_now pool) (up_cooldown pool) options (plan_of counter content) (up_buckets pool) = Err e"
      "e = Error_Config Long_sms_udh \<or> e = Error_ResourceExhausted"
    | u buckets where "submit_udh (up_hash pool) (up_now pool) (up_cooldown pool) options (plan_of counter content) (up_buckets pool) = Ok (u, buckets)"
      "1 < segments content \<longrightarrow> u \<noteq> None"
    by blast
  then show ?thesis
  proof cases
    case 1
    then show ?thesis by (auto simp: submit_reserve_def c submit_ok_def)
  next
    case (2 u buckets)
    obtain x t where x: "submit_leases base (segments content) u s = (x, t)" by force
    show ?thesis
    proof (cases x)
      case (Ok ls)
      let ?c = "c\<lparr>sc_udh := u, sc_leases := ls\<rparr>"
      have "loop_ok content base [] 0 ?c"
        using x Ok 2(2) reserve_batch_ids
        by (auto simp: loop_ok_def submit_leases_def split: option.splits prod.splits)
      moreover have "call_ok options content counter base [] ?c" using C by (simp add: call_ok_def)
      ultimately show ?thesis
        using submit_segment_ok[of options content counter base "[]" ?c t] by (simp add: submit_reserve_def c 2(1) x Ok)
    qed (use x in \<open>auto simp: submit_reserve_def c 2(1) submit_ok_def submit_leases_def split: option.splits prod.splits\<close>)
  qed
qed

text \<open>The outcomes of the waits.\<close>

lemma acquire_window_cases:
  obtains "acquire_window s = None" | t where "acquire_window s = Some (Ok (), t)"
  | t where "acquire_window s = Some (Err Error_Closed, t)"
proof (cases "in_phase s \<noteq> Phase_Open \<or> in_window_closed s")
  case True
  then have "acquire_window s = Some (Err Error_Closed, s)" by (auto simp: acquire_window_def)
  then show thesis by (rule that(3))
next
  case False
  show thesis
  proof (cases "in_window_available s = 0")
    case True
    then have "acquire_window s = None" using False by (simp add: acquire_window_def)
    then show thesis by (rule that(1))
  next
    case some: False
    have "acquire_window s = Some (Ok (), s\<lparr>in_window_available := in_window_available s - 1\<rparr>)"
      using False some by (simp add: acquire_window_def)
    then show thesis by (rule that(2))
  qed
qed

lemma acquire_manual_batch_cases:
  obtains "acquire_manual_batch s = None" | t where "acquire_manual_batch s = Some (Ok (), t)"
  | t where "acquire_manual_batch s = Some (Err Error_Closed, t)"
proof (cases "in_phase s \<noteq> Phase_Open \<or> in_manual_batch_closed s")
  case True
  then have "acquire_manual_batch s = Some (Err Error_Closed, s)" by (auto simp: acquire_manual_batch_def)
  then show thesis by (rule that(3))
next
  case False
  show thesis
  proof (cases "in_manual_batch_available s = 0")
    case True
    then have "acquire_manual_batch s = None" using False by (simp add: acquire_manual_batch_def)
    then show thesis by (rule that(1))
  next
    case some: False
    have "acquire_manual_batch s = Some (Ok (), s\<lparr>in_manual_batch_available := in_manual_batch_available s - 1\<rparr>)"
      using False some by (simp add: acquire_manual_batch_def)
    then show thesis by (rule that(2))
  qed
qed

lemma await_submit_slot_cases:
  obtains "await_submit_slot s = None" | "await_submit_slot s = Some (Ok ())" | "await_submit_slot s = Some (Err Error_Closed)"
    | "await_submit_slot s = Some (Err Error_ChannelClosed)"
  unfolding await_submit_slot_def
  by (cases "in_phase s = Phase_Open"; cases "in_queues_closed s"; cases "length (in_submit_queue s) < SEND_CHANNEL_CAPACITY") simp_all

lemma submit_window_ok:
  assumes D: "submit_ok options content counter base ks (Submitting c (Await_Window lease))"
  shows "submit_ok options content counter base ks (fst (submit_window gbk lease c s))"
proof -
  have c: "call_ok options content counter base ks c" "length ks < segments content"
    "loop_ok content base ks (Suc (length ks)) c" "map_option lease_id lease = batch_next content base ks"
    using D by (simp_all add: submit_ok_def wait_ok_def)
  then have f: "sc_options c = options" "sc_plan c = plan_of counter content" "sc_index c = length ks"
    "length (op_dest_terminal_ids options) \<le> 255" "segments content \<le> 255" by (simp_all add: call_ok_def)
  have u: "1 < segments content \<longrightarrow> sc_udh c \<noteq> None" using c(3) by (simp add: loop_ok_def)
  obtain g where g: "plan_segment gbk (plan_of counter content) (length ks) (map_option ul_reference (sc_udh c)) = Ok g"
    using segment_ready[OF f(5) c(2) u f(4), of gbk counter] by auto
  then have e: "\<exists>bs. submit_try_encode (apply_segment (build_submit_template options) g) k = Ok bs" for k
    using segment_ready[OF f(5) c(2) u f(4), of gbk counter k] by auto
  show ?thesis
  proof (cases rule: acquire_window_cases[of s])
    case (2 t)
    obtain x v where x: "submit_prepare gbk lease (build_submit_template options) (plan_of counter content) (length ks)
        (map_option ul_reference (sc_udh c)) (sc_udh c) t = (x, v)" by force
    from submit_prepare_outcome[OF g e x] show ?thesis
    proof (elim disjE exE conjE)
      assume "x = Err Error_ChannelClosed"
      then show ?thesis using submit_fail_ok[OF c(1,2)] by (simp add: submit_window_def 2 f x)
    next
      fix b
      assume b: "x = Ok b" "\<forall>l. lease = Some l \<longrightarrow> ak_sequence_id (sb_key b) = lease_id l"
      then have "ak_sequence_id (sb_key b) = k" if "batch_next content base ks = Some k" for k
        using that c(4) by (cases lease) auto
      then show ?thesis using c by (simp add: submit_window_def 2 f x b(1) submit_ok_def wait_ok_def)
    qed
  next
    case (3 t)
    then show ?thesis using submit_fail_ok[OF c(1,2)] by (simp add: submit_window_def)
  qed (use D in \<open>simp add: submit_window_def\<close>)
qed

lemma submit_slot_ok:
  assumes D: "submit_ok options content counter base ks (Submitting c (Await_Slot b))"
  shows "submit_ok options content counter base (ks @ committed (Submitting c (Await_Slot b)) s) (fst (submit_slot b c s))"
proof -
  have c: "call_ok options content counter base ks c" "length ks < segments content"
    "loop_ok content base ks (Suc (length ks)) c" "\<And>k. batch_next content base ks = Some k \<Longrightarrow> ak_sequence_id (sb_key b) = k"
    using D by (simp_all add: submit_ok_def wait_ok_def)
  obtain r t where r: "submit_commit b s = (r, t)" by force
  show ?thesis
  proof (cases rule: await_submit_slot_cases[of s])
    case 2
    from submit_commit_outcome(2)[OF r] show ?thesis
    proof (elim disjE)
      assume k: "r = Ok (ak_sequence_id (sb_key b))"
      let ?k = "ak_sequence_id (sb_key b)"
      let ?c = "c\<lparr>sc_udh := map_option mark_exposed (sc_udh c), sc_ids := sc_ids c @ [?k], sc_index := sc_index c + 1\<rparr>"
      have "take (Suc (length ks)) (batch_sequences j (segments content)) = ks @ [?k]" if "base = Some j" for j
        using c(2,3,4) that by (simp add: take_Suc_conv_app_nth loop_ok_def batch_next_def)
      then have "loop_ok content base (ks @ [?k]) (length (ks @ [?k])) ?c"
        using c(3) by (simp add: loop_ok_def split: option.splits)
      moreover have "call_ok options content counter base (ks @ [?k]) ?c" using c(1) by (simp add: call_ok_def)
      ultimately show ?thesis
        using submit_segment_ok[of options content counter base "ks @ [?k]" ?c t] c(2)
        by (simp add: submit_slot_def 2 r k committed_def)
    qed (use submit_fail_ok[OF c(1,2)] in \<open>simp_all add: submit_slot_def 2 r committed_def\<close>)
  next
    case 3
    then show ?thesis using submit_fail_ok[OF c(1,2)] by (simp add: submit_slot_def committed_def)
  next
    case 4
    then show ?thesis using submit_fail_ok[OF c(1,2)] by (simp add: submit_slot_def committed_def)
  qed (use D in \<open>simp add: submit_slot_def committed_def\<close>)
qed

lemma submit_turn_ok:
  assumes D: "submit_ok options content counter base ks d" and p: "length (up_buckets pool) = UDH_REFERENCE_BUCKET_COUNT"
  shows "submit_ok options content counter base (ks @ committed d s) (fst (submit_turn gbk pool d s))"
proof (cases d)
  case (Submitting c w)
  show ?thesis
  proof (cases w)
    case Await_Batch
    have k: "ks = []" "call_ok options content counter base [] (c\<lparr>sc_permit := True\<rparr>)"
      using D Submitting Await_Batch by (auto simp: submit_ok_def wait_ok_def call_ok_def)
    show ?thesis
      using submit_reserve_ok[OF k(2) p] D k(1) Submitting Await_Batch
      by (cases rule: acquire_manual_batch_cases[of s]) (simp_all add: submit_turn_def committed_def submit_ok_def)
  next
    case (Await_Window lease)
    then show ?thesis using submit_window_ok D Submitting by (simp add: submit_turn_def committed_def)
  next
    case (Await_Slot b)
    then show ?thesis using submit_slot_ok D Submitting by (simp add: submit_turn_def)
  qed
qed (use D in \<open>simp add: submit_turn_def committed_def\<close>)

lemma submit_run_ok:
  assumes "submit_ok options content counter base ks d" "submit_run gbk turns d s = (d', t, new)"
    and "\<forall>(pool, others) \<in> set turns. length (up_buckets pool) = UDH_REFERENCE_BUCKET_COUNT"
  shows "submit_ok options content counter base (ks @ new) d'"
  using assms
proof (induction turns arbitrary: ks d s new)
  case (Cons turn turns)
  obtain pool others where t: "turn = (pool, others)" by force
  obtain e u where e: "submit_turn gbk pool d (others s) = (e, u)" by force
  obtain d1 t1 more where r: "submit_run gbk turns e u = (d1, t1, more)" by (metis prod_cases3)
  have "submit_ok options content counter base (ks @ committed d (others s)) e"
    using submit_turn_ok[OF Cons.prems(1), of pool "others s" gbk] Cons.prems(3) t e by simp
  from Cons.IH[OF this, of u more] show ?case using Cons.prems(2,3) t e r by (simp add: Let_def)
qed simp

lemma submit_begin_ok:
  assumes "valid_str content" "length (up_buckets pool) = UDH_REFERENCE_BUCKET_COUNT"
  shows "submit_ok options content counter base [] (fst (submit_begin pool options content base counter s))"
proof -
  have p: "fst (prepare_submit_content counter content) =
      (if 255 < segments content then Err (Error_Config Segment_total) else Ok (plan_of counter content))"
    by (simp add: prepare_spec[OF assms(1)])
  show ?thesis
  proof (cases "is_closed s \<or> 255 < length (op_dest_terminal_ids options) \<or> 255 < segments content")
    case True
    then show ?thesis by (auto simp: submit_begin_def submit_check_def p submit_ok_def)
  next
    case False
    let ?c = "submit_call_new options (plan_of counter content) base"
    have c: "call_ok options content counter base [] ?c" using False by (simp add: call_ok_def submit_call_new_def)
    then have "submit_ok options content counter base [] (Submitting ?c Await_Batch)"
      using sms_pieces_nonempty[of content] by (simp add: submit_ok_def wait_ok_def)
    then show ?thesis
      using submit_reserve_ok[OF c assms(2)] False
      by (cases base) (simp_all add: submit_begin_def submit_check_def p Let_def)
  qed
qed

section \<open>Properties\<close>

text \<open>The sample SUBMIT as a call: it returns after the turns of its only segment.\<close>

definition sample_options :: submit_options where
  "sample_options = submit_options_new (str_lit ''SVC'') (str_lit ''901234'') (str_lit ''1069'') (str_lit ''138'')"

definition sample_pool :: udh_pool where
  "sample_pool = \<lparr>up_hash = (\<lambda>_ _. 0), up_now = 0, up_cooldown = 1, up_buckets = udh_pool_new\<rparr>"

lemma sample_pool_buckets: "length (up_buckets sample_pool) = UDH_REFERENCE_BUCKET_COUNT"
  by (simp add: sample_pool_def udh_pool_new_def)

lemma sample_prepared_content: "fst (prepare_submit_content 0 (str_lit ''hi'')) = Ok sample_plan"
  by code_simp

lemma sample_begin:
  "submit_begin sample_pool sample_options (str_lit ''hi'') None 0 (inner_new params_default) =
    (Submitting (submit_call_new sample_options sample_plan None) (Await_Window None), inner_new params_default)"
proof -
  have "length (op_dest_terminal_ids sample_options) \<le> 255" by (simp add: sample_options_def submit_options_new_def)
  moreover have "submit_call_new sample_options sample_plan None\<lparr>sc_udh := None, sc_leases := None\<rparr> =
      submit_call_new sample_options sample_plan None" by (simp add: submit_call_new_def)
  ultimately show ?thesis
    by (simp add: submit_begin_def submit_check_def is_closed_def sample_prepared_content submit_reserve_def submit_udh_def
        submit_leases_def submit_segment_def submit_call_new_def sample_plan_def plan_segment_count_def)
qed

lemma sample_turn:
  "submit_turn (\<lambda>_. []) sample_pool (Submitting (submit_call_new sample_options sample_plan None) (Await_Window None))
      (inner_new params_default) =
    (Submitting (submit_call_new sample_options sample_plan None) (Await_Slot sample_submission), sample_prepared)"
  using sample_prepare
  by (simp add: submit_turn_def submit_window_def sample_acquire submit_call_new_def sample_template_def sample_options_def)

lemma sample_slot: "await_submit_slot sample_prepared = Some (Ok ())"
  by (simp add: await_submit_slot_def sample_prepared_def sample_acquired_def SEND_CHANNEL_CAPACITY_def inner_new_def Let_def)

lemma sample_commit_turn:
  "submit_turn (\<lambda>_. []) sample_pool (Submitting (submit_call_new sample_options sample_plan None) (Await_Slot sample_submission))
      sample_prepared = (Submitted (Ok [2]), sample_committed)"
  by (simp add: submit_turn_def sample_slot sample_commit submit_slot_def submit_segment_def
      submit_end_def drop_udh_def submit_call_new_def sample_plan_def plan_segment_count_def)

lemma sample_committed_now:
  "committed (Submitting c (Await_Slot sample_submission)) sample_prepared = [2]" "committed (Submitting c (Await_Window l)) s = []"
  by (simp_all add: committed_def sample_slot sample_commit)

lemma sample_run:
  "submit_run (\<lambda>_. []) [(sample_pool, id), (sample_pool, id)]
      (Submitting (submit_call_new sample_options sample_plan None) (Await_Window None)) (inner_new params_default) =
    (Submitted (Ok [2]), sample_committed, [2])"
  by (simp add: sample_turn sample_commit_turn sample_committed_now)

text \<open>
  The connection is closed while the only segment waits for the window: the error is a partial failure that
  names no segment.
\<close>

lemma single_segment_partial:
  "fst (submit_turn gbk pool (Submitting (submit_call_new sample_options sample_plan None) (Await_Window None))
     (sample_acquired\<lparr>in_phase := Phase_Closed\<rparr>)) = Submitted (Err (Error_PartialSubmit [] Error_Closed))"
  by (simp add: submit_turn_def submit_window_def acquire_window_def submit_fail_def submit_call_new_def
      partial_submit_error_def)

text \<open>
  C11: what a call of \<open>submit\<close> reports is what it did: it never panics; \<open>Ok\<close> has one sequence for each
  segment of the content, in order, the consecutive ones of the batch when a base is given; a partial
  failure names exactly the segments that were admitted, and its source is the closing of the connection;
  with any other error nothing was admitted.
\<close>

theorem submit_reports_admitted:
  assumes "valid_str content" "length (up_buckets pool) = UDH_REFERENCE_BUCKET_COUNT"
    and "\<forall>(p, others) \<in> set turns. length (up_buckets p) = UDH_REFERENCE_BUCKET_COUNT"
    and "submit_begin pool options content base counter s = (d, t)"
    and "submit_run gbk turns d t = (Submitted r, u, admitted)"
  shows "case r of
      Ok ids \<Rightarrow> ids = admitted \<and> length ids = length (sms_pieces content) \<and>
        (\<forall>b. base = Some b \<longrightarrow> ids = map (\<lambda>j. b + of_nat j) [0..<length ids])
    | Err (Error_PartialSubmit ids source) \<Rightarrow> ids = admitted \<and> length ids < length (sms_pieces content) \<and>
        (source = Error_Closed \<or> source = Error_ChannelClosed)
    | Err e \<Rightarrow> admitted = []
    | Panic \<Rightarrow> False"
proof -
  have "submit_ok options content counter base [] d"
    using submit_begin_ok[OF assms(1,2), of options counter base s] assms(4) by simp
  from submit_run_ok[OF this assms(5,3)] have "report_ok content base admitted r" by (simp add: submit_ok_def)
  then show ?thesis by (cases r) (auto simp: batch_sequences_def split: error.splits)
qed

theorem submit_reports_admitted_witness:
  "fst (submit_begin sample_pool sample_options (str_lit ''hi'') None 0 (inner_new params_default)) =
    Submitting (submit_call_new sample_options sample_plan None) (Await_Window None) \<and>
   length [2 :: u32] = length (sms_pieces (str_lit ''hi''))"
proof -
  have v: "valid_str (str_lit ''hi'')" by (rule valid_str_lit)
  have p: "\<forall>(p, others) \<in> set [(sample_pool, id), (sample_pool, id)]. length (up_buckets p) = UDH_REFERENCE_BUCKET_COUNT"
    by (simp add: sample_pool_buckets)
  from submit_reports_admitted[OF v sample_pool_buckets p sample_begin sample_run]
  have "length [2 :: u32] = length (sms_pieces (str_lit ''hi''))" by simp
  then show ?thesis by (simp only: sample_begin fst_conv simp_thms)
qed

end
