(* ===== verification/Cmpp_Quiet.thy ===== *)
theory Cmpp_Quiet
  imports Cmpp_Attempts Cmpp_Reader
begin

text \<open>
  What the operations leave alone of the state of the tasks: the pending heartbeat, the pending TERMINATE
  and the control queue. With \<open>same_life\<close> it is what the event pipeline never touches.
\<close>

definition same_tasks :: "inner \<Rightarrow> inner \<Rightarrow> bool" where
  "same_tasks s t \<longleftrightarrow>
     in_heartbeat_pending t = in_heartbeat_pending s \<and> in_pending_terminate t = in_pending_terminate s \<and>
     in_control_queue t = in_control_queue s"

definition quiet :: "inner \<Rightarrow> inner \<Rightarrow> bool" where
  "quiet s t \<longleftrightarrow> same_life s t \<and> same_tasks s t"

lemma same_tasks_refl [simp]: "same_tasks s s"
  by (simp add: same_tasks_def)

lemma same_tasks_trans: "same_tasks s t \<Longrightarrow> same_tasks t u \<Longrightarrow> same_tasks s u"
  by (simp add: same_tasks_def)

lemma quiet_refl [simp]: "quiet s s"
  by (simp add: quiet_def)

lemma quiet_trans: "quiet s t \<Longrightarrow> quiet t u \<Longrightarrow> quiet s u"
  by (auto simp: quiet_def intro: same_life_trans same_tasks_trans)

section \<open>The event pipeline\<close>

lemma quiet_try_send: "quiet s (snd (spool_try_send i s))"
  by (simp add: spool_try_send_def quiet_def same_life_def same_tasks_def)

lemma quiet_permit [simp]:
  "quiet s (depth_permit_new_n n s)" "quiet s (depth_permit_drop n s)" "quiet s (overflow_admission s)"
  by (simp_all add: depth_permit_new_n_def depth_permit_drop_def overflow_admission_def quiet_def same_life_def
      same_tasks_def Let_def)

lemma quiet_counters [simp]:
  "quiet s (s\<lparr>in_events_dropped := n\<rparr>)" "quiet s (s\<lparr>in_submit_responses := n\<rparr>)"
  "quiet s (s\<lparr>in_delivers_received := n\<rparr>)" "quiet s (s\<lparr>in_unexpected_pdus := n\<rparr>)"
  "quiet s (s\<lparr>in_signals := ns\<rparr>)" "quiet s (s\<lparr>in_next_oneshot := m\<rparr>)" "quiet s (s\<lparr>in_peer_terminate_seen := b\<rparr>)"
  "quiet s (s\<lparr>in_peer_terminate_response_written := b\<rparr>)" "quiet s (s\<lparr>in_drain_submits_on_close := b\<rparr>)"
  "quiet s (s\<lparr>in_write_batches := n, in_write_frames := n'\<rparr>)" "quiet s (s\<lparr>in_tasks := ts\<rparr>)"
  "quiet s (s\<lparr>in_cleanup_complete := b\<rparr>)"
  by (simp_all add: quiet_def same_life_def same_tasks_def)

lemma quiet_offer: "quiet s (snd (spool_offer i s))"
proof -
  obtain r t where t: "spool_try_send i (depth_permit_new_n (item_depth i) s) = (r, t)" by force
  then have "quiet s t"
    using quiet_trans[OF quiet_permit(1) quiet_try_send[of "depth_permit_new_n (item_depth i) s" i]] by simp
  then show ?thesis using quiet_trans[OF _ quiet_permit(2)] by (cases r) (simp_all add: spool_offer_def t)
qed

lemma quiet_begin_closing: "quiet s (snd (begin_closing b s))"
  by (simp add: begin_closing_def quiet_def same_life_def same_tasks_def)

lemma quiet_overload: "quiet s (start_event_overload_close s)"
proof -
  obtain b t where "begin_closing False s = (b, t)" by force
  then show ?thesis
    using quiet_begin_closing[of s False] quiet_trans[OF _ quiet_counters(11)]
    by (cases b) (simp_all add: start_event_overload_close_def)
qed

lemma quiet_emit: "quiet s (snd (emit_event e s))"
proof -
  obtain a t where t: "spool_offer (Spool_Direct e) s = (a, t)" by force
  obtain b u where u: "spool_offer (Spool_Direct e) (overflow_admission s) = (b, u)" by force
  have st: "quiet s t" using quiet_offer[of s "Spool_Direct e"] by (simp add: t)
  have su: "quiet s u"
    using quiet_trans[OF quiet_permit(3) quiet_offer[of "overflow_admission s" "Spool_Direct e"]] by (simp add: u)
  have o: "quiet s (start_event_overload_close v)" if "quiet s v" for v using that quiet_overload by (rule quiet_trans)
  have d: "quiet s (v\<lparr>in_events_dropped := n\<rparr>)" if "quiet s v" for v n using that quiet_counters(1) by (rule quiet_trans)
  show ?thesis
    using st su
    by (cases a; cases b; cases "in_event_admission s")
      (simp_all add: emit_event_def t u o d Let_def quiet_trans[OF st])
qed

lemma quiet_make_ticket: "quiet s (snd (make_event_ticket s))"
proof -
  let ?n = "in_next_oneshot s"
  let ?s = "s\<lparr>in_next_oneshot := Suc ?n, in_oneshots := (in_oneshots s)(?n := Unsent),
    in_event_tickets := Suc (in_event_tickets s)\<rparr>"
  obtain b t where t: "spool_offer (Spool_Event ?n) ?s = (b, t)" by force
  have "quiet s ?s" by (simp add: quiet_def same_life_def same_tasks_def)
  then have "quiet s t" using quiet_trans quiet_offer[of ?s "Spool_Event ?n"] t by fastforce
  moreover have "quiet t (t\<lparr>in_oneshots := os, in_event_tickets := m\<rparr>)" for os m
    by (simp add: quiet_def same_life_def same_tasks_def)
  ultimately have "quiet s (t\<lparr>in_oneshots := os, in_event_tickets := m\<rparr>)" for os m by (rule quiet_trans)
  then show ?thesis using \<open>quiet s t\<close> by (cases b) (simp_all add: make_event_ticket_def Let_def t)
qed

lemma quiet_reserve_deferred: "quiet s (snd (reserve_deferred_event s))"
proof -
  obtain a t where t: "make_event_ticket s = (a, t)" by force
  obtain b u where u: "make_event_ticket (overflow_admission s) = (b, u)" by force
  have st: "quiet s t" using quiet_make_ticket[of s] by (simp add: t)
  have su: "quiet s u"
    using quiet_trans[OF quiet_permit(3) quiet_make_ticket[of "overflow_admission s"]] by (simp add: u)
  have o: "quiet s (start_event_overload_close v)" if "quiet s v" for v using that quiet_overload by (rule quiet_trans)
  show ?thesis
    using st su
    by (cases a; cases b; cases "in_event_admission s")
      (simp_all add: reserve_deferred_event_def t u o Let_def quiet_trans[OF st])
qed

lemma quiet_tickets [simp]:
  "quiet s (snd (publish n e s))" "quiet s (ticket_drop n s)" "quiet s (begin_event_drain s)"
  "quiet s (snd (drain_event_tickets timed_out s))" "quiet s (drop_outbound ob s)" "quiet s (finish r s)"
  "quiet s (snd (new_signal s))" "quiet s (close_event_spool s)"
proof -
  show "quiet s (snd (publish n e s))" "quiet s (ticket_drop n s)" "quiet s (begin_event_drain s)"
    "quiet s (snd (drain_event_tickets timed_out s))" "quiet s (finish r s)" "quiet s (snd (new_signal s))"
    by (simp_all add: publish_def ticket_drop_def begin_event_drain_def drain_event_tickets_def
        seal_event_admission_if_idle_def seal_event_admission_def finish_def transition_to_closed_def new_signal_def
        Let_def quiet_def same_life_def same_tasks_def)
  have t: "quiet s (ticket_drop n s)" for n by (simp add: ticket_drop_def Let_def quiet_def same_life_def same_tasks_def)
  then show "quiet s (drop_outbound ob s)" by (simp add: drop_outbound_def split: option.split prod.split)
  let ?s = "s\<lparr>in_event_admission := Admission_Terminal, in_terminal_reason := None\<rparr>"
  obtain x u where u: "spool_try_send (Spool_Terminal (in_terminal_reason s)) (depth_permit_new_n 1 ?s) = (x, u)" by force
  have "quiet s ?s" by (simp add: quiet_def same_life_def same_tasks_def)
  then have "quiet s u"
    using quiet_trans[OF quiet_trans[OF _ quiet_permit(1)] quiet_try_send] u by (metis snd_conv)
  then show "quiet s (close_event_spool s)"
    using quiet_trans[OF _ quiet_counters(11)] quiet_trans[OF _ quiet_permit(2)]
    by (cases x) (simp_all add: close_event_spool_def Let_def u del: One_nat_def)
qed

lemma quiet_fold: "(\<And>x s. quiet s (f x s)) \<Longrightarrow> quiet s (fold f xs s)"
  by (induction xs arbitrary: s) (auto intro: quiet_trans)

lemma quiet_publish_resp: "quiet s (publish_resp r s)"
proof -
  let ?s = "s\<lparr>in_submit_responses := in_submit_responses s + 1\<rparr>"
  have "quiet s ?s" by simp
  moreover have "quiet ?s (count_dropped 1 ?s)" by (simp add: count_dropped_def)
  ultimately have "quiet s (count_dropped 1 ?s)" "quiet s (snd (emit_event e ?s))" for e
    using quiet_emit[of ?s] by (blast intro: quiet_trans)+
  then show ?thesis unfolding publish_resp_def Let_def by (simp del: One_nat_def split: prod.split)
qed

text \<open>The tasks the pipeline has spawned and the dispatcher.\<close>

lemma quiet_task [simp]: "quiet s (with_task k s)"
  by (simp add: with_task_def)

lemma quiet_count [simp]: "quiet s (count_dropped n s)"
  by (simp add: count_dropped_def)

lemma quiet_chunk: "publish_chunk give_up fallback c rest s = (task, t) \<Longrightarrow> quiet s t"
proof -
  have n: "quiet u (snd (next_chunk fallback cs u))" for cs u by (simp add: next_chunk_def split: list.split)
  obtain x u where u: "spool_try_send (Spool_Batch c) s = (x, u)" by force
  have su: "quiet s u" using quiet_try_send[of s "Spool_Batch c"] by (simp add: u)
  have d: "quiet v (count_dropped m (depth_permit_drop k v))" for v m k
    using quiet_permit(2) quiet_count by (rule quiet_trans)
  assume "publish_chunk give_up fallback c rest s = (task, t)"
  then have "t = snd (next_chunk fallback rest (count_dropped (length c) (depth_permit_drop (length c) s))) \<or>
      t = snd (next_chunk fallback rest u) \<or> t = u \<or> (\<exists>m. t = count_dropped m (depth_permit_drop (length c) u))"
    by (cases x) (auto simp: publish_chunk_def u split: if_splits)
  then show ?thesis using quiet_trans[OF d n] quiet_trans[OF su n] su quiet_trans[OF su d] by auto
qed

lemma quiet_retry: "terminal_retry item s = (task, t) \<Longrightarrow> quiet s t"
proof -
  obtain x u where u: "spool_try_send item s = (x, u)" by force
  have "quiet s u" "quiet s (depth_permit_drop 1 u)"
    using quiet_try_send[of s item] quiet_trans[OF quiet_try_send[of s item] quiet_permit(2)] by (simp_all add: u)
  then show "terminal_retry item s = (task, t) \<Longrightarrow> quiet s t" by (cases x) (auto simp: terminal_retry_def u)
qed

lemma quiet_backpressure: "quiet s (start_event_dispatch_backpressure_close s)"
proof -
  let ?a = "s\<lparr>in_event_overflowed := True\<rparr>"
  let ?b = "if in_event_admission ?a \<in> {Admission_Open, Admission_Draining}
    then ?a\<lparr>in_event_admission := Admission_Overflowed\<rparr> else ?a"
  have "quiet s ?b" by (simp add: quiet_def same_life_def same_tasks_def)
  then have "quiet s (start_event_overload_close ?b)" using quiet_overload by (rule quiet_trans)
  then show ?thesis by (simp only: start_event_dispatch_backpressure_close_def Let_def)
qed

lemma quiet_direct: "dispatch_direct_event timed_out discard e c s = (f, discard', c', t) \<Longrightarrow> quiet s t"
  using quiet_trans[OF quiet_count quiet_backpressure, of s 1]
  by (auto simp: dispatch_direct_event_def split: if_splits prod.splits dispatch_result.splits)

lemma quiet_dispatch:
  assumes "event_dispatcher timed_out d discard c s = Some (f, d', discard', c', t)"
  shows "quiet s t"
  using assms
proof (cases rule: dispatcher_cases)
  case (skipped n rest)
  then show ?thesis by (simp add: quiet_def same_life_def same_tasks_def depth_permit_drop_def count_dropped_def)
next
  case (exit reason rest)
  then show ?thesis by (simp add: quiet_def same_life_def same_tasks_def depth_permit_drop_def spool_receiver_drop_def)
next
  case (ticket n e u)
  then show ?thesis using quiet_trans[OF quiet_direct quiet_permit(2)] by blast
next
  case (orphan n)
  then show ?thesis using quiet_trans[OF quiet_count quiet_permit(2)] by blast
next
  case (direct e es m)
  then show ?thesis using quiet_direct by blast
qed (simp_all add: quiet_def same_life_def same_tasks_def depth_permit_drop_def)

section \<open>The SUBMITs\<close>

text \<open>The operations on SUBMITs leave the other tasks alone.\<close>

lemma same_tasks_quiet: "quiet s t \<Longrightarrow> same_tasks s t"
  by (simp add: quiet_def)

lemma same_tasks_fold: "(\<And>x s. same_tasks s (f x s)) \<Longrightarrow> same_tasks s (fold f xs s)"
  by (induction xs arbitrary: s) (auto intro: same_tasks_trans)

lemma same_tasks_update [simp]:
  "same_tasks s (s\<lparr>in_registry := r\<rparr>)" "same_tasks s (s\<lparr>in_pending_submits := m\<rparr>)"
  "same_tasks s (s\<lparr>in_submit_queue := q\<rparr>)"
  by (simp_all add: same_tasks_def)

lemma same_tasks_drop_pending: "same_tasks s (drop_pending p s)"
  by (simp add: drop_pending_def same_tasks_def)

lemma same_tasks_remove: "same_tasks s (remove_pending k s)"
  by (simp add: remove_pending_def drop_pending_def same_tasks_def split: option.split)

lemma same_tasks_match: "match_resp k s = (b, t) \<Longrightarrow> same_tasks s t"
  using same_tasks_remove[of s k] by (auto simp: match_resp_def split: option.splits submit_attempt_state.splits)

lemma same_tasks_match_all: "match_resps rs s = (handled, t) \<Longrightarrow> same_tasks s t"
proof (induction rs arbitrary: s handled t)
  case (Cons r rs)
  obtain b u where u: "match_resp (fst r) s = (b, u)" by force
  obtain kept v where v: "match_resps rs u = (kept, v)" by force
  have "same_tasks s v" using same_tasks_match[OF u] Cons.IH[OF v] by (rule same_tasks_trans)
  then show ?case using Cons.prems u v by simp
qed simp

lemma same_tasks_claim: "claim_attempt key s = (b, t) \<Longrightarrow> same_tasks s t"
  by (auto simp: claim_attempt_def split: option.splits if_splits)

lemma same_tasks_claim_batch: "claim_batch allowed obs s = (kept, t) \<Longrightarrow> same_tasks s t"
proof (induction obs arbitrary: s kept t)
  case (Cons ob obs)
  then show ?case
    by (auto split: option.splits prod.splits if_splits simp: Let_def intro: same_tasks_trans dest: same_tasks_claim)
qed simp

lemma same_tasks_complete: "same_tasks s (complete_submit_attempts keys now s)"
  unfolding complete_submit_attempts_def
  by (rule same_tasks_fold) (auto simp: complete_attempt_def same_tasks_remove split: option.split)

lemma same_tasks_abandon [simp]:
  "same_tasks s (release_window s)" "same_tasks s (drop_lease k s)" "same_tasks s (drop_udh u s)"
  "same_tasks s (abandon k u s)"
  by (simp_all add: abandon_def release_window_def drop_lease_def drop_udh_def same_tasks_def split: option.split)

end
