(* ===== verification/Cmpp_Calls.thy ===== *)
theory Cmpp_Calls
  imports Cmpp_Caller Cmpp_Quiet
begin

text \<open>
  The turns of a call of \<open>submit\<close> as runs of the life cycle: what the call holds at each wait, and that
  every turn passes it on or gives it back.
\<close>

section \<open>What a call holds\<close>

definition call_leases :: "submit_call \<Rightarrow> sequence_lease multiset" where
  "call_leases c = (case sc_leases c of None \<Rightarrow> {#} | Some ls \<Rightarrow> mset ls)"

definition lease_hand :: "sequence_lease option \<Rightarrow> sequence_lease multiset" where
  "lease_hand l = (case l of None \<Rightarrow> {#} | Some k \<Rightarrow> {#k#})"

fun call_manual :: "submit_task \<Rightarrow> sequence_lease multiset" where
  "call_manual (Submitting c Await_Batch) = call_leases c"
| "call_manual (Submitting c (Await_Window l)) = call_leases c + lease_hand l"
| "call_manual (Submitting c (Await_Slot b)) = call_leases c"
| "call_manual (Submitted r) = {#}"

fun call_ready :: "submit_task \<Rightarrow> submission multiset" where
  "call_ready (Submitting c (Await_Slot b)) = {#b#}"
| "call_ready _ = {#}"

text \<open>
  The hands of the callers: window permits, leases of manual batches, prepared submissions. \<open>call_runs\<close>
  says that a change of the state is a run in which these hands become those, whatever others hold.
\<close>

type_synonym hands = "nat \<times> sequence_lease multiset \<times> submission multiset"

definition holds :: "hands \<Rightarrow> sequence_lease multiset \<Rightarrow> submission multiset \<Rightarrow> life \<Rightarrow> bool" where
  "holds H K Q l \<longleftrightarrow>
     (case H of (p, M, R) \<Rightarrow> lf_permits l = p \<and> mset (lf_manual l) = K + M \<and> mset (lf_ready l) = Q + R)"

definition same_rest :: "life \<Rightarrow> life \<Rightarrow> bool" where
  "same_rest l m \<longleftrightarrow> lf_other m = lf_other l \<and> lf_batch m = lf_batch l \<and> lf_writing m = lf_writing l"

definition call_runs :: "hands \<Rightarrow> inner \<Rightarrow> hands \<Rightarrow> inner \<Rightarrow> bool" where
  "call_runs H s G t \<longleftrightarrow>
     same_tasks s t \<and>
     (\<forall>l K Q. lf_inner l = s \<longrightarrow> holds H K Q l \<longrightarrow>
        (\<exists>m. life_step\<^sup>*\<^sup>* l m \<and> lf_inner m = t \<and> holds G K Q m \<and> same_rest l m))"

lemma holds_simp [simp]:
  "holds (p, M, R) K Q l \<longleftrightarrow> lf_permits l = p \<and> mset (lf_manual l) = K + M \<and> mset (lf_ready l) = Q + R"
  by (simp add: holds_def)

lemma call_runs_refl [simp]: "call_runs H s H s"
  by (auto simp: call_runs_def same_rest_def)

lemma call_runs_trans:
  assumes "call_runs H s G t" "call_runs G t F u"
  shows "call_runs H s F u"
  unfolding call_runs_def
proof (intro conjI allI impI)
  show "same_tasks s u" using assms same_tasks_trans by (auto simp: call_runs_def)
  fix l :: life and K Q
  assume "lf_inner l = s" "holds H K Q l"
  then obtain m where m: "life_step\<^sup>*\<^sup>* l m" "lf_inner m = t" "holds G K Q m" "same_rest l m"
    using assms(1) unfolding call_runs_def by blast
  then obtain n where "life_step\<^sup>*\<^sup>* m n" "lf_inner n = u" "holds F K Q n" "same_rest m n"
    using assms(2) unfolding call_runs_def by blast
  then show "\<exists>n. life_step\<^sup>*\<^sup>* l n \<and> lf_inner n = u \<and> holds F K Q n \<and> same_rest l n"
    using m by (intro exI[of _ n]) (auto simp: same_rest_def)
qed

lemma call_runs_step:
  assumes "same_tasks s t"
    and "\<And>(l :: life) K Q. lf_inner l = s \<Longrightarrow> holds H K Q l \<Longrightarrow>
      \<exists>m. life_step l m \<and> lf_inner m = t \<and> holds G K Q m \<and> same_rest l m"
  shows "call_runs H s G t"
  unfolding call_runs_def
proof (intro conjI allI impI)
  fix l :: life and K Q
  assume "lf_inner l = s" "holds H K Q l"
  from assms(2)[OF this] show "\<exists>m. life_step\<^sup>*\<^sup>* l m \<and> lf_inner m = t \<and> holds G K Q m \<and> same_rest l m"
    by (elim exE conjE) (intro exI conjI, erule r_into_rtranclp)
qed (rule assms(1))

text \<open>Hands that are not used stay as they are.\<close>

lemma call_runs_frame:
  assumes "call_runs (p, M, R) s (p', M', R') t"
  shows "call_runs (p, F + M, E + R) s (p', F + M', E + R') t"
  unfolding call_runs_def
proof (intro conjI allI impI)
  show "same_tasks s t" using assms by (simp add: call_runs_def)
  fix l :: life and K Q
  assume l: "lf_inner l = s" "holds (p, F + M, E + R) K Q l"
  then have "holds (p, M, R) (K + F) (Q + E) l" by (simp add: add.assoc)
  then obtain m where "life_step\<^sup>*\<^sup>* l m" "lf_inner m = t" "holds (p', M', R') (K + F) (Q + E) m" "same_rest l m"
    using assms l(1) unfolding call_runs_def by blast
  then show "\<exists>m. life_step\<^sup>*\<^sup>* l m \<and> lf_inner m = t \<and> holds (p', F + M', E + R') K Q m \<and> same_rest l m"
    by (auto simp: add.assoc)
qed

section \<open>The operations\<close>

lemma call_runs_quiet: "quiet s t \<Longrightarrow> call_runs H s H t"
proof (rule call_runs_step)
  fix l :: life and K Q
  assume "quiet s t" "lf_inner l = s" "holds H K Q l"
  then show "\<exists>m. life_step l m \<and> lf_inner m = t \<and> holds H K Q m \<and> same_rest l m"
    using life_step.environment[of l t]
    by (intro exI[of _ "l\<lparr>lf_inner := t\<rparr>"]) (simp add: quiet_def same_rest_def holds_def split: prod.split)
qed (simp add: quiet_def)

lemma call_runs_acquire: "acquire_window s = Some (Ok (), t) \<Longrightarrow> call_runs (p, M, R) s (p + 1, M, R) t"
proof (rule call_runs_step)
  fix l :: life and K Q
  assume "acquire_window s = Some (Ok (), t)" "lf_inner l = s" "holds (p, M, R) K Q l"
  then show "\<exists>m. life_step l m \<and> lf_inner m = t \<and> holds (p + 1, M, R) K Q m \<and> same_rest l m"
    using life_step.acquire[of l t]
    by (intro exI[of _ "l\<lparr>lf_inner := t, lf_permits := lf_permits l + 1\<rparr>"]) (simp add: same_rest_def)
qed (auto simp: acquire_window_def same_tasks_def split: if_splits)

lemma call_runs_leases:
  "submit_leases (Some b) n u s = (Ok (Some ls), t) \<Longrightarrow> call_runs (p, M, R) s (p, M + mset ls, R) t"
proof (rule call_runs_step)
  fix l :: life and K Q
  assume "submit_leases (Some b) n u s = (Ok (Some ls), t)" "lf_inner l = s" "holds (p, M, R) K Q l"
  then show "\<exists>m. life_step l m \<and> lf_inner m = t \<and> holds (p, M + mset ls, R) K Q m \<and> same_rest l m"
    using life_step.leases[of b n u l ls t]
    by (intro exI[of _ "l\<lparr>lf_inner := t, lf_manual := ls @ lf_manual l\<rparr>"]) (simp add: same_rest_def ac_simps)
qed (auto simp: submit_leases_def same_tasks_def drop_udh_def split: option.splits prod.splits)

lemma split_mset: "mset xs = K + add_mset k M \<Longrightarrow> \<exists>ys zs. xs = ys @ k # zs \<and> mset (ys @ zs) = K + M"
proof -
  assume x: "mset xs = K + add_mset k M"
  then have "k \<in> set xs" by (metis set_mset_mset union_iff union_single_eq_member)
  then obtain ys zs where "xs = ys @ k # zs" by (meson split_list)
  then show ?thesis using x by auto
qed

lemma call_runs_drop: "call_runs (p, add_mset k M, R) s (p, M, R) (drop_lease k s)"
proof (rule call_runs_step)
  fix l :: life and K Q
  assume l: "lf_inner l = s" "holds (p, add_mset k M, R) K Q l"
  then obtain xs ys where x: "lf_manual l = xs @ k # ys" "mset (xs @ ys) = K + M"
    using split_mset[of "lf_manual l" K k M] by auto
  then show "\<exists>m. life_step l m \<and> lf_inner m = drop_lease k s \<and> holds (p, M, R) K Q m \<and> same_rest l m"
    using life_step.lease_dropped[OF x(1)] l
    by (intro exI[of _ "l\<lparr>lf_inner := drop_lease k s, lf_manual := xs @ ys\<rparr>"]) (simp add: same_rest_def)
qed simp

lemma call_runs_abandon: "call_runs (p, M, add_mset b R) s (p, M, R) (abandon (sb_lease b) (sb_udh b) s)"
proof (rule call_runs_step)
  fix l :: life and K Q
  assume l: "lf_inner l = s" "holds (p, M, add_mset b R) K Q l"
  then obtain xs ys where x: "lf_ready l = xs @ b # ys" "mset (xs @ ys) = Q + R"
    using split_mset[of "lf_ready l" Q b R] by auto
  then show "\<exists>m. life_step l m \<and> lf_inner m = abandon (sb_lease b) (sb_udh b) s \<and> holds (p, M, R) K Q m \<and> same_rest l m"
    using life_step.abandoned[OF x(1)] l
    by (intro exI[of _ "l\<lparr>lf_inner := abandon (sb_lease b) (sb_udh b) s, lf_ready := xs @ ys\<rparr>"]) (simp add: same_rest_def)
qed simp

text \<open>The operations of \<open>send_submit\<close> leave the other tasks alone.\<close>

lemma same_tasks_prepare: "submit_prepare gbk manual template plan index reference u s = (r, t) \<Longrightarrow> same_tasks s t"
  by (auto simp: submit_prepare_def abandon_manual_def same_tasks_def next_submission_id_def abandon_def
      drop_udh_def release_window_def drop_lease_def finish_def transition_to_closed_def Let_def
      split: option.splits prod.splits res.splits)

lemma same_tasks_commit: "submit_commit b s = (r, t) \<Longrightarrow> same_tasks s t"
  by (auto simp: submit_commit_def same_tasks_def insert_pending_def drop_pending_def abandon_def
      drop_udh_def release_window_def drop_lease_def finish_def transition_to_closed_def Let_def
      split: option.splits prod.splits if_splits)

definition prepared :: "submission result \<Rightarrow> submission multiset" where
  "prepared r = (case r of Ok b \<Rightarrow> {#b#} | _ \<Rightarrow> {#})"

lemma prepared_simps [simp]: "prepared (Ok b) = {#b#}" "prepared (Err e) = {#}" "prepared Panic = {#}"
  by (simp_all add: prepared_def)

lemma prepared_list: "mset (case r of Ok b \<Rightarrow> b # xs | _ \<Rightarrow> xs) = prepared r + mset xs"
  by (cases r) simp_all

lemma call_runs_prepare:
  assumes P: "submit_prepare gbk lease template plan i reference u s = (r, t)"
  shows "call_runs (p + 1, M + lease_hand lease, R) s (p, M, R + prepared r) t"
proof (rule call_runs_step)
  fix l :: life and K Q
  assume l: "lf_inner l = s" "holds (p + 1, M + lease_hand lease, R) K Q l"
  show "\<exists>m. life_step l m \<and> lf_inner m = t \<and> holds (p, M, R + prepared r) K Q m \<and> same_rest l m"
  proof (cases lease)
    case None
    then show ?thesis
      using life_step.prepare_auto[of l gbk template plan i reference u r t] P l
      by (intro exI[of _ "l\<lparr>lf_inner := t, lf_permits := lf_permits l - 1,
        lf_ready := (case r of Ok b \<Rightarrow> b # lf_ready l | _ \<Rightarrow> lf_ready l)\<rparr>"])
        (simp add: same_rest_def prepared_list lease_hand_def ac_simps)
  next
    case (Some k)
    then obtain xs ys where x: "lf_manual l = xs @ k # ys" "mset (xs @ ys) = K + M"
      using split_mset[of "lf_manual l" K k M] l(2) by (auto simp: lease_hand_def)
    then show ?thesis
      using life_step.prepare_manual[of l xs k ys gbk template plan i reference u r t] P l Some
      by (intro exI[of _ "l\<lparr>lf_inner := t, lf_permits := lf_permits l - 1, lf_manual := xs @ ys,
        lf_ready := (case r of Ok b \<Rightarrow> b # lf_ready l | _ \<Rightarrow> lf_ready l)\<rparr>"])
        (simp add: same_rest_def prepared_list ac_simps)
  qed
qed (rule same_tasks_prepare[OF P])

lemma call_runs_commit:
  assumes C: "submit_commit b s = (r, t)"
  shows "call_runs (p, M, add_mset b R) s (p, M, R) t"
proof (rule call_runs_step)
  fix l :: life and K Q
  assume l: "lf_inner l = s" "holds (p, M, add_mset b R) K Q l"
  then obtain xs ys where x: "lf_ready l = xs @ b # ys" "mset (xs @ ys) = Q + R"
    using split_mset[of "lf_ready l" Q b R] by auto
  then show "\<exists>m. life_step l m \<and> lf_inner m = t \<and> holds (p, M, R) K Q m \<and> same_rest l m"
    using life_step.commit[of l xs b ys r t] C l
    by (intro exI[of _ "l\<lparr>lf_inner := t, lf_ready := xs @ ys,
      lf_admitted := (case r of Ok k \<Rightarrow> k # lf_admitted l | _ \<Rightarrow> lf_admitted l)\<rparr>"]) (simp add: same_rest_def)
qed (rule same_tasks_commit[OF C])

lemma call_runs_drops: "call_runs (p, M + mset ls, R) s (p, M, R) (fold drop_lease ls s)"
proof (induction ls arbitrary: s)
  case (Cons k ls)
  have "call_runs (p, M + mset (k # ls), R) s (p, M + mset ls, R) (drop_lease k s)"
    using call_runs_drop[of p k "M + mset ls" R s] by simp
  then show ?case using Cons.IH call_runs_trans by fastforce
qed simp

lemma quiet_permits [simp]:
  "quiet s (drop_udh u s)" "quiet s (release_manual_batch s)" "quiet s (s\<lparr>in_manual_batch_available := n\<rparr>)"
  by (simp_all add: drop_udh_def release_manual_batch_def quiet_def same_life_def same_tasks_def split: option.split)

section \<open>The turns\<close>

lemma submit_end_runs: "call_runs (p, M + call_leases c, R) s (p, M, R) (submit_end c s)"
proof -
  let ?a = "case sc_leases c of None \<Rightarrow> s | Some ls \<Rightarrow> fold drop_lease ls s"
  have "call_runs (p, M + call_leases c, R) s (p, M, R) ?a"
    by (simp add: call_leases_def call_runs_drops split: option.split)
  moreover have "quiet ?a (drop_udh (sc_udh c) ?a)" "quiet (drop_udh (sc_udh c) ?a) (submit_end c s)"
    by (simp_all add: submit_end_def Let_def)
  then have "quiet ?a (submit_end c s)" by (rule quiet_trans)
  ultimately show ?thesis by (blast intro: call_runs_trans call_runs_quiet)
qed

lemma lease_dropped_runs:
  "call_runs (p, M + lease_hand l, R) s (p, M, R) (case l of None \<Rightarrow> s | Some k \<Rightarrow> drop_lease k s)"
  by (cases l) (simp_all add: lease_hand_def call_runs_drop)

text \<open>From the hands of one task to those of the next.\<close>

definition turn_runs :: "submit_task \<Rightarrow> inner \<Rightarrow> submit_task \<Rightarrow> inner \<Rightarrow> bool" where
  "turn_runs d s d' t \<longleftrightarrow> call_runs (0, call_manual d, call_ready d) s (0, call_manual d', call_ready d') t"

lemma submit_end_all: "call_runs (0, call_leases c, {#}) s (0, {#}, {#}) (submit_end c s)"
  using submit_end_runs[of 0 "{#}" c "{#}" s] by simp

lemma submit_fail_runs:
  "submit_fail e c s = (d, t) \<Longrightarrow> call_runs (0, call_leases c, {#}) s (0, call_manual d, call_ready d) t"
  using submit_end_all by (auto simp: submit_fail_def)

lemma submit_segment_runs:
  assumes "submit_segment c s = (d, t)"
  shows "call_runs (0, call_leases c, {#}) s (0, call_manual d, call_ready d) t"
proof (cases "plan_segment_count (sc_plan c) \<le> sc_index c")
  case True
  then show ?thesis using assms submit_end_all by (auto simp: submit_segment_def)
next
  case False
  show ?thesis
  proof (cases "sc_leases c")
    case None
    then show ?thesis using assms False by (auto simp: submit_segment_def call_leases_def lease_hand_def)
  next
    case (Some ls)
    then show ?thesis
      using assms False submit_fail_runs[of Error_ChannelClosed c s d t]
      by (cases ls) (auto simp: submit_segment_def call_leases_def lease_hand_def)
  qed
qed

lemma submit_leases_runs:
  assumes "submit_leases base n u s = (Ok ls, t)"
  shows "call_runs (0, {#}, {#}) s (0, case ls of None \<Rightarrow> {#} | Some l \<Rightarrow> mset l, {#}) t"
proof (cases base)
  case None
  then show ?thesis using assms by (auto simp: submit_leases_def)
next
  case (Some b)
  then obtain l where "ls = Some l" using assms by (auto simp: submit_leases_def split: option.splits prod.splits)
  then show ?thesis using call_runs_leases[of b n u s l t 0 "{#}" "{#}"] assms Some by simp
qed

lemma submit_reserve_runs:
  assumes "submit_reserve pool c s = (d, t)" "sc_leases c = None"
  shows "call_runs (0, {#}, {#}) s (0, call_manual d, call_ready d) t"
proof -
  have e: "call_runs (0, {#}, {#}) s (0, {#}, {#}) (submit_end c s)" for s
    using submit_end_all[of c s] assms(2) by (simp add: call_leases_def)
  obtain x where x: "submit_udh (up_hash pool) (up_now pool) (up_cooldown pool) (sc_options c) (sc_plan c) (up_buckets pool) = x"
    by blast
  show ?thesis
  proof (cases x)
    case (Ok z)
    obtain u buckets where z: "z = (u, buckets)" by force
    obtain y v where y: "submit_leases (sc_base c) (plan_segment_count (sc_plan c)) u s = (y, v)" by force
    show ?thesis
    proof (cases y)
      case Y: (Ok ls)
      let ?c = "c\<lparr>sc_udh := u, sc_leases := ls\<rparr>"
      have "call_runs (0, {#}, {#}) s (0, call_leases ?c, {#}) v"
        using submit_leases_runs y Y by (simp add: call_leases_def)
      moreover have "submit_segment ?c v = (d, t)" using assms(1) x Ok z y Y by (simp add: submit_reserve_def)
      ultimately show ?thesis using submit_segment_runs call_runs_trans by blast
    next
      case (Err er)
      have "quiet s v"
        using y Err by (auto simp: submit_leases_def reserve_batch_def split: option.splits prod.splits if_splits)
      then show ?thesis using assms(1) x Ok z y Err call_runs_trans[OF call_runs_quiet e] by (auto simp: submit_reserve_def)
    next
      case Panic
      then show ?thesis using y by (auto simp: submit_leases_def split: option.splits prod.splits)
    qed
  qed (use assms(1) x e in \<open>auto simp: submit_reserve_def\<close>)
qed


lemma submit_window_runs:
  assumes "submit_window gbk lease c s = (d, t)"
  shows "turn_runs (Submitting c (Await_Window lease)) s d t"
proof (cases rule: acquire_window_cases[of s])
  case 1
  then show ?thesis using assms by (auto simp: submit_window_def turn_runs_def)
next
  case (2 v)
  obtain x u where x: "submit_prepare gbk lease (build_submit_template (sc_options c)) (sc_plan c) (sc_index c)
      (map_option ul_reference (sc_udh c)) (sc_udh c) v = (x, u)" by force
  have "call_runs (0, call_leases c + lease_hand lease, {#}) s (1, call_leases c + lease_hand lease, {#}) v"
    using call_runs_acquire[OF 2, of 0] by simp
  moreover have "call_runs (1, call_leases c + lease_hand lease, {#}) v (0, call_leases c, prepared x) u"
    using call_runs_prepare[OF x, of 0 "call_leases c" "{#}"] by simp
  ultimately have P: "call_runs (0, call_leases c + lease_hand lease, {#}) s (0, call_leases c, prepared x) u"
    by (rule call_runs_trans)
  show ?thesis
  proof (cases x)
    case (Err e)
    then have "submit_fail e c u = (d, t)" using assms 2 x by (simp add: submit_window_def)
    then show ?thesis using P Err submit_fail_runs call_runs_trans by (fastforce simp: turn_runs_def)
  next
    case Panic
    then show ?thesis using assms 2 x P call_runs_trans[OF _ submit_end_all] by (auto simp: submit_window_def turn_runs_def)
  qed (use assms 2 x P in \<open>auto simp: submit_window_def turn_runs_def\<close>)
next
  case (3 v)
  let ?a = "case lease of None \<Rightarrow> v | Some l \<Rightarrow> drop_lease l v"
  have "v = s" using 3 by (auto simp: acquire_window_def split: if_splits)
  then have "call_runs (0, call_leases c + lease_hand lease, {#}) s (0, call_leases c, {#}) ?a"
    using lease_dropped_runs[of 0 "call_leases c" lease "{#}" v] by (simp only:)
  moreover have "quiet ?a (drop_udh (sc_udh c) ?a)" by simp
  ultimately have "call_runs (0, call_leases c + lease_hand lease, {#}) s (0, call_leases c, {#}) (drop_udh (sc_udh c) ?a)"
    by (blast intro: call_runs_trans call_runs_quiet)
  then show ?thesis using assms 3 submit_fail_runs[of Error_Closed c "drop_udh (sc_udh c) ?a" d t] call_runs_trans
    by (fastforce simp: submit_window_def turn_runs_def)
qed

lemma submit_slot_runs:
  assumes "submit_slot b c s = (d, t)"
  shows "turn_runs (Submitting c (Await_Slot b)) s d t"
proof (cases rule: await_submit_slot_cases[of s])
  case 1
  then show ?thesis using assms by (auto simp: submit_slot_def turn_runs_def)
next
  case 2
  obtain r u where r: "submit_commit b s = (r, u)" by force
  have C: "call_runs (0, call_leases c, {#b#}) s (0, call_leases c, {#}) u" by (rule call_runs_commit[OF r])
  show ?thesis
  proof (cases r)
    case (Ok k)
    let ?c = "c\<lparr>sc_udh := map_option mark_exposed (sc_udh c), sc_ids := sc_ids c @ [k], sc_index := sc_index c + 1\<rparr>"
    have "submit_segment ?c u = (d, t)" using assms 2 r Ok by (simp add: submit_slot_def)
    from submit_segment_runs[OF this] have "call_runs (0, call_leases c, {#}) u (0, call_manual d, call_ready d) t"
      by (simp add: call_leases_def)
    then show ?thesis using C call_runs_trans by (fastforce simp: turn_runs_def)
  next
    case (Err e)
    then have "submit_fail e c u = (d, t)" using assms 2 r by (simp add: submit_slot_def)
    then show ?thesis using C submit_fail_runs call_runs_trans by (fastforce simp: turn_runs_def)
  next
    case Panic
    then show ?thesis using submit_commit_outcome(2)[OF r] by simp
  qed
next
  case 3
  then have "submit_fail Error_Closed c (abandon (sb_lease b) (sb_udh b) s) = (d, t)" using assms by (simp add: submit_slot_def)
  from submit_fail_runs[OF this] show ?thesis
    using call_runs_trans[OF call_runs_abandon] by (simp add: turn_runs_def)
next
  case 4
  then have "submit_fail Error_ChannelClosed c (abandon (sb_lease b) (sb_udh b) s) = (d, t)" using assms by (simp add: submit_slot_def)
  from submit_fail_runs[OF this] show ?thesis
    using call_runs_trans[OF call_runs_abandon] by (simp add: turn_runs_def)
qed

text \<open>The leases of a batch are there only once its permit is.\<close>

definition call_waits :: "submit_task \<Rightarrow> bool" where
  "call_waits d \<longleftrightarrow> (\<forall>c. d = Submitting c Await_Batch \<longrightarrow> sc_leases c = None)"

lemma submit_segment_waits: "call_waits (fst (submit_segment c s))"
  by (auto simp: submit_segment_def submit_fail_def call_waits_def split: option.split list.split)

lemma submit_reserve_waits: "call_waits (fst (submit_reserve pool c s))"
  using submit_segment_waits
  by (auto simp: submit_reserve_def call_waits_def split: res.split prod.split)

lemma submit_turn_waits: "submit_turn gbk pool d s = (d', t) \<Longrightarrow> call_waits d \<Longrightarrow> call_waits d'"
  using submit_segment_waits submit_reserve_waits
  by (auto simp: submit_turn_def submit_window_def submit_slot_def submit_fail_def call_waits_def
      split: submit_task.splits submit_wait.splits option.splits res.splits prod.splits) (metis fst_conv)+

lemma submit_turn_runs:
  assumes "submit_turn gbk pool d s = (d', t)" "call_waits d"
  shows "turn_runs d s d' t"
proof (cases d)
  case (Submitting c w)
  show ?thesis
  proof (cases w)
    case Await_Batch
    have n: "sc_leases c = None" using assms(2) Submitting Await_Batch by (simp add: call_waits_def)
    show ?thesis
    proof (cases rule: acquire_manual_batch_cases[of s])
      case (2 v)
      have "quiet s v" using 2 by (auto simp: acquire_manual_batch_def split: if_splits)
      moreover have "call_runs (0, {#}, {#}) v (0, call_manual d', call_ready d') t"
        using assms(1) Submitting Await_Batch 2 n by (intro submit_reserve_runs[of pool "c\<lparr>sc_permit := True\<rparr>"]) (simp_all add: submit_turn_def)
      ultimately show ?thesis
        using Submitting Await_Batch n by (auto simp: turn_runs_def call_leases_def intro: call_runs_trans call_runs_quiet)
    next
      case (3 v)
      then have "v = s" by (auto simp: acquire_manual_batch_def split: if_splits)
      then show ?thesis using assms(1) Submitting Await_Batch 3 n by (auto simp: submit_turn_def turn_runs_def call_leases_def)
    qed (use assms(1) Submitting Await_Batch in \<open>auto simp: submit_turn_def turn_runs_def\<close>)
  qed (use assms(1) Submitting submit_window_runs submit_slot_runs in \<open>auto simp: submit_turn_def\<close>)
qed (use assms(1) in \<open>auto simp: submit_turn_def turn_runs_def\<close>)

lemma submit_begin_runs:
  assumes "submit_begin pool options content base counter s = (d, t)"
  shows "call_runs (0, {#}, {#}) s (0, call_manual d, call_ready d) t \<and> call_waits d"
proof -
  let ?c = "\<lambda>plan. submit_call_new options plan base"
  have n: "sc_leases (?c plan) = None" for plan by (simp add: submit_call_new_def)
  show ?thesis
  proof (cases "fst (submit_check options content counter s)")
    case (Ok plan)
    show ?thesis
    proof (cases base)
      case None
      then have r: "submit_reserve pool (?c plan) s = (d, t)" using assms Ok by (simp add: submit_begin_def Let_def)
      show ?thesis using submit_reserve_runs[OF r n] submit_reserve_waits[of pool "?c plan" s] r by simp
    next
      case (Some b)
      then have "d = Submitting (?c plan) Await_Batch" "t = s" using assms Ok by (simp_all add: submit_begin_def Let_def)
      then show ?thesis using n[of plan] by (simp add: call_waits_def call_leases_def)
    qed
  qed (use assms in \<open>auto simp: submit_begin_def call_waits_def\<close>)
qed

lemma submit_cancel_runs: "call_waits d \<Longrightarrow> call_runs (0, call_manual d, call_ready d) s (0, {#}, {#}) (submit_cancel d s)"
proof (cases d)
  case (Submitting c w)
  assume "call_waits d"
  show ?thesis
  proof (cases w)
    case Await_Batch
    then show ?thesis using Submitting \<open>call_waits d\<close> by (simp add: submit_cancel_def call_waits_def call_leases_def)
  next
    case (Await_Window lease)
    let ?a = "case lease of None \<Rightarrow> s | Some l \<Rightarrow> drop_lease l s"
    have "call_runs (0, call_leases c + lease_hand lease, {#}) s (0, call_leases c, {#}) ?a" by (rule lease_dropped_runs)
    moreover have "quiet ?a (drop_udh (sc_udh c) ?a)" by simp
    ultimately have "call_runs (0, call_leases c + lease_hand lease, {#}) s (0, call_leases c, {#}) (drop_udh (sc_udh c) ?a)"
      by (blast intro: call_runs_trans call_runs_quiet)
    from call_runs_trans[OF this submit_end_all] show ?thesis using Submitting Await_Window by (simp add: submit_cancel_def)
  next
    case (Await_Slot b)
    have "call_runs (0, call_leases c, {#b#}) s (0, call_leases c, {#}) (abandon (sb_lease b) (sb_udh b) s)"
      by (rule call_runs_abandon)
    from call_runs_trans[OF this submit_end_all] show ?thesis using Submitting Await_Slot by (simp add: submit_cancel_def)
  qed
qed (simp add: submit_cancel_def)

end
