(* ===== verification/Cmpp_Tasks.thy ===== *)
theory Cmpp_Tasks
  imports Cmpp_Close Cmpp_Calls Cmpp_System
begin

text \<open>
  The whole connection as a transition system: the callers of \<open>submit\<close> and \<open>close\<close>, the writer, the
  reader, the heartbeat and timeout tasks, the clean-up and the tasks of the close, each by its own
  functions, interleaved where they wait.
\<close>

section \<open>The state\<close>

text \<open>
  Where the writer is: it waits for the first message with its control burst, assembles a batch, has
  assembled one, writes what it claimed of it, or has ended.
\<close>

datatype writer =
    Writer_Waiting nat
  | Writer_Assembling assembly
  | Writer_Assembled assembly
  | Writer_Writing assembly "outbound list"
  | Writer_Gone

fun writer_next :: "assembled \<Rightarrow> assembly \<Rightarrow> writer" where
  "writer_next Batch_Open a = Writer_Assembling a"
| "writer_next Batch_Full a = Writer_Assembled a"
| "writer_next Writer_Exit a = Writer_Gone"

text \<open>
  What the tasks hold between two steps: the calls of \<open>submit\<close> under way, the writer's batch, the reader's
  buffers and wait, the heartbeat in preparation, the waits of the close tasks, the dispatcher with what it
  holds, and the public event channel.
\<close>

record world =
  wd_conn :: connection
  wd_calls :: "submit_task list"
  wd_writer :: writer
  wd_reader :: reader
  wd_buf :: bytes
  wd_next :: reader_next
  wd_heartbeat :: "(sequence_lease \<times> heartbeat_attempt_key) option"
  wd_close :: "close_task list"
  wd_dispatcher :: dispatcher
  wd_discard :: bool
  wd_channel :: event_channel

abbreviation wd_inner :: "world \<Rightarrow> inner" where
  "wd_inner w \<equiv> cx_inner (wd_conn w)"

definition with_inner :: "inner \<Rightarrow> world \<Rightarrow> world" where
  "with_inner s w = w\<lparr>wd_conn := (wd_conn w)\<lparr>cx_inner := s\<rparr>\<rparr>"

text \<open>The workers start when \<open>connect\<close> returns, the reader on what the handshake has read ahead.\<close>

definition world_new :: "connection \<Rightarrow> world" where
  "world_new c =
     \<lparr>wd_conn = c, wd_calls = [], wd_writer = Writer_Waiting 0,
      wd_reader = reader_new, wd_buf = cx_read_buf c, wd_next = Go_On, wd_heartbeat = None, wd_close = [],
      wd_dispatcher = D_Idle, wd_discard = False,
      wd_channel = \<lparr>ec_events = [], ec_closed = False, ec_capacity = INCOMING_CHANNEL_CAPACITY\<rparr>\<rparr>"

section \<open>The steps\<close>

text \<open>
  The callers: a call of \<open>submit\<close> begins, takes a turn, or ends, when it has returned or its caller gives
  it up at a wait.
\<close>

inductive caller_step :: "world \<Rightarrow> world \<Rightarrow> bool" where
  start:
    "submit_begin pool options content base counter (wd_inner w) = (d, t) \<Longrightarrow>
     caller_step w ((with_inner t w)\<lparr>wd_calls := d # wd_calls w\<rparr>)"
| turn:
    "wd_calls w = xs @ d # ys \<Longrightarrow> submit_turn gbk pool d (wd_inner w) = (d', t) \<Longrightarrow>
     caller_step w ((with_inner t w)\<lparr>wd_calls := xs @ d' # ys\<rparr>)"
| ended:
    "wd_calls w = xs @ d # ys \<Longrightarrow>
     caller_step w ((with_inner (submit_cancel d (wd_inner w)) w)\<lparr>wd_calls := xs @ ys\<rparr>)"

text \<open>
  The writer: one message per step, then the claim and what follows the write. The reaping aborts it
  where it waits; what it holds then is dropped.
\<close>

fun writer_waits :: "writer \<Rightarrow> outbound list option" where
  "writer_waits (Writer_Waiting _) = Some []"
| "writer_waits (Writer_Writing _ batch) = Some batch"
| "writer_waits _ = None"

inductive writer_step :: "world \<Rightarrow> world \<Rightarrow> bool" where
  first:
    "wd_writer w = Writer_Waiting burst \<Longrightarrow> writer_wait burst (wd_inner w) = Some (Some (picked, s)) \<Longrightarrow>
     assemble now picked [] burst s = (r, a, t) \<Longrightarrow>
     writer_step w ((with_inner t w)\<lparr>wd_writer := writer_next r a\<rparr>)"
| closed:
    "wd_writer w = Writer_Waiting burst \<Longrightarrow> writer_wait burst (wd_inner w) = Some None \<Longrightarrow>
     writer_step w ((with_inner (writer_exit [] (wd_inner w)) w)\<lparr>wd_writer := Writer_Gone\<rparr>)"
| more:
    "wd_writer w = Writer_Assembling a \<Longrightarrow> assemble_rest [(now, \<lambda>s. s)] a (wd_inner w) = (r, a', t) \<Longrightarrow>
     writer_step w ((with_inner t w)\<lparr>wd_writer := writer_next r a'\<rparr>)"
| claim:
    "wd_writer w = Writer_Assembled a \<Longrightarrow> write_batch a (wd_inner w) = ((batch, octets), t) \<Longrightarrow>
     writer_step w ((with_inner t w)\<lparr>wd_writer := Writer_Writing a batch\<rparr>)"
| written:
    "wd_writer w = Writer_Writing a batch \<Longrightarrow>
     outcome = Write_Closed \<longrightarrow> in_phase (wd_inner w) = Phase_Closed \<Longrightarrow>
     after_write a batch outcome (wd_inner w) = (continue, t) \<Longrightarrow>
     writer_step w
       ((with_inner t w)\<lparr>wd_writer := (if continue then Writer_Waiting (as_burst a) else Writer_Gone)\<rparr>)"
| aborted:
    "in_phase (wd_inner w) = Phase_Closed \<Longrightarrow> writer_waits (wd_writer w) = Some obs \<Longrightarrow>
     writer_step w ((with_inner (writer_exit obs (wd_inner w)) w)\<lparr>wd_writer := Writer_Gone\<rparr>)"

text \<open>The reader: a buffered frame, a read, or one look at what it waits for.\<close>

inductive reader_step :: "world \<Rightarrow> world \<Rightarrow> bool" where
  buffered:
    "wd_next w = Go_On \<Longrightarrow>
     read_buffered now elapsed (wd_buf w) (wd_reader w) (wd_inner w) = Some (nx, buf, r, t) \<Longrightarrow>
     reader_step w ((with_inner t w)\<lparr>wd_next := nx, wd_buf := buf, wd_reader := r\<rparr>)"
| read:
    "wd_next w = Go_On \<Longrightarrow> read_buffered now elapsed (wd_buf w) (wd_reader w) (wd_inner w) = None \<Longrightarrow>
     outcome = Read_Closed \<longrightarrow> in_phase (wd_inner w) = Phase_Closed \<Longrightarrow>
     read_socket eof outcome (wd_buf w) (wd_reader w) (wd_inner w) = (nx, buf, r, t) \<Longrightarrow>
     reader_step w ((with_inner t w)\<lparr>wd_next := nx, wd_buf := buf, wd_reader := r\<rparr>)"
| deliver_resp:
    "wd_next w = Await_Deliver_Resp ob \<Longrightarrow> await_deliver_resp ob timed_out (wd_inner w) = Some (nx, t) \<Longrightarrow>
     reader_step w ((with_inner t w)\<lparr>wd_next := nx\<rparr>)"
| active_test_resp:
    "wd_next w = Await_Active_Test_Resp ob \<Longrightarrow> await_active_test_resp ob (wd_inner w) = Some (nx, t) \<Longrightarrow>
     reader_step w ((with_inner t w)\<lparr>wd_next := nx\<rparr>)"
| terminate_resp:
    "wd_next w = Await_Terminate_Resp ob n \<Longrightarrow> await_terminate_resp ob n timed_out (wd_inner w) = Some (nx, t) \<Longrightarrow>
     reader_step w ((with_inner t w)\<lparr>wd_next := nx\<rparr>)"
| terminate_written:
    "wd_next w = Await_Terminate_Written n \<Longrightarrow>
     await_terminate_written n lost timed_out (wd_inner w) = Some (nx, t) \<Longrightarrow>
     reader_step w ((with_inner t w)\<lparr>wd_next := nx\<rparr>)"
| break:
    "wd_next w = Reader_Break e \<Longrightarrow>
     reader_step w ((with_inner (reader_end (Reader_Break e) (wd_inner w)) w)\<lparr>wd_next := Reader_Return\<rparr>)"
| aborted:
    "in_phase (wd_inner w) = Phase_Closed \<Longrightarrow>
     reader_step w
       ((with_inner (case wd_next w of Await_Deliver_Resp ob \<Rightarrow> drop_outbound ob (wd_inner w) | _ \<Rightarrow> wd_inner w) w)
          \<lparr>wd_next := Reader_Return\<rparr>)"

text \<open>The heartbeat task and a turn of the timeout task.\<close>

inductive timer_step :: "world \<Rightarrow> world \<Rightarrow> bool" where
  prepare:
    "wd_heartbeat w = None \<Longrightarrow> heartbeat_prepare (wd_inner w) = (r, continue, t) \<Longrightarrow>
     timer_step w ((with_inner t w)\<lparr>wd_heartbeat := r\<rparr>)"
| commit:
    "wd_heartbeat w = Some (l, key) \<Longrightarrow> await_control_slot (wd_inner w) = Some True \<Longrightarrow>
     heartbeat_commit l key (wd_inner w) = (continue, t) \<Longrightarrow>
     timer_step w ((with_inner t w)\<lparr>wd_heartbeat := None\<rparr>)"
| ended:
    "wd_heartbeat w = Some (l, key) \<Longrightarrow> await_control_slot (wd_inner w) = Some False \<Longrightarrow>
     timer_step w ((with_inner (heartbeat_end l (wd_inner w)) w)\<lparr>wd_heartbeat := None\<rparr>)"
| scan:
    "timeout_scan now heartbeat_order submit_order (wd_inner w) = (continue, t) \<Longrightarrow>
     timer_step w (with_inner t w)"

text \<open>The close: its calls and tasks, and the handles and guards.\<close>

inductive close_step :: "world \<Rightarrow> world \<Rightarrow> bool" where
  call:
    "close_call (wd_conn w) = (Some d, c) \<or> takeover_call (wd_conn w) = (Some d, c) \<Longrightarrow>
     close_step w (w\<lparr>wd_conn := c, wd_close := d # wd_close w\<rparr>)"
| turn:
    "wd_close w = xs @ d # ys \<Longrightarrow> close_turn timed_out ready d (wd_conn w) = (d', c) \<Longrightarrow>
     close_step w (w\<lparr>wd_conn := c, wd_close := xs @ d' # ys\<rparr>)"
| handle_cloned: "close_step w (w\<lparr>wd_conn := handle_clone (wd_conn w)\<rparr>)"
| handle_dropped: "close_step w (w\<lparr>wd_conn := handle_drop (wd_conn w)\<rparr>)"
| worker_ended: "close_step w (w\<lparr>wd_conn := worker_drop (wd_conn w)\<rparr>)"
| takeover_ended: "close_step w (w\<lparr>wd_conn := takeover_drop (wd_conn w)\<rparr>)"
| events_taken: "take_events (wd_conn w) = (b, c) \<Longrightarrow> close_step w (w\<lparr>wd_conn := c\<rparr>)"

text \<open>
  The events: the tasks that the event pipeline and \<open>finish\<close> have spawned, the fallback of a close that may
  have run out of time, the dispatcher, and the consumer. A task that runs is taken out of the list first.
\<close>

definition without_spawned :: "detached list \<Rightarrow> detached list \<Rightarrow> inner \<Rightarrow> inner" where
  "without_spawned xs ys s = s\<lparr>in_tasks := xs @ ys\<rparr>"

inductive event_step :: "world \<Rightarrow> world \<Rightarrow> bool" where
  overload_begin:
    "in_tasks (wd_inner w) = xs @ Overload_Close # ys \<Longrightarrow> s = without_spawned xs ys (wd_inner w) \<Longrightarrow>
     event_step w (with_inner (with_task Overload_Drain (begin_event_drain s)) w)"
| overload_drain:
    "in_tasks (wd_inner w) = xs @ Overload_Drain # ys \<Longrightarrow> s = without_spawned xs ys (wd_inner w) \<Longrightarrow>
     drain_event_tickets timed_out s = (ended, t) \<Longrightarrow>
     event_step w
       (with_inner (if ended then finish (Some Error_ChannelClosed) t else with_task Overload_Drain t) w)"
| cleanup_start:
    "in_tasks (wd_inner w) = xs @ Cleanup fallback # ys \<Longrightarrow> s = without_spawned xs ys (wd_inner w) \<Longrightarrow>
     in_phase s = Phase_Closed \<Longrightarrow> enumerates order (in_pending_submits s) \<Longrightarrow>
     fail_all_pending fallback order s = (task, t) \<Longrightarrow>
     event_step w (with_inner (with_task task t) w)"
| cleanup_publish:
    "in_tasks (wd_inner w) = xs @ Cleanup_Publish fallback c rest # ys \<Longrightarrow> s = without_spawned xs ys (wd_inner w) \<Longrightarrow>
     publish_chunk give_up fallback c rest s = (task, t) \<Longrightarrow>
     event_step w (with_inner (with_task task t) w)"
| cleanup_end:
    "in_tasks (wd_inner w) = xs @ Cleanup_Finish # ys \<Longrightarrow> s = without_spawned xs ys (wd_inner w) \<Longrightarrow>
     enumerates order (in_heartbeat_pending s) \<Longrightarrow>
     event_step w (with_inner (cleanup_finish order s) w)"
| fallback_cancelled:
    "in_tasks (wd_inner w) = xs @ Cleanup_Publish True c rest # ys \<Longrightarrow> s = without_spawned xs ys (wd_inner w) \<Longrightarrow>
     Close_Done \<in> set (wd_close w) \<Longrightarrow>
     event_step w (with_inner (depth_permit_drop (length c) s) w)"
| retry:
    "in_tasks (wd_inner w) = xs @ Terminal_Retry item # ys \<Longrightarrow> s = without_spawned xs ys (wd_inner w) \<Longrightarrow>
     terminal_retry item s = (task, t) \<Longrightarrow>
     event_step w (with_inner (case task of None \<Rightarrow> t | Some k \<Rightarrow> with_task k t) w)"
| dispatch:
    "event_dispatcher timed_out (wd_dispatcher w) (wd_discard w) (wd_channel w) (wd_inner w) =
       Some (f, d, discard_events, c, t) \<Longrightarrow>
     event_step w ((with_inner t w)\<lparr>wd_dispatcher := d, wd_discard := discard_events, wd_channel := c\<rparr>)"
| consume:
    "ec_events (wd_channel w) = e # es \<Longrightarrow>
     event_step w (w\<lparr>wd_channel := (wd_channel w)\<lparr>ec_events := es\<rparr>\<rparr>)"
| receiver_dropped:
    "event_step w (w\<lparr>wd_channel := (wd_channel w)\<lparr>ec_events := [], ec_closed := True\<rparr>\<rparr>)"

text \<open>The whole connection: any of its tasks takes a step.\<close>

inductive world_step :: "world \<Rightarrow> world \<Rightarrow> bool" where
  caller: "caller_step w v \<Longrightarrow> world_step w v"
| writer: "writer_step w v \<Longrightarrow> world_step w v"
| reader: "reader_step w v \<Longrightarrow> world_step w v"
| timer: "timer_step w v \<Longrightarrow> world_step w v"
| close: "close_step w v \<Longrightarrow> world_step w v"
| events: "event_step w v \<Longrightarrow> world_step w v"

inductive world_reachable :: "cmpp_protocol_params \<Rightarrow> bytes \<Rightarrow> world \<Rightarrow> bool" for params read_buf where
  start: "world_reachable params read_buf (world_new (connection_new params read_buf))"
| step: "world_reachable params read_buf w \<Longrightarrow> world_step w v \<Longrightarrow> world_reachable params read_buf v"

end
