(* ===== verification/Cmpp_Evolution.thy ===== *)
theory Cmpp_Evolution
  imports Cmpp_Tasks Cmpp_Contract
begin

text \<open>
  Runs of the life cycle that the callers and the writer do not see: how the shared state evolves with
  the leases of the other tasks.
\<close>

section \<open>Evolution of the shared state\<close>

definition same_hands :: "life \<Rightarrow> life \<Rightarrow> bool" where
  "same_hands l m \<longleftrightarrow>
     lf_permits m = lf_permits l \<and> lf_manual m = lf_manual l \<and> lf_ready m = lf_ready l \<and>
     lf_batch m = lf_batch l \<and> lf_writing m = lf_writing l"

definition evolves ::
  "inner \<Rightarrow> sequence_lease multiset \<Rightarrow> inner \<Rightarrow> sequence_lease multiset \<Rightarrow> bool" where
  "evolves s M t N \<longleftrightarrow>
     (\<forall>l :: life. lf_inner l = s \<longrightarrow> mset (lf_other l) = M \<longrightarrow>
        (\<exists>m. life_step\<^sup>*\<^sup>* l m \<and> lf_inner m = t \<and> mset (lf_other m) = N \<and> same_hands l m))"

lemma same_hands_refl [simp]: "same_hands (l :: life) l"
  by (simp add: same_hands_def)

lemma same_hands_trans: "same_hands l m \<Longrightarrow> same_hands m n \<Longrightarrow> same_hands l n"
  by (simp add: same_hands_def)

lemma evolves_refl [simp]: "evolves s M s M"
  unfolding evolves_def by (blast intro: same_hands_refl)

lemma evolves_trans:
  assumes "evolves s M t N" "evolves t N u K"
  shows "evolves s M u K"
  unfolding evolves_def
proof (intro allI impI)
  fix l :: life
  assume "lf_inner l = s" "mset (lf_other l) = M"
  then obtain m where m: "life_step\<^sup>*\<^sup>* l m" "lf_inner m = t" "mset (lf_other m) = N" "same_hands l m"
    using assms(1) unfolding evolves_def by blast
  then obtain n where "life_step\<^sup>*\<^sup>* m n" "lf_inner n = u" "mset (lf_other n) = K" "same_hands m n"
    using assms(2) unfolding evolves_def by blast
  then show "\<exists>n. life_step\<^sup>*\<^sup>* l n \<and> lf_inner n = u \<and> mset (lf_other n) = K \<and> same_hands l n"
    using m by (blast intro: rtranclp_trans same_hands_trans)
qed

lemma evolves_step:
  assumes "\<And>l :: life. lf_inner l = s \<Longrightarrow> mset (lf_other l) = M \<Longrightarrow>
      \<exists>m. life_step l m \<and> lf_inner m = t \<and> mset (lf_other m) = N \<and> same_hands l m"
  shows "evolves s M t N"
  unfolding evolves_def
proof (intro allI impI)
  fix l :: life
  assume "lf_inner l = s" "mset (lf_other l) = M"
  from assms[OF this] show "\<exists>m. life_step\<^sup>*\<^sup>* l m \<and> lf_inner m = t \<and> mset (lf_other m) = N \<and> same_hands l m"
    by (elim exE conjE) (intro exI conjI, erule r_into_rtranclp)
qed

lemma evolves_env: "same_life s t \<Longrightarrow> evolves s M t M"
proof (rule evolves_step)
  fix l :: life
  assume "same_life s t" "lf_inner l = s" "mset (lf_other l) = M"
  then show "\<exists>m. life_step l m \<and> lf_inner m = t \<and> mset (lf_other m) = M \<and> same_hands l m"
    by (intro exI[of _ "l\<lparr>lf_inner := t\<rparr>"]) (simp add: life_step.environment same_hands_def)
qed

lemma evolves_reserve:
  "reserve_next (in_registry s) = (Some k, r) \<Longrightarrow> evolves s M (s\<lparr>in_registry := r\<rparr>) (add_mset k M)"
proof (rule evolves_step)
  fix l :: life
  assume "reserve_next (in_registry s) = (Some k, r)" "lf_inner l = s" "mset (lf_other l) = M"
  then show "\<exists>m. life_step l m \<and> lf_inner m = s\<lparr>in_registry := r\<rparr> \<and> mset (lf_other m) = add_mset k M \<and> same_hands l m"
    using life_step.other_reserve[of l k r]
    by (intro exI[of _ "l\<lparr>lf_inner := s\<lparr>in_registry := r\<rparr>, lf_other := k # lf_other l\<rparr>"]) (simp add: same_hands_def)
qed

lemma evolves_exhausted:
  "reserve_next (in_registry s) = (None, r) \<Longrightarrow> evolves s M (s\<lparr>in_registry := r\<rparr>) M"
proof (rule evolves_step)
  fix l :: life
  assume "reserve_next (in_registry s) = (None, r)" "lf_inner l = s" "mset (lf_other l) = M"
  then show "\<exists>m. life_step l m \<and> lf_inner m = s\<lparr>in_registry := r\<rparr> \<and> mset (lf_other m) = M \<and> same_hands l m"
    using life_step.other_exhausted[of l r]
    by (intro exI[of _ "l\<lparr>lf_inner := s\<lparr>in_registry := r\<rparr>\<rparr>"]) (simp add: same_hands_def)
qed

lemma evolves_drop: "evolves s (add_mset k M) (drop_lease k s) M"
proof (rule evolves_step)
  fix l :: life
  assume l: "lf_inner l = s" "mset (lf_other l) = add_mset k M"
  then have "k \<in> set (lf_other l)" by (metis set_mset_mset union_single_eq_member)
  then obtain xs ys where o: "lf_other l = xs @ k # ys" by (meson split_list)
  then have "mset (xs @ ys) = M" using l(2) by simp
  then show "\<exists>m. life_step l m \<and> lf_inner m = drop_lease k s \<and> mset (lf_other m) = M \<and> same_hands l m"
    using life_step.other_dropped[OF o] l(1)
    by (intro exI[of _ "l\<lparr>lf_inner := drop_lease k s, lf_other := xs @ ys\<rparr>"]) (simp add: same_hands_def)
qed

lemma evolves_respond: "evolves s M (flush_submit_resps resps s) M"
proof (rule evolves_step)
  fix l :: life
  assume l: "lf_inner l = s" "mset (lf_other l) = M"
  obtain handled t where t: "match_resps resps s = (handled, t)" by force
  then have "flush_submit_resps resps s = fold publish_resp handled t" by (simp add: flush_submit_resps_def)
  then show "\<exists>m. life_step l m \<and> lf_inner m = flush_submit_resps resps s \<and> mset (lf_other m) = M \<and> same_hands l m"
    using life_step.respond[of resps l handled t] l t
    by (intro exI[of _ "l\<lparr>lf_inner := fold publish_resp handled t,
          lf_done := map (\<lambda>r. (Answered, fst r)) handled @ lf_done l\<rparr>"]) (simp add: same_hands_def)
qed

lemma evolves_timeout: "timeout_submit key s = (continue, t) \<Longrightarrow> evolves s M t M"
proof (rule evolves_step)
  fix l :: life
  assume a: "timeout_submit key s = (continue, t)" and l: "lf_inner l = s" "mset (lf_other l) = M"
  show "\<exists>m. life_step l m \<and> lf_inner m = t \<and> mset (lf_other m) = M \<and> same_hands l m"
    using life_step.timeout[OF _ refl, of key l continue t] a l
    by (intro exI conjI) (erule meta_mp, simp_all add: same_hands_def)
qed

lemma evolves_marker:
  "in_phase s \<noteq> Phase_Open \<Longrightarrow>
   evolves s M (s\<lparr>in_submit_queue := in_submit_queue s @ [outbound_submit_drain_marker n]\<rparr>) M"
proof (rule evolves_step)
  fix l :: life
  assume "in_phase s \<noteq> Phase_Open" "lf_inner l = s" "mset (lf_other l) = M"
  then show "\<exists>m. life_step l m \<and>
      lf_inner m = s\<lparr>in_submit_queue := in_submit_queue s @ [outbound_submit_drain_marker n]\<rparr> \<and>
      mset (lf_other m) = M \<and> same_hands l m"
    using life_step.marker[of l n] by (intro exI conjI) (erule meta_mp, simp_all add: same_hands_def)
qed

lemma evolves_drain:
  assumes "enumerates order (in_pending_submits s)" "in_phase s = Phase_Closed" "drain_pending order s = (dropped, t)"
  shows "evolves s M t M"
proof (rule evolves_step)
  fix l :: life
  assume l: "lf_inner l = s" "mset (lf_other l) = M"
  have "life_step l (l\<lparr>lf_inner := t, lf_done := map (\<lambda>k. (Dropped, k)) dropped @ lf_done l\<rparr>)"
    by (rule life_step.drain) (use assms l in \<open>simp_all add: enumerates_def\<close>)
  then show "\<exists>m. life_step l m \<and> lf_inner m = t \<and> mset (lf_other m) = M \<and> same_hands l m"
    using l(2) by (intro exI conjI) (assumption, simp_all add: same_hands_def)
qed

section \<open>The leases of the other tasks\<close>

text \<open>
  Outside the SUBMITs, leases are kept in the pending heartbeat and the pending TERMINATE, and for a moment
  in the hands of a task. \<open>task_runs\<close> says that a change of the state is a run of the life cycle in which
  the hands go from \<open>H\<close> to \<open>G\<close>, whatever else the tasks hold.
\<close>

definition heartbeat_leases :: "(u32 \<rightharpoonup> pending_heartbeat) \<Rightarrow> sequence_lease multiset" where
  "heartbeat_leases m = {#ph_sequence_lease (the (m k)). k \<in># mset_set (dom m)#}"

definition terminate_leases :: "pending_terminate option \<Rightarrow> sequence_lease multiset" where
  "terminate_leases p = (case p of None \<Rightarrow> {#} | Some p \<Rightarrow> {#pt_sequence_lease p#})"

definition task_leases :: "inner \<Rightarrow> sequence_lease multiset" where
  "task_leases s = heartbeat_leases (in_heartbeat_pending s) + terminate_leases (in_pending_terminate s)"

text \<open>Each lease is that of the identifier it is kept under, and the control queue holds no SUBMIT.\<close>

definition task_ids :: "inner \<Rightarrow> bool" where
  "task_ids s \<longleftrightarrow>
     (\<forall>k h. in_heartbeat_pending s k = Some h \<longrightarrow> lease_id (ph_sequence_lease h) = k) \<and>
     (\<forall>p. in_pending_terminate s = Some p \<longrightarrow> lease_id (pt_sequence_lease p) = pt_sequence_id p)"

definition task_ok :: "inner \<Rightarrow> bool" where
  "task_ok s \<longleftrightarrow>
     finite (dom (in_heartbeat_pending s)) \<and> task_ids s \<and> list_all control_message (in_control_queue s)"

definition task_runs ::
  "sequence_lease multiset \<Rightarrow> inner \<Rightarrow> sequence_lease multiset \<Rightarrow> inner \<Rightarrow> bool" where
  "task_runs H s G t \<longleftrightarrow>
     (task_ok s \<longrightarrow>
        task_ok t \<and> (\<forall>K. evolves s (K + H + task_leases s) t (K + G + task_leases t)))"

lemma heartbeat_leases_update:
  assumes "m k = Some h" "ph_sequence_lease h' = ph_sequence_lease h"
  shows "heartbeat_leases (m(k \<mapsto> h')) = heartbeat_leases m"
proof -
  have "insert k (dom m) = dom m" using assms(1) by blast
  then show ?thesis unfolding heartbeat_leases_def using assms by (auto intro!: image_mset_cong)
qed

lemma heartbeat_leases_insert:
  assumes "finite (dom m)" "m k = None"
  shows "heartbeat_leases (m(k \<mapsto> h)) = add_mset (ph_sequence_lease h) (heartbeat_leases m)"
proof -
  have k: "k \<notin> dom m" using assms(2) by blast
  then have "{#ph_sequence_lease (the ((m(k \<mapsto> h)) j)). j \<in># mset_set (dom m)#} = heartbeat_leases m"
    unfolding heartbeat_leases_def using assms(1) by (intro image_mset_cong) auto
  then show ?thesis using k assms(1) by (simp add: heartbeat_leases_def)
qed

lemma heartbeat_leases_remove:
  assumes "finite (dom m)" "m k = Some h"
  shows "heartbeat_leases m = add_mset (ph_sequence_lease h) (heartbeat_leases (m(k := None)))"
  using heartbeat_leases_insert[of "m(k := None)" k h] assms by (simp add: map_upd_triv)

lemma task_runs_refl [simp]: "task_runs H s H s"
  by (simp add: task_runs_def)

lemma task_runs_trans: "task_runs H s G t \<Longrightarrow> task_runs G t F u \<Longrightarrow> task_runs H s F u"
  unfolding task_runs_def by (blast intro: evolves_trans)

lemma task_runs_frame:
  assumes "task_runs H s G t"
  shows "task_runs (F + H) s (F + G) t"
  unfolding task_runs_def
proof (intro impI conjI allI)
  fix K
  assume "task_ok s"
  then have "task_ok t" "evolves s ((K + F) + H + task_leases s) t ((K + F) + G + task_leases t)"
    using assms by (simp_all add: task_runs_def)
  then show "task_ok t" "evolves s (K + (F + H) + task_leases s) t (K + (F + G) + task_leases t)"
    by (simp_all add: ac_simps)
qed

lemma task_runs_keep: "task_runs {#} s {#} t \<Longrightarrow> task_runs H s H t"
  using task_runs_frame[of "{#}" s "{#}" t H] by simp

lemma task_runs_then: "task_runs {#} s {#} t \<Longrightarrow> task_runs {#} t {#} u \<Longrightarrow> task_runs {#} s {#} u"
  by (rule task_runs_trans)

lemma task_leases_same: "same_tasks s t \<Longrightarrow> task_leases t = task_leases s \<and> task_ok t = task_ok s"
  by (simp add: same_tasks_def task_leases_def task_ok_def task_ids_def)

lemma task_runs_same: "same_tasks s t \<Longrightarrow> (\<And>M. evolves s M t M) \<Longrightarrow> task_runs H s H t"
  using task_leases_same[of s t] by (simp add: task_runs_def)

lemma task_runs_quiet: "quiet s t \<Longrightarrow> task_runs H s H t"
  by (rule task_runs_same) (simp_all add: quiet_def evolves_env)

text \<open>A step that leaves the SUBMITs alone and keeps the leases.\<close>

lemma task_runs_life:
  assumes "same_life s t" "task_ok s \<Longrightarrow> task_ok t \<and> task_leases t = task_leases s"
  shows "task_runs H s H t"
  using assms evolves_env by (simp add: task_runs_def)

lemma same_life_tasks [simp]:
  "same_life s (s\<lparr>in_heartbeat_pending := m\<rparr>)" "same_life s (s\<lparr>in_pending_terminate := p\<rparr>)"
  "same_life s (s\<lparr>in_control_queue := q\<rparr>)" "same_life s (s\<lparr>in_heartbeat_id_generator := n\<rparr>)"
  "same_life s (s\<lparr>in_heartbeat_pending := m, in_control_queue := q\<rparr>)"
  by (simp_all add: same_life_def)

lemma task_runs_heartbeat:
  assumes "in_heartbeat_pending s k = Some h" "ph_sequence_lease h' = ph_sequence_lease h"
  shows "task_runs H s H (s\<lparr>in_heartbeat_pending := (in_heartbeat_pending s)(k \<mapsto> h')\<rparr>)"
  by (rule task_runs_life)
    (use assms heartbeat_leases_update[of "in_heartbeat_pending s", OF assms] in
      \<open>auto simp: task_ok_def task_ids_def task_leases_def\<close>)

lemma task_runs_send:
  "control_message ob \<Longrightarrow> task_runs H s H (s\<lparr>in_control_queue := in_control_queue s @ [ob]\<rparr>)"
  by (rule task_runs_life) (simp_all add: task_ok_def task_ids_def task_leases_def)

lemma task_runs_receive:
  "in_control_queue s = ob # obs \<Longrightarrow> task_runs H s H (s\<lparr>in_control_queue := obs\<rparr>)"
  by (rule task_runs_life) (simp_all add: task_ok_def task_ids_def task_leases_def)

lemma task_runs_empty: "task_runs H s H (s\<lparr>in_control_queue := [], in_queues_closed := True\<rparr>)"
  by (rule task_runs_life) (simp_all add: same_life_def task_ok_def task_ids_def task_leases_def)

lemma task_runs_written:
  "task_runs H s H (s\<lparr>in_pending_terminate := map_option (pt_written_update (\<lambda>_. True)) (in_pending_terminate s)\<rparr>)"
  by (rule task_runs_life)
    (auto simp: task_ok_def task_ids_def task_leases_def terminate_leases_def split: option.split)

text \<open>A lease given up: it leaves the state, or the hands, and the registry takes it back.\<close>

lemma task_runs_drop: "task_runs {#k#} s {#} (drop_lease k s)"
proof -
  have "same_tasks s (drop_lease k s)" by simp
  note L = task_leases_same[OF this]
  show ?thesis unfolding task_runs_def using evolves_drop[of s k] L by simp
qed

lemma evolves_release:
  assumes "same_life s t"
  shows "evolves s (add_mset k M) (drop_lease k t) M"
  using evolves_env[OF assms] evolves_drop by (rule evolves_trans)

lemma task_runs_remove_heartbeat: "task_runs H s H (remove_heartbeat k s)"
proof (cases "in_heartbeat_pending s k")
  case (Some h)
  let ?t = "s\<lparr>in_heartbeat_pending := (in_heartbeat_pending s)(k := None)\<rparr>"
  have t: "remove_heartbeat k s = drop_lease (ph_sequence_lease h) ?t"
    by (simp add: remove_heartbeat_def Some drop_lease_def)
  show ?thesis unfolding task_runs_def
  proof (intro impI conjI allI)
    fix K
    assume ok: "task_ok s"
    then show "task_ok (remove_heartbeat k s)" by (simp add: t task_ok_def task_ids_def drop_lease_def)
    have "task_leases s = add_mset (ph_sequence_lease h) (task_leases (remove_heartbeat k s))"
      using heartbeat_leases_remove[of "in_heartbeat_pending s", OF _ Some] ok by (simp add: task_leases_def t drop_lease_def task_ok_def)
    then show "evolves s (K + H + task_leases s) (remove_heartbeat k s) (K + H + task_leases (remove_heartbeat k s))"
      using evolves_release[of s ?t "ph_sequence_lease h"] by (simp add: t)
  qed
qed (simp add: remove_heartbeat_def)

lemma task_runs_take_terminate: "task_runs H s H (take_pending_terminate s)"
proof (cases "in_pending_terminate s")
  case (Some p)
  let ?t = "s\<lparr>in_pending_terminate := None\<rparr>"
  have t: "take_pending_terminate s = drop_lease (pt_sequence_lease p) ?t"
    by (simp add: take_pending_terminate_def Some drop_lease_def)
  have "task_leases s = add_mset (pt_sequence_lease p) (task_leases (take_pending_terminate s))"
    by (simp add: task_leases_def terminate_leases_def Some t drop_lease_def)
  then show ?thesis
    unfolding task_runs_def using evolves_release[of s ?t "pt_sequence_lease p"]
    by (simp add: t) (simp add: task_ok_def task_ids_def drop_lease_def)
qed (simp add: take_pending_terminate_def)

text \<open>A lease taken from the registry, or the registry exhausted.\<close>

lemma task_runs_reserve:
  "reserve_next (in_registry s) = (Some k, r) \<Longrightarrow> task_runs {#} s {#k#} (s\<lparr>in_registry := r\<rparr>)"
  using evolves_reserve[of s k r] task_leases_same[of s "s\<lparr>in_registry := r\<rparr>"] by (simp add: task_runs_def)

lemma task_runs_exhausted:
  "reserve_next (in_registry s) = (None, r) \<Longrightarrow> task_runs H s H (s\<lparr>in_registry := r\<rparr>)"
  by (rule task_runs_same) (simp_all add: evolves_exhausted)

text \<open>The lease in hand becomes that of the pending heartbeat or of the pending TERMINATE.\<close>

lemma task_runs_heartbeat_kept:
  assumes "in_heartbeat_pending s k = None" "lease_id (ph_sequence_lease h) = k"
  shows "task_runs {#ph_sequence_lease h#} s {#} (s\<lparr>in_heartbeat_pending := (in_heartbeat_pending s)(k \<mapsto> h)\<rparr>)"
  using heartbeat_leases_insert[of "in_heartbeat_pending s", OF _ assms(1), of h] assms(2)
  by (auto simp: task_runs_def task_ok_def task_ids_def task_leases_def evolves_env)

lemma task_runs_terminate_kept:
  assumes "in_pending_terminate s = None" "lease_id (pt_sequence_lease p) = pt_sequence_id p"
  shows "task_runs {#pt_sequence_lease p#} s {#} (s\<lparr>in_pending_terminate := Some p\<rparr>)"
  using assms by (auto simp: task_runs_def task_ok_def task_ids_def task_leases_def terminate_leases_def evolves_env)

text \<open>The SUBMITs, as the reader, the timeout task, the clean-up and the close change them.\<close>

lemma task_runs_respond: "task_runs H s H (flush_submit_resps resps s)"
proof (rule task_runs_same)
  obtain handled t where t: "match_resps resps s = (handled, t)" by force
  have "same_tasks t (fold publish_resp handled t)"
    by (rule same_tasks_fold) (rule same_tasks_quiet[OF quiet_publish_resp])
  then show "same_tasks s (flush_submit_resps resps s)"
    using same_tasks_match_all[OF t] t by (simp add: flush_submit_resps_def) (rule same_tasks_trans)
qed (rule evolves_respond)

lemma same_tasks_timeout:
  assumes "timeout_submit key s = (continue, t)"
  shows "same_tasks s t"
  using assms
proof (cases rule: timeout_submit_cases)
  case last
  obtain b u where u: "emit_event (SubmitTimeout (ak_sequence_id key) (ak_attempt key)) s = (b, u)" by force
  have su: "same_tasks s u" using same_tasks_quiet[OF quiet_emit] u by (metis snd_conv)
  have f: "same_tasks v (finish r v)" for r v by (simp add: same_tasks_quiet)
  have "same_tasks u t \<or> s = t"
    using last(2) same_tasks_trans[OF _ f] by (auto simp: give_up_submit_def u Let_def drop_pending_def
      split: option.splits bool.splits prod.splits if_splits) (auto simp: same_tasks_def finish_def transition_to_closed_def Let_def)
  then show ?thesis using su same_tasks_trans by auto
next
  case again
  then show ?thesis by (simp add: requeue_submit_def same_tasks_def Let_def split: option.split)
next
  case lost
  then show ?thesis by (simp add: queues_lost_def same_tasks_quiet)
qed

lemma task_runs_timeouts: "timeout_submits keys s = (continue, t) \<Longrightarrow> task_runs H s H t"
proof (induction keys arbitrary: s)
  case (Cons key keys)
  obtain b u where u: "timeout_submit key s = (b, u)" by force
  have "task_runs H s H u" by (rule task_runs_same[OF same_tasks_timeout[OF u] evolves_timeout[OF u]])
  moreover have "u = t \<or> task_runs H u H t" using Cons.prems Cons.IH u by (cases b) auto
  ultimately show ?case by (auto intro: task_runs_trans)
qed simp

lemma task_runs_marker:
  "in_phase s \<noteq> Phase_Open \<Longrightarrow>
   task_runs H s H (s\<lparr>in_submit_queue := in_submit_queue s @ [outbound_submit_drain_marker n]\<rparr>)"
  by (rule task_runs_same) (simp_all add: evolves_marker)

lemma task_runs_clear:
  assumes "enumerates order (in_pending_submits s)" "in_phase s = Phase_Closed" "fail_all_pending fallback order s = (task, t)"
  shows "task_runs H s H t"
proof -
  obtain dropped u where u: "drain_pending order s = (dropped, u)" by force
  have "same_tasks s u" using same_tasks_fold[of remove_pending s order] same_tasks_remove u by (auto simp: drain_pending_def)
  then have "task_runs H s H u" by (rule task_runs_same) (rule evolves_drain[OF assms(1,2) u])
  moreover have "quiet u t"
    using assms(3) u by (auto simp: fail_all_pending_def next_chunk_def split: list.splits)
  ultimately show ?thesis by (blast intro: task_runs_trans task_runs_quiet)
qed

end
