(* ===== verification/Cmpp_Runs.thy ===== *)
theory Cmpp_Runs
  imports Cmpp_Evolution Cmpp_Heartbeat
begin

text \<open>
  The operations of reader, timers, close and writer are runs of the life cycle, each with the leases it
  takes into its hands or gives away.
\<close>

section \<open>The reader\<close>

text \<open>What the reader waits to send goes into the control queue.\<close>

definition reader_sends :: "reader_next \<Rightarrow> bool" where
  "reader_sends nx \<longleftrightarrow>
     (case nx of
        Await_Deliver_Resp ob \<Rightarrow> control_message ob
      | Await_Active_Test_Resp ob \<Rightarrow> control_message ob
      | Await_Terminate_Resp ob n \<Rightarrow> control_message ob
      | _ \<Rightarrow> True)"

lemma control_messages [simp]:
  "control_message (outbound_plain bs)" "control_message (outbound_event_after_write bs now ticket e)"
  "control_message (outbound_peer_terminate_response bs n)" "control_message (outbound_local_terminate bs n)"
  "control_message (outbound_heartbeat bs key)"
  by (simp_all add: control_message_def outbound_plain_def outbound_event_after_write_def outbound_heartbeat_def
      outbound_peer_terminate_response_def outbound_local_terminate_def outbound_tracked_def outbound_open_only_def)

lemma reader_sends_simps [simp]:
  "reader_sends Go_On" "reader_sends Reader_Return" "reader_sends (Reader_Break e)" "reader_sends (Await_Terminate_Written n)"
  "reader_sends (Await_Deliver_Resp ob) = control_message ob" "reader_sends (Await_Active_Test_Resp ob) = control_message ob"
  "reader_sends (Await_Terminate_Resp ob n) = control_message ob" "reader_sends (after_terminate_resp b s)"
  by (simp_all add: reader_sends_def after_terminate_resp_def)

lemma task_runs_flush: "reader_flush r s = (r', t) \<Longrightarrow> task_runs H s H t"
  using task_runs_respond by (auto simp: reader_flush_def)

lemma task_runs_sent: "control_message ob \<Longrightarrow> send_outbound_until_closed ob s = (sent, t) \<Longrightarrow> task_runs H s H t"
  by (auto simp: send_outbound_until_closed_def task_runs_send task_runs_quiet split: if_splits)

lemma read_deliver_runs: "read_deliver now elapsed k d s = (nx, t) \<Longrightarrow> task_runs H s H t \<and> reader_sends nx"
proof -
  let ?s = "s\<lparr>in_delivers_received := in_delivers_received s + 1\<rparr>"
  obtain r u where u: "reserve_deferred_event ?s = (r, u)" by force
  have "quiet ?s u" using quiet_reserve_deferred[of ?s] u by simp
  then have "quiet s u" by (rule quiet_trans[rotated]) simp
  moreover have "quiet u (drop_outbound ob u)" for ob by simp
  ultimately have "quiet s u" "quiet s (drop_outbound ob u)" for ob by (blast intro: quiet_trans)+
  then show "read_deliver now elapsed k d s = (nx, t) \<Longrightarrow> task_runs H s H t \<and> reader_sends nx"
    by (cases r) (auto simp: read_deliver_def u Let_def task_runs_quiet split: if_splits)
qed

lemma read_terminate_runs: "read_terminate k s = (nx, t) \<Longrightarrow> task_runs H s H t \<and> reader_sends nx"
proof -
  let ?s = "s\<lparr>in_peer_terminate_seen := True\<rparr>"
  let ?u = "begin_event_drain (snd (begin_closing False ?s))"
  have "quiet ?s (snd (begin_closing False ?s))" by (rule quiet_begin_closing)
  then have "quiet ?s ?u" by (rule quiet_trans) simp
  then have "quiet s ?u" by (rule quiet_trans[rotated]) simp
  moreover have "quiet ?u (snd (new_signal ?u))" by simp
  ultimately have "quiet s (snd (new_signal ?u))" by (rule quiet_trans)
  then show "read_terminate k s = (nx, t) \<Longrightarrow> task_runs H s H t \<and> reader_sends nx"
    by (auto simp: read_terminate_def Let_def task_runs_quiet split: prod.splits)
qed

lemma read_terminate_resp_runs: "read_terminate_resp k s = (acked, t) \<Longrightarrow> task_runs H s H t"
  using task_runs_trans[OF task_runs_take_terminate[of H s] task_runs_quiet[OF quiet_counters(5)]]
  by (auto simp: read_terminate_resp_def split: option.splits if_splits)

lemma read_frame_runs:
  assumes "read_frame now elapsed fr r s = (nx, r', t)"
  shows "task_runs H s H t \<and> reader_sends nx"
proof -
  obtain r1 u where u: "reader_flush r s = (r1, u)" by force
  have f: "task_runs H s H u" by (rule task_runs_flush[OF u])
  have q: "task_runs H s H v" if "task_runs H u H v" for v using f that by (rule task_runs_trans)
  note R = assms[unfolded read_frame_def Let_def]
  show ?thesis
  proof (cases "fr_pdu fr")
    case (Pdu_SubmitResp resp)
    then show ?thesis using R by (auto simp: task_runs_flush split: if_splits prod.splits)
  next
    case (Pdu_Deliver d)
    then have "read_deliver now elapsed (fr_sequence_id fr) d u = (nx, t)" using R u by (auto split: prod.splits)
    then show ?thesis using read_deliver_runs q by blast
  next
    case Pdu_ActiveTestResp
    then show ?thesis using R u q[OF task_runs_remove_heartbeat] by auto
  next
    case Pdu_Terminate
    then have "read_terminate (fr_sequence_id fr) u = (nx, t)" using R u by (auto split: prod.splits)
    then show ?thesis using read_terminate_runs q by blast
  next
    case Pdu_TerminateResp
    then obtain acked where "read_terminate_resp (fr_sequence_id fr) u = (acked, t)" "nx = Go_On"
      using R u by (auto split: prod.splits)
    then show ?thesis using q[OF read_terminate_resp_runs] by simp
  qed (use R u f q[OF task_runs_quiet[OF quiet_counters(4)]] in auto)
qed

lemma read_buffered_runs:
  assumes "read_buffered now elapsed buf r s = Some (nx, buf', r', t)"
  shows "task_runs H s H t \<and> reader_sends nx"
proof -
  obtain r1 u where u: "reader_flush r s = (r1, u)" by force
  obtain x rest where x: "codec_decode buf = (x, rest)" by force
  have "(nx, t) = (Reader_Return, u) \<or> (\<exists>e. (nx, t) = (Reader_Break e, u)) \<or> (nx, t) = (Reader_Return, s) \<or>
      (\<exists>fr. read_frame now elapsed fr r s = (nx, r', t))"
    using assms u by (auto simp: read_buffered_def x split: if_splits res.splits option.splits prod.splits)
  then show ?thesis using task_runs_flush[OF u] read_frame_runs by auto
qed

lemma read_socket_runs:
  assumes "read_socket eof outcome buf r s = (nx, buf', r', t)"
  shows "task_runs H s H t \<and> reader_sends nx"
proof -
  obtain r1 u where u: "reader_flush r s = (r1, u)" by force
  then have "t = u \<and> reader_sends nx"
    using assms by (auto simp: read_socket_def split: read_outcome.splits option.splits if_splits)
  then show ?thesis using task_runs_flush[OF u] by simp
qed

lemma await_runs:
  "control_message ob \<Longrightarrow> await_deliver_resp ob timed_out s = Some (nx, t) \<Longrightarrow> task_runs H s H t \<and> reader_sends nx"
  "control_message ob \<Longrightarrow> await_active_test_resp ob s = Some (nx, t) \<Longrightarrow> task_runs H s H t \<and> reader_sends nx"
  "control_message ob \<Longrightarrow> await_terminate_resp ob n timed_out s = Some (nx, t) \<Longrightarrow> task_runs H s H t \<and> reader_sends nx"
  "await_terminate_written n lost timed_out s = Some (nx, t) \<Longrightarrow> task_runs H s H t \<and> reader_sends nx"
proof -
  obtain x u where u: "send_outbound_until_closed ob s = (x, u)" by force
  have d: "task_runs H s H (drop_outbound ob u)" if "task_runs H s H u"
    using that task_runs_quiet[OF quiet_tickets(5)] by (rule task_runs_trans)
  show "control_message ob \<Longrightarrow> await_deliver_resp ob timed_out s = Some (nx, t) \<Longrightarrow> task_runs H s H t \<and> reader_sends nx"
    "control_message ob \<Longrightarrow> await_active_test_resp ob s = Some (nx, t) \<Longrightarrow> task_runs H s H t \<and> reader_sends nx"
    "control_message ob \<Longrightarrow> await_terminate_resp ob n timed_out s = Some (nx, t) \<Longrightarrow> task_runs H s H t \<and> reader_sends nx"
    using task_runs_sent[OF _ u, of H] d
    by (cases x; auto simp: await_deliver_resp_def await_active_test_resp_def await_terminate_resp_def u split: if_splits)+
  show "await_terminate_written n lost timed_out s = Some (nx, t) \<Longrightarrow> task_runs H s H t \<and> reader_sends nx"
    by (auto simp: await_terminate_written_def split: if_splits)
qed

lemma reader_end_runs: "task_runs H s H (reader_end nx s)"
  by (simp add: reader_end_def task_runs_quiet split: reader_next.split)

section \<open>The timers\<close>

text \<open>What the heartbeat task has in its hands between preparation and commit.\<close>

definition hand :: "(sequence_lease \<times> heartbeat_attempt_key) option \<Rightarrow> sequence_lease multiset" where
  "hand r = (case r of None \<Rightarrow> {#} | Some (l, key) \<Rightarrow> {#l#})"

lemma hand_simps [simp]: "hand None = {#}" "hand (Some (l, key)) = {#l#}"
  by (simp_all add: hand_def)

definition hand_ok :: "(sequence_lease \<times> heartbeat_attempt_key) option \<Rightarrow> bool" where
  "hand_ok r \<longleftrightarrow> (\<forall>l key. r = Some (l, key) \<longrightarrow> hk_sequence_id key = lease_id l)"

lemma heartbeat_prepare_hand: "heartbeat_prepare s = (r, continue, t) \<Longrightarrow> hand_ok r"
  by (auto simp: heartbeat_prepare_def hand_ok_def split: if_splits option.splits prod.splits)

lemma heartbeat_prepare_runs:
  assumes "heartbeat_prepare s = (r, continue, t)"
  shows "task_runs {#} s (hand r) t"
proof (cases "in_phase s \<noteq> Phase_Open \<or> in_heartbeat_pending s \<noteq> Map.empty")
  case True
  then show ?thesis using assms by (auto simp: heartbeat_prepare_def split: if_splits)
next
  case False
  obtain x q where q: "reserve_next (in_registry s) = (x, q)" by force
  show ?thesis
  proof (cases x)
    case None
    then have t: "t = finish (Some Error_ChannelClosed) (s\<lparr>in_registry := q\<rparr>)" "r = None"
      using assms False q by (auto simp: heartbeat_prepare_def)
    have "task_runs {#} s {#} (s\<lparr>in_registry := q\<rparr>)" by (rule task_runs_exhausted) (simp add: q None)
    then have "task_runs {#} s {#} t" unfolding t(1) by (rule task_runs_trans) (simp add: task_runs_quiet)
    then show ?thesis by (simp add: t(2))
  next
    case (Some l)
    let ?u = "s\<lparr>in_registry := q\<rparr>"
    have t: "t = ?u\<lparr>in_heartbeat_id_generator := in_heartbeat_id_generator ?u + 1\<rparr>" "hand r = {#l#}"
      using assms False q Some by (auto simp: heartbeat_prepare_def next_heartbeat_id_def)
    have "task_runs {#} s {#l#} ?u" by (rule task_runs_reserve) (simp add: q Some)
    moreover have "quiet ?u t" unfolding t(1) by (simp add: quiet_def same_life_def same_tasks_def)
    ultimately show ?thesis unfolding t(2) by (blast intro: task_runs_trans task_runs_quiet)
  qed
qed

lemma heartbeat_commit_runs:
  assumes "heartbeat_commit l key s = (continue, t)" "hk_sequence_id key = lease_id l"
  shows "task_runs {#l#} s {#} t"
proof (cases "in_phase s \<noteq> Phase_Open \<or> in_heartbeat_pending s \<noteq> Map.empty")
  case True
  then show ?thesis using assms task_runs_drop by (auto simp: heartbeat_commit_def split: if_splits)
next
  case False
  let ?h = "\<lparr>ph_heartbeat_id = hk_heartbeat_id key, ph_state = Heartbeat_Queued 1, ph_sequence_lease = l\<rparr>"
  let ?u = "s\<lparr>in_heartbeat_pending := (in_heartbeat_pending s)(hk_sequence_id key \<mapsto> ?h)\<rparr>"
  let ?ob = "outbound_heartbeat (encoded Pdu_ActiveTest (hk_sequence_id key)) key"
  have t: "t = ?u\<lparr>in_control_queue := in_control_queue ?u @ [?ob]\<rparr>"
    using assms False by (auto simp: heartbeat_commit_def)
  have "task_runs {#l#} s {#} ?u"
    using task_runs_heartbeat_kept[of s "hk_sequence_id key" ?h] False assms(2) by simp
  then show ?thesis unfolding t by (rule task_runs_trans) (simp only: task_runs_send control_messages)
qed

lemma quiet_queues_lost: "quiet s (queues_lost s)"
  by (simp add: queues_lost_def)

lemma heartbeat_end_runs: "task_runs {#l#} s {#} (heartbeat_end l s)"
  unfolding heartbeat_end_def
  by (rule task_runs_trans[OF task_runs_quiet[OF quiet_queues_lost] task_runs_drop])

lemma timeout_heartbeat_runs:
  assumes "timeout_heartbeat key s = (ended, t)"
  shows "task_runs H s H t"
  using assms
proof (cases rule: timeout_heartbeat_cases)
  case (again h)
  let ?h = "h\<lparr>ph_state := Heartbeat_Queued (hk_attempt key + 1)\<rparr>"
  let ?u = "s\<lparr>in_heartbeat_pending := (in_heartbeat_pending s)(hk_sequence_id key \<mapsto> ?h)\<rparr>"
  let ?ob = "outbound_heartbeat (encoded Pdu_ActiveTest (hk_sequence_id key)) (key\<lparr>hk_attempt := hk_attempt key + 1\<rparr>)"
  have "task_runs H s H ?u"
    using again(3) by (intro task_runs_heartbeat) (auto elim: heartbeat_awaiting_Some)
  then have "task_runs H s H (?u\<lparr>in_control_queue := in_control_queue ?u @ [?ob]\<rparr>)"
    by (rule task_runs_trans) (simp only: task_runs_send control_messages)
  then show ?thesis using again(7) by (simp add: requeue_heartbeat_def Let_def)
next
  case (last h)
  then show ?thesis
    using task_runs_trans[OF task_runs_remove_heartbeat[of H s "hk_sequence_id key"] task_runs_quiet] by simp
qed (simp_all add: task_runs_quiet quiet_queues_lost)

lemma timeout_scan_runs:
  assumes "timeout_scan now heartbeat_order submit_order s = (continue, t)"
  shows "task_runs H s H t"
proof (cases "in_phase s \<noteq> Phase_Open")
  case False
  obtain b u where u: "(case expired_heartbeat now heartbeat_order s of
      None \<Rightarrow> (False, s) | Some key \<Rightarrow> timeout_heartbeat key s) = (b, u)" by force
  then have "task_runs H s H u" using timeout_heartbeat_runs by (auto split: option.splits)
  moreover have "t = u \<or> timeout_submits (expired_submits now submit_order u) u = (continue, t)"
    using assms False by (auto simp: timeout_scan_def u split: if_splits)
  ultimately show ?thesis using task_runs_timeouts by (auto intro: task_runs_trans)
qed (use assms in \<open>simp add: timeout_scan_def\<close>)

section \<open>The close\<close>

text \<open>What the close waits to send: the marker once admission has closed, then TERMINATE.\<close>

definition close_sends :: "inner \<Rightarrow> close_task \<Rightarrow> bool" where
  "close_sends s d \<longleftrightarrow>
     (case d of
        Drain_Send ob n \<Rightarrow> ob = outbound_submit_drain_marker n \<and> in_phase s \<noteq> Phase_Open
      | Terminate_Send ob n rx k \<Rightarrow> control_message ob
      | _ \<Rightarrow> True)"

lemma close_sends_simps [simp]:
  "close_sends s (Drain_Wait n)" "close_sends s (Terminate_Wait n rx k)" "close_sends s (Response_Wait rx k)"
  "close_sends s (Drain_Tickets j)" "close_sends s (Forget_Terminate k)" "close_sends s Reap_Closed"
  "close_sends s Reap_Workers" "close_sends s Reap_Join" "close_sends s Reap_Cleanup" "close_sends s Reap_Fallback"
  "close_sends s Close_Done" "close_sends s (Terminate_Send ob n rx k) = control_message ob"
  "close_sends s (Drain_Send ob n) = (ob = outbound_submit_drain_marker n \<and> in_phase s \<noteq> Phase_Open)"
  by (simp_all add: close_sends_def)

lemma task_runs_signal: "task_runs H s H (snd (new_signal s))"
  by (simp add: task_runs_quiet)

lemma graceful_terminate_runs:
  assumes "graceful_terminate s = (d, t)"
  shows "task_runs {#} s {#} t \<and> close_sends t d"
proof -
  let ?s = "s\<lparr>in_drain_submits_on_close := False\<rparr>"
  obtain x q where q: "reserve_next (in_registry ?s) = (x, q)" by force
  have s: "task_runs {#} s {#} ?s" by (rule task_runs_quiet) simp
  show ?thesis
  proof (cases x)
    case None
    then have t: "t = finish (Some Error_ChannelClosed) (?s\<lparr>in_registry := q\<rparr>)" "d = Reap_Closed"
      using assms q by (auto simp: graceful_terminate_def)
    have "task_runs {#} s {#} (?s\<lparr>in_registry := q\<rparr>)"
      by (rule task_runs_trans[OF s task_runs_exhausted]) (use q None in simp)
    then have "task_runs {#} s {#} t" unfolding t(1) by (rule task_runs_trans) (simp add: task_runs_quiet)
    then show ?thesis by (simp add: t(2))
  next
    case (Some l)
    let ?a = "?s\<lparr>in_registry := q\<rparr>"
    let ?b = "snd (new_signal ?a)"
    let ?p = "\<lparr>pt_sequence_id = lease_id l, pt_response_tx = fst (new_signal ?a), pt_written = False, pt_sequence_lease = l\<rparr>"
    let ?c = "take_pending_terminate ?b"
    let ?d = "?c\<lparr>in_pending_terminate := Some ?p\<rparr>"
    have t: "t = snd (new_signal ?d)" "close_sends t d"
      using assms q Some by (auto simp: graceful_terminate_def Let_def split: prod.splits)
    have c: "in_pending_terminate ?c = None" by (simp add: take_pending_terminate_def split: option.split)
    have "task_runs {#} s {#l#} ?a" by (rule task_runs_trans[OF s task_runs_reserve]) (use q Some in simp)
    then have "task_runs {#} s {#l#} ?b" by (rule task_runs_trans) (rule task_runs_signal)
    then have "task_runs {#} s {#l#} ?c" by (rule task_runs_trans) (rule task_runs_take_terminate)
    then have "task_runs {#} s {#} ?d" by (rule task_runs_trans) (use task_runs_terminate_kept[OF c, of ?p] in simp)
    then have "task_runs {#} s {#} t" unfolding t(1) by (rule task_runs_trans) (rule task_runs_signal)
    then show ?thesis using t(2) by simp
  qed
qed

lemma graceful_turn_runs:
  assumes ok: "close_sends s d" and G: "graceful_turn timed_out ready d s = (d', t)"
  shows "task_runs {#} s {#} t \<and> close_sends t d'"
proof (cases d)
  case (Drain_Send ob n)
  obtain x u where u: "send_marker_until_closed ob s = (x, u)" by force
  have "task_runs {#} s {#} u" "x \<noteq> Sent_Ok \<Longrightarrow> u = s"
    using u ok Drain_Send task_runs_marker[of s "{#}" n] by (auto simp: send_marker_until_closed_def split: if_splits)
  then show ?thesis
    using G ok graceful_terminate_runs[of s] unfolding Drain_Send graceful_turn_def
    by (cases x) (auto simp: u split: if_splits)
next
  case (Drain_Wait n)
  then show ?thesis using G graceful_terminate_runs[of s] by (auto simp: graceful_turn_def split: if_splits)
next
  case (Terminate_Send ob n rx k)
  obtain x u where u: "send_outbound_until_closed ob s = (x, u)" by force
  then have "task_runs {#} s {#} u" using ok Terminate_Send by (intro task_runs_sent[OF _ u]) simp
  moreover have "task_runs {#} u {#} (begin_event_drain u)" by (simp add: task_runs_quiet)
  ultimately show ?thesis
    using G ok task_runs_trans unfolding Terminate_Send graceful_turn_def
    by (cases x) (auto simp: u graceful_tickets_def split: if_splits)
next
  case (Drain_Tickets j)
  obtain b u where u: "drain_event_tickets timed_out s = (b, u)" by force
  have "quiet s u" using quiet_tickets(4)[of s timed_out] by (simp add: u)
  moreover have "quiet u (finish (close_reason u) u)" by simp
  ultimately have "quiet s u" "quiet s (finish (close_reason u) u)" by (blast intro: quiet_trans)+
  then show ?thesis
    using G unfolding Drain_Tickets graceful_turn_def by (cases b) (auto simp: u task_runs_quiet split: option.splits)
next
  case (Forget_Terminate k)
  then show ?thesis
    using G task_runs_take_terminate[of "{#}" s] by (auto simp: graceful_turn_def split: option.splits if_splits)
qed (use G in \<open>auto simp: graceful_turn_def graceful_tickets_def task_runs_quiet split: if_splits\<close>)

lemma reap_turn_runs:
  assumes "reap_turn timed_out ready d c = (d', c')" "close_sends (cx_inner c) d"
  shows "quiet (cx_inner c) (cx_inner c') \<and> close_sends (cx_inner c') d'"
  using assms by (cases d) (auto simp: reap_turn_def Let_def split: if_splits)

lemma close_turn_runs:
  assumes "close_turn timed_out ready d c = (d', c')" "close_sends (cx_inner c) d"
  shows "task_runs {#} (cx_inner c) {#} (cx_inner c') \<and> close_sends (cx_inner c') d'"
proof (cases "reaping d")
  case True
  then show ?thesis using assms reap_turn_runs task_runs_quiet by (auto simp: close_turn_def)
next
  case False
  then show ?thesis using assms graceful_turn_runs by (auto simp: close_turn_def split: prod.splits)
qed

lemma begin_closing_phase: "begin_closing b s = (True, t) \<Longrightarrow> in_phase t \<noteq> Phase_Open"
  by (auto simp: begin_closing_def split: if_splits)

lemma close_call_runs:
  assumes "close_call c = (Some d, c')"
  shows "quiet (cx_inner c) (cx_inner c') \<and> close_sends (cx_inner c') d"
proof -
  obtain b s where s: "begin_closing True (cx_inner c) = (b, s)" by force
  have q: "quiet (cx_inner c) s" using quiet_begin_closing[of "cx_inner c" True] s by simp
  let ?u = "begin_event_drain s"
  have "quiet s ?u" "quiet ?u (snd (new_signal ?u))" by simp_all
  then have "quiet (cx_inner c) (snd (new_signal ?u))" using q by (blast intro: quiet_trans)
  moreover have "in_phase (snd (new_signal ?u)) = in_phase s"
    by (simp add: new_signal_def begin_event_drain_def)
  ultimately show ?thesis
    using assms q begin_closing_phase[of True "cx_inner c" s] s
    by (cases b) (auto simp: close_call_def graceful_start_def Let_def split: if_splits prod.splits)
qed

lemma takeover_call_runs:
  assumes "takeover_call c = (Some d, c')"
  shows "quiet (cx_inner c) (cx_inner c') \<and> close_sends (cx_inner c') d"
  using assms by (auto simp: takeover_call_def split: if_splits)

lemma cleanup_finish_runs: "task_runs H s H (cleanup_finish order s)"
proof -
  have f: "task_runs H t H (fold remove_heartbeat order t)" for t
    by (induction order arbitrary: t) (auto intro: task_runs_trans[OF task_runs_remove_heartbeat])
  let ?a = "take_pending_terminate (fold remove_heartbeat order s)"
  have "task_runs H s H ?a" by (rule task_runs_trans[OF f task_runs_take_terminate])
  moreover have "quiet ?a (close_event_spool ?a)" by simp
  then have "quiet ?a (cleanup_finish order s)" unfolding cleanup_finish_def by (rule quiet_trans) simp
  ultimately show ?thesis by (blast intro: task_runs_trans task_runs_quiet)
qed

lemma connection_quiet:
  "quiet (cx_inner c) (cx_inner (handle_clone c))" "quiet (cx_inner c) (cx_inner (handle_drop c))"
  "quiet (cx_inner c) (cx_inner (worker_drop c))" "quiet (cx_inner c) (cx_inner (takeover_drop c))"
  "quiet (cx_inner c) (cx_inner (snd (take_events c)))"
  by (simp_all add: handle_clone_def handle_drop_def worker_drop_def takeover_drop_def take_events_def Let_def)

section \<open>The writer\<close>

lemma claim_heartbeat_runs: "claim_heartbeat_attempt key s = (claimed, t) \<Longrightarrow> task_runs H s H t"
  by (auto simp: claim_heartbeat_attempt_def intro: task_runs_heartbeat split: if_splits option.splits)

lemma complete_heartbeat_runs: "task_runs H s H (complete_heartbeat_attempt key now s)"
  by (auto simp: complete_heartbeat_attempt_def intro: task_runs_heartbeat split: option.split)

lemma quiet_signals: "quiet s (s\<lparr>in_drain_submits_on_close := False, in_signals := ns\<rparr>)"
  by (simp add: quiet_def same_life_def same_tasks_def)

lemma quiet_marker: "quiet s (complete_marker marker s)"
  using quiet_signals by (simp add: complete_marker_def Let_def split: option.split)

lemma complete_outbound_runs: "task_runs H s H (complete_outbound now ob s)"
proof -
  let ?a = "case ob_heartbeat_attempt ob of None \<Rightarrow> s | Some key \<Rightarrow> complete_heartbeat_attempt key now s"
  let ?b = "if ob_marks_peer_terminate_response ob then ?a\<lparr>in_peer_terminate_response_written := True\<rparr> else ?a"
  let ?c = "if ob_written_flag ob
    then ?b\<lparr>in_pending_terminate := map_option (pt_written_update (\<lambda>_. True)) (in_pending_terminate ?b)\<rparr> else ?b"
  let ?d = "case ob_event_after_write ob of None \<Rightarrow> ?c | Some (ticket, e) \<Rightarrow> snd (publish ticket e ?c)"
  have "task_runs H s H ?a" using complete_heartbeat_runs by (simp split: option.split)
  moreover have "quiet ?a ?b" by simp
  ultimately have "task_runs H s H ?b" by (blast intro: task_runs_trans task_runs_quiet)
  moreover have "task_runs H ?b H ?c" using task_runs_written by simp
  ultimately have "task_runs H s H ?c" by (rule task_runs_trans)
  moreover have "quiet ?c ?d" by (auto split: option.split)
  ultimately have "task_runs H s H ?d" by (blast intro: task_runs_trans task_runs_quiet)
  moreover have "complete_outbound now ob s =
      (case ob_written_tx ob of None \<Rightarrow> ?d | Some n \<Rightarrow> ?d\<lparr>in_signals := in_signals ?d @ [n]\<rparr>)"
    by (simp add: complete_outbound_def Let_def)
  then have "quiet ?d (complete_outbound now ob s)" by (simp split: option.split)
  ultimately show ?thesis by (blast intro: task_runs_trans task_runs_quiet)
qed

lemma complete_outbounds_runs: "task_runs H s H (fold (complete_outbound now) obs s)"
  by (induction obs arbitrary: s) (auto intro: task_runs_trans[OF complete_outbound_runs])

lemma quiet_drop_outbounds: "quiet s (fold drop_outbound obs s)"
  by (rule quiet_fold) simp

end
