(* ===== verification/Cmpp_Refinement.thy ===== *)
theory Cmpp_Refinement
  imports Cmpp_Runs
begin

text \<open>
  The tasks refine the life cycle: every step of the connection is a run of \<open>life_step\<close>, so that what
  holds of the life cycle in all its interleavings holds of the program's tasks.
\<close>

section \<open>The relation\<close>

text \<open>
  What the writer has taken of the SUBMITs and not claimed yet, and what it has claimed and not completed.
\<close>

fun writer_batch :: "writer \<Rightarrow> outbound list" where
  "writer_batch (Writer_Assembling a) = List.filter carries_submit (as_batch a)"
| "writer_batch (Writer_Assembled a) = List.filter carries_submit (as_batch a)"
| "writer_batch _ = []"

fun writer_keys :: "writer \<Rightarrow> submit_attempt_key list" where
  "writer_keys (Writer_Writing a batch) = submit_keys batch"
| "writer_keys _ = []"

text \<open>\<open>shares\<close> speaks of all but the writer. A call holds no window permit at a wait but in its submission.\<close>

definition calls_manual :: "submit_task list \<Rightarrow> sequence_lease multiset" where
  "calls_manual ds = sum_list (map call_manual ds)"

definition calls_ready :: "submit_task list \<Rightarrow> submission multiset" where
  "calls_ready ds = sum_list (map call_ready ds)"

definition shares :: "world \<Rightarrow> life \<Rightarrow> bool" where
  "shares w l \<longleftrightarrow>
     lf_inner l = wd_inner w \<and> lf_permits l = 0 \<and> mset (lf_manual l) = calls_manual (wd_calls w) \<and>
     mset (lf_ready l) = calls_ready (wd_calls w) \<and> list_all call_waits (wd_calls w) \<and>
     mset (lf_other l) = hand (wd_heartbeat w) + task_leases (wd_inner w) \<and> task_ok (wd_inner w) \<and>
     hand_ok (wd_heartbeat w) \<and> reader_sends (wd_next w) \<and> list_all (close_sends (wd_inner w)) (wd_close w)"

definition implements :: "world \<Rightarrow> life \<Rightarrow> bool" where
  "implements w l \<longleftrightarrow>
     shares w l \<and> List.filter carries_submit (lf_batch l) = writer_batch (wd_writer w) \<and>
     lf_writing l = writer_keys (wd_writer w)"

lemma with_inner_sel [simp]:
  "wd_inner (with_inner t w) = t" "wd_calls (with_inner t w) = wd_calls w"
  "wd_writer (with_inner t w) = wd_writer w" "wd_reader (with_inner t w) = wd_reader w"
  "wd_buf (with_inner t w) = wd_buf w" "wd_next (with_inner t w) = wd_next w"
  "wd_heartbeat (with_inner t w) = wd_heartbeat w" "wd_close (with_inner t w) = wd_close w"
  "wd_dispatcher (with_inner t w) = wd_dispatcher w" "wd_discard (with_inner t w) = wd_discard w"
  "wd_channel (with_inner t w) = wd_channel w"
  by (simp_all add: with_inner_def)

lemma shares_writer [simp]: "shares (w\<lparr>wd_writer := x\<rparr>) l = shares w l"
  by (simp add: shares_def)

section \<open>Runs\<close>

text \<open>A run never reopens the connection, so that what the close waits to send stays what it is.\<close>

lemma life_runs_phase:
  "life_step\<^sup>*\<^sup>* l m \<Longrightarrow> in_phase (lf_inner m) = Phase_Open \<Longrightarrow> in_phase (lf_inner l) = Phase_Open"
proof (induction rule: rtranclp_induct)
  case (step m n)
  then show ?case using life_step_effect[OF step.hyps(2)] by (auto simp: admits_def settles_def)
qed simp

lemma close_sends_later:
  "close_sends s d \<Longrightarrow> (in_phase t = Phase_Open \<Longrightarrow> in_phase s = Phase_Open) \<Longrightarrow> close_sends t d"
  by (auto simp: close_sends_def split: close_task.splits)

lemma shares_closes:
  assumes "shares w l" "life_step\<^sup>*\<^sup>* l m"
  shows "list_all (close_sends (lf_inner m)) (wd_close w)"
proof -
  have l: "lf_inner l = wd_inner w" "list_all (close_sends (wd_inner w)) (wd_close w)" using assms(1) by (simp_all add: shares_def)
  have "in_phase (lf_inner m) = Phase_Open \<Longrightarrow> in_phase (wd_inner w) = Phase_Open"
    using life_runs_phase[OF assms(2)] by (simp only: l(1))
  from close_sends_later[OF _ this] show ?thesis using l(2) by (simp add: list_all_iff)
qed

lemma close_sends_queue [simp]: "close_sends (s\<lparr>in_submit_queue := q\<rparr>) = close_sends s"
  by (simp add: close_sends_def fun_eq_iff split: close_task.split)

text \<open>A change of the state that is a run, together with what the tasks hold before and after it.\<close>

lemma shares_runs:
  assumes S: "shares w l" and R: "task_runs (hand (wd_heartbeat w)) (wd_inner w) (hand (wd_heartbeat v)) (wd_inner v)"
    and same: "wd_calls v = wd_calls w"
    and sends: "hand_ok (wd_heartbeat v)" "reader_sends (wd_next v)" "\<And>d. d \<in> set (wd_close v) \<Longrightarrow> d \<in> set (wd_close w) \<or> close_sends (wd_inner v) d"
  shows "\<exists>m. life_step\<^sup>*\<^sup>* l m \<and> shares v m \<and> lf_batch m = lf_batch l \<and> lf_writing m = lf_writing l"
proof -
  let ?H = "hand (wd_heartbeat w)" and ?G = "hand (wd_heartbeat v)"
  have s: "task_ok (wd_inner w)" "lf_inner l = wd_inner w" "mset (lf_other l) = ?H + task_leases (wd_inner w)"
    using S by (simp_all add: shares_def)
  note E = R[unfolded task_runs_def, THEN mp, OF s(1)]
  have "evolves (wd_inner w) (?H + task_leases (wd_inner w)) (wd_inner v) (?G + task_leases (wd_inner v))"
    using E[THEN conjunct2, THEN spec, of "{#}"] by (simp only: add_0)
  then obtain m where m: "life_step\<^sup>*\<^sup>* l m" "lf_inner m = wd_inner v"
    "mset (lf_other m) = ?G + task_leases (wd_inner v)" "same_hands l m"
    using s(2,3) unfolding evolves_def by (elim allE[of _ l] impE exE conjE) simp_all
  have "list_all (close_sends (wd_inner v)) (wd_close w)" using shares_closes[OF S m(1)] by (simp only: m(2))
  then have "list_all (close_sends (wd_inner v)) (wd_close v)" using sends(3) by (auto simp: list_all_iff)
  moreover have "lf_permits m = 0" "mset (lf_manual m) = calls_manual (wd_calls v)"
    "mset (lf_ready m) = calls_ready (wd_calls v)" "list_all call_waits (wd_calls v)"
    using m(4) S same by (simp_all add: shares_def same_hands_def)
  ultimately have "shares v m" unfolding shares_def using m(2,3) sends(1,2) E[THEN conjunct1] by (intro conjI)
  then show ?thesis using m by (auto simp: same_hands_def)
qed

lemma implements_runs:
  assumes "implements w l" "task_runs (hand (wd_heartbeat w)) (wd_inner w) (hand (wd_heartbeat v)) (wd_inner v)"
    and "wd_calls v = wd_calls w" "wd_writer v = wd_writer w"
    and "hand_ok (wd_heartbeat v)" "reader_sends (wd_next v)" "\<And>d. d \<in> set (wd_close v) \<Longrightarrow> d \<in> set (wd_close w) \<or> close_sends (wd_inner v) d"
  shows "\<exists>m. life_step\<^sup>*\<^sup>* l m \<and> implements v m"
  using shares_runs[of w l v] assms unfolding implements_def by metis

text \<open>A change of the state alone, in steps of the writer.\<close>

lemma shares_state:
  assumes "shares w l" "task_runs (hand (wd_heartbeat w)) (wd_inner w) (hand (wd_heartbeat w)) t"
  shows "\<exists>m. life_step\<^sup>*\<^sup>* l m \<and> shares (with_inner t w) m \<and> lf_batch m = lf_batch l \<and> lf_writing m = lf_writing l"
  by (rule shares_runs[OF assms(1)]) (use assms in \<open>simp_all add: shares_def\<close>)

section \<open>The callers\<close>

lemma calls_split:
  "calls_manual (xs @ d # ys) = calls_manual (xs @ ys) + call_manual d"
  "calls_ready (xs @ d # ys) = calls_ready (xs @ ys) + call_ready d"
  "calls_manual (d # ys) = calls_manual ys + call_manual d" "calls_ready (d # ys) = calls_ready ys + call_ready d"
  by (simp_all add: calls_manual_def calls_ready_def ac_simps)

lemma implements_calls:
  assumes I: "implements w l" and R: "call_runs (0, M, R) (wd_inner w) (0, M', R') (wd_inner v)"
    and before: "calls_manual (wd_calls w) = K + M" "calls_ready (wd_calls w) = Q + R"
    and after: "calls_manual (wd_calls v) = K + M'" "calls_ready (wd_calls v) = Q + R'" "list_all call_waits (wd_calls v)"
    and same: "wd_writer v = wd_writer w" "wd_next v = wd_next w" "wd_close v = wd_close w" "wd_heartbeat v = wd_heartbeat w"
  shows "\<exists>m. life_step\<^sup>*\<^sup>* l m \<and> implements v m"
proof -
  have S: "shares w l" using I by (simp add: implements_def)
  then have "lf_inner l = wd_inner w" "holds (0, M, R) K Q l" using before by (simp_all add: shares_def)
  then obtain m where m: "life_step\<^sup>*\<^sup>* l m" "lf_inner m = wd_inner v" "holds (0, M', R') K Q m" "same_rest l m"
    using R unfolding call_runs_def by blast
  have "list_all (close_sends (wd_inner v)) (wd_close v)" using shares_closes[OF S m(1)] by (simp add: m(2) same)
  moreover have "same_tasks (wd_inner w) (wd_inner v)" using R by (simp add: call_runs_def)
  note T = task_leases_same[OF this]
  ultimately have "shares v m" using S m(2-4) after same T by (simp add: shares_def same_rest_def)
  then have "implements v m" using I m(4) same by (simp add: implements_def same_rest_def)
  then show ?thesis using m(1) by blast
qed

lemma caller_simulated:
  assumes "caller_step w v" "implements w l"
  shows "\<exists>m. life_step\<^sup>*\<^sup>* l m \<and> implements v m"
proof -
  have L: "list_all call_waits (wd_calls w)" using assms(2) by (simp add: implements_def shares_def)
  from assms(1) show ?thesis
  proof (cases rule: caller_step.cases)
    case (start pool options content base counter d t)
    note B = submit_begin_runs[OF start(2)]
    show ?thesis
      by (rule implements_calls[OF assms(2), where K = "calls_manual (wd_calls w)" and Q = "calls_ready (wd_calls w)"
          and M = "{#}" and R = "{#}" and M' = "call_manual d" and R' = "call_ready d"])
        (use B L start(1) in \<open>simp_all add: calls_split\<close>)
  next
    case (turn xs d ys gbk pool d' t)
    then have "call_waits d" "list_all call_waits (xs @ ys)" using L by simp_all
    note T = submit_turn_runs[OF turn(3) this(1)] submit_turn_waits[OF turn(3) this(1)] this(2)
    show ?thesis
      by (rule implements_calls[OF assms(2), where K = "calls_manual (xs @ ys)" and Q = "calls_ready (xs @ ys)"
          and M = "call_manual d" and R = "call_ready d" and M' = "call_manual d'" and R' = "call_ready d'"])
        (use T turn(1,2) in \<open>simp_all add: calls_split turn_runs_def\<close>)
  next
    case (ended xs d ys)
    then have "call_waits d" "list_all call_waits (xs @ ys)" using L by simp_all
    note T = submit_cancel_runs[OF this(1), of "wd_inner w"] this(2)
    show ?thesis
      by (rule implements_calls[OF assms(2), where K = "calls_manual (xs @ ys)" and Q = "calls_ready (xs @ ys)"
          and M = "call_manual d" and R = "call_ready d" and M' = "{#}" and R' = "{#}"])
        (use T ended in \<open>simp_all add: calls_split\<close>)
  qed
qed

section \<open>The writer\<close>

text \<open>The submit queue holds SUBMITs and markers only.\<close>

lemma timeout_messages:
  assumes "timeout_submit key s = (continue, t)" "list_all submit_message (in_submit_queue s)"
  shows "list_all submit_message (in_submit_queue t)"
  using assms(1)
proof (cases rule: timeout_submit_cases)
  case last
  from give_up_track[OF tracked_UNIV sent_nothing this(2)] show ?thesis using assms(2) by (simp add: keeps_def)
next
  case again
  then show ?thesis using assms(2) by (auto simp: requeue_submit_def submit_message_def Let_def split: option.split)
next
  case lost
  then show ?thesis using assms(2) same_life_queues_lost[of s] by (simp add: same_life_def)
qed

lemma life_step_messages:
  assumes "life_step l m" "list_all submit_message (in_submit_queue (lf_inner l))"
  shows "list_all submit_message (in_submit_queue (lf_inner m))"
proof -
  have keep: ?thesis if "keeps (lf_inner l) (lf_inner m)" using that assms(2) by (simp add: keeps_def)
  from assms(1) show ?thesis
  proof (cases rule: life_step.cases)
    case (commit xs b ys r t)
    from commit(3) show ?thesis
    proof (cases rule: commit_cases)
      case (1 k p)
      then show ?thesis using commit(1) assms(2) by (auto simp: submit_message_def)
    next
      case 2
      then show ?thesis using commit(1) keep by (simp add: still_def)
    qed
  next
    case (claim kept t)
    then show ?thesis using keep keeps_claim_batch[of _ _ "lf_inner l" kept t] by (simp add: claim_submit_attempts_def)
  next
    case (respond resps handled t)
    have "same_life t (fold publish_resp handled t)" by (rule same_life_fold) (rule same_life_publish)
    then show ?thesis
      using match_resps_track[OF tracked_UNIV sent_nothing respond(2)] respond(1) keep by (simp add: keeps_def same_life_def)
  next
    case (timeout key continue t gone)
    then show ?thesis using timeout_messages[OF timeout(2) assms(2)] by simp
  next
    case (drain order dropped t)
    have "keeps (lf_inner l) (fold remove_pending order (lf_inner l))" by (rule keeps_fold) (rule keeps_remove)
    then show ?thesis using drain(1,5) keep by (simp add: drain_pending_def)
  qed (use assms(2) keep still_acquire still_leases still_prepare still_abandon complete_all(2) keeps_same in
    \<open>fastforce simp: still_def submit_message_def release_window_def drop_lease_def\<close>)+
qed

text \<open>What one message does to the SUBMITs in hand.\<close>

lemma assemble_one_submits:
  assumes "assemble_one now (ob, b) a s = (r, a', t)" "r \<noteq> Writer_Exit"
    and "if b then submit_message ob else control_message ob"
  shows "List.filter carries_submit (as_batch a') = List.filter carries_submit (as_batch a @ (if b then [ob] else []))"
proof -
  note S = assemble_one_sel[OF assms(1,2)]
  have C: "\<not> b \<Longrightarrow> \<not> carries_submit ob" using assms(3) by (simp add: control_message_def carries_submit_def)
  have M: "b \<Longrightarrow> carries_submit ob \<and> \<not> ob_submit_drain_marker ob \<and> ob_heartbeat_attempt ob = None \<and> \<not> ob_open_only ob \<and>
      \<not> ob_cancel_after_peer_terminate ob \<or> \<not> carries_submit ob \<and> ob_submit_drain_marker ob"
    using assms(3) submit_message_cases[of ob] by simp
  show ?thesis
  proof (cases r)
    case Batch_Open
    then have "\<not> ob_submit_drain_marker ob" using S by simp
    then show ?thesis using assemble_one_open[of now ob b a s a' t] assms(1) Batch_Open C M by (cases b) auto
  next
    case Batch_Full
    then have "ob_submit_drain_marker ob" "as_batch a' = as_batch a" using S by simp_all
    then show ?thesis using C M by (cases b) auto
  qed (use assms(2) in simp)
qed

text \<open>What it does to the state: a heartbeat is claimed, or the writer ends with the connection.\<close>

lemma assemble_one_state:
  assumes "assemble_one now (ob, b) a s = (r, a', t)"
  shows "\<exists>u. task_runs H s H u \<and> (if r = Writer_Exit then \<exists>obs e. t = writer_exit obs (finish (Some e) u) else t = u)"
proof -
  obtain c u where u: "(case ob_heartbeat_attempt ob of None \<Rightarrow> (True, s) | Some key \<Rightarrow> claim_heartbeat_attempt key s) = (c, u)"
    by force
  have "task_runs H s H u" using u claim_heartbeat_runs by (auto split: option.splits)
  moreover have "r = Writer_Exit \<and> (\<exists>obs e. t = writer_exit obs (finish (Some e) s)) \<or>
      r = Writer_Exit \<and> (\<exists>obs e. t = writer_exit obs (finish (Some e) u)) \<or> r \<noteq> Writer_Exit \<and> (t = s \<or> t = u)"
    using assms by (auto simp: assemble_one_def u Let_def split: if_splits option.splits)
  moreover have "task_runs H s H s" by simp
  ultimately show ?thesis by (metis (full_types))
qed

text \<open>The end of the writer: what is left in the submit queue is taken, and goes with what is in hand.\<close>

lemma life_takes:
  "in_submit_queue (lf_inner l) = obs @ rest \<Longrightarrow>
   life_step\<^sup>*\<^sup>* l (l\<lparr>lf_inner := (lf_inner l)\<lparr>in_submit_queue := rest\<rparr>, lf_batch := lf_batch l @ obs\<rparr>)"
proof (induction obs arbitrary: l)
  case (Cons ob obs)
  let ?m = "l\<lparr>lf_inner := (lf_inner l)\<lparr>in_submit_queue := obs @ rest\<rparr>, lf_batch := lf_batch l @ [ob]\<rparr>"
  have "life_step l ?m" using Cons.prems by (intro life_step.take) simp
  moreover have "life_step\<^sup>*\<^sup>* ?m (l\<lparr>lf_inner := (lf_inner l)\<lparr>in_submit_queue := rest\<rparr>, lf_batch := lf_batch l @ ob # obs\<rparr>)"
    using Cons.IH[of ?m] by simp
  ultimately show ?case by (rule converse_rtranclp_into_rtranclp)
next
  case Nil
  then have "l\<lparr>lf_inner := (lf_inner l)\<lparr>in_submit_queue := rest\<rparr>, lf_batch := lf_batch l @ []\<rparr> = l"
    by (intro life.equality inner.equality) simp_all
  then show ?case by simp
qed

lemma writer_ends:
  assumes S: "shares w l" and closed: "in_phase (wd_inner w) = Phase_Closed"
  shows "\<exists>m. life_step\<^sup>*\<^sup>* l m \<and> implements ((with_inner (writer_exit obs (wd_inner w)) w)\<lparr>wd_writer := Writer_Gone\<rparr>) m"
proof -
  let ?s = "wd_inner w"
  let ?u = "?s\<lparr>in_submit_queue := []\<rparr>"
  let ?m = "l\<lparr>lf_inner := ?u, lf_batch := lf_batch l @ in_submit_queue ?s\<rparr>"
  have m: "life_step\<^sup>*\<^sup>* l ?m"
    using life_takes[of l "in_submit_queue ?s" "[]"] S by (simp add: shares_def)
  have "shares (with_inner ?u w) ?m" using S by (simp add: shares_def task_leases_def task_ok_def task_ids_def)
  moreover have "task_runs H ?u H (writer_exit obs ?s)" for H
    unfolding writer_exit_def Let_def
    using task_runs_trans[OF task_runs_empty task_runs_quiet[OF quiet_drop_outbounds]] by fastforce
  ultimately obtain n where n: "life_step\<^sup>*\<^sup>* ?m n" "shares (with_inner (writer_exit obs ?s) w) n"
    using shares_state[of "with_inner ?u w" ?m "writer_exit obs ?s"] by (auto simp: with_inner_def)
  have "in_phase (writer_exit obs ?s) = Phase_Closed"
  proof -
    have f: "in_phase (fold drop_outbound xs v) = in_phase v" for xs v
      by (induction xs arbitrary: v) (simp_all add: drop_outbound_def ticket_drop_def Let_def split: option.split)
    show ?thesis using closed by (simp add: writer_exit_def Let_def f)
  qed
  then have "life_step n (n\<lparr>lf_batch := [], lf_writing := []\<rparr>)"
    using n(2) by (intro life_step.writer_gone) (simp add: shares_def)
  then have "life_step\<^sup>*\<^sup>* l (n\<lparr>lf_batch := [], lf_writing := []\<rparr>)" using m n(1) by (meson rtranclp.simps rtranclp_trans)
  moreover have "implements ((with_inner (writer_exit obs ?s) w)\<lparr>wd_writer := Writer_Gone\<rparr>) (n\<lparr>lf_batch := [], lf_writing := []\<rparr>)"
    using n(2) by (simp add: implements_def shares_def)
  ultimately show ?thesis by blast
qed

text \<open>A message is taken from one of the queues.\<close>

lemma pick_state:
  assumes "pick_outbound b s = Some ((ob, is_submit), t)"
  shows "if is_submit then in_submit_queue s = ob # in_submit_queue t \<and> t = s\<lparr>in_submit_queue := in_submit_queue t\<rparr>
    else in_control_queue s = ob # in_control_queue t \<and> t = s\<lparr>in_control_queue := in_control_queue t\<rparr>"
  using assms
  by (auto simp: pick_outbound_def or_else_def take_submit_def take_control_def split: if_splits list.splits option.splits)

lemma shares_takes:
  assumes S: "shares w l" and P: "pick_outbound b (wd_inner w) = Some ((ob, is_submit), t)"
    and M: "list_all submit_message (in_submit_queue (lf_inner l))"
  shows "(if is_submit then submit_message ob else control_message ob) \<and>
    (\<exists>m. life_step\<^sup>*\<^sup>* l m \<and> shares (with_inner t w) m \<and> lf_writing m = lf_writing l \<and>
      lf_batch m = lf_batch l @ (if is_submit then [ob] else []))"
proof (cases is_submit)
  case True
  then have q: "in_submit_queue (wd_inner w) = ob # in_submit_queue t" "t = (wd_inner w)\<lparr>in_submit_queue := in_submit_queue t\<rparr>"
    using pick_state[OF P] by simp_all
  let ?m = "l\<lparr>lf_inner := (wd_inner w)\<lparr>in_submit_queue := in_submit_queue t\<rparr>, lf_batch := lf_batch l @ [ob]\<rparr>"
  have l: "lf_inner l = wd_inner w" using S by (simp add: shares_def)
  have "life_step l ?m" using life_step.take[of l ob "in_submit_queue t"] q(1) by (simp add: l)
  moreover have "shares (with_inner ((wd_inner w)\<lparr>in_submit_queue := in_submit_queue t\<rparr>) w) ?m"
    using S by (simp add: shares_def task_leases_def task_ok_def task_ids_def)
  then have "shares (with_inner t w) ?m" using q(2) by metis
  ultimately show ?thesis using M q(1) True by (intro conjI exI[of _ ?m]) (simp_all add: l r_into_rtranclp)
next
  case False
  then have q: "in_control_queue (wd_inner w) = ob # in_control_queue t" "t = (wd_inner w)\<lparr>in_control_queue := in_control_queue t\<rparr>"
    using pick_state[OF P] by simp_all
  have "task_runs H (wd_inner w) H t" for H using task_runs_receive[OF q(1)] q(2) by metis
  from shares_state[OF S this] show ?thesis
    using False q(1) S by (auto simp: shares_def task_ok_def)
qed

text \<open>One message assembled: the writer goes on, has its batch, or ends.\<close>

lemma writer_takes:
  assumes S: "shares w l" and L: "List.filter carries_submit (lf_batch l) = List.filter carries_submit (as_batch a)" "lf_writing l = []"
    and P: "pick_outbound burst (wd_inner w) = Some ((ob, b), s)" and A: "assemble_one now (ob, b) a s = (r, a', t)"
    and M: "list_all submit_message (in_submit_queue (lf_inner l))"
  shows "\<exists>m. life_step\<^sup>*\<^sup>* l m \<and> implements ((with_inner t w)\<lparr>wd_writer := writer_next r a'\<rparr>) m"
proof -
  let ?H = "hand (wd_heartbeat w)"
  note T = shares_takes[OF S P M]
  from T obtain m where m: "life_step\<^sup>*\<^sup>* l m" "shares (with_inner s w) m" "lf_writing m = []"
    "lf_batch m = lf_batch l @ (if b then [ob] else [])" using L(2) by auto
  obtain u where u: "task_runs ?H s ?H u" "if r = Writer_Exit then \<exists>obs e. t = writer_exit obs (finish (Some e) u) else t = u"
    using assemble_one_state[OF A] by blast
  show ?thesis
  proof (cases "r = Writer_Exit")
    case True
    then obtain obs e where t: "t = writer_exit obs (finish (Some e) u)" using u(2) by auto
    have "task_runs ?H s ?H (finish (Some e) u)" using u(1) task_runs_quiet[OF quiet_tickets(6)] by (rule task_runs_trans)
    then obtain n where n: "life_step\<^sup>*\<^sup>* m n" "shares (with_inner (finish (Some e) u) w) n"
      using shares_state[OF m(2)] by (auto simp: with_inner_def)
    obtain k where "life_step\<^sup>*\<^sup>* n k" "implements ((with_inner t w)\<lparr>wd_writer := Writer_Gone\<rparr>) k"
      using writer_ends[OF n(2), of obs] by (auto simp: t finish_closed with_inner_def)
    then show ?thesis using m(1) n(1) True by (auto intro: rtranclp_trans)
  next
    case False
    then obtain n where n: "life_step\<^sup>*\<^sup>* m n" "shares (with_inner t w) n" "lf_batch n = lf_batch m" "lf_writing n = []"
      using shares_state[OF m(2), of u] u m(3) by (auto simp: with_inner_def)
    have "List.filter carries_submit (as_batch a') = List.filter carries_submit (lf_batch n)"
      using assemble_one_submits[OF A False] T L(1) n(3) m(4) by auto
    then have "implements ((with_inner t w)\<lparr>wd_writer := writer_next r a'\<rparr>) n"
      using n False by (cases r) (simp_all add: implements_def)
    then show ?thesis using m(1) n(1) by (auto intro: rtranclp_trans)
  qed
qed

text \<open>The claim looks at the SUBMITs of the batch only.\<close>

lemma claim_batch_submits:
  "claim_batch allowed obs s = (kept, t) \<Longrightarrow>
   claim_batch allowed (List.filter carries_submit obs) s = (List.filter carries_submit kept, t)"
  by (induction obs arbitrary: s kept) (auto simp: carries_submit_def Let_def split: option.splits prod.splits if_splits)

lemma submit_keys_filter: "submit_keys (List.filter carries_submit obs) = submit_keys obs"
  by (induction obs) (auto simp: carries_submit_def split: option.splits)

lemma claim_same_submits:
  assumes "List.filter carries_submit obs = List.filter carries_submit obs'" "claim_submit_attempts obs s = (kept, t)"
  shows "\<exists>kept'. claim_submit_attempts obs' s = (kept', t) \<and> submit_keys kept' = submit_keys kept"
proof -
  obtain kept' t' where k: "claim_submit_attempts obs' s = (kept', t')" by force
  have "(List.filter carries_submit kept, t) = (List.filter carries_submit kept', t')"
    using claim_batch_submits[of "can_send_submit s" obs s kept t] claim_batch_submits[of "can_send_submit s" obs' s kept' t']
      assms k by (simp add: claim_submit_attempts_def)
  then show ?thesis using k submit_keys_filter[of kept] submit_keys_filter[of kept'] by auto
qed


lemma shares_claims:
  assumes S: "shares w l" and L: "List.filter carries_submit (lf_batch l) = List.filter carries_submit obs" "lf_writing l = []"
    and C: "claim_submit_attempts obs (wd_inner w) = (kept, t)"
  shows "\<exists>m. life_step l m \<and> shares (with_inner t w) m \<and> lf_batch m = [] \<and> lf_writing m = submit_keys kept"
proof -
  have l: "lf_inner l = wd_inner w" using S by (simp add: shares_def)
  obtain kept' where k: "claim_submit_attempts (lf_batch l) (lf_inner l) = (kept', t)" "submit_keys kept' = submit_keys kept"
    using claim_same_submits[OF L(1)[symmetric] C] by (auto simp: l)
  let ?m = "l\<lparr>lf_inner := t, lf_batch := [], lf_writing := submit_keys kept', lf_claimed := submit_keys kept' @ lf_claimed l\<rparr>"
  have m: "life_step l ?m" using L(2) k(1) by (rule life_step.claim)
  have "same_tasks (wd_inner w) t" using same_tasks_claim_batch C by (simp add: claim_submit_attempts_def)
  note T = task_leases_same[OF this]
  have "life_step\<^sup>*\<^sup>* l ?m" using m by (rule r_into_rtranclp)
  from shares_closes[OF S this] have "list_all (close_sends t) (wd_close w)" by simp
  then show ?thesis using m S T k(2) by (intro exI[of _ ?m]) (simp add: shares_def)
qed

lemma shares_completes:
  assumes S: "shares w l" and L: "lf_writing l = keys"
  shows "\<exists>m. life_step l m \<and> shares (with_inner (complete_submit_attempts keys now (wd_inner w)) w) m \<and>
    lf_batch m = lf_batch l \<and> lf_writing m = []"
proof -
  let ?t = "complete_submit_attempts keys now (wd_inner w)"
  let ?m = "l\<lparr>lf_inner := ?t, lf_writing := []\<rparr>"
  have l: "lf_inner l = wd_inner w" using S by (simp add: shares_def)
  have m: "life_step l ?m" using life_step.written[of l now] by (simp add: l L)
  note T = task_leases_same[OF same_tasks_complete[of "wd_inner w" keys now]]
  have "life_step\<^sup>*\<^sup>* l ?m" using m by (rule r_into_rtranclp)
  from shares_closes[OF S this] have "list_all (close_sends ?t) (wd_close w)" by simp
  then show ?thesis using m S T by (intro exI[of _ ?m]) (simp add: shares_def)
qed

lemma quiet_written: "quiet s (s\<lparr>in_write_batches := n, in_write_frames := k\<rparr>)"
  by simp

text \<open>What follows a write: the attempts are completed, or the writer ends with the connection.\<close>

lemma writer_writes:
  assumes I: "implements w l" and W: "wd_writer w = Writer_Writing a batch"
    and closed: "outcome = Write_Closed \<longrightarrow> in_phase (wd_inner w) = Phase_Closed"
    and A: "after_write a batch outcome (wd_inner w) = (continue, t)"
  shows "\<exists>m. life_step\<^sup>*\<^sup>* l m \<and>
    implements ((with_inner t w)\<lparr>wd_writer := (if continue then Writer_Waiting (as_burst a) else Writer_Gone)\<rparr>) m"
proof -
  let ?s = "wd_inner w" and ?H = "hand (wd_heartbeat w)"
  have S: "shares w l" "List.filter carries_submit (lf_batch l) = []" "lf_writing l = submit_keys batch"
    using I W by (simp_all add: implements_def)
  show ?thesis
  proof (cases "batch = []")
    case True
    then have t: "t = complete_marker (as_marker a) ?s" continue using A by (simp_all add: after_write_def)
    obtain m where "life_step\<^sup>*\<^sup>* l m" "shares (with_inner t w) m" "lf_batch m = lf_batch l" "lf_writing m = lf_writing l"
      using shares_state[OF S(1), of t] task_runs_quiet[OF quiet_marker] t(1) by auto
    then show ?thesis using S(2,3) True t(2) by (intro exI[of _ m]) (simp add: implements_def)
  next
    case False
    have ends: ?thesis if t: "t = writer_exit batch u" and u: "quiet ?s u" "in_phase u = Phase_Closed" and c: "\<not> continue" for u
    proof -
      obtain m where m: "life_step\<^sup>*\<^sup>* l m" "shares (with_inner u w) m"
        using shares_state[OF S(1) task_runs_quiet[OF u(1)]] by blast
      obtain n where "life_step\<^sup>*\<^sup>* m n" "implements ((with_inner t w)\<lparr>wd_writer := Writer_Gone\<rparr>) n"
        using writer_ends[OF m(2), of batch] u(2) by (auto simp: t with_inner_def)
      then show ?thesis using m(1) c by (auto intro: rtranclp_trans)
    qed
    show ?thesis
    proof (cases outcome)
      case (Write_Done now)
      let ?u = "?s\<lparr>in_write_batches := in_write_batches ?s + 1, in_write_frames := in_write_frames ?s + of_nat (length batch)\<rparr>"
      let ?v = "complete_submit_attempts (submit_keys batch) now ?u"
      have t: "t = complete_marker (as_marker a) (fold (complete_outbound now) batch ?v)" continue
        using A False Write_Done by (simp_all add: after_write_def complete_batch_def Let_def submit_keys_def)
      obtain m where m: "life_step\<^sup>*\<^sup>* l m" "shares (with_inner ?u w) m" "lf_batch m = lf_batch l" "lf_writing m = submit_keys batch"
        using shares_state[OF S(1) task_runs_quiet[OF quiet_written]] S(3) by auto
      obtain n where n: "life_step m n" "shares (with_inner ?v w) n" "lf_batch n = lf_batch l" "lf_writing n = []"
        using shares_completes[OF m(2,4), of now] m(3) by (auto simp: with_inner_def)
      have "task_runs ?H ?v ?H t"
        unfolding t(1) using complete_outbounds_runs task_runs_quiet[OF quiet_marker] by (rule task_runs_trans)
      then obtain k where "life_step\<^sup>*\<^sup>* n k" "shares (with_inner t w) k" "lf_batch k = lf_batch l" "lf_writing k = []"
        using shares_state[OF n(2), of t] n(3,4) by (auto simp: with_inner_def)
      moreover have "life_step\<^sup>*\<^sup>* l n" using m(1) n(1) by (rule rtranclp.rtrancl_into_rtrancl)
      ultimately show ?thesis using S(2) t(2) by (intro exI[of _ k]) (auto simp: implements_def)
    next
      case Write_Closed
      then show ?thesis using A False closed ends[of ?s] by (simp add: after_write_def)
    next
      case Write_Timeout
      then show ?thesis using A False ends[of "finish _ ?s"] by (auto simp: after_write_def finish_closed)
    next
      case (Write_Error e)
      then show ?thesis using A False ends[of "finish (Some (Error_Io e)) ?s"] by (auto simp: after_write_def finish_closed)
    qed
  qed
qed


lemma writer_simulated:
  assumes "writer_step w v" "implements w l" "list_all submit_message (in_submit_queue (lf_inner l))"
  shows "\<exists>m. life_step\<^sup>*\<^sup>* l m \<and> implements v m"
proof -
  have S: "shares w l" "List.filter carries_submit (lf_batch l) = writer_batch (wd_writer w)" "lf_writing l = writer_keys (wd_writer w)"
    using assms(2) by (simp_all add: implements_def)
  from assms(1) show ?thesis
  proof (cases rule: writer_step.cases)
    case (first burst picked s now r a t)
    obtain ob b where p: "picked = (ob, b)" by force
    have P: "pick_outbound burst (wd_inner w) = Some ((ob, b), s)"
      using first(3) p by (auto simp: writer_wait_def split: if_splits)
    have A: "assemble_one now (ob, b) (assembly_new burst) s = (r, a, t)"
      using first(4) p by (auto simp: assemble_def split: prod.splits assembled.splits)
    show ?thesis
      using writer_takes[OF S(1) _ _ P A assms(3)] S(2,3) first(1,2) by (simp add: assembly_new_def)
  next
    case (closed burst)
    then have "in_phase (wd_inner w) = Phase_Closed" by (auto simp: writer_wait_def split: if_splits)
    then show ?thesis using writer_ends[OF S(1)] closed(1) by simp
  next
    case (more a now r a' t)
    show ?thesis
    proof (cases "batch_full a (wd_inner w) \<or> pick_outbound (as_burst a) (wd_inner w) = None")
      case True
      then have t: "t = wd_inner w" "writer_next r a' = Writer_Assembled a"
        using more(3) by (auto simp: Let_def split: if_splits)
      then have "implements v l"
        using assms(2) more(1,2) by (simp add: implements_def shares_def)
      then show ?thesis by blast
    next
      case False
      then obtain ob b s where p: "pick_outbound (as_burst a) (wd_inner w) = Some ((ob, b), s)" by force
      then have "assemble_one now (ob, b) a s = (r, a', t)"
        using more(3) False by (auto simp: Let_def split: prod.splits assembled.splits)
      then show ?thesis using writer_takes[OF S(1) _ _ p _ assms(3)] S(2,3) more(1,2) by simp
    qed
  next
    case (claim a batch octets t)
    have "claim_submit_attempts (as_batch a) (wd_inner w) = (batch, t)"
      using claim(3) by (auto simp: write_batch_def split: prod.splits)
    then obtain m where "life_step l m" "shares (with_inner t w) m" "lf_batch m = []" "lf_writing m = submit_keys batch"
      using shares_claims[OF S(1), of "as_batch a"] S(2,3) claim(2) by auto
    then show ?thesis using claim(1) by (intro exI[of _ m]) (simp add: implements_def r_into_rtranclp)
  next
    case (written a batch outcome continue t)
    then show ?thesis using writer_writes[OF assms(2)] by simp
  next
    case (aborted obs)
    then show ?thesis using writer_ends[OF S(1)] by simp
  qed
qed

section \<open>The other tasks\<close>

lemma implements_reader:
  assumes I: "implements w l" and R: "\<And>H. task_runs H (wd_inner w) H t" and nx: "reader_sends nx"
  shows "\<exists>m. life_step\<^sup>*\<^sup>* l m \<and> implements ((with_inner t w)\<lparr>wd_next := nx, wd_buf := buf, wd_reader := r\<rparr>) m"
  by (rule implements_runs[OF I]) (use I R nx in \<open>simp_all add: implements_def shares_def\<close>)

lemma implements_wait:
  assumes "implements w l" "\<And>H. task_runs H (wd_inner w) H t" "reader_sends nx"
  shows "\<exists>m. life_step\<^sup>*\<^sup>* l m \<and> implements ((with_inner t w)\<lparr>wd_next := nx\<rparr>) m"
  by (rule implements_runs[OF assms(1)]) (use assms in \<open>simp_all add: implements_def shares_def\<close>)

lemma reader_simulated:
  assumes "reader_step w v" "implements w l"
  shows "\<exists>m. life_step\<^sup>*\<^sup>* l m \<and> implements v m"
proof -
  have ok: "reader_sends (wd_next w)" using assms(2) by (simp add: implements_def shares_def)
  from assms(1) show ?thesis
  proof (cases rule: reader_step.cases)
    case (buffered now elapsed nx buf r t)
    then show ?thesis using implements_reader[OF assms(2)] read_buffered_runs[OF buffered(3)] by simp
  next
    case (read now elapsed outcome eof nx buf r t)
    then show ?thesis using implements_reader[OF assms(2)] read_socket_runs[OF read(5)] by simp
  next
    case (deliver_resp ob timed_out nx t)
    then show ?thesis using implements_wait[OF assms(2)] await_runs(1)[OF _ deliver_resp(3)] ok by simp
  next
    case (active_test_resp ob nx t)
    then show ?thesis using implements_wait[OF assms(2)] await_runs(2)[OF _ active_test_resp(3)] ok by simp
  next
    case (terminate_resp ob n timed_out nx t)
    then show ?thesis using implements_wait[OF assms(2)] await_runs(3)[OF _ terminate_resp(3)] ok by simp
  next
    case (terminate_written n lost timed_out nx t)
    then show ?thesis using implements_wait[OF assms(2)] await_runs(4)[OF terminate_written(3)] by simp
  next
    case (break e)
    then show ?thesis using implements_wait[OF assms(2) reader_end_runs] by simp
  next
    case aborted
    then show ?thesis
      unfolding aborted(1) by (intro implements_wait[OF assms(2)] task_runs_quiet) (simp_all split: reader_next.split)
  qed
qed

lemma timer_simulated:
  assumes "timer_step w v" "implements w l"
  shows "\<exists>m. life_step\<^sup>*\<^sup>* l m \<and> implements v m"
proof (rule implements_runs[OF assms(2)])
  have S: "reader_sends (wd_next w)" "hand_ok (wd_heartbeat w)" using assms(2) by (simp_all add: implements_def shares_def)
  show "hand_ok (wd_heartbeat v)"
    using assms(1) S(2) heartbeat_prepare_hand by (cases rule: timer_step.cases) (auto simp: hand_ok_def)
  show "task_runs (hand (wd_heartbeat w)) (wd_inner w) (hand (wd_heartbeat v)) (wd_inner v)"
    using assms(1) S(2)[unfolded hand_ok_def] heartbeat_prepare_runs heartbeat_commit_runs heartbeat_end_runs timeout_scan_runs
    by (cases rule: timer_step.cases) auto
  show "reader_sends (wd_next v)" using assms(1) S(1) by (cases rule: timer_step.cases) auto
  show "d \<in> set (wd_close w) \<or> close_sends (wd_inner v) d" if "d \<in> set (wd_close v)" for d
    using assms(1) that by (cases rule: timer_step.cases) auto
qed (use assms(1) in \<open>cases rule: timer_step.cases; simp\<close>)+

lemma close_simulated:
  assumes "close_step w v" "implements w l"
  shows "\<exists>m. life_step\<^sup>*\<^sup>* l m \<and> implements v m"
proof (rule implements_runs[OF assms(2)])
  have S: "reader_sends (wd_next w)" "list_all (close_sends (wd_inner w)) (wd_close w)" "hand_ok (wd_heartbeat w)"
    using assms(2) by (simp_all add: implements_def shares_def)
  have T: "task_runs H (wd_inner w) H (wd_inner v) \<and> wd_heartbeat v = wd_heartbeat w \<and>
      (\<forall>d. d \<in> set (wd_close v) \<longrightarrow> d \<in> set (wd_close w) \<or> close_sends (wd_inner v) d)" for H
    using assms(1)
  proof (cases rule: close_step.cases)
    case (call d c)
    then have "quiet (wd_inner w) (cx_inner c) \<and> close_sends (cx_inner c) d" using close_call_runs takeover_call_runs by blast
    then show ?thesis using call(1) task_runs_quiet by auto
  next
    case (turn xs d ys timed_out ready d' c)
    then have "close_sends (wd_inner w) d" using S(2) by simp
    then show ?thesis using close_turn_runs[OF turn(3)] turn(1,2) task_runs_keep by auto
  next
    case (events_taken b c)
    then show ?thesis using connection_quiet(5)[of "wd_conn w"] task_runs_quiet by auto
  qed (use task_runs_quiet[OF connection_quiet(1)] task_runs_quiet[OF connection_quiet(2)]
      task_runs_quiet[OF connection_quiet(3)] task_runs_quiet[OF connection_quiet(4)] in auto)
  show "task_runs (hand (wd_heartbeat w)) (wd_inner w) (hand (wd_heartbeat v)) (wd_inner v)" using T by simp
  show "hand_ok (wd_heartbeat v)" using T S(3) by simp
  show "reader_sends (wd_next v)" using assms(1) S(1) by (cases rule: close_step.cases) auto
  show "d \<in> set (wd_close w) \<or> close_sends (wd_inner v) d" if "d \<in> set (wd_close v)" for d
    using T that by blast
qed (use assms(1) in \<open>cases rule: close_step.cases; simp\<close>)+

lemma event_runs:
  assumes "event_step w v"
  shows "task_runs H (wd_inner w) H (wd_inner v)"
proof -
  have S: "quiet (wd_inner w) (without_spawned xs ys (wd_inner w))" for xs ys by (simp add: without_spawned_def)
  have Q: "task_runs H (wd_inner w) H t" if "quiet (without_spawned xs ys (wd_inner w)) t" for xs ys t
    using quiet_trans[OF S that] by (rule task_runs_quiet)
  from assms show ?thesis
  proof (cases rule: event_step.cases)
    case (overload_begin xs ys s)
    then show ?thesis using Q[OF quiet_trans[OF quiet_tickets(3) quiet_task]] by simp
  next
    case (overload_drain xs ys s timed_out ended t)
    then have "quiet s t" using quiet_tickets(4)[of s timed_out] by simp
    then have "quiet s (finish (Some Error_ChannelClosed) t)" "quiet s (with_task Overload_Drain t)"
      using quiet_trans quiet_tickets(6) quiet_task by blast+
    then show ?thesis using Q overload_drain(1,3) by simp
  next
    case (cleanup_start xs fallback ys s order task t)
    have "task_runs H (wd_inner w) H s" using task_runs_quiet[OF S] cleanup_start(3) by simp
    moreover have "task_runs H s H t" by (rule task_runs_clear[OF cleanup_start(5) _ cleanup_start(6)]) (simp add: cleanup_start(4))
    moreover have "task_runs H t H (with_task task t)" by (rule task_runs_quiet) simp
    ultimately show ?thesis using cleanup_start(1) by (auto intro: task_runs_trans)
  next
    case (cleanup_publish xs fallback c rest ys s give_up task t)
    then show ?thesis using Q[OF quiet_trans[OF quiet_chunk quiet_task]] by simp
  next
    case (cleanup_end xs ys s order)
    have "task_runs H (wd_inner w) H s" using task_runs_quiet[OF S] cleanup_end(3) by simp
    then show ?thesis using task_runs_trans[OF _ cleanup_finish_runs] cleanup_end(1) by simp
  next
    case (fallback_cancelled xs c rest ys s)
    then show ?thesis using Q[OF quiet_permit(2)] by simp
  next
    case (retry xs item ys s task t)
    then have "quiet s t" using quiet_retry by blast
    then have "quiet s (case task of None \<Rightarrow> t | Some k \<Rightarrow> with_task k t)"
      using quiet_trans[OF _ quiet_task] by (simp split: option.split)
    then show ?thesis using Q retry(1,3) by simp
  next
    case (dispatch timed_out f d discard_events c t)
    then show ?thesis using task_runs_quiet[OF quiet_dispatch[OF dispatch(2)]] by simp
  qed simp_all
qed

lemma event_simulated:
  assumes "event_step w v" "implements w l"
  shows "\<exists>m. life_step\<^sup>*\<^sup>* l m \<and> implements v m"
proof (rule implements_runs[OF assms(2)])
  have S: "reader_sends (wd_next w)" "hand_ok (wd_heartbeat w)" using assms(2) by (simp_all add: implements_def shares_def)
  have same: "wd_heartbeat v = wd_heartbeat w" "wd_next v = wd_next w" "wd_close v = wd_close w"
    using assms(1) by (cases rule: event_step.cases; simp)+
  show "task_runs (hand (wd_heartbeat w)) (wd_inner w) (hand (wd_heartbeat v)) (wd_inner v)"
    using event_runs[OF assms(1)] by (simp only: same)
  show "hand_ok (wd_heartbeat v)" "reader_sends (wd_next v)" using S same by simp_all
  show "d \<in> set (wd_close w) \<or> close_sends (wd_inner v) d" if "d \<in> set (wd_close v)" for d using that same by simp
qed (use assms(1) in \<open>cases rule: event_step.cases; simp\<close>)+

lemma tasks_simulated:
  assumes "world_step w v" "implements w l" "list_all submit_message (in_submit_queue (lf_inner l))"
  shows "\<exists>m. life_step\<^sup>*\<^sup>* l m \<and> implements v m"
  using assms(1)
  by (cases rule: world_step.cases)
    (use assms(2,3) caller_simulated writer_simulated reader_simulated timer_simulated close_simulated event_simulated in blast)+

end
