(* ===== verification/Cmpp_Feed.thy ===== *)
theory Cmpp_Feed
  imports Cmpp_Refinement Cmpp_Guarantees
begin

text \<open>
  What the other tasks do to the event pipeline: every operation is a run of it, which moves the tickets
  of deferred events between the hands of the tasks and the queues.
\<close>

section \<open>The tickets in messages\<close>

text \<open>A message with a ticket answers a DELIVER: no check of the writer skips it.\<close>

definition ob_tickets :: "outbound \<Rightarrow> nat multiset" where
  "ob_tickets ob = (case ob_event_after_write ob of None \<Rightarrow> {#} | Some (n, e) \<Rightarrow> {#n#})"

definition tickets_in :: "outbound list \<Rightarrow> nat multiset" where
  "tickets_in obs = sum_list (map ob_tickets obs)"

definition silent :: "outbound \<Rightarrow> bool" where
  "silent ob \<longleftrightarrow> ob_event_after_write ob = None"

definition answers :: "outbound \<Rightarrow> bool" where
  "answers ob \<longleftrightarrow> silent ob \<or> (\<exists>k d since n. ob = deliver_response k d since n)"

lemma answers_checks:
  "answers ob \<Longrightarrow> silent ob \<or> ob_submit_attempt ob = None \<and> ob_heartbeat_attempt ob = None \<and>
     \<not> ob_submit_drain_marker ob \<and> \<not> ob_open_only ob \<and> \<not> ob_cancel_after_peer_terminate ob"
  by (auto simp: answers_def deliver_response_def outbound_event_after_write_def outbound_plain_def)

definition queues_ok :: "inner \<Rightarrow> bool" where
  "queues_ok s \<longleftrightarrow> list_all silent (in_submit_queue s) \<and> list_all answers (in_control_queue s)"

definition queue_tickets :: "inner \<Rightarrow> nat multiset" where
  "queue_tickets s = tickets_in (in_control_queue s)"

lemma tickets_in_simps [simp]:
  "tickets_in [] = {#}" "tickets_in (ob # obs) = ob_tickets ob + tickets_in obs"
  "tickets_in (obs @ obs') = tickets_in obs + tickets_in obs'"
  by (simp_all add: tickets_in_def)

lemma silent_tickets [simp]: "silent ob \<Longrightarrow> ob_tickets ob = {#}" "silent ob \<Longrightarrow> answers ob"
  by (simp_all add: silent_def ob_tickets_def answers_def)

lemma silent_all: "list_all silent obs \<Longrightarrow> tickets_in obs = {#}"
  by (induction obs) auto

lemma silent_messages [simp]:
  "silent (outbound_plain bs)" "silent (outbound_peer_terminate_response bs n)" "silent (outbound_local_terminate bs n)"
  "silent (outbound_heartbeat bs hk)" "silent (outbound_submit bs key)" "silent (outbound_submit_drain_marker n)"
  by (simp_all add: silent_def outbound_plain_def outbound_heartbeat_def outbound_peer_terminate_response_def
      outbound_local_terminate_def outbound_tracked_def outbound_open_only_def outbound_submit_def
      outbound_submit_drain_marker_def)

lemma answer_messages [simp]:
  "answers (deliver_response k d since n)" "ob_tickets (deliver_response k d since n) = {#n#}"
  by (auto simp: answers_def ob_tickets_def deliver_response_def outbound_event_after_write_def outbound_plain_def)

section \<open>Runs of the pipeline\<close>

text \<open>
  The clean-up has taken the pending SUBMITs out: their events or the terminal one are on their way; or a
  closed connection has no clean-up left that would take them out.
\<close>

fun cleared_task :: "detached \<Rightarrow> bool" where
  "cleared_task (Cleanup_Publish _ _ _) = True"
| "cleared_task Cleanup_Finish = True"
| "cleared_task _ = False"

definition cleanup_due :: "inner \<Rightarrow> bool" where
  "cleanup_due s \<longleftrightarrow> (\<exists>fallback. Cleanup fallback \<in> set (in_tasks s))"

definition clearing :: "inner \<Rightarrow> bool" where
  "clearing s \<longleftrightarrow>
     in_event_admission s = Admission_Terminal \<or> (\<exists>task\<in>set (in_tasks s). cleared_task task) \<or>
     in_phase s = Phase_Closed \<and> \<not> cleanup_due s"

text \<open>What a change of the state publishes: the one-shots that are given an event.\<close>

definition published_in :: "inner \<Rightarrow> inner \<Rightarrow> (nat \<times> event) set" where
  "published_in s t = {(n, e). in_oneshots t n = Sent e \<and> in_oneshots s n \<noteq> Sent e}"

lemma published_same [simp]: "in_oneshots t = in_oneshots s \<Longrightarrow> published_in s t = {}"
  by (simp add: published_in_def)

lemma published_trans: "published_in s t \<subseteq> P \<Longrightarrow> published_in t u \<subseteq> P \<Longrightarrow> published_in s u \<subseteq> P"
  by (fastforce simp: published_in_def)

text \<open>
  \<open>feeds_out P\<close> says that a change of the state is a run of the pipeline in which the tickets in the hands
  of a task go from \<open>H\<close> to \<open>G\<close>, whatever else is held, and which publishes nothing outside \<open>P\<close>; the
  dispatcher, the consumer and the clean-up do not act. With \<open>feeds\<close> nothing is published.
\<close>

definition same_consumer :: "pipe \<Rightarrow> pipe \<Rightarrow> bool" where
  "same_consumer p q \<longleftrightarrow>
     pl_dispatcher q = pl_dispatcher p \<and> pl_discard q = pl_discard p \<and> pl_channel q = pl_channel p \<and>
     pl_fallback q = pl_fallback p"

definition feeds_out ::
  "(nat \<times> event) set \<Rightarrow> nat multiset \<Rightarrow> inner \<Rightarrow> nat multiset \<Rightarrow> inner \<Rightarrow> bool" where
  "feeds_out P H s G t \<longleftrightarrow>
     ((clearing t \<longrightarrow> clearing s) \<and> published_in s t \<subseteq> P) \<and>
     (queues_ok s \<longrightarrow>
        queues_ok t \<and>
        (\<forall>K p. pl_inner p = s \<longrightarrow> mset (pl_tickets p) = K + H + queue_tickets s \<longrightarrow>
           (\<exists>q. pipe_step\<^sup>*\<^sup>* p q \<and> pl_inner q = t \<and> mset (pl_tickets q) = K + G + queue_tickets t \<and>
              same_consumer p q)))"

abbreviation feeds :: "nat multiset \<Rightarrow> inner \<Rightarrow> nat multiset \<Rightarrow> inner \<Rightarrow> bool" where
  "feeds \<equiv> feeds_out {}"

lemma same_consumer_refl [simp]: "same_consumer p p"
  by (simp add: same_consumer_def)

lemma same_consumer_trans: "same_consumer p q \<Longrightarrow> same_consumer q r \<Longrightarrow> same_consumer p r"
  by (simp add: same_consumer_def)

lemma feeds_refl [simp]: "feeds_out P H s H s"
  unfolding feeds_out_def using published_same[of s s] by (blast intro: same_consumer_refl)

lemma feeds_may: "feeds_out P H s G t \<Longrightarrow> P \<subseteq> Q \<Longrightarrow> feeds_out Q H s G t"
  unfolding feeds_out_def by blast

lemma feeds_trans:
  assumes "feeds_out P H s G t" "feeds_out P G t F u"
  shows "feeds_out P H s F u"
  unfolding feeds_out_def
proof (intro impI conjI allI)
  show "clearing s" if "clearing u" using assms that by (simp add: feeds_out_def)
  show "published_in s u \<subseteq> P" 
    using assms published_trans[of s t P u] by (simp add: feeds_out_def)
next
  assume ok: "queues_ok s"
  then have okt: "queues_ok t" using assms(1) by (simp add: feeds_out_def)
  then show "queues_ok u" using assms(2) by (simp add: feeds_out_def)
  fix K and p :: pipe
  assume "pl_inner p = s" "mset (pl_tickets p) = K + H + queue_tickets s"
  then obtain q where q: "pipe_step\<^sup>*\<^sup>* p q" "pl_inner q = t" "mset (pl_tickets q) = K + G + queue_tickets t"
    "same_consumer p q" using assms(1) ok unfolding feeds_out_def by blast
  then obtain r where "pipe_step\<^sup>*\<^sup>* q r" "pl_inner r = u" "mset (pl_tickets r) = K + F + queue_tickets u"
    "same_consumer q r" using assms(2) okt unfolding feeds_out_def by blast
  then show "\<exists>r. pipe_step\<^sup>*\<^sup>* p r \<and> pl_inner r = u \<and> mset (pl_tickets r) = K + F + queue_tickets u \<and> same_consumer p r"
    using q by (blast intro: rtranclp_trans same_consumer_trans)
qed

lemma feeds_frame:
  assumes "feeds_out P H s G t"
  shows "feeds_out P (F + H) s (F + G) t"
  unfolding feeds_out_def
proof (intro impI conjI allI)
  show "clearing s" if "clearing t" using assms that by (simp add: feeds_out_def)
  show "published_in s t \<subseteq> P" using assms by (simp add: feeds_out_def)
next
  assume "queues_ok s"
  then show "queues_ok t" using assms by (simp add: feeds_out_def)
  fix K and p :: pipe
  assume "queues_ok s" "pl_inner p = s" "mset (pl_tickets p) = K + (F + H) + queue_tickets s"
  then show "\<exists>q. pipe_step\<^sup>*\<^sup>* p q \<and> pl_inner q = t \<and> mset (pl_tickets q) = K + (F + G) + queue_tickets t \<and> same_consumer p q"
    using assms[unfolded feeds_out_def, THEN conjunct2, THEN mp, THEN conjunct2, rule_format, of p "K + F"] by (simp add: ac_simps)
qed

lemma feeds_keep: "feeds_out P {#} s {#} t \<Longrightarrow> feeds_out P H s H t"
  using feeds_frame[of P "{#}" s "{#}" t H] by simp

text \<open>One step that leaves the queues alone.\<close>

definition same_queues :: "inner \<Rightarrow> inner \<Rightarrow> bool" where
  "same_queues s t \<longleftrightarrow> in_submit_queue t = in_submit_queue s \<and> in_control_queue t = in_control_queue s"

lemma same_queues_quiet: "quiet s t \<Longrightarrow> same_queues s t"
  by (simp add: quiet_def same_life_def same_tasks_def same_queues_def)

lemma feeds_step:
  assumes "same_queues s t" "clearing t \<Longrightarrow> clearing s" "published_in s t \<subseteq> P"
    and "\<And>p K. pl_inner p = s \<Longrightarrow> mset (pl_tickets p) = K + H \<Longrightarrow>
      \<exists>q. pipe_step p q \<and> pl_inner q = t \<and> mset (pl_tickets q) = K + G \<and> same_consumer p q"
  shows "feeds_out P H s G t"
  unfolding feeds_out_def
proof (intro impI conjI allI)
  show "clearing s" if "clearing t" using that by (rule assms(2))
  show "published_in s t \<subseteq> P" by (rule assms(3))
next
  have Q: "queues_ok t = queues_ok s" "queue_tickets t = queue_tickets s"
    using assms(1) by (simp_all add: same_queues_def queues_ok_def queue_tickets_def)
  assume "queues_ok s"
  then show "queues_ok t" by (simp add: Q)
  fix K and p :: pipe
  assume "pl_inner p = s" "mset (pl_tickets p) = K + H + queue_tickets s"
  then show "\<exists>q. pipe_step\<^sup>*\<^sup>* p q \<and> pl_inner q = t \<and> mset (pl_tickets q) = K + G + queue_tickets t \<and> same_consumer p q"
    using assms(4)[of p "K + queue_tickets s"] by (auto simp: Q ac_simps)
qed

text \<open>A change outside the pipeline, which may move messages between the hands and the control queue.\<close>

lemma feeds_moved:
  assumes "beside s t" "queues_ok s \<Longrightarrow> queues_ok t \<and> H + queue_tickets s = G + queue_tickets t"
  shows "feeds_out P H s G t"
  unfolding feeds_out_def
proof (intro impI conjI allI)
  show "clearing s" if "clearing t" using assms(1) that by (simp add: besideD clearing_def cleanup_due_def)
  show "published_in s t \<subseteq> P" using assms(1) by (simp add: besideD)
next
  assume ok: "queues_ok s"
  then show "queues_ok t" using assms(2) by simp
  fix K and p :: pipe
  assume p: "pl_inner p = s" "mset (pl_tickets p) = K + H + queue_tickets s"
  have "pipe_step p (p\<lparr>pl_inner := t\<rparr>)" by (rule pipe_step.environment) (simp add: p(1) assms(1))
  moreover have "mset (pl_tickets p) = K + G + queue_tickets t"
    using p(2) assms(2)[OF ok] by (simp add: add.assoc)
  ultimately show "\<exists>q. pipe_step\<^sup>*\<^sup>* p q \<and> pl_inner q = t \<and> mset (pl_tickets q) = K + G + queue_tickets t \<and> same_consumer p q"
    by (intro exI[of _ "p\<lparr>pl_inner := t\<rparr>"]) (simp add: r_into_rtranclp same_consumer_def)
qed

text \<open>And one that leaves the queues alone as well.\<close>

definition aside :: "inner \<Rightarrow> inner \<Rightarrow> bool" where
  "aside s t \<longleftrightarrow> beside s t \<and> same_queues s t"

lemma aside_refl [simp]: "aside s s"
  by (simp add: aside_def same_queues_def)

lemma aside_trans: "aside s t \<Longrightarrow> aside t u \<Longrightarrow> aside s u"
  by (auto simp: aside_def same_queues_def intro: beside_trans)

lemma aside_fold: "(\<And>x s. aside s (f x s)) \<Longrightarrow> aside s (fold f xs s)"
  by (induction xs arbitrary: s) (auto intro: aside_trans)

lemmas aside_unfold = aside_def same_queues_def beside_def same_pipe_def

lemma feeds_aside: "aside s t \<Longrightarrow> feeds_out P H s H t"
  by (rule feeds_moved) (auto simp: aside_def same_queues_def queues_ok_def queue_tickets_def)

section \<open>The steps of the pipeline that other tasks make\<close>

lemma clearing_back:
  assumes "in_event_admission t = Admission_Terminal \<Longrightarrow> in_event_admission s = Admission_Terminal"
    and "in_tasks t = in_tasks s \<or> in_tasks t = in_tasks s @ [Overload_Close]"
    and "in_phase t = Phase_Closed \<Longrightarrow> in_phase s = Phase_Closed" "clearing t"
  shows "clearing s"
  using assms by (auto simp: clearing_def cleanup_due_def)

lemma offered_clearing:
  assumes "offered sent item s t" "clearing t"
  shows "clearing s"
proof (rule clearing_back[OF _ _ _ assms(2)])
  have "overload s t" using assms(1) by (simp add: offered_def)
  then show "in_tasks t = in_tasks s \<or> in_tasks t = in_tasks s @ [Overload_Close]"
    "in_phase t = Phase_Closed \<Longrightarrow> in_phase s = Phase_Closed" by (auto simp: overload_def)
  have "in_event_admission t = in_event_admission s \<or> in_event_admission t = Admission_Overflowed"
    using assms(1) unfolding offered_def by blast
  then show "in_event_admission t = Admission_Terminal \<Longrightarrow> in_event_admission s = Admission_Terminal" by auto
qed

lemma tightened_clearing:
  assumes "tightened s t" "clearing t"
  shows "clearing s"
  by (rule clearing_back[OF _ _ _ assms(2)]) (use assms(1) tightened_sel[OF assms(1)] in \<open>auto simp: tightened_def\<close>)

lemma tickets_clearing [simp]:
  "clearing (count_dropped n s) = clearing s" "clearing (snd (Cmpp_Events.publish k e s)) = clearing s"
  "clearing (ticket_drop k s) = clearing s"
  by (simp_all add: clearing_def cleanup_due_def count_dropped_def Cmpp_Events.publish_def ticket_drop_def Let_def)

lemma finish_clearing: "clearing (finish r s) \<Longrightarrow> clearing s"
proof (cases "in_phase s = Phase_Closed")
  case False
  moreover have "cleanup_due (finish r s)" using False by (auto simp: cleanup_due_def finish_eq)
  moreover have "in_event_admission (finish r s) = in_event_admission s" "in_tasks (finish r s) = in_tasks s @ [Cleanup False]"
    using False by (simp_all add: finish_eq)
  ultimately show "clearing (finish r s) \<Longrightarrow> clearing s" by (auto simp: clearing_def)
qed (simp add: finish_eq)

lemma closing_clearing: "begin_closing b s = (started, t) \<Longrightarrow> clearing t \<Longrightarrow> clearing s"
  by (auto simp: clearing_def cleanup_due_def begin_closing_def split: if_splits)

lemma finish_oneshots: "in_oneshots (finish r s) = in_oneshots s"
  by (simp add: finish_eq)

lemma feeds_emit: "emit_event e s = (sent, t) \<Longrightarrow> feeds H s H t"
proof (rule feeds_step)
  assume E: "emit_event e s = (sent, t)"
  show "same_queues s t" using quiet_emit[of s e] E by (intro same_queues_quiet) simp
  show "clearing s" if "clearing t" using offered_clearing[OF emit_event_offered[OF E] that] .
  show "published_in s t \<subseteq> {}" using emit_event_frame[OF E] by (simp add: frame_tickets_def)
  fix p :: pipe and K
  assume "pl_inner p = s" "mset (pl_tickets p) = K + H"
  then show "\<exists>q. pipe_step p q \<and> pl_inner q = t \<and> mset (pl_tickets q) = K + H \<and> same_consumer p q"
    using pipe_step.emit[of e p sent t] E by (intro exI conjI) (erule meta_mp, simp_all add: same_consumer_def)
qed

lemma feeds_discount: "in_event_overflowed s \<Longrightarrow> feeds H s H (count_dropped 1 s)"
proof (rule feeds_step)
  show "same_queues s (count_dropped 1 s)" by (intro same_queues_quiet) simp
  show "clearing s" if "clearing (count_dropped 1 s)" using that by simp
  show "published_in s (count_dropped 1 s) \<subseteq> {}" by (simp add: count_dropped_def)
  fix p :: pipe and K
  assume "in_event_overflowed s" "pl_inner p = s" "mset (pl_tickets p) = K + H"
  then show "\<exists>q. pipe_step p q \<and> pl_inner q = count_dropped 1 s \<and> mset (pl_tickets q) = K + H \<and> same_consumer p q"
    using pipe_step.discount[of p] by (intro exI conjI) (erule meta_mp, simp_all add: same_consumer_def)
qed

lemma feeds_reserve: "reserve_deferred_event s = (Ok n, t) \<Longrightarrow> feeds {#} s {#n#} t"
proof (rule feeds_step)
  assume R: "reserve_deferred_event s = (Ok n, t)"
  show "same_queues s t" using quiet_reserve_deferred[of s] R by (intro same_queues_quiet) simp
  show "clearing s" if "clearing t" using offered_clearing[OF reserve_deferred_offered[OF R] that] .
  show "published_in s t \<subseteq> {}"
    using reserve_deferred_frame[OF R] by (auto simp: published_in_def frame_tickets_def split: if_splits)
  fix p :: pipe and K
  assume "pl_inner p = s" "mset (pl_tickets p) = K + {#}"
  then show "\<exists>q. pipe_step p q \<and> pl_inner q = t \<and> mset (pl_tickets q) = K + {#n#} \<and> same_consumer p q"
    using pipe_step.reserve[of p n t] R by (intro exI conjI) (erule meta_mp, simp_all add: same_consumer_def)
qed

lemma feeds_not_reserved: "reserve_deferred_event s = (Err r, t) \<Longrightarrow> feeds H s H t"
proof (rule feeds_step)
  assume R: "reserve_deferred_event s = (Err r, t)"
  show "same_queues s t" using quiet_reserve_deferred[of s] R by (intro same_queues_quiet) simp
  show "clearing s" if "clearing t" using offered_clearing[OF reserve_deferred_offered[OF R] that] .
  show "published_in s t \<subseteq> {}"
    using reserve_deferred_frame[OF R] by (auto simp: published_in_def frame_tickets_def split: if_splits)
  fix p :: pipe and K
  assume "pl_inner p = s" "mset (pl_tickets p) = K + H"
  then show "\<exists>q. pipe_step p q \<and> pl_inner q = t \<and> mset (pl_tickets q) = K + H \<and> same_consumer p q"
    using pipe_step.reserve_err[of p r t] R by (intro exI conjI) (erule meta_mp, simp_all add: same_consumer_def)
qed

lemma feeds_publish: "feeds_out {(n, e)} {#n#} s {#} (snd (Cmpp_Events.publish n e s))"
proof (rule feeds_step)
  show "same_queues s (snd (Cmpp_Events.publish n e s))" by (intro same_queues_quiet) simp
  show "clearing s" if "clearing (snd (Cmpp_Events.publish n e s))" using that by simp
  show "published_in s (snd (Cmpp_Events.publish n e s)) \<subseteq> {(n, e)}"
    by (auto simp: published_in_def Cmpp_Events.publish_def Let_def split: if_splits)
  obtain ok t where P: "Cmpp_Events.publish n e s = (ok, t)" by force
  fix p :: pipe and K
  assume p: "pl_inner p = s" "mset (pl_tickets p) = K + {#n#}"
  have n: "n \<in> set (pl_tickets p)" using p(2) by (metis set_mset_mset union_single_eq_member union_mset_add_mset_right add_0_right)
  have "pipe_step p (p\<lparr>pl_inner := t, pl_tickets := remove1 n (pl_tickets p), pl_published := (pl_published p)(n \<mapsto> e)\<rparr>)"
    by (rule pipe_step.publish[OF n, where ok = ok]) (simp add: P p(1))
  then show "\<exists>q. pipe_step p q \<and> pl_inner q = snd (Cmpp_Events.publish n e s) \<and> mset (pl_tickets q) = K + {#} \<and> same_consumer p q"
    by (intro exI conjI) (assumption, simp_all add: same_consumer_def P p(2))
qed

lemma feeds_ticket_drop: "feeds {#n#} s {#} (ticket_drop n s)"
proof (rule feeds_step)
  show "same_queues s (ticket_drop n s)" by (intro same_queues_quiet) simp
  show "clearing s" if "clearing (ticket_drop n s)" using that by simp
  show "published_in s (ticket_drop n s) \<subseteq> {}"
    by (auto simp: published_in_def ticket_drop_def Let_def split: if_splits)
  fix p :: pipe and K
  assume p: "pl_inner p = s" "mset (pl_tickets p) = K + {#n#}"
  have n: "n \<in> set (pl_tickets p)" using p(2) by (metis set_mset_mset union_single_eq_member union_mset_add_mset_right add_0_right)
  from pipe_step.drop_ticket[OF n]
  show "\<exists>q. pipe_step p q \<and> pl_inner q = ticket_drop n s \<and> mset (pl_tickets q) = K + {#} \<and> same_consumer p q"
    by (intro exI conjI) (assumption, simp_all add: same_consumer_def p)
qed

text \<open>The steps without a ticket.\<close>

lemma feeds_plain:
  assumes "quiet s t" "clearing t \<Longrightarrow> clearing s" "in_oneshots t = in_oneshots s" "\<And>p. pl_inner p = s \<Longrightarrow> \<exists>r. pipe_step p (p\<lparr>pl_inner := t, pl_reason := r\<rparr>)"
  shows "feeds H s H t"
proof (rule feeds_step)
  show "same_queues s t" by (rule same_queues_quiet[OF assms(1)])
  show "clearing s" if "clearing t" using that by (rule assms(2))
  show "published_in s t \<subseteq> {}" using assms(3) by simp
  fix p :: pipe and K
  assume p: "pl_inner p = s" "mset (pl_tickets p) = K + H"
  obtain r where "pipe_step p (p\<lparr>pl_inner := t, pl_reason := r\<rparr>)" using assms(4)[OF p(1)] by blast
  then show "\<exists>q. pipe_step p q \<and> pl_inner q = t \<and> mset (pl_tickets q) = K + H \<and> same_consumer p q"
    using p(2) by (intro exI conjI) (assumption, simp_all add: same_consumer_def)
qed

lemma same_reason: "p\<lparr>pl_inner := t, pl_reason := pl_reason p\<rparr> = p\<lparr>pl_inner := t\<rparr>"
  by simp

lemma feeds_drain [simp]: "feeds H s H (begin_event_drain s)"
proof (rule feeds_plain)
  fix p :: pipe assume "pl_inner p = s"
  then have "pipe_step p (p\<lparr>pl_inner := begin_event_drain s, pl_reason := pl_reason p\<rparr>)"
    using pipe_step.drain[of p] by (simp only: same_reason)
  then show "\<exists>r. pipe_step p (p\<lparr>pl_inner := begin_event_drain s, pl_reason := r\<rparr>)" by blast
qed (simp_all add: tightened_clearing[OF tightened_begin_drain] tightened_sel(7)[OF tightened_begin_drain])

lemma feeds_seal: "drain_event_tickets timed_out s = (ended, t) \<Longrightarrow> feeds H s H t"
proof (rule feeds_plain)
  assume D: "drain_event_tickets timed_out s = (ended, t)"
  then show "quiet s t" using quiet_tickets(4)[of s timed_out] by simp
  show "clearing s" if "clearing t" using tightened_clearing[OF tightened_drain_tickets[OF D] that] .
  show "in_oneshots t = in_oneshots s" by (rule tightened_sel(7)[OF tightened_drain_tickets[OF D]])
  fix p :: pipe assume "pl_inner p = s"
  then have "pipe_step p (p\<lparr>pl_inner := t, pl_reason := pl_reason p\<rparr>)"
    using pipe_step.seal[of timed_out p ended t] D by (simp only: same_reason)
  then show "\<exists>r. pipe_step p (p\<lparr>pl_inner := t, pl_reason := r\<rparr>)" by blast
qed

lemma feeds_closing: "begin_closing b s = (started, t) \<Longrightarrow> feeds H s H t"
proof (rule feeds_plain)
  assume D: "begin_closing b s = (started, t)"
  then show "quiet s t" using quiet_begin_closing[of s b] by simp
  show "clearing s" if "clearing t" using closing_clearing[OF D that] .
  show "in_oneshots t = in_oneshots s" using D by (auto simp: begin_closing_def split: if_splits)
  fix p :: pipe assume "pl_inner p = s"
  then have "pipe_step p (p\<lparr>pl_inner := t, pl_reason := pl_reason p\<rparr>)"
    using pipe_step.closing[of b p started t] D by (simp only: same_reason)
  then show "\<exists>r. pipe_step p (p\<lparr>pl_inner := t, pl_reason := r\<rparr>)" by blast
qed

lemma feeds_finish [simp]: "feeds H s H (finish r s)"
proof (rule feeds_plain)
  fix p :: pipe assume "pl_inner p = s"
  then have "run_finish r p = p\<lparr>pl_inner := finish r s, pl_reason := (if in_event_admission s = Admission_Terminal then pl_reason p else in_terminal_reason (finish r s))\<rparr>"
    by (simp add: run_finish_def Let_def finish_eq)
  then show "\<exists>x. pipe_step p (p\<lparr>pl_inner := finish r s, pl_reason := x\<rparr>)"
    using pipe_step.finish[of p r] by (intro exI) (erule subst)
qed (simp_all add: finish_clearing finish_oneshots)

section \<open>Changes outside the pipeline\<close>

lemma aside_update [simp]:
  "aside s (s\<lparr>in_registry := r\<rparr>)" "aside s (s\<lparr>in_pending_submits := m\<rparr>)" "aside s (s\<lparr>in_heartbeat_pending := h\<rparr>)"
  "aside s (s\<lparr>in_pending_terminate := p\<rparr>)" "aside s (s\<lparr>in_signals := ns\<rparr>)" "aside s (s\<lparr>in_peer_terminate_seen := b\<rparr>)"
  "aside s (s\<lparr>in_peer_terminate_response_written := b\<rparr>)" "aside s (s\<lparr>in_drain_submits_on_close := b\<rparr>)"
  "aside s (s\<lparr>in_submit_responses := n\<rparr>)" "aside s (s\<lparr>in_delivers_received := n\<rparr>)" "aside s (s\<lparr>in_unexpected_pdus := n\<rparr>)"
  "aside s (s\<lparr>in_write_batches := n, in_write_frames := n'\<rparr>)" "aside s (s\<lparr>in_heartbeat_id_generator := n\<rparr>)"
  "aside s (s\<lparr>in_submission_id_generator := n\<rparr>)" "aside s (s\<lparr>in_window_available := k\<rparr>)"
  "aside s (s\<lparr>in_manual_batch_available := k\<rparr>)" "aside s (s\<lparr>in_submit_timeouts := n\<rparr>)" "aside s (s\<lparr>in_dropped_udh := us\<rparr>)"
  by (simp_all add: aside_unfold)

lemma aside_operation [simp]:
  "aside s (remove_pending k s)" "aside s (drop_pending q s)" "aside s (remove_heartbeat k s)" "aside s (take_pending_terminate s)"
  "aside s (drop_lease l s)" "aside s (drop_udh u s)" "aside s (release_window s)" "aside s (snd (new_signal s))"
  "aside s (complete_marker marker s)" "aside s (complete_attempt now key s)" "aside s (complete_heartbeat_attempt hk now s)"
proof -
  show remove: "aside s (remove_pending k s)" by (simp add: remove_pending_def drop_pending_def aside_unfold split: option.split)
  show "aside s (drop_pending q s)" "aside s (remove_heartbeat k s)" "aside s (take_pending_terminate s)"
    "aside s (drop_lease l s)" "aside s (drop_udh u s)" "aside s (release_window s)" "aside s (snd (new_signal s))"
    "aside s (complete_marker marker s)" "aside s (complete_heartbeat_attempt hk now s)"
    by (simp_all add: drop_pending_def remove_heartbeat_def take_pending_terminate_def drop_lease_def drop_udh_def
        release_window_def new_signal_def complete_marker_def complete_heartbeat_attempt_def aside_unfold Let_def
        split: option.split)
  have "aside s (remove_pending j s)" for j by (simp add: remove_pending_def drop_pending_def aside_unfold split: option.split)
  then show "aside s (complete_attempt now key s)" by (simp add: complete_attempt_def split: option.split)
qed

lemma aside_abandon [simp]: "aside s (abandon l u s)" "aside s (abandon_manual m u s)"
proof -
  show "aside s (abandon l u s)"
    unfolding abandon_def by (rule aside_trans[OF aside_trans[OF aside_operation(5,7)] aside_operation(6)])
  have "aside s (case m of None \<Rightarrow> s | Some k \<Rightarrow> drop_lease k s)" by (simp split: option.split)
  then show "aside s (abandon_manual m u s)"
    unfolding abandon_manual_def by (rule aside_trans[OF aside_trans[OF _ aside_operation(7)] aside_operation(6)])
qed

lemma aside_match: "match_resp k s = (b, t) \<Longrightarrow> aside s t"
  by (auto simp: match_resp_def split: option.splits submit_attempt_state.splits)

lemma aside_match_all: "match_resps rs s = (handled, t) \<Longrightarrow> aside s t"
proof (induction rs arbitrary: s handled)
  case (Cons r rs)
  obtain b u where u: "match_resp (fst r) s = (b, u)" by force
  obtain kept v where v: "match_resps rs u = (kept, v)" by force
  have "v = t" using Cons.prems u v by simp
  then have "aside s t" using aside_trans[OF aside_match[OF u]] Cons.IH v by blast
  then show ?case .
qed simp

lemma aside_claim_batch: "claim_batch allowed obs s = (kept, t) \<Longrightarrow> aside s t"
proof (induction obs arbitrary: s kept)
  case (Cons ob obs)
  have c: "claim_attempt key s = (b, u) \<Longrightarrow> aside s u" for key b u
    by (auto simp: claim_attempt_def split: option.splits if_splits)
  from Cons show ?case
    by (auto split: option.splits prod.splits if_splits simp: Let_def intro: aside_trans dest: c)
qed simp

lemma aside_claim_heartbeat: "claim_heartbeat_attempt hk s = (b, t) \<Longrightarrow> aside s t"
  by (auto simp: claim_heartbeat_attempt_def split: option.splits if_splits)

lemma feeds_keep_fold: "(\<And>x s. feeds_out P H s H (f x s)) \<Longrightarrow> feeds_out P H s H (fold f xs s)"
  by (induction xs arbitrary: s) (auto intro: feeds_trans)

section \<open>Messages\<close>

lemma feeds_drop_outbound: "feeds (ob_tickets ob) s {#} (drop_outbound ob s)"
  using feeds_ticket_drop by (simp add: drop_outbound_def ob_tickets_def split: option.split prod.split)

lemma drop_silent [simp]: "silent ob \<Longrightarrow> drop_outbound ob s = s"
  by (simp add: drop_outbound_def silent_def)

lemma feeds_drop_all: "feeds (tickets_in obs) s {#} (fold drop_outbound obs s)"
proof (induction obs arbitrary: s)
  case (Cons ob obs)
  have "feeds (tickets_in obs + ob_tickets ob) s (tickets_in obs + {#}) (drop_outbound ob s)"
    by (rule feeds_frame) (rule feeds_drop_outbound)
  then have "feeds (tickets_in (ob # obs)) s (tickets_in obs) (drop_outbound ob s)" by (simp add: add.commute)
  then show ?case using Cons.IH by (auto intro: feeds_trans)
qed simp

lemma beside_queues [simp]:
  "beside s (s\<lparr>in_submit_queue := q\<rparr>)" "beside s (s\<lparr>in_control_queue := q'\<rparr>)"
  "beside s (s\<lparr>in_submit_queue := q, in_control_queue := q', in_queues_closed := b\<rparr>)"
  by (simp_all add: beside_def same_pipe_def)

lemma feeds_writer_exit: "feeds (tickets_in batch) s {#} (writer_exit batch s)"
proof -
  let ?obs = "batch @ in_submit_queue s @ in_control_queue s"
  have "feeds (tickets_in batch) s (tickets_in ?obs) (s\<lparr>in_submit_queue := [], in_control_queue := [], in_queues_closed := True\<rparr>)"
    by (rule feeds_moved) (auto simp: queues_ok_def queue_tickets_def silent_all)
  then show ?thesis unfolding writer_exit_def Let_def using feeds_drop_all by (rule feeds_trans)
qed

lemma feeds_send: "answers ob \<Longrightarrow> feeds (ob_tickets ob) s {#} (s\<lparr>in_control_queue := in_control_queue s @ [ob]\<rparr>)"
  by (rule feeds_moved) (simp_all add: queues_ok_def queue_tickets_def add.commute)

lemma feeds_receive: "in_control_queue s = ob # obs \<Longrightarrow> feeds {#} s (ob_tickets ob) (s\<lparr>in_control_queue := obs\<rparr>)"
  by (rule feeds_moved) (simp_all add: queues_ok_def queue_tickets_def)

lemma feeds_submit: "silent ob \<Longrightarrow> feeds H s H (s\<lparr>in_submit_queue := in_submit_queue s @ [ob]\<rparr>)"
  by (rule feeds_moved) (simp_all add: queues_ok_def queue_tickets_def)

lemma feeds_taken: "in_submit_queue s = ob # obs \<Longrightarrow> feeds H s H (s\<lparr>in_submit_queue := obs\<rparr>)"
  by (rule feeds_moved) (simp_all add: queues_ok_def queue_tickets_def)

lemma feeds_sent:
  assumes "send_outbound_until_closed ob s = (x, t)" "answers ob"
  shows "feeds (ob_tickets ob) s (if x = Still_Waiting then ob_tickets ob else {#}) t"
  using assms feeds_drop_outbound feeds_send by (auto simp: send_outbound_until_closed_def split: if_splits)

section \<open>The reader\<close>

definition reader_hand :: "reader_next \<Rightarrow> nat multiset" where
  "reader_hand nx = (case nx of Await_Deliver_Resp ob \<Rightarrow> ob_tickets ob | _ \<Rightarrow> {#})"

definition reader_ok :: "reader_next \<Rightarrow> bool" where
  "reader_ok nx \<longleftrightarrow>
     (case nx of
        Await_Deliver_Resp ob \<Rightarrow> answers ob
      | Await_Active_Test_Resp ob \<Rightarrow> silent ob
      | Await_Terminate_Resp ob n \<Rightarrow> silent ob
      | _ \<Rightarrow> True)"

lemma reader_hand_simps [simp]:
  "reader_hand Go_On = {#}" "reader_hand Reader_Return = {#}" "reader_hand (Reader_Break e) = {#}"
  "reader_hand (Await_Terminate_Written n) = {#}" "reader_hand (Await_Deliver_Resp ob) = ob_tickets ob"
  "reader_hand (Await_Active_Test_Resp ob) = {#}" "reader_hand (Await_Terminate_Resp ob n) = {#}"
  "reader_hand (after_terminate_resp b s) = {#}"
  by (simp_all add: reader_hand_def after_terminate_resp_def)

lemma reader_ok_simps [simp]:
  "reader_ok Go_On" "reader_ok Reader_Return" "reader_ok (Reader_Break e)" "reader_ok (Await_Terminate_Written n)"
  "reader_ok (Await_Deliver_Resp ob) = answers ob" "reader_ok (Await_Active_Test_Resp ob) = silent ob"
  "reader_ok (Await_Terminate_Resp ob n) = silent ob" "reader_ok (after_terminate_resp b s)"
  by (simp_all add: reader_ok_def after_terminate_resp_def)

lemma feeds_publish_resp: "feeds H s H (publish_resp r s)"
proof -
  let ?s = "s\<lparr>in_submit_responses := in_submit_responses s + 1\<rparr>"
  have "feeds H s H ?s" by (rule feeds_aside) simp
  moreover have "feeds H ?s H (snd (emit_event e ?s))" for e by (rule feeds_emit) (rule surjective_pairing)
  ultimately show ?thesis
    using feeds_discount[of ?s] by (auto simp: publish_resp_def Let_def intro: feeds_trans)
qed

lemma feeds_flush: "feeds H s H (flush_submit_resps resps s)"
proof -
  obtain handled t where t: "match_resps resps s = (handled, t)" by force
  have "feeds H s H t" by (rule feeds_aside) (rule aside_match_all[OF t])
  moreover have "feeds H t H (fold publish_resp handled t)" by (rule feeds_keep_fold) (rule feeds_publish_resp)
  ultimately show ?thesis by (simp add: flush_submit_resps_def t) (rule feeds_trans)
qed

lemma feeds_reader_flush: "reader_flush r s = (r', t) \<Longrightarrow> feeds H s H t"
  using feeds_flush by (auto simp: reader_flush_def)

lemma reserve_not_Panic: "reserve_deferred_event s \<noteq> (Panic, t)"
  by (auto simp: reserve_deferred_event_def Let_def split: event_admission.splits prod.splits option.splits if_splits)

lemma read_deliver_feeds:
  assumes "read_deliver now elapsed k d s = (nx, t)"
  shows "feeds {#} s (reader_hand nx) t \<and> reader_ok nx"
proof -
  let ?s = "s\<lparr>in_delivers_received := in_delivers_received s + 1\<rparr>"
  obtain r u where u: "reserve_deferred_event ?s = (r, u)" by force
  have s: "feeds {#} s {#} ?s" by (rule feeds_aside) simp
  show ?thesis
  proof (cases r)
    case (Ok n)
    have n: "feeds {#} s {#n#} u" using s feeds_reserve u Ok by (blast intro: feeds_trans)
    let ?ob = "deliver_response k d now n"
    have "feeds {#n#} u {#} (drop_outbound ?ob u)" using feeds_drop_outbound[of ?ob u] by simp
    then show ?thesis using assms n by (auto simp: read_deliver_eq u Ok Let_def split: if_splits intro: feeds_trans)
  next
    case (Err e)
    then show ?thesis
      using assms feeds_trans[OF s feeds_not_reserved] u by (auto simp: read_deliver_def)
  next
    case Panic
    then show ?thesis using u reserve_not_Panic by blast
  qed
qed

lemma read_terminate_feeds:
  assumes "read_terminate k s = (nx, t)"
  shows "feeds {#} s (reader_hand nx) t \<and> reader_ok nx"
proof -
  let ?s = "s\<lparr>in_peer_terminate_seen := True\<rparr>"
  let ?a = "snd (begin_closing False ?s)"
  have "feeds {#} s {#} ?s" by (rule feeds_aside) simp
  moreover have "feeds {#} ?s {#} ?a" by (rule feeds_closing) (rule surjective_pairing)
  moreover have "feeds {#} ?a {#} (begin_event_drain ?a)" by simp
  moreover have "feeds {#} (begin_event_drain ?a) {#} (snd (new_signal (begin_event_drain ?a)))" by (rule feeds_aside) simp
  ultimately have "feeds {#} s {#} (snd (new_signal (begin_event_drain ?a)))" by (blast intro: feeds_trans)
  then show ?thesis using assms by (auto simp: read_terminate_def Let_def split: prod.splits)
qed

lemma read_terminate_resp_feeds: "read_terminate_resp k s = (acked, t) \<Longrightarrow> feeds H s H t"
  using aside_trans[OF aside_operation(4) aside_update(5)]
  by (auto simp: read_terminate_resp_def intro!: feeds_aside split: option.splits if_splits)

lemma read_frame_feeds:
  assumes "read_frame now elapsed fr r s = (nx, r', t)"
  shows "feeds {#} s (reader_hand nx) t \<and> reader_ok nx"
proof -
  obtain r1 u where u: "reader_flush r s = (r1, u)" by force
  have f: "feeds {#} s {#} u" by (rule feeds_reader_flush[OF u])
  have q: "feeds {#} s G v" if "feeds {#} u G v" for G v using f that by (rule feeds_trans)
  have a: "feeds {#} s {#} v" if "aside u v" for v using q[OF feeds_aside[OF that]] .
  note R = assms[unfolded read_frame_def Let_def]
  show ?thesis
  proof (cases "fr_pdu fr")
    case (Pdu_SubmitResp resp)
    then show ?thesis using R by (auto simp: feeds_reader_flush split: if_splits prod.splits)
  next
    case (Pdu_Deliver d)
    then have "read_deliver now elapsed (fr_sequence_id fr) d u = (nx, t)" using R u by (auto split: prod.splits)
    then show ?thesis using read_deliver_feeds q by blast
  next
    case Pdu_ActiveTestResp
    then show ?thesis using R u a[OF aside_operation(3)] by auto
  next
    case Pdu_Terminate
    then have "read_terminate (fr_sequence_id fr) u = (nx, t)" using R u by (auto split: prod.splits)
    then show ?thesis using read_terminate_feeds q by blast
  next
    case Pdu_TerminateResp
    then obtain acked where "read_terminate_resp (fr_sequence_id fr) u = (acked, t)" "nx = Go_On"
      using R u by (auto split: prod.splits)
    then show ?thesis using q[OF read_terminate_resp_feeds] by simp
  qed (use R u f a[OF aside_update(11)] in auto)
qed

lemma read_buffered_feeds:
  assumes "read_buffered now elapsed buf r s = Some (nx, buf', r', t)"
  shows "feeds {#} s (reader_hand nx) t \<and> reader_ok nx"
proof -
  obtain r1 u where u: "reader_flush r s = (r1, u)" by force
  obtain x rest where x: "codec_decode buf = (x, rest)" by force
  have "(nx, t) = (Reader_Return, u) \<or> (\<exists>e. (nx, t) = (Reader_Break e, u)) \<or> (nx, t) = (Reader_Return, s) \<or>
      (\<exists>fr. read_frame now elapsed fr r s = (nx, r', t))"
    using assms u by (auto simp: read_buffered_def x split: if_splits res.splits option.splits prod.splits)
  then show ?thesis using feeds_reader_flush[OF u] read_frame_feeds by auto
qed

lemma read_socket_feeds:
  assumes "read_socket eof outcome buf r s = (nx, buf', r', t)"
  shows "feeds {#} s (reader_hand nx) t \<and> reader_ok nx"
proof -
  obtain r1 u where u: "reader_flush r s = (r1, u)" by force
  then have "t = u \<and> reader_ok nx \<and> reader_hand nx = {#}"
    using assms by (auto simp: read_socket_def split: read_outcome.splits option.splits if_splits)
  then show ?thesis using feeds_reader_flush[OF u] by simp
qed

lemma await_deliver_feeds:
  assumes "await_deliver_resp ob timed_out s = Some (nx, t)" "answers ob"
  shows "feeds (ob_tickets ob) s (reader_hand nx) t \<and> reader_ok nx"
proof -
  obtain x u where u: "send_outbound_until_closed ob s = (x, u)" by force
  note S = feeds_sent[OF u assms(2)]
  then have "x = Still_Waiting \<Longrightarrow> feeds (ob_tickets ob) s {#} (drop_outbound ob u)"
    using feeds_drop_outbound by (auto intro: feeds_trans)
  then show ?thesis using assms(1) S by (cases x) (auto simp: await_deliver_resp_def u split: if_splits)
qed

lemma await_silent_feeds:
  "await_active_test_resp ob s = Some (nx, t) \<Longrightarrow> silent ob \<Longrightarrow> feeds {#} s (reader_hand nx) t \<and> reader_ok nx"
  "await_terminate_resp ob n timed_out s = Some (nx, t) \<Longrightarrow> silent ob \<Longrightarrow> feeds {#} s (reader_hand nx) t \<and> reader_ok nx"
  "await_terminate_written n lost timed_out s = Some (nx, t) \<Longrightarrow> feeds {#} s (reader_hand nx) t \<and> reader_ok nx"
proof -
  obtain x u where u: "send_outbound_until_closed ob s = (x, u)" by force
  have S: "feeds {#} s {#} u" if "silent ob" using feeds_sent[OF u] that by (simp split: if_splits)
  then show "await_active_test_resp ob s = Some (nx, t) \<Longrightarrow> silent ob \<Longrightarrow> feeds {#} s (reader_hand nx) t \<and> reader_ok nx"
    "await_terminate_resp ob n timed_out s = Some (nx, t) \<Longrightarrow> silent ob \<Longrightarrow> feeds {#} s (reader_hand nx) t \<and> reader_ok nx"
    by (cases x; auto simp: await_active_test_resp_def await_terminate_resp_def u split: if_splits)+
  show "await_terminate_written n lost timed_out s = Some (nx, t) \<Longrightarrow> feeds {#} s (reader_hand nx) t \<and> reader_ok nx"
    by (auto simp: await_terminate_written_def split: if_splits)
qed

section \<open>The timers\<close>

lemma heartbeat_prepare_feeds:
  assumes "heartbeat_prepare s = (r, continue, t)"
  shows "feeds H s H t"
proof (cases "in_phase s \<noteq> Phase_Open \<or> in_heartbeat_pending s \<noteq> Map.empty")
  case True
  then show ?thesis using assms by (auto simp: heartbeat_prepare_def split: if_splits)
next
  case False
  obtain x q where q: "reserve_next (in_registry s) = (x, q)" by force
  have a: "aside s (s\<lparr>in_registry := q\<rparr>)" by simp
  show ?thesis
  proof (cases x)
    case None
    then have "t = finish (Some Error_ChannelClosed) (s\<lparr>in_registry := q\<rparr>)"
      using assms False q by (auto simp: heartbeat_prepare_def)
    then show ?thesis using feeds_trans[OF feeds_aside[OF a] feeds_finish] by simp
  next
    case (Some l)
    then have "t = (s\<lparr>in_registry := q\<rparr>)\<lparr>in_heartbeat_id_generator := in_heartbeat_id_generator s + 1\<rparr>"
      using assms False q by (auto simp: heartbeat_prepare_def next_heartbeat_id_def)
    then show ?thesis using feeds_aside[OF aside_trans[OF a aside_update(13)]] by simp
  qed
qed

text \<open>A heartbeat message goes into the control queue together with its entry.\<close>

lemma feeds_heartbeat:
  "silent ob \<Longrightarrow> feeds H s H (s\<lparr>in_heartbeat_pending := m, in_control_queue := in_control_queue s @ [ob]\<rparr>)"
  by (rule feeds_moved) (simp_all add: beside_def same_pipe_def queues_ok_def queue_tickets_def)

lemma heartbeat_commit_feeds: "heartbeat_commit l key s = (continue, t) \<Longrightarrow> feeds H s H t"
  by (auto simp: heartbeat_commit_def feeds_heartbeat feeds_aside split: if_splits)

lemma queues_lost_feeds: "feeds H s H (queues_lost s)"
  by (simp add: queues_lost_def)

lemma heartbeat_end_feeds: "feeds H s H (heartbeat_end l s)"
  unfolding heartbeat_end_def using queues_lost_feeds feeds_aside[OF aside_operation(5)] by (rule feeds_trans)

lemma timeout_heartbeat_feeds: "timeout_heartbeat key s = (ended, t) \<Longrightarrow> feeds H s H t"
  using feeds_trans[OF feeds_aside[OF aside_operation(3)] feeds_finish] feeds_heartbeat queues_lost_feeds
  by (auto simp: requeue_heartbeat_def elim!: timeout_heartbeat_cases)

lemma give_up_feeds:
  assumes "give_up_submit key s = (continue, t)"
  shows "feeds H s H t"
proof (cases "still_awaiting key s")
  case None
  then show ?thesis using assms by (simp add: give_up_submit_def)
next
  case (Some q)
  obtain b u where u: "emit_event (SubmitTimeout (ak_sequence_id key) (ak_attempt key)) s = (b, u)" by force
  have e: "feeds H s H u" by (rule feeds_emit[OF u])
  show ?thesis
  proof (cases "b \<and> in_pending_submits u (ak_sequence_id key) \<noteq> None")
    case False
    then have "t = u" using assms Some by (auto simp: give_up_submit_def u split: bool.splits option.splits)
    then show ?thesis using e by simp
  next
    case True
    then obtain p where p: b "in_pending_submits u (ak_sequence_id key) = Some p" by auto
    obtain isolated l r where r: "lease_retire (ps_sequence_lease p) (in_registry u) = (isolated, l, r)" by (metis prod_cases3)
    let ?v = "u\<lparr>in_registry := r, in_pending_submits := (in_pending_submits u)(ak_sequence_id key := None)\<rparr>"
    let ?w = "drop_pending (p\<lparr>ps_sequence_lease := l\<rparr>) ?v"
    let ?x = "?w\<lparr>in_submit_timeouts := in_submit_timeouts ?w + 1\<rparr>"
    have "aside u ?v" using aside_trans[OF aside_update(1,2)] by simp
    then have "aside u ?w" by (rule aside_trans) simp
    then have "aside u ?x" by (rule aside_trans) simp
    then have "feeds H s H ?x" by (rule feeds_trans[OF e feeds_aside])
    moreover have "t = (if isolated then ?x else finish (Some Error_ChannelClosed) ?x)"
      using assms Some p by (auto simp: give_up_submit_def u r Let_def split: if_splits)
    ultimately show ?thesis using feeds_trans[OF _ feeds_finish] by simp
  qed
qed

lemma retry_feeds: "feeds H s H (requeue_submit key s)"
proof -
  have r: "feeds H s H (s\<lparr>in_pending_submits := m, in_submit_queue := in_submit_queue s @ [outbound_submit bs k],
      in_submit_retries := n\<rparr>)" for m bs k n
    by (rule feeds_moved) (simp_all add: beside_def same_pipe_def queues_ok_def queue_tickets_def)
  then show ?thesis by (simp add: requeue_submit_def Let_def split: option.split)
qed

lemma timeout_submit_feeds: "timeout_submit key s = (continue, t) \<Longrightarrow> feeds H s H t"
  using give_up_feeds retry_feeds queues_lost_feeds by (auto elim!: timeout_submit_cases)

lemma timeout_submits_feeds: "timeout_submits keys s = (continue, t) \<Longrightarrow> feeds H s H t"
proof (induction keys arbitrary: s)
  case (Cons key keys)
  obtain b u where u: "timeout_submit key s = (b, u)" by force
  have "u = t \<or> feeds H u H t" using Cons.prems Cons.IH u by (cases b) auto
  then show ?case using timeout_submit_feeds[OF u, of H] by (auto intro: feeds_trans)
qed simp

lemma timeout_scan_feeds:
  assumes "timeout_scan now heartbeat_order submit_order s = (continue, t)"
  shows "feeds H s H t"
proof (cases "in_phase s \<noteq> Phase_Open")
  case False
  obtain b u where u: "(case expired_heartbeat now heartbeat_order s of
      None \<Rightarrow> (False, s) | Some key \<Rightarrow> timeout_heartbeat key s) = (b, u)" by force
  then have "feeds H s H u" using timeout_heartbeat_feeds by (auto split: option.splits)
  moreover have "t = u \<or> timeout_submits (expired_submits now submit_order u) u = (continue, t)"
    using assms False by (auto simp: timeout_scan_def u split: if_splits)
  ultimately show ?thesis using timeout_submits_feeds by (auto intro: feeds_trans)
qed (use assms in \<open>simp add: timeout_scan_def\<close>)

section \<open>The close\<close>

fun close_silent :: "close_task \<Rightarrow> bool" where
  "close_silent (Drain_Send ob n) = silent ob"
| "close_silent (Terminate_Send ob n rx k) = silent ob"
| "close_silent _ = True"

lemma graceful_terminate_feeds:
  assumes "graceful_terminate s = (d, t)"
  shows "feeds H s H t \<and> close_silent d"
proof -
  let ?s = "s\<lparr>in_drain_submits_on_close := False\<rparr>"
  obtain x q where q: "reserve_next (in_registry ?s) = (x, q)" by force
  have a: "aside s (?s\<lparr>in_registry := q\<rparr>)" using aside_trans[OF aside_update(8,1)] by simp
  show ?thesis
  proof (cases x)
    case None
    then have "t = finish (Some Error_ChannelClosed) (?s\<lparr>in_registry := q\<rparr>)" "d = Reap_Closed"
      using assms q by (auto simp: graceful_terminate_def)
    then show ?thesis using feeds_trans[OF feeds_aside[OF a] feeds_finish] by simp
  next
    case (Some l)
    let ?b = "snd (new_signal (?s\<lparr>in_registry := q\<rparr>))"
    let ?p = "\<lparr>pt_sequence_id = lease_id l, pt_response_tx = fst (new_signal (?s\<lparr>in_registry := q\<rparr>)), pt_written = False,
      pt_sequence_lease = l\<rparr>"
    let ?d = "(take_pending_terminate ?b)\<lparr>in_pending_terminate := Some ?p\<rparr>"
    have t: "t = snd (new_signal ?d)" "close_silent d"
      using assms q Some by (auto simp: graceful_terminate_def Let_def split: prod.splits)
    have "aside s ?b" using a by (rule aside_trans) simp
    then have "aside s (take_pending_terminate ?b)" by (rule aside_trans) simp
    then have "aside s ?d" by (rule aside_trans) simp
    then have "aside s t" unfolding t(1) by (rule aside_trans) simp
    then show ?thesis using t(2) feeds_aside by simp
  qed
qed

lemma graceful_turn_feeds:
  assumes ok: "close_silent d" and G: "graceful_turn timed_out ready d s = (d', t)"
  shows "feeds H s H t \<and> close_silent d'"
proof (cases d)
  case (Drain_Send ob n)
  obtain x u where u: "send_marker_until_closed ob s = (x, u)" by force
  have "feeds H s H u" "x \<noteq> Sent_Ok \<Longrightarrow> u = s"
    using u ok Drain_Send feeds_submit[of ob H s] by (auto simp: send_marker_until_closed_def split: if_splits)
  then show ?thesis
    using G ok graceful_terminate_feeds[of s] unfolding Drain_Send graceful_turn_def
    by (cases x) (auto simp: u split: if_splits)
next
  case (Drain_Wait n)
  then show ?thesis using G graceful_terminate_feeds[of s] by (auto simp: graceful_turn_def split: if_splits)
next
  case (Terminate_Send ob n rx k)
  obtain x u where u: "send_outbound_until_closed ob s = (x, u)" by force
  have ob: "silent ob" using ok Terminate_Send by simp
  then have "feeds {#} s {#} u" using feeds_sent[OF u] by (simp split: if_splits)
  then have f: "feeds H s H u" "feeds H s H (begin_event_drain u)"
    using feeds_trans[OF _ feeds_drain] by (auto intro: feeds_keep)
  then show ?thesis
    using G ob unfolding Terminate_Send graceful_turn_def
    by (cases x) (auto simp: u graceful_tickets_def split: if_splits)
next
  case (Drain_Tickets j)
  obtain b u where u: "drain_event_tickets timed_out s = (b, u)" by force
  note f = feeds_seal[OF u, of H] feeds_trans[OF feeds_seal[OF u, of H] feeds_finish]
  show ?thesis
    using G f unfolding Drain_Tickets graceful_turn_def by (cases b) (auto simp: u split: option.splits)
next
  case (Forget_Terminate k)
  then show ?thesis
    using G feeds_aside[OF aside_operation(4)] by (auto simp: graceful_turn_def split: option.splits if_splits)
qed (use G in \<open>auto simp: graceful_turn_def graceful_tickets_def split: if_splits\<close>)

text \<open>The reaping spawns the fallback clean-up; all else it does is a run of the pipeline.\<close>

lemma close_turn_feeds:
  assumes "close_turn timed_out ready d c = (d', c')" "close_silent d"
  shows "close_silent d' \<and>
    ((\<forall>H. feeds H (cx_inner c) H (cx_inner c')) \<or>
     d = Reap_Cleanup \<and> d' = Reap_Fallback \<and> \<not> in_cleanup_complete (cx_inner c) \<and>
       cx_inner c' = with_task (Cleanup True) (cx_inner c))"
proof (cases "reaping d")
  case True
  then have R: "reap_turn timed_out ready d c = (d', c')" using assms(1) by (simp add: close_turn_def)
  have same: ?thesis if "cx_inner c' = cx_inner c" "close_silent d'" using that by simp
  have "reaping d'" using R True by (cases d) (auto simp: reap_turn_def Let_def split: if_splits)
  then have d': "close_silent d'" by (cases d') simp_all
  show ?thesis
  proof (cases d)
    case Reap_Closed
    then have "cx_inner c' = cx_inner c \<or> c' = c\<lparr>cx_inner := finish (close_reason (cx_inner c)) (cx_inner c)\<rparr>"
      using R by (simp add: reap_turn_def Let_def split: if_splits)
    then show ?thesis using d' same by (elim disjE) simp_all
  next
    case Reap_Cleanup
    then have "cx_inner c' = cx_inner c \<or> \<not> in_cleanup_complete (cx_inner c) \<and> d' = Reap_Fallback \<and>
        c' = c\<lparr>cx_inner := with_task (Cleanup True) (cx_inner c)\<rparr>"
      using R by (simp add: reap_turn_def with_task_def Let_def split: if_splits) auto
    then show ?thesis using d' same Reap_Cleanup by (elim disjE) simp_all
  qed (rule same[OF _ d'], use R True in \<open>auto simp: reap_turn_def Let_def split: if_splits\<close>)+
next
  case False
  then show ?thesis using assms graceful_turn_feeds by (auto simp: close_turn_def split: prod.splits)
qed

lemma close_call_feeds:
  assumes "close_call c = (Some d, c')"
  shows "feeds H (cx_inner c) H (cx_inner c') \<and> close_silent d \<and> 5 \<le> waits_left d"
proof -
  obtain b s where s: "begin_closing True (cx_inner c) = (b, s)" by force
  have "feeds H (cx_inner c) H s" by (rule feeds_closing[OF s])
  moreover have "feeds H (cx_inner c) H (begin_event_drain s)" using calculation feeds_drain by (rule feeds_trans)
  then have "feeds H (cx_inner c) H (snd (new_signal (begin_event_drain s)))"
    by (rule feeds_trans) (rule feeds_aside, simp)
  ultimately show ?thesis
    using assms s by (cases b) (auto simp: close_call_def graceful_start_def Let_def split: if_splits prod.splits)
qed

lemma takeover_call_feeds:
  "takeover_call c = (Some d, c') \<Longrightarrow> feeds H (cx_inner c) H (cx_inner c') \<and> close_silent d \<and> 5 \<le> waits_left d"
  by (auto simp: takeover_call_def split: if_splits)

lemma connection_feeds:
  "feeds H (cx_inner c) H (cx_inner (handle_clone c))" "feeds H (cx_inner c) H (cx_inner (handle_drop c))"
  "feeds H (cx_inner c) H (cx_inner (worker_drop c))" "feeds H (cx_inner c) H (cx_inner (takeover_drop c))"
  "feeds H (cx_inner c) H (cx_inner (snd (take_events c)))"
  by (simp_all add: handle_clone_def handle_drop_def worker_drop_def takeover_drop_def take_events_def Let_def)

section \<open>The callers\<close>

lemma aside_acquire: "acquire_window s = Some (r, t) \<Longrightarrow> aside s t" "acquire_manual_batch s = Some (r, t) \<Longrightarrow> aside s t"
  by (auto simp: acquire_window_def acquire_manual_batch_def split: if_splits)

lemma aside_submit_end: "aside s (submit_end c s)"
proof -
  let ?a = "case sc_leases c of None \<Rightarrow> s | Some ls \<Rightarrow> fold drop_lease ls s"
  have "aside s ?a" using aside_fold[of drop_lease] by (simp split: option.split)
  then have "aside s (drop_udh (sc_udh c) ?a)" by (rule aside_trans) simp
  moreover have "aside u (release_manual_batch u)" for u by (simp add: release_manual_batch_def)
  ultimately show ?thesis unfolding submit_end_def Let_def by (auto intro: aside_trans)
qed

lemma aside_submit_fail: "submit_fail e c s = (d, t) \<Longrightarrow> aside s t"
  using aside_submit_end by (auto simp: submit_fail_def)

lemma aside_submit_segment: "submit_segment c s = (d, t) \<Longrightarrow> aside s t"
  using aside_submit_end aside_submit_fail by (auto simp: submit_segment_def split: if_splits option.splits list.splits)

lemma aside_leases: "submit_leases base n u s = (r, t) \<Longrightarrow> aside s t"
  using aside_trans[OF aside_update(1) aside_operation(6)]
  by (auto simp: submit_leases_def split: option.splits prod.splits)

lemma aside_submit_reserve:
  assumes "submit_reserve pool c s = (d, t)"
  shows "aside s t"
proof -
  have e: "aside s (submit_end c' u)" if "aside s u" for c' u using that aside_submit_end by (rule aside_trans)
  have g: "aside s t" if "aside s u" "submit_segment c' u = (d, t)" for c' u
    using that(1) aside_submit_segment[OF that(2)] by (rule aside_trans)
  show ?thesis
    using assms g e[OF aside_leases] aside_submit_end
    by (auto simp: submit_reserve_def split: res.splits prod.splits dest: aside_leases)
qed

lemma submit_begin_feeds: "submit_begin pool options content base counter s = (d, t) \<Longrightarrow> feeds H s H t"
  by (auto simp: submit_begin_def Let_def intro!: feeds_aside dest: aside_submit_reserve split: res.splits if_splits)

lemma submit_prepare_feeds:
  assumes "submit_prepare gbk manual template plan index reference u s = (r, t)"
  shows "feeds H s H t"
proof (cases "plan_segment gbk plan index reference")
  case (Ok g)
  obtain l v where l: "(case manual of Some l \<Rightarrow> (Some l, s)
      | None \<Rightarrow> (case reserve_next (in_registry s) of (l, r) \<Rightarrow> (l, s\<lparr>in_registry := r\<rparr>))) = (l, v)" by force
  have v: "aside s v" using l by (auto split: option.splits prod.splits)
  show ?thesis
  proof (cases l)
    case None
    then have t: "t = drop_udh u (release_window (finish (Some Error_ChannelClosed) v))"
      using assms by (simp add: submit_prepare_def Ok Let_def l)
    have "aside w (drop_udh u (release_window w))" for w by (rule aside_trans[OF aside_operation(7,6)])
    then show ?thesis unfolding t using v feeds_aside feeds_finish feeds_trans by meson
  next
    case (Some k)
    have "aside v t"
      using assms by (auto simp: submit_prepare_def Ok Let_def l Some next_submission_id_def split: res.splits)
    then show ?thesis using feeds_aside aside_trans[OF v] by blast
  qed
qed (use assms in \<open>auto simp: submit_prepare_def feeds_aside\<close>)

lemma submit_commit_feeds:
  assumes "submit_commit b s = (r, t)"
  shows "feeds H s H t"
proof (cases "in_phase s = Phase_Open")
  case False
  then show ?thesis using assms by (auto simp: submit_commit_def Let_def feeds_aside)
next
  case True
  obtain isolated l q where q: "(if lease_manual (sb_lease b) then lease_retire (sb_lease b) (in_registry s)
      else (True, sb_lease b, in_registry s)) = (isolated, l, q)" by (metis prod_cases3)
  let ?s = "s\<lparr>in_registry := q\<rparr>"
  have a: "aside s ?s" by simp
  show ?thesis
  proof (cases isolated)
    case False
    then have t: "t = abandon l (sb_udh b) (finish (Some Error_ChannelClosed) ?s)"
      using assms True q by (auto simp: submit_commit_def Let_def)
    have "feeds H s H (finish (Some Error_ChannelClosed) ?s)" using feeds_aside[OF a] feeds_finish by (rule feeds_trans)
    then show ?thesis unfolding t using feeds_aside[OF aside_abandon(1)] by (rule feeds_trans)
  next
    case isolated: True
    let ?k = "ak_sequence_id (sb_key b)"
    let ?p = "\<lparr>ps_submission_id = ak_submission_id (sb_key b), ps_packet = sb_bytes b, ps_state = Queued 1,
      ps_udh_lease = map_option mark_exposed (sb_udh b), ps_sequence_lease = l\<rparr>"
    let ?u = "insert_pending ?k ?p ?s"
    have "aside ?s ?u"
      using aside_trans[OF aside_operation(2) aside_update(2)]
      by (simp add: insert_pending_def Let_def split: option.split)
    then have u: "aside s ?u" using aside_trans[OF a] by blast
    have t: "t = ?u\<lparr>in_submits_admitted := in_submits_admitted ?u + 1,
        in_submit_queue := in_submit_queue ?u @ [outbound_submit (sb_bytes b) (sb_key b)]\<rparr>"
      using assms True q isolated by (auto simp: submit_commit_def Let_def)
    have "feeds H ?u H t"
      unfolding t by (rule feeds_moved) (simp_all add: beside_def same_pipe_def queues_ok_def queue_tickets_def)
    then show ?thesis using feeds_trans[OF feeds_aside[OF u]] by blast
  qed
qed

lemma submit_window_feeds:
  assumes "submit_window gbk lease c s = (d, t)"
  shows "feeds H s H t"
proof (cases "acquire_window s")
  case (Some x)
  obtain r u where x: "x = (r, u)" by force
  have a: "feeds H s H u" using Some x aside_acquire(1) feeds_aside by blast
  have e: "feeds H s H (submit_end c v)" if "feeds H s H v" for v
    using that feeds_aside[OF aside_submit_end] by (rule feeds_trans)
  have f: "feeds H s H w" if "feeds H s H v" "submit_fail e c v = (d', w)" for e v w d'
    using that(1) feeds_aside[OF aside_submit_fail[OF that(2)]] by (rule feeds_trans)
  show ?thesis
  proof (cases r)
    case (Ok y)
    obtain z v where z: "submit_prepare gbk lease (build_submit_template (sc_options c)) (sc_plan c) (sc_index c)
        (map_option ul_reference (sc_udh c)) (sc_udh c) u = (z, v)" by force
    have v: "feeds H s H v" using a submit_prepare_feeds[OF z] by (rule feeds_trans)
    then show ?thesis using assms f[OF v] e[OF v] by (cases z) (auto simp: submit_window_def Some x Ok z)
  next
    case (Err err)
    let ?v = "drop_udh (sc_udh c) (case lease of None \<Rightarrow> u | Some l \<Rightarrow> drop_lease l u)"
    have "aside u (case lease of None \<Rightarrow> u | Some l \<Rightarrow> drop_lease l u)" by (simp split: option.split)
    then have "aside u ?v" by (rule aside_trans) simp
    then have "feeds H s H ?v" by (rule feeds_trans[OF a feeds_aside])
    from f[OF this] show ?thesis using assms by (simp add: submit_window_def Some x Err)
  next
    case Panic
    then show ?thesis using assms e[OF a] by (simp add: submit_window_def Some x)
  qed
qed (use assms in \<open>simp add: submit_window_def\<close>)

lemma submit_slot_feeds:
  assumes "submit_slot b c s = (d, t)"
  shows "feeds H s H t"
proof -
  have e: "feeds H s H (submit_end c v)" if "feeds H s H v" for v
    using that feeds_aside[OF aside_submit_end] by (rule feeds_trans)
  have f: "feeds H s H w" if "feeds H s H v" "submit_fail e c v = (d', w)" for e v w d'
    using that(1) feeds_aside[OF aside_submit_fail[OF that(2)]] by (rule feeds_trans)
  have ab: "feeds H s H (abandon (sb_lease b) (sb_udh b) s)" by (rule feeds_aside) simp
  obtain r u where r: "submit_commit b s = (r, u)" by force
  have u: "feeds H s H u" by (rule submit_commit_feeds[OF r])
  have g: "feeds H s H w" if "submit_segment c' u = (d', w)" for c' w d'
    using u feeds_aside[OF aside_submit_segment[OF that]] by (rule feeds_trans)
  show ?thesis
  proof (cases "await_submit_slot s")
    case (Some x)
    show ?thesis
    proof (cases x)
      case (Ok y)
      then show ?thesis using assms Some f[OF u] e[OF u] g by (cases r) (auto simp: submit_slot_def r)
    qed (use assms Some f[OF ab] e[OF ab] in \<open>auto simp: submit_slot_def\<close>)
  qed (use assms in \<open>simp add: submit_slot_def\<close>)
qed

lemma submit_turn_feeds:
  assumes "submit_turn gbk pool d s = (d', t)"
  shows "feeds H s H t"
proof (cases d)
  case (Submitting c w)
  show ?thesis
  proof (cases w)
    case Await_Batch
    have "aside s t"
      using assms Submitting Await_Batch aside_trans[OF aside_acquire(2) aside_submit_reserve] aside_acquire(2)
      by (auto simp: submit_turn_def split: option.splits res.splits)
    then show ?thesis by (rule feeds_aside)
  qed (use assms Submitting submit_window_feeds submit_slot_feeds in \<open>auto simp: submit_turn_def\<close>)
qed (use assms in \<open>simp add: submit_turn_def\<close>)

lemma submit_cancel_feeds: "feeds H s H (submit_cancel d s)"
proof (rule feeds_aside)
  have e: "aside s (submit_end c u)" if "aside s u" for c u using that aside_submit_end by (rule aside_trans)
  have l: "aside s (drop_udh u (case lease of None \<Rightarrow> s | Some l \<Rightarrow> drop_lease l s))" for u lease
    by (rule aside_trans[of _ "case lease of None \<Rightarrow> s | Some l \<Rightarrow> drop_lease l s"]) (simp_all split: option.split)
  show "aside s (submit_cancel d s)"
    using e[OF l] e[OF aside_abandon(1)] by (simp add: submit_cancel_def split: submit_task.split submit_wait.split)
qed

section \<open>The writer\<close>

text \<open>What the writer has in its hands: the batch it assembles or writes.\<close>

fun writer_hand :: "writer \<Rightarrow> outbound list" where
  "writer_hand (Writer_Assembling a) = as_batch a"
| "writer_hand (Writer_Assembled a) = as_batch a"
| "writer_hand (Writer_Writing a batch) = batch"
| "writer_hand _ = []"

text \<open>The message that is picked; from the submit queue it carries no ticket.\<close>

lemma pick_feeds:
  assumes "pick_outbound burst s = Some ((ob, b), t)" "queues_ok s"
  shows "feeds {#} s (ob_tickets ob) t \<and> answers ob \<and> (b \<longrightarrow> silent ob)"
proof -
  have "b \<and> (\<exists>obs. in_submit_queue s = ob # obs \<and> t = s\<lparr>in_submit_queue := obs\<rparr>) \<or>
      \<not> b \<and> (\<exists>obs. in_control_queue s = ob # obs \<and> t = s\<lparr>in_control_queue := obs\<rparr>)"
    using assms(1)
    by (auto simp: pick_outbound_def take_submit_def take_control_def or_else_def split: if_splits option.splits list.splits)
  then show ?thesis
    using assms(2) feeds_taken[of s ob _ "{#}"] feeds_receive[of s ob] by (auto simp: queues_ok_def)
qed

text \<open>One message in the assembly: it joins the batch, or it is skipped and carries no ticket, or the writer ends.\<close>

lemma assemble_one_feeds:
  assumes A: "assemble_one now (ob, b) a s = (r, a', t)"
    and ob: "answers ob" "b \<Longrightarrow> silent ob" and batch: "list_all answers (as_batch a)"
  shows "feeds (tickets_in (as_batch a) + ob_tickets ob) s (tickets_in (writer_hand (writer_next r a'))) t \<and>
    list_all answers (writer_hand (writer_next r a'))"
proof -
  let ?H = "tickets_in (as_batch a) + ob_tickets ob"
  obtain c u where u: "(case ob_heartbeat_attempt ob of None \<Rightarrow> (True, s) | Some key \<Rightarrow> claim_heartbeat_attempt key s) = (c, u)"
    by force
  have c: "\<not> c \<Longrightarrow> silent ob" using u answers_checks[OF ob(1)] by (auto split: option.splits)
  have su: "feeds ?H s ?H u" using u aside_claim_heartbeat by (auto intro!: feeds_aside split: option.splits)
  have x: "feeds ?H s {#} (writer_exit (as_batch a @ [ob]) (finish e v))" if "feeds ?H s ?H v" for e v
  proof -
    have "feeds ?H s ?H (finish e v)" using that feeds_finish by (rule feeds_trans)
    moreover have "feeds ?H (finish e v) {#} (writer_exit (as_batch a @ [ob]) (finish e v))"
      using feeds_writer_exit[of "as_batch a @ [ob]" "finish e v"] by simp
    ultimately show ?thesis by (rule feeds_trans)
  qed
  have exits: "\<exists>v e. v \<in> {s, u} \<and> t = writer_exit (as_batch a @ [ob]) (finish e v)" if "r = Writer_Exit"
    using A that by (auto simp: assemble_one_def u Let_def split: if_splits option.splits)
  have stays: "t = u \<and> as_batch a' = as_batch a @ [ob] \<or> feeds ?H s ?H t \<and> as_batch a' = as_batch a \<and> silent ob"
    if "r \<noteq> Writer_Exit"
    using A that answers_checks[OF ob(1)] ob(2) c su by (auto simp: assemble_one_def u Let_def split: if_splits option.splits)
  show ?thesis
  proof (cases r)
    case Writer_Exit
    then show ?thesis using exits x[OF su] x[OF feeds_refl] by auto
  qed (use stays su ob(1) batch in auto)
qed

lemma claim_batch_tickets:
  "claim_batch allowed obs s = (kept, t) \<Longrightarrow> list_all answers obs \<Longrightarrow>
   tickets_in kept = tickets_in obs \<and> list_all answers kept"
proof (induction obs arbitrary: s kept)
  case (Cons ob obs)
  have "ob_submit_attempt ob \<noteq> None \<Longrightarrow> ob_tickets ob = {#}" using Cons.prems(2) answers_checks[of ob] by auto
  then show ?case
    using Cons by (auto simp: Let_def split: option.splits prod.splits if_splits)
qed simp

text \<open>What a complete write publishes: the events of the responses in the batch.\<close>

definition written_events :: "outbound list \<Rightarrow> (nat \<times> event) set" where
  "written_events obs = {x. \<exists>ob\<in>set obs. ob_event_after_write ob = Some x}"

lemma complete_outbound_feeds: "feeds_out (written_events [ob]) (ob_tickets ob) s {#} (complete_outbound now ob s)"
proof -
  let ?P = "written_events [ob]"
  let ?a = "case ob_heartbeat_attempt ob of None \<Rightarrow> s | Some key \<Rightarrow> complete_heartbeat_attempt key now s"
  let ?b = "if ob_marks_peer_terminate_response ob then ?a\<lparr>in_peer_terminate_response_written := True\<rparr> else ?a"
  let ?c = "if ob_written_flag ob
    then ?b\<lparr>in_pending_terminate := map_option (pt_written_update (\<lambda>_. True)) (in_pending_terminate ?b)\<rparr> else ?b"
  let ?d = "case ob_event_after_write ob of None \<Rightarrow> ?c | Some (ticket, e) \<Rightarrow> snd (Cmpp_Events.publish ticket e ?c)"
  have "aside s ?a" by (simp split: option.split)
  moreover have "aside ?a ?b" "aside ?b ?c" by simp_all
  ultimately have "aside s ?c" by (blast intro: aside_trans)
  then have "feeds_out ?P (ob_tickets ob) s (ob_tickets ob) ?c" by (rule feeds_aside)
  moreover have "feeds_out ?P (ob_tickets ob) ?c {#} ?d"
    using feeds_publish by (simp add: ob_tickets_def written_events_def split: option.split prod.split)
  ultimately have d: "feeds_out ?P (ob_tickets ob) s {#} ?d" by (rule feeds_trans)
  have "aside ?d (complete_outbound now ob s)" by (simp add: complete_outbound_def Let_def split: option.split)
  then show ?thesis using feeds_trans[OF d feeds_aside] by blast
qed

lemma complete_outbounds_feeds:
  "feeds_out (written_events obs) (tickets_in obs) s {#} (fold (complete_outbound now) obs s)"
proof (induction obs arbitrary: s)
  case (Cons ob obs)
  let ?P = "written_events (ob # obs)"
  have "feeds_out ?P (ob_tickets ob) s {#} (complete_outbound now ob s)"
    by (rule feeds_may[OF complete_outbound_feeds]) (auto simp: written_events_def)
  then have "feeds_out ?P (tickets_in obs + ob_tickets ob) s (tickets_in obs + {#}) (complete_outbound now ob s)"
    by (rule feeds_frame)
  then have "feeds_out ?P (tickets_in (ob # obs)) s (tickets_in obs) (complete_outbound now ob s)" by (simp add: add.commute)
  moreover have "feeds_out ?P (tickets_in obs) u {#} (fold (complete_outbound now) obs u)" for u
    by (rule feeds_may[OF Cons.IH]) (auto simp: written_events_def)
  ultimately show ?case by (auto intro: feeds_trans)
qed simp

text \<open>After a write: only a complete one publishes anything.\<close>

lemma after_write_feeds:
  assumes "after_write a batch outcome s = (continue, t)"
  shows "feeds_out (case outcome of Write_Done now \<Rightarrow> written_events batch | _ \<Rightarrow> {}) (tickets_in batch) s {#} t"
proof (cases "batch = []")
  case True
  then show ?thesis using assms by (auto simp: after_write_def feeds_aside)
next
  case False
  let ?H = "tickets_in batch" and ?P = "written_events batch"
  have x: "feeds ?H s {#} (writer_exit batch (finish e s))" for e
    using feeds_finish feeds_writer_exit by (rule feeds_trans)
  show ?thesis
  proof (cases outcome)
    case (Write_Done now)
    let ?u = "s\<lparr>in_write_batches := in_write_batches s + 1, in_write_frames := in_write_frames s + of_nat (length batch)\<rparr>"
    let ?v = "complete_submit_attempts (List.map_filter ob_submit_attempt batch) now ?u"
    have t: "t = complete_marker (as_marker a) (fold (complete_outbound now) batch ?v)"
      using assms False Write_Done by (simp add: after_write_def complete_batch_def Let_def)
    have "aside ?u ?v" unfolding complete_submit_attempts_def by (rule aside_fold) simp
    then have "aside s ?v" using aside_trans[OF aside_update(12)] by blast
    then have "feeds_out ?P ?H s ?H ?v" by (rule feeds_aside)
    then have "feeds_out ?P ?H s {#} (fold (complete_outbound now) batch ?v)" using complete_outbounds_feeds by (rule feeds_trans)
    moreover have "feeds_out ?P {#} u {#} (complete_marker (as_marker a) u)" for u by (rule feeds_aside) simp
    ultimately have "feeds_out ?P ?H s {#} t" unfolding t by (rule feeds_trans)
    then show ?thesis by (simp add: Write_Done)
  qed (use assms False feeds_writer_exit x in \<open>auto simp: after_write_def\<close>)
qed

end
