(* ===== verification/Cmpp_Composition.thy ===== *)
theory Cmpp_Composition
  imports Cmpp_Refinement
begin

text \<open>
  What holds of the whole connection because its tasks refine the life cycle: identifiers across SUBMITs,
  heartbeats and TERMINATE, and the way of a SUBMIT through caller, queue, writer and reader.
\<close>

section \<open>The refinement\<close>

lemma life_messages:
  assumes "life_reachable params l"
  shows "list_all submit_message (in_submit_queue (lf_inner l))"
  using assms
proof (rule life.invariant)
  show "list_all submit_message (in_submit_queue (lf_inner (life_new (inner_new params))))"
    by (simp add: life_new_def inner_new_def Let_def)
qed (blast intro: life_step_messages)

lemma implements_start: "implements (world_new (connection_new params read_buf)) (life_new (inner_new params))"
proof -
  have "task_ok (inner_new params)" "task_leases (inner_new params) = {#}"
    by (simp_all add: task_ok_def task_ids_def task_leases_def heartbeat_leases_def terminate_leases_def inner_new_def Let_def)
  then show ?thesis
    by (simp add: implements_def shares_def world_new_def connection_new_def life_new_def hand_ok_def
        calls_manual_def calls_ready_def)
qed

interpretation tasks: simulation world_step "world_reachable params read_buf"
    "world_new (connection_new params read_buf)" life_step "life_reachable params" "life_new (inner_new params)" implements
  for params read_buf
proof unfold_locales
  show "world_reachable params read_buf (world_new (connection_new params read_buf))" by (rule world_reachable.start)
  show "world_reachable params read_buf v" if "world_reachable params read_buf w" "world_step w v" for w v
    using that by (rule world_reachable.step)
  show "P w" if "world_reachable params read_buf w" "P (world_new (connection_new params read_buf))"
    "\<And>u v. world_reachable params read_buf u \<Longrightarrow> P u \<Longrightarrow> world_step u v \<Longrightarrow> P v" for P w
    using that by (induction rule: world_reachable.induct) blast+
  show "implements (world_new (connection_new params read_buf)) (life_new (inner_new params))"
    by (rule implements_start)
  show "\<exists>m. life_step\<^sup>*\<^sup>* l m \<and> implements v m"
    if "life_reachable params l" "implements w l" "world_step w v" for w l v
    using tasks_simulated[OF that(3,2) life_messages[OF that(1)]] .
qed

section \<open>A run of the tasks\<close>

text \<open>The SUBMIT of the sample run and a heartbeat beside it, for the witnesses.\<close>

definition sample_world :: "inner \<Rightarrow> world" where
  "sample_world s = with_inner s (world_new (connection_new params_default []))"

definition sample_beat_lease :: sequence_lease where
  "sample_beat_lease = \<lparr>lease_id = 3, lease_manual = False, lease_release_on_drop = True\<rparr>"

definition sample_beat_key :: heartbeat_attempt_key where
  "sample_beat_key = \<lparr>hk_sequence_id = 3, hk_heartbeat_id = 1, hk_attempt = 1\<rparr>"

definition sample_beating :: inner where
  "sample_beating = sample_committed\<lparr>in_registry := \<lparr>next_automatic = Some 4, automatic_start = 2,
     automatic_used_through = Some 3, reserved = {2, 3}, retired = []\<rparr>, in_heartbeat_id_generator := 2\<rparr>"

lemma sample_world_committed: "world_reachable params_default [] (sample_world sample_committed)"
proof -
  let ?c = "submit_call_new sample_options sample_plan None"
  let ?w = "sample_world (inner_new params_default)"
  let ?a = "?w\<lparr>wd_calls := [Submitting ?c (Await_Window None)]\<rparr>"
  let ?p = "(sample_world sample_prepared)\<lparr>wd_calls := [Submitting ?c (Await_Slot sample_submission)]\<rparr>"
  let ?d = "(sample_world sample_committed)\<lparr>wd_calls := [Submitted (Ok [2])]\<rparr>"
  note W = sample_world_def world_new_def with_inner_def connection_new_def
  have "?w = world_new (connection_new params_default [])" by (simp add: W)
  then have "world_reachable params_default [] ?w" using world_reachable.start[of params_default "[]"] by simp
  moreover have "caller_step ?w ?a"
    using caller_step.start[of sample_pool sample_options "str_lit ''hi''" None 0 ?w] sample_begin by (simp add: W)
  moreover have "caller_step ?a ?p"
    using caller_step.turn[of ?a "[]" "Submitting ?c (Await_Window None)" "[]" "\<lambda>_. []" sample_pool] sample_turn
    by (simp add: W)
  moreover have "caller_step ?p ?d"
    using caller_step.turn[of ?p "[]" "Submitting ?c (Await_Slot sample_submission)" "[]" "\<lambda>_. []" sample_pool]
      sample_commit_turn by (simp add: W)
  moreover have "caller_step ?d (sample_world sample_committed)"
    using caller_step.ended[of ?d "[]" "Submitted (Ok [2])" "[]"] by (simp add: W submit_cancel_def)
  ultimately show ?thesis by (meson world_reachable.step world_step.caller)
qed

text \<open>The heartbeat task takes the next identifier and has not sent it yet.\<close>

lemma sample_world_beating:
  "world_reachable params_default []
     ((sample_world sample_beating)\<lparr>wd_heartbeat := Some (sample_beat_lease, sample_beat_key)\<rparr>)"
proof -
  let ?w = "sample_world sample_committed"
  let ?r = "in_registry sample_beating"
  let ?q = "\<lparr>next_automatic = Some 3, automatic_start = 2, automatic_used_through = Some 2, reserved = {2}, retired = []\<rparr>"
  have "reserve_next ?q = (Some sample_beat_lease, ?r)"
    by (simp add: reserve_next.simps[of ?q] retired_range_def advance_def bt_floor_def
        sample_beat_lease_def sample_beating_def u32_checked_add1_def insert_commute)
  then have "reserve_next sample_registry = (Some sample_beat_lease, ?r)" by (simp add: sample_registry_def)
  then have "heartbeat_prepare sample_committed = (Some (sample_beat_lease, sample_beat_key), True, sample_beating)"
    by (simp add: heartbeat_prepare_def next_heartbeat_id_def sample_committed_def sample_prepared_def sample_acquired_def
        sample_beating_def sample_beat_lease_def sample_beat_key_def) (simp add: inner_new_def Let_def)
  then have "timer_step ?w ((with_inner sample_beating ?w)\<lparr>wd_heartbeat := Some (sample_beat_lease, sample_beat_key)\<rparr>)"
    by (intro timer_step.prepare) (simp_all add: sample_world_def world_new_def)
  moreover have "with_inner sample_beating ?w = sample_world sample_beating" by (simp add: sample_world_def with_inner_def)
  ultimately show ?thesis using world_reachable.step[OF sample_world_committed world_step.timer] by metis
qed

section \<open>Properties\<close>

text \<open>
  C4: the tasks refine the life cycle: whatever the callers, the writer, the reader, the timers, the close,
  the spawned tasks and the dispatcher do, each with its own functions and interleaved at their waits, there is a run of the life cycle
  with the same shared state, the same leases and submissions in the hands of the calls of \<open>submit\<close> and the
  same SUBMITs in the writer's, and every further step of a task is a run of it.
\<close>

theorem tasks_refine_lifecycle:
  assumes "world_reachable params read_buf w"
  shows "\<exists>l. life_reachable params l \<and> implements w l \<and>
    (\<forall>v. world_step w v \<longrightarrow> (\<exists>m. life_step\<^sup>*\<^sup>* l m \<and> life_reachable params m \<and> implements v m))"
proof -
  obtain l where l: "life_reachable params l" "implements w l" using tasks.refines[OF assms] by blast
  then show ?thesis using tasks.related_step[OF assms] life.reachable_run by meson
qed

theorem tasks_refine_lifecycle_witness:
  "\<exists>l. life_reachable params_default l \<and> lf_inner l = sample_committed \<and> lf_ready l = [] \<and> lf_writing l = []"
  using tasks_refine_lifecycle[OF sample_world_committed]
  by (auto simp: implements_def shares_def sample_world_def world_new_def calls_ready_def)

text \<open>The identifiers in use: pending, in the hands of a caller or of the heartbeat task, or of the close.\<close>

definition identifiers_in_use :: "world \<Rightarrow> u32 multiset" where
  "identifiers_in_use w =
     mset_set (dom (in_pending_submits (wd_inner w))) + mset_set (dom (in_heartbeat_pending (wd_inner w))) +
     (case in_pending_terminate (wd_inner w) of None \<Rightarrow> {#} | Some p \<Rightarrow> {#pt_sequence_id p#}) +
     (case wd_heartbeat w of None \<Rightarrow> {#} | Some (l, key) \<Rightarrow> {#hk_sequence_id key#}) +
     image_mset lease_id (calls_manual (wd_calls w)) +
     image_mset (\<lambda>b. lease_id (sb_lease b)) (calls_ready (wd_calls w))"

lemma heartbeat_leases_ids:
  assumes "task_ok s"
  shows "image_mset lease_id (heartbeat_leases (in_heartbeat_pending s)) = mset_set (dom (in_heartbeat_pending s))"
proof -
  let ?m = "in_heartbeat_pending s"
  have "{#lease_id (ph_sequence_lease (the (?m k))). k \<in># mset_set (dom ?m)#} = {#k. k \<in># mset_set (dom ?m)#}"
    by (rule image_mset_cong) (use assms in \<open>auto simp: task_ok_def task_ids_def\<close>)
  then show ?thesis by (simp add: heartbeat_leases_def image_mset.compositionality comp_def)
qed

lemma identifiers_held:
  assumes "implements w l"
  shows "identifiers_in_use w = mset_set (dom (in_pending_submits (lf_inner l))) + mset (map lease_id (held l))"
proof -
  have S: "shares w l" using assms by (simp add: implements_def)
  then have "mset (map lease_id (lf_other l)) = image_mset lease_id (hand (wd_heartbeat w)) + image_mset lease_id (task_leases (wd_inner w))"
    by (simp add: shares_def)
  moreover have "image_mset lease_id (hand (wd_heartbeat w)) =
      (case wd_heartbeat w of None \<Rightarrow> {#} | Some (l, key) \<Rightarrow> {#hk_sequence_id key#})"
    using S by (auto simp: shares_def hand_ok_def hand_def split: option.split)
  moreover have "image_mset lease_id (terminate_leases (in_pending_terminate (wd_inner w))) =
      (case in_pending_terminate (wd_inner w) of None \<Rightarrow> {#} | Some p \<Rightarrow> {#pt_sequence_id p#})"
    using S by (auto simp: shares_def task_ok_def task_ids_def terminate_leases_def split: option.split)
  moreover have "image_mset lease_id (heartbeat_leases (in_heartbeat_pending (wd_inner w))) =
      mset_set (dom (in_heartbeat_pending (wd_inner w)))"
    using S by (intro heartbeat_leases_ids) (simp add: shares_def)
  ultimately show ?thesis
    using S by (simp add: identifiers_in_use_def held_def shares_def task_leases_def comp_def ac_simps
        flip: image_mset.compositionality)
qed

lemma held_disjoint:
  assumes "life_reachable params l" "0 < retry_count params"
  shows "count (mset_set (dom (in_pending_submits (lf_inner l))) + mset (map lease_id (held l))) k \<le> 1"
proof -
  note C = life_reachable_facts(1)[OF assms]
  have "distinct (map lease_id (held l))" "dom (in_pending_submits (lf_inner l)) \<inter> lease_id ` set (held l) = {}"
    using C by (auto simp: core_inv_def reg_inv_def pend_inv_def)
  then show ?thesis
    by (cases "k \<in> lease_id ` set (held l)")
      (auto simp: distinct_count_atmost_1 count_mset_set' simp del: mset_map)
qed

text \<open>
  C6: no identifier is in use twice: the pending SUBMITs, heartbeats and TERMINATE, the submissions that
  are prepared and the leases of manual batches all have different identifiers, and the registry hands
  out none of them; a response can be meant for one request only.
\<close>

theorem identifiers_distinct:
  assumes "world_reachable params read_buf w" "0 < retry_count params"
  shows "count (identifiers_in_use w) k \<le> 1 \<and>
    (\<forall>l r. reserve_next (in_registry (wd_inner w)) = (Some l, r) \<longrightarrow> lease_id l \<notin># identifiers_in_use w)"
proof -
  obtain l where l: "life_reachable params l" "implements w l" using tasks.refines[OF assms(1)] by blast
  have "lease_id x \<notin># identifiers_in_use w" if "reserve_next (in_registry (wd_inner w)) = (Some x, r)" for x r
  proof -
    let ?m = "l\<lparr>lf_inner := (lf_inner l)\<lparr>in_registry := r\<rparr>, lf_other := x # lf_other l\<rparr>"
    have "life_step l ?m" using that l(2) by (intro life_step.other_reserve) (simp add: implements_def shares_def)
    then have "life_reachable params ?m" by (rule life_reachable.step[OF l(1)])
    note D = held_disjoint[OF this assms(2), of "lease_id x"]
    have "mset (map lease_id (held ?m)) = add_mset (lease_id x) (mset (map lease_id (held l)))" by (simp add: held_def)
    then have "count (identifiers_in_use w) (lease_id x) = 0" using D unfolding identifiers_held[OF l(2)] by simp
    then show ?thesis by (simp only: not_in_iff)
  qed
  then show ?thesis using held_disjoint[OF l(1) assms(2)] identifiers_held[OF l(2)] by simp
qed

theorem identifiers_distinct_witness:
  "let w = (sample_world sample_beating)\<lparr>wd_heartbeat := Some (sample_beat_lease, sample_beat_key)\<rparr> in
     identifiers_in_use w = {#2, 3#} \<and> count (identifiers_in_use w) 3 \<le> 1"
proof -
  let ?w = "(sample_world sample_beating)\<lparr>wd_heartbeat := Some (sample_beat_lease, sample_beat_key)\<rparr>"
  have "count (identifiers_in_use ?w) 3 \<le> 1"
    using identifiers_distinct[OF sample_world_beating sample_retries] by blast
  moreover have "identifiers_in_use ?w = {#2, 3#}"
    by (simp add: identifiers_in_use_def sample_world_def world_new_def sample_beating_def sample_committed_def
        sample_prepared_def sample_acquired_def sample_beat_key_def calls_manual_def calls_ready_def)
      (simp add: inner_new_def Let_def)
  ultimately show ?thesis by simp
qed

text \<open>
  C7: no SUBMIT is lost between the tasks while the connection is open: the attempt a pending SUBMIT waits
  for is in the submit queue or in the batch the writer assembles, or the writer is writing it, or it has
  been written and its time-out runs.
\<close>

theorem no_submit_lost:
  assumes "world_reachable params read_buf w" "0 < retry_count params" "in_phase (wd_inner w) = Phase_Open"
    and "in_pending_submits (wd_inner w) k = Some p"
  shows "case ps_state p of
      Queued a \<Rightarrow> key_of k p \<in> set (submit_keys (writer_batch (wd_writer w) @ in_submit_queue (wd_inner w)))
    | Writing a \<Rightarrow> \<exists>b batch. wd_writer w = Writer_Writing b batch \<and> key_of k p \<in> set (submit_keys batch)
    | RespondedWhileWriting a \<Rightarrow> \<exists>b batch. wd_writer w = Writer_Writing b batch \<and> key_of k p \<in> set (submit_keys batch)
    | AwaitingResponse a written_at \<Rightarrow> 1 \<le> a \<and> a \<le> retry_count params"
proof -
  obtain l where l: "life_reachable params l" "implements w l" using tasks.refines[OF assms(1)] by blast
  have keys: "submit_keys (lf_batch l) = submit_keys (writer_batch (wd_writer w))"
    using l(2) submit_keys_filter[of "lf_batch l"] by (simp add: implements_def)
  have hands: "\<exists>b batch. wd_writer w = Writer_Writing b batch \<and> x \<in> set (submit_keys batch)" if "x \<in> set (lf_writing l)" for x
    using that l(2) by (cases "wd_writer w") (auto simp: implements_def)
  have inner: "lf_inner l = wd_inner w" using l(2) by (simp add: implements_def shares_def)
  show ?thesis
    using no_submit_stuck[OF l(1) assms(2), of k p] assms(3,4) hands keys
    by (cases "ps_state p") (simp_all add: inner)
qed

theorem no_submit_lost_witness:
  "key_of 2 (sample_pending (Queued 1)) \<in>
     set (submit_keys (writer_batch (Writer_Waiting 0) @ in_submit_queue sample_committed))"
proof -
  let ?w = "sample_world sample_committed"
  have "in_phase (wd_inner ?w) = Phase_Open" "in_pending_submits (wd_inner ?w) 2 = Some (sample_pending (Queued 1))"
    "wd_writer ?w = Writer_Waiting 0" "wd_inner ?w = sample_committed"
    by (simp_all add: sample_world_def world_new_def sample_committed_def sample_prepared_def sample_acquired_def)
  then show ?thesis using no_submit_lost[OF sample_world_committed sample_retries, of 2 "sample_pending (Queued 1)"]
    by (simp add: sample_pending_def)
qed

end
