(* ===== verification/Cmpp_Stream.thy ===== *)
theory Cmpp_Stream
  imports Cmpp_Feed Cmpp_Composition
begin

text \<open>
  The tasks refine the event pipeline: whatever callers, writer, reader, timers and close do is a run of
  it, and its own tasks and the dispatcher take its steps. What follows for the whole connection, together
  with the refinement of the life cycle.
\<close>

section \<open>The relation\<close>

text \<open>The tickets of deferred events that the tasks hold: in the control queue, the writer's batch, the reader.\<close>

definition world_tickets :: "world \<Rightarrow> nat multiset" where
  "world_tickets w = queue_tickets (wd_inner w) + tickets_in (writer_hand (wd_writer w)) + reader_hand (wd_next w)"

definition tasks_ok :: "world \<Rightarrow> bool" where
  "tasks_ok w \<longleftrightarrow>
     queues_ok (wd_inner w) \<and> list_all answers (writer_hand (wd_writer w)) \<and> reader_ok (wd_next w) \<and>
     (\<forall>d\<in>set (wd_close w). close_silent d \<and> (waits_left d < 5 \<longrightarrow> in_phase (wd_inner w) = Phase_Closed))"

text \<open>The fallback clean-up has been started only if some close task has reached its wait for it.\<close>

definition fallback_reached :: "world \<Rightarrow> bool" where
  "fallback_reached w \<longleftrightarrow> (\<exists>d\<in>set (wd_close w). waits_left d \<le> 1)"

definition carries :: "world \<Rightarrow> pipe \<Rightarrow> bool" where
  "carries w p \<longleftrightarrow>
     pl_inner p = wd_inner w \<and> pl_dispatcher p = wd_dispatcher w \<and> pl_discard p = wd_discard w \<and>
     pl_channel p = wd_channel w \<and> mset (pl_tickets p) = world_tickets w \<and> tasks_ok w \<and>
     (pl_fallback p \<longrightarrow> fallback_reached w)"

lemma carriesD:
  assumes "carries w p"
  shows "pl_inner p = wd_inner w" "pl_dispatcher p = wd_dispatcher w" "pl_discard p = wd_discard w"
    "pl_channel p = wd_channel w" "mset (pl_tickets p) = world_tickets w" "tasks_ok w"
    "pl_fallback p \<Longrightarrow> fallback_reached w"
  using assms by (simp_all add: carries_def)

lemma tasks_okD:
  assumes "tasks_ok w"
  shows "queues_ok (wd_inner w)" "list_all answers (writer_hand (wd_writer w))" "reader_ok (wd_next w)"
    "\<And>d. d \<in> set (wd_close w) \<Longrightarrow> close_silent d"
    "\<And>d. d \<in> set (wd_close w) \<Longrightarrow> waits_left d < 5 \<Longrightarrow> in_phase (wd_inner w) = Phase_Closed"
  using assms by (auto simp: tasks_ok_def)

text \<open>A closed connection stays closed.\<close>

lemma pipe_step_closed: "pipe_step p q \<Longrightarrow> in_phase (pl_inner p) = Phase_Closed \<Longrightarrow> in_phase (pl_inner q) = Phase_Closed"
  using step_advances[of p q] by (simp add: advances_def phase_closed_le)

lemma pipe_run_closed:
  "pipe_step\<^sup>*\<^sup>* p q \<Longrightarrow> in_phase (pl_inner p) = Phase_Closed \<Longrightarrow> in_phase (pl_inner q) = Phase_Closed"
  by (induction rule: rtranclp_induct) (auto intro: pipe_step_closed)

section \<open>Steps of the other tasks\<close>

text \<open>The events whose responses the writer has just written: the step is the end of a complete write.\<close>

definition acknowledged :: "world \<Rightarrow> world \<Rightarrow> (nat \<times> event) set" where
  "acknowledged w v =
     {x. \<exists>a batch now. wd_writer w = Writer_Writing a batch \<and> x \<in> written_events batch \<and>
           after_write a batch (Write_Done now) (wd_inner w) = (True, wd_inner v)}"

text \<open>
  A step of another task is a run of the pipeline that leaves the clean-up where it is and publishes only
  what has been acknowledged.
\<close>

definition carried :: "world \<Rightarrow> world \<Rightarrow> pipe \<Rightarrow> bool" where
  "carried w v p \<longleftrightarrow>
     (\<exists>q. pipe_step\<^sup>*\<^sup>* p q \<and> carries v q) \<and> (clearing (wd_inner v) \<longrightarrow> clearing (wd_inner w)) \<and>
     published_in (wd_inner w) (wd_inner v) \<subseteq> acknowledged w v"

lemma carries_feeds:
  assumes C: "carries w p"
    and F: "feeds_out P (tickets_in (writer_hand (wd_writer w)) + reader_hand (wd_next w)) (wd_inner w)
      (tickets_in (writer_hand (wd_writer v)) + reader_hand (wd_next v)) (wd_inner v)" "P \<subseteq> acknowledged w v"
    and same: "wd_dispatcher v = wd_dispatcher w" "wd_discard v = wd_discard w" "wd_channel v = wd_channel w"
    and ok: "list_all answers (writer_hand (wd_writer v))" "reader_ok (wd_next v)"
      "\<And>d. d \<in> set (wd_close v) \<Longrightarrow> d \<in> set (wd_close w) \<or>
         close_silent d \<and> (waits_left d < 5 \<longrightarrow> in_phase (wd_inner v) = Phase_Closed)"
    and fallback: "fallback_reached w \<Longrightarrow> fallback_reached v"
  shows "carried w v p"
proof -
  note D = carriesD[OF C]
  note T = tasks_okD[OF D(6)]
  let ?H = "tickets_in (writer_hand (wd_writer w)) + reader_hand (wd_next w)"
  let ?G = "tickets_in (writer_hand (wd_writer v)) + reader_hand (wd_next v)"
  have "mset (pl_tickets p) = {#} + ?H + queue_tickets (wd_inner w)" using D(5) by (simp add: world_tickets_def ac_simps)
  then obtain q where q: "pipe_step\<^sup>*\<^sup>* p q" "pl_inner q = wd_inner v" "same_consumer p q"
      "mset (pl_tickets q) = {#} + ?G + queue_tickets (wd_inner v)" and okv: "queues_ok (wd_inner v)"
    using F(1)[unfolded feeds_out_def, THEN conjunct2, THEN mp, OF T(1)] D(1) by blast
  have "in_phase (wd_inner w) = Phase_Closed \<Longrightarrow> in_phase (wd_inner v) = Phase_Closed"
    using pipe_run_closed[OF q(1)] by (simp add: D(1) q(2))
  then have "tasks_ok v" using okv ok T(4,5) unfolding tasks_ok_def by blast
  moreover have "mset (pl_tickets q) = world_tickets v" using q(4) by (simp add: world_tickets_def ac_simps)
  ultimately have "carries v q"
    using q(2,3) D(2-4,7) same fallback by (auto simp: carries_def same_consumer_def)
  then show ?thesis using q(1) F unfolding carried_def feeds_out_def by blast
qed

text \<open>A step that touches neither writer nor reader.\<close>

lemma carries_state:
  assumes "carries w p" "\<And>H. feeds H (wd_inner w) H (wd_inner v)"
    and "wd_writer v = wd_writer w" "wd_next v = wd_next w"
    and "wd_dispatcher v = wd_dispatcher w" "wd_discard v = wd_discard w" "wd_channel v = wd_channel w"
    and "\<And>d. d \<in> set (wd_close v) \<Longrightarrow> d \<in> set (wd_close w) \<or>
         close_silent d \<and> (waits_left d < 5 \<longrightarrow> in_phase (wd_inner v) = Phase_Closed)"
    and "fallback_reached w \<Longrightarrow> fallback_reached v"
  shows "carried w v p"
  by (rule carries_feeds[OF assms(1), where P = "{}"]) (use assms tasks_okD[OF carriesD(6)[OF assms(1)]] in auto)

lemma caller_carried:
  assumes "caller_step w v" "carries w p"
  shows "carried w v p"
proof (rule carries_state[OF assms(2)])
  show "feeds H (wd_inner w) H (wd_inner v)" for H
    using assms(1) submit_begin_feeds submit_turn_feeds submit_cancel_feeds by (cases rule: caller_step.cases) auto
qed (use assms(1) in \<open>cases rule: caller_step.cases; simp add: fallback_reached_def\<close>)+

lemma timer_carried:
  assumes "timer_step w v" "carries w p"
  shows "carried w v p"
proof (rule carries_state[OF assms(2)])
  show "feeds H (wd_inner w) H (wd_inner v)" for H
    using assms(1) heartbeat_prepare_feeds heartbeat_commit_feeds heartbeat_end_feeds timeout_scan_feeds
    by (cases rule: timer_step.cases) auto
qed (use assms(1) in \<open>cases rule: timer_step.cases; simp add: fallback_reached_def\<close>)+

lemma carries_writer:
  assumes C: "carries w p"
    and F: "feeds_out P (tickets_in (writer_hand (wd_writer w))) (wd_inner w) (tickets_in (writer_hand x)) t"
      "P \<subseteq> acknowledged w ((with_inner t w)\<lparr>wd_writer := x\<rparr>)"
    and ok: "list_all answers (writer_hand x)"
  shows "carried w ((with_inner t w)\<lparr>wd_writer := x\<rparr>) p"
  by (rule carries_feeds[OF C _ F(2)])
    (use feeds_frame[OF F(1), of "reader_hand (wd_next w)"] ok tasks_okD[OF carriesD(6)[OF C]] in
      \<open>simp_all add: ac_simps fallback_reached_def\<close>)

lemma writer_carried:
  assumes "writer_step w v" "carries w p"
  shows "carried w v p"
proof -
  note T = tasks_okD[OF carriesD(6)[OF assms(2)]]
  from assms(1) show ?thesis
  proof (cases rule: writer_step.cases)
    case (first burst picked s now r a t)
    obtain ob b where p: "picked = (ob, b)" by force
    have P: "pick_outbound burst (wd_inner w) = Some ((ob, b), s)"
      using first(3) p by (auto simp: writer_wait_def split: if_splits)
    have A: "assemble_one now (ob, b) (assembly_new burst) s = (r, a, t)"
      using first(4) p by (auto simp: assemble_def split: prod.splits assembled.splits)
    note F = pick_feeds[OF P T(1)]
    have "feeds {#} (wd_inner w) (tickets_in (writer_hand (writer_next r a))) t \<and> list_all answers (writer_hand (writer_next r a))"
      using assemble_one_feeds[OF A] F feeds_trans[of "{}" "{#}" "wd_inner w" "ob_tickets ob" s] by (simp add: assembly_new_def)
    then show ?thesis unfolding first(1) by (intro carries_writer[OF assms(2), where P = "{}"]) (simp_all add: first(2))
  next
    case (closed burst)
    then show ?thesis using feeds_writer_exit[of "[]"] by (auto intro: carries_writer[OF assms(2), where P = "{}"])
  next
    case (more a now r a' t)
    show ?thesis
    proof (cases "batch_full a (wd_inner w) \<or> pick_outbound (as_burst a) (wd_inner w) = None")
      case True
      then have "t = wd_inner w" "writer_next r a' = Writer_Assembled a" using more(3) by (auto simp: Let_def split: if_splits)
      then show ?thesis using more(1,2) T(2) by (auto intro: carries_writer[OF assms(2), where P = "{}"])
    next
      case False
      then obtain ob b s where p: "pick_outbound (as_burst a) (wd_inner w) = Some ((ob, b), s)" by force
      then have A: "assemble_one now (ob, b) a s = (r, a', t)"
        using more(3) False by (auto simp: Let_def split: prod.splits assembled.splits)
      have batch: "list_all answers (as_batch a)" using T(2) more(2) by simp
      note F = pick_feeds[OF p T(1)]
      have "feeds (tickets_in (as_batch a)) (wd_inner w) (tickets_in (as_batch a) + ob_tickets ob) s"
        using feeds_frame[OF conjunct1[OF F], of "tickets_in (as_batch a)"] by simp
      then have "feeds (tickets_in (as_batch a)) (wd_inner w) (tickets_in (writer_hand (writer_next r a'))) t"
        "list_all answers (writer_hand (writer_next r a'))"
        using assemble_one_feeds[OF A _ _ batch] F by (auto intro: feeds_trans)
      then show ?thesis unfolding more(1) by (intro carries_writer[OF assms(2), where P = "{}"]) (simp_all add: more(2))
    qed
  next
    case (claim a batch octets t)
    have K: "claim_batch (can_send_submit (wd_inner w)) (as_batch a) (wd_inner w) = (batch, t)"
      using claim(3) by (auto simp: write_batch_def claim_submit_attempts_def split: prod.splits)
    have "list_all answers (as_batch a)" using T(2) claim(2) by simp
    then have "tickets_in batch = tickets_in (as_batch a)" "list_all answers batch" using claim_batch_tickets[OF K] by simp_all
    then show ?thesis
      unfolding claim(1) using feeds_aside[OF aside_claim_batch[OF K]]
      by (intro carries_writer[OF assms(2), where P = "{}"]) (simp_all add: claim(2))
  next
    case (written a batch outcome continue t)
    have P: "(case outcome of Write_Done now \<Rightarrow> written_events batch | _ \<Rightarrow> {}) \<subseteq> acknowledged w ((with_inner t w)\<lparr>wd_writer := x\<rparr>)"
      for x using written(2,4) by (auto simp: acknowledged_def after_write_def split: write_outcome.split)
    have "writer_hand (if continue then Writer_Waiting (as_burst a) else Writer_Gone) = []" by simp
    then show ?thesis
      unfolding written(1)
      by (intro carries_writer[OF assms(2), where P="case outcome of Write_Done now \<Rightarrow> written_events batch | _ \<Rightarrow> {}"])
        (use after_write_feeds[OF written(4)] P in \<open>simp_all add: written(2) split del: if_split\<close>)
  next
    case (aborted obs)
    have "writer_hand (wd_writer w) = obs" using aborted(3) by (cases "wd_writer w") auto
    then show ?thesis
      unfolding aborted(1) using feeds_writer_exit[of obs] by (intro carries_writer[OF assms(2), where P = "{}"]) simp_all
  qed
qed

lemma carries_reader:
  assumes C: "carries w p" and F: "feeds (reader_hand (wd_next w)) (wd_inner w) (reader_hand (wd_next v)) (wd_inner v)"
    and "reader_ok (wd_next v)" "wd_writer v = wd_writer w" "wd_close v = wd_close w"
    and "wd_dispatcher v = wd_dispatcher w" "wd_discard v = wd_discard w" "wd_channel v = wd_channel w"
  shows "carried w v p"
  by (rule carries_feeds[OF C, where P = "{}"])
    (use feeds_frame[OF F, of "tickets_in (writer_hand (wd_writer w))"] assms(3-) tasks_okD[OF carriesD(6)[OF C]] in
      \<open>simp_all add: fallback_reached_def\<close>)

lemma reader_carried:
  assumes "reader_step w v" "carries w p"
  shows "carried w v p"
proof -
  have ok: "reader_ok (wd_next w)" by (rule tasks_okD(3)[OF carriesD(6)[OF assms(2)]])
  have "feeds (reader_hand (wd_next w)) (wd_inner w) (reader_hand (wd_next v)) (wd_inner v) \<and> reader_ok (wd_next v)"
    using assms(1)
  proof (cases rule: reader_step.cases)
    case (buffered now elapsed nx buf r t)
    then show ?thesis using read_buffered_feeds[OF buffered(3)] by simp
  next
    case (read now elapsed outcome eof nx buf r t)
    then show ?thesis using read_socket_feeds[OF read(5)] by simp
  next
    case (deliver_resp ob timed_out nx t)
    then show ?thesis using await_deliver_feeds[OF deliver_resp(3)] ok by simp
  next
    case (active_test_resp ob nx t)
    then show ?thesis using await_silent_feeds(1)[OF active_test_resp(3)] ok by simp
  next
    case (terminate_resp ob n timed_out nx t)
    then show ?thesis using await_silent_feeds(2)[OF terminate_resp(3)] ok by simp
  next
    case (terminate_written n lost timed_out nx t)
    then show ?thesis using await_silent_feeds(3)[OF terminate_written(3)] by simp
  next
    case (break e)
    then show ?thesis by (simp add: reader_end_def)
  next
    case aborted
    then show ?thesis using feeds_drop_outbound by (cases "wd_next w") simp_all
  qed
  moreover have "wd_writer v = wd_writer w" "wd_close v = wd_close w"
    "wd_dispatcher v = wd_dispatcher w" "wd_discard v = wd_discard w" "wd_channel v = wd_channel w"
    using assms(1) by (cases rule: reader_step.cases; simp)+
  ultimately show ?thesis using carries_reader[OF assms(2)] by blast
qed

section \<open>Steps of the close and of the events\<close>

text \<open>A step of the pipeline itself: the tickets stay where they are.\<close>

lemma carries_pipe:
  assumes C: "carries w p" and P: "pipe_step p q" "pl_tickets q = pl_tickets p"
    and q: "pl_inner q = wd_inner v" "pl_dispatcher q = wd_dispatcher v" "pl_discard q = wd_discard v"
      "pl_channel q = wd_channel v" "pl_fallback q \<Longrightarrow> fallback_reached v"
    and Q: "same_queues (wd_inner w) (wd_inner v)"
    and same: "wd_writer v = wd_writer w" "wd_next v = wd_next w"
      "\<And>d. d \<in> set (wd_close v) \<Longrightarrow> d \<in> set (wd_close w) \<or>
         close_silent d \<and> (waits_left d < 5 \<longrightarrow> in_phase (wd_inner v) = Phase_Closed)"
  shows "\<exists>q. pipe_step\<^sup>*\<^sup>* p q \<and> carries v q"
proof -
  note D = carriesD[OF C]
  note T = tasks_okD[OF D(6)]
  have "in_phase (wd_inner w) = Phase_Closed \<Longrightarrow> in_phase (wd_inner v) = Phase_Closed"
    using pipe_step_closed[OF P(1)] by (simp add: D(1) q(1))
  moreover have "queues_ok (wd_inner v)" "queue_tickets (wd_inner v) = queue_tickets (wd_inner w)"
    using T(1) Q by (simp_all add: queues_ok_def queue_tickets_def same_queues_def)
  ultimately have "tasks_ok v" "world_tickets v = world_tickets w"
    using T same unfolding tasks_ok_def world_tickets_def by auto
  then have "carries v q" using q D(5) P(2) by (simp add: carries_def)
  then show ?thesis using P(1) by blast
qed

text \<open>A turn of a close task; a task that has reached the end keeps the promise of its conclusion.\<close>

lemma turn_waits:
  assumes "close_turn timed_out ready d c = (d', c')"
    and "waits_left d < 5 \<Longrightarrow> in_phase (cx_inner c) = Phase_Closed"
  shows "waits_left d' \<le> waits_left d" "waits_left d' < 5 \<Longrightarrow> in_phase (cx_inner c') = Phase_Closed"
proof -
  have "waits_left d' \<le> waits_left d \<and> (waits_left d' < 5 \<longrightarrow> in_phase (cx_inner c') = Phase_Closed)"
  proof (cases "reaping d")
    case True
    then show ?thesis
      using assms by (cases d) (auto simp: close_turn_def reap_turn_def finish_closed Let_def split: if_splits)
  next
    case False
    then obtain t where t: "graceful_turn timed_out ready d (cx_inner c) = (d', t)"
      using assms(1) by (auto simp: close_turn_def split: prod.splits)
    show ?thesis using graceful_turn_progress(1,2)[OF t False] by simp
  qed
  then show "waits_left d' \<le> waits_left d" "waits_left d' < 5 \<Longrightarrow> in_phase (cx_inner c') = Phase_Closed" by simp_all
qed

lemma close_carried:
  assumes "close_step w v" "carries w p"
  shows "carried w v p"
proof -
  note D = carriesD[OF assms(2)]
  note T = tasks_okD[OF D(6)]
  from assms(1) show ?thesis
  proof (cases rule: close_step.cases)
    case (call d c)
    then have "feeds H (wd_inner w) H (cx_inner c) \<and> close_silent d \<and> 5 \<le> waits_left d" for H
      using close_call_feeds takeover_call_feeds by blast
    then show ?thesis
      unfolding call(1) by (intro carries_state[OF assms(2)]) (auto simp: fallback_reached_def)
  next
    case (turn xs d ys timed_out ready d' c)
    have d: "d \<in> set (wd_close w)" using turn(2) by simp
    have w: "waits_left d' \<le> waits_left d" "waits_left d' < 5 \<Longrightarrow> in_phase (cx_inner c) = Phase_Closed"
      using turn_waits[OF turn(3) T(5)[OF d]] by simp_all
    then have f: "fallback_reached w \<Longrightarrow> fallback_reached v"
      using turn(1,2) by (auto simp: fallback_reached_def)
    note S = close_turn_feeds[OF turn(3) T(4)[OF d]]
    from S show ?thesis
    proof (elim conjE disjE)
      assume "close_silent d'" "\<forall>H. feeds H (wd_inner w) H (cx_inner c)"
      then show ?thesis using w f turn(2) unfolding turn(1) by (intro carries_state[OF assms(2)]) auto
    next
      assume s: "close_silent d'" "d = Reap_Cleanup" "d' = Reap_Fallback" "\<not> in_cleanup_complete (wd_inner w)"
        and t: "cx_inner c = with_task (Cleanup True) (wd_inner w)"
      have "in_phase (wd_inner w) = Phase_Closed" using T(5)[OF d] s(2) by simp
      then have P: "pipe_step p (p\<lparr>pl_inner := with_task (Cleanup True) (pl_inner p), pl_fallback := True\<rparr>)"
        using s(4) by (intro pipe_step.fallback) (simp_all add: D(1))
      have "\<exists>q. pipe_step\<^sup>*\<^sup>* p q \<and> carries v q"
      proof (rule carries_pipe[OF assms(2) P])
        show "e \<in> set (wd_close w) \<or> close_silent e \<and> (waits_left e < 5 \<longrightarrow> in_phase (wd_inner v) = Phase_Closed)"
          if "e \<in> set (wd_close v)" for e using that turn(1,2) s(1) w(2) by auto
        show "same_queues (wd_inner w) (wd_inner v)" using turn(1) t by (simp add: same_queues_def with_task_def)
      qed (use D turn(1) s(3) t in \<open>simp_all add: fallback_reached_def\<close>)
      moreover have "clearing (wd_inner v) \<longrightarrow> clearing (wd_inner w)" "published_in (wd_inner w) (wd_inner v) = {}"
        using turn(1) t by (auto simp: clearing_def cleanup_due_def with_task_def)
      ultimately show ?thesis by (simp add: carried_def)
    qed
  next
    case handle_cloned
    then show ?thesis
      using connection_feeds(1)[of _ "wd_conn w"] by (intro carries_state[OF assms(2)]) (auto simp: fallback_reached_def)
  next
    case handle_dropped
    then show ?thesis
      using connection_feeds(2)[of _ "wd_conn w"] by (intro carries_state[OF assms(2)]) (auto simp: fallback_reached_def)
  next
    case worker_ended
    then show ?thesis
      using connection_feeds(3)[of _ "wd_conn w"] by (intro carries_state[OF assms(2)]) (auto simp: fallback_reached_def)
  next
    case takeover_ended
    then show ?thesis
      using connection_feeds(4)[of _ "wd_conn w"] by (intro carries_state[OF assms(2)]) (auto simp: fallback_reached_def)
  next
    case (events_taken b c)
    then show ?thesis
      using connection_feeds(5)[of _ "wd_conn w"] by (intro carries_state[OF assms(2)]) (auto simp: fallback_reached_def)
  qed
qed

lemma same_queues_refl [simp]: "same_queues s s"
  by (simp add: same_queues_def)

lemma same_queues_trans: "same_queues s t \<Longrightarrow> same_queues t u \<Longrightarrow> same_queues s u"
  by (simp add: same_queues_def)

lemma same_queues_aside: "aside s t \<Longrightarrow> same_queues s t"
  by (simp add: aside_def)

lemma same_queues_clear: "fail_all_pending fallback order s = (task, t) \<Longrightarrow> same_queues s t"
proof -
  obtain dropped u where u: "drain_pending order s = (dropped, u)" by force
  have "aside s u" using u aside_fold[of remove_pending] by (auto simp: drain_pending_def)
  moreover assume "fail_all_pending fallback order s = (task, t)"
  then have "quiet u t" using u by (auto simp: fail_all_pending_def next_chunk_def split: list.splits)
  ultimately show ?thesis using same_queues_aside same_queues_quiet same_queues_trans by blast
qed

lemma same_queues_finish: "same_queues s (cleanup_finish order s)"
proof -
  let ?a = "take_pending_terminate (fold remove_heartbeat order s)"
  have "aside s (fold remove_heartbeat order s)" by (rule aside_fold) simp
  then have "aside s ?a" by (rule aside_trans) simp
  moreover have "quiet ?a (cleanup_finish order s)" unfolding cleanup_finish_def by (rule quiet_trans[of _ "close_event_spool ?a"]) simp_all
  ultimately show ?thesis using same_queues_aside same_queues_quiet same_queues_trans by blast
qed

lemma event_queues:
  assumes "event_step w v"
  shows "same_queues (wd_inner w) (wd_inner v)"
proof -
  have S: "quiet (wd_inner w) (without_spawned xs ys (wd_inner w))" for xs ys by (simp add: without_spawned_def)
  have Q: "same_queues (wd_inner w) t" if "same_queues (without_spawned xs ys (wd_inner w)) t" for xs ys t
    using same_queues_quiet[OF S] that by (rule same_queues_trans)
  note R = Q[OF same_queues_quiet]
  from assms show ?thesis
  proof (cases rule: event_step.cases)
    case (overload_begin xs ys s)
    then show ?thesis using R[OF quiet_trans[OF quiet_tickets(3) quiet_task]] by simp
  next
    case (overload_drain xs ys s timed_out ended t)
    then have "quiet s t" using quiet_tickets(4)[of s timed_out] by simp
    then have "quiet s (finish (Some Error_ChannelClosed) t)" "quiet s (with_task Overload_Drain t)"
      using quiet_trans quiet_tickets(6) quiet_task by blast+
    then show ?thesis using R overload_drain(1,3) by simp
  next
    case (cleanup_start xs fallback ys s order task t)
    have "same_queues s (with_task task t)"
      using same_queues_trans[OF same_queues_clear[OF cleanup_start(6)] same_queues_quiet[OF quiet_task]] .
    then show ?thesis using Q cleanup_start(1,3) by simp
  next
    case (cleanup_publish xs fallback c rest ys s give_up task t)
    then show ?thesis using R[OF quiet_trans[OF quiet_chunk quiet_task]] by simp
  next
    case (cleanup_end xs ys s order)
    then show ?thesis using Q[OF same_queues_finish] by simp
  next
    case (fallback_cancelled xs c rest ys s)
    then show ?thesis using R[OF quiet_permit(2)] by simp
  next
    case (retry xs item ys s task t)
    then have "quiet s t" using quiet_retry by blast
    then have "quiet s (case task of None \<Rightarrow> t | Some k \<Rightarrow> with_task k t)"
      using quiet_trans[OF _ quiet_task] by (simp split: option.split)
    then show ?thesis using R retry(1,3) by simp
  next
    case (dispatch timed_out f d discard_events c t)
    then show ?thesis using same_queues_quiet[OF quiet_dispatch[OF dispatch(2)]] by simp
  qed simp_all
qed

lemma event_carried:
  assumes "event_step w v" "carries w p"
  shows "\<exists>q. pipe_step\<^sup>*\<^sup>* p q \<and> carries v q"
proof -
  note D = carriesD[OF assms(2)]
  have same: "wd_writer v = wd_writer w" "wd_next v = wd_next w" "wd_close v = wd_close w"
    using assms(1) by (cases rule: event_step.cases; simp)+
  note C = carries_pipe[OF assms(2) _ _ _ _ _ _ _ event_queues[OF assms(1)] same(1,2)]
  have go: ?thesis if "pipe_step p q" "pl_tickets q = pl_tickets p" "pl_inner q = wd_inner v"
      "pl_dispatcher q = wd_dispatcher v" "pl_discard q = wd_discard v" "pl_channel q = wd_channel v"
      "pl_fallback q = pl_fallback p" for q
    by (rule C[OF that(1-6)]) (use D(7) that(7) in \<open>simp_all add: same(3) fallback_reached_def\<close>)
  have i: "pl_inner (without_task xs ys p) = without_spawned xs ys (wd_inner w)" for xs ys
    by (simp add: without_task_def without_spawned_def D(1))
  have rest: "pl_tickets (without_task xs ys p) = pl_tickets p" "pl_dispatcher (without_task xs ys p) = wd_dispatcher w"
    "pl_discard (without_task xs ys p) = wd_discard w" "pl_channel (without_task xs ys p) = wd_channel w"
    "pl_fallback (without_task xs ys p) = pl_fallback p" for xs ys
    by (simp_all add: without_task_def D(2-4))
  from assms(1) show ?thesis
  proof (cases rule: event_step.cases)
    case (overload_begin xs ys s)
    show ?thesis
      by (rule go[OF pipe_step.overload_begin[OF _ refl, of p xs ys]])
        (use overload_begin in \<open>simp_all add: D(1-4) i rest\<close>)
  next
    case (overload_drain xs ys s timed_out ended t)
    show ?thesis
      by (rule go[OF pipe_step.overload_drain[OF _ refl, of p xs ys timed_out ended t]])
        (use overload_drain in \<open>simp_all add: D(1-4) i rest run_finish_def Let_def\<close>)
  next
    case (cleanup_start xs fallback ys s order task t)
    show ?thesis
      by (rule go[OF pipe_step.cleanup_start[OF _ refl, of p xs fallback ys order task t]])
        (use cleanup_start in \<open>simp_all add: D(1-4) i rest\<close>)
  next
    case (cleanup_publish xs fallback c cs ys s give_up task t)
    show ?thesis
      by (rule go[OF pipe_step.cleanup_publish[OF _ refl _ refl refl, of p xs fallback c cs ys give_up task t]])
        (use cleanup_publish in \<open>simp_all add: D(1-4) i rest\<close>)
  next
    case (cleanup_end xs ys s order)
    show ?thesis
      by (rule go[OF pipe_step.cleanup_end[OF _ refl, of p xs ys order]])
        (use cleanup_end in \<open>simp_all add: D(1-4) i rest\<close>)
  next
    case (fallback_cancelled xs c cs ys s)
    show ?thesis
      by (rule go[OF pipe_step.fallback_cancelled[OF _ refl, of p xs c cs ys]])
        (use fallback_cancelled in \<open>simp_all add: D(1-4) i rest\<close>)
  next
    case (retry xs item ys s task t)
    show ?thesis
      by (rule go[OF pipe_step.retry[OF _ refl, of p xs item ys task t]])
        (use retry in \<open>simp_all add: D(1-4) i rest\<close>)
  next
    case (dispatch timed_out f d discard_events c t)
    show ?thesis
      by (rule go[OF pipe_step.dispatch[OF _ refl, of timed_out p f d discard_events c t]])
        (use dispatch in \<open>simp_all add: D(1-4)\<close>)
  next
    case (consume e es)
    show ?thesis
      by (rule go[OF pipe_step.consume[of p e es]]) (use consume in \<open>simp_all add: D(1-4)\<close>)
  next
    case receiver_dropped
    show ?thesis
      by (rule go[OF pipe_step.receiver_dropped[of p]]) (use receiver_dropped in \<open>simp_all add: D(1-4)\<close>)
  qed
qed

lemma world_carried:
  assumes "world_step w v" "carries w p"
  shows "\<exists>q. pipe_step\<^sup>*\<^sup>* p q \<and> carries v q"
  using assms(1)
  by (cases rule: world_step.cases)
    (use assms(2) caller_carried writer_carried reader_carried timer_carried close_carried event_carried in
      \<open>auto simp: carried_def\<close>)

lemma world_clearing:
  assumes "world_step w v" "carries w p" "clearing (wd_inner v)"
  shows "clearing (wd_inner w) \<or> event_step w v"
  using assms(1)
  by (cases rule: world_step.cases)
    (use assms(2,3) caller_carried writer_carried reader_carried timer_carried close_carried in
      \<open>auto simp: carried_def\<close>)

lemma carries_start:
  "carries (world_new (connection_new params read_buf)) (pipe_new (inner_new params) INCOMING_CHANNEL_CAPACITY)"
  by (simp add: carries_def tasks_ok_def world_new_def connection_new_def pipe_new_def world_tickets_def queues_ok_def
      queue_tickets_def inner_new_def Let_def)

section \<open>The tickets the dispatcher waits for\<close>

text \<open>
  The places of the event stream that are kept for a deferred event: as long as nothing has come through
  their one-shot, some task holds the ticket.
\<close>

definition awaited :: "dispatcher \<Rightarrow> inner \<Rightarrow> nat set" where
  "awaited d s = {n. Slot_Ticket n \<in> set (hand_slots d @ concat (map item_slots (in_spool s)))}"

definition held_inv :: "pipe \<Rightarrow> bool" where
  "held_inv p \<longleftrightarrow>
     (\<forall>n\<in>awaited (pl_dispatcher p) (pl_inner p). in_oneshots (pl_inner p) n = Unsent \<longrightarrow> n \<in> set (pl_tickets p))"

lemma held_same:
  assumes "held_inv p" "pl_tickets q = pl_tickets p"
    and "awaited (pl_dispatcher q) (pl_inner q) \<subseteq> awaited (pl_dispatcher p) (pl_inner p)"
    and "\<And>n. in_oneshots (pl_inner q) n = Unsent \<Longrightarrow> in_oneshots (pl_inner p) n = Unsent"
  shows "held_inv q"
  using assms unfolding held_inv_def by (metis subsetD)

lemma held_offered:
  assumes "held_inv p" "offered sent item (pl_inner p) (pl_inner q)" "pl_dispatcher q = pl_dispatcher p"
    and "\<And>n. sent \<Longrightarrow> Slot_Ticket n \<in> set (item_slots item) \<Longrightarrow> n \<in> set (pl_tickets q)"
    and "set (pl_tickets p) \<subseteq> set (pl_tickets q)"
    and "\<And>n. in_oneshots (pl_inner q) n = Unsent \<Longrightarrow> n \<notin> set (pl_tickets q) \<Longrightarrow> in_oneshots (pl_inner p) n = Unsent"
  shows "held_inv q"
  unfolding held_inv_def
proof (intro ballI impI)
  fix n
  assume n: "n \<in> awaited (pl_dispatcher q) (pl_inner q)" "in_oneshots (pl_inner q) n = Unsent"
  then have "n \<in> awaited (pl_dispatcher p) (pl_inner p) \<or> sent \<and> Slot_Ticket n \<in> set (item_slots item)"
    using offeredD(1)[OF assms(2)] assms(3) by (auto simp: awaited_def split: if_splits)
  then show "n \<in> set (pl_tickets q)" using assms(1,4-) n(2) unfolding held_inv_def by blast
qed

lemma held_gone:
  assumes "held_inv p" "distinct (pl_tickets p)" "pl_tickets q = remove1 n (pl_tickets p)"
    and "pl_dispatcher q = pl_dispatcher p" "in_spool (pl_inner q) = in_spool (pl_inner p)"
    and "in_oneshots (pl_inner q) = (in_oneshots (pl_inner p))(n := w)" "w \<noteq> Unsent"
  shows "held_inv q"
  using assms unfolding held_inv_def awaited_def by auto

lemma held_dispatch:
  assumes D: "event_dispatcher timed_out (pl_dispatcher p) (pl_discard p) (pl_channel p) (pl_inner p) =
      Some (f, d, discard_events, c, t)"
    and inv: "held_inv p" and q: "pl_tickets q = pl_tickets p" "pl_inner q = t" "pl_dispatcher q = d"
  shows "held_inv q"
proof -
  have frame: "in_oneshots u = in_oneshots (pl_inner p) \<and> in_spool u = in_spool (pl_inner p)"
    if "dispatch_direct_event timed_out (pl_discard p) e (pl_channel p) (pl_inner p) = (f, discard_events, c, u)"
      "f \<noteq> Fate_Waiting" for e u
    using that by (cases rule: dispatch_direct_cases) (auto simp: degraded_def frame_tickets_def)
  from D show ?thesis
  proof (cases rule: dispatcher_cases)
    case (direct e es m)
    then show ?thesis using frame[OF direct(4,3)] by (intro held_same[OF inv]) (auto simp: q awaited_def)
  next
    case (ticket n e u)
    then show ?thesis using frame[OF ticket(5,4)] by (intro held_same[OF inv]) (auto simp: q awaited_def)
  qed (rule held_same[OF inv]; auto simp: q awaited_def split: if_splits)+
qed

lemma held_inv_step:
  assumes "pipe_step p q" "held_inv p" "ticket_inv p" "retries_terminal p"
  shows "held_inv q"
  using assms
proof (induction rule: pipe_step.induct)
  case (emit e p sent t)
  show ?case
    by (rule held_offered[OF emit(2), of sent "Spool_Direct e"])
      (use emit_event_offered[OF emit(1)] conjunct1[OF emit_event_frame[OF emit(1)]] in \<open>simp_all add: frame_tickets_def\<close>)
next
  case (reserve p n t)
  have n: "n = in_next_oneshot (pl_inner p)" "in_oneshots t = (in_oneshots (pl_inner p))(n := Unsent)"
    using reserve_deferred_frame[OF reserve(1)] by simp_all
  show ?case
    by (rule held_offered[OF reserve(2), of True "Spool_Event n"])
      (use reserve_deferred_offered[OF reserve(1)] n in \<open>auto split: if_splits\<close>)
next
  case (reserve_err p r t)
  show ?case
    by (rule held_offered[OF reserve_err(2), of False "Spool_Event (in_next_oneshot (pl_inner p))"])
      (use reserve_deferred_offered[OF reserve_err(1)] reserve_deferred_frame[OF reserve_err(1)] in
        \<open>auto simp: frame_tickets_def split: if_splits\<close>)
next
  case (publish n p e ok t)
  show ?case
    by (rule held_gone[OF publish(3), of _ n "if in_oneshots (pl_inner p) n = Receiver_gone then Receiver_gone else Sent e"])
      (use publish(2,4) in \<open>auto simp: Cmpp_Events.publish_def ticket_inv_def Let_def split: if_splits\<close>)
next
  case (drop_ticket n p)
  show ?case
    by (rule held_gone[OF drop_ticket(2), of _ n "if in_oneshots (pl_inner p) n = Receiver_gone then Receiver_gone else Sender_gone"])
      (use drop_ticket(3) in \<open>auto simp: ticket_drop_def ticket_inv_def Let_def split: if_splits\<close>)
next
  case (seal timed_out p ended t)
  with tightened_sel[OF tightened_drain_tickets[OF seal(1)]] show ?case
    by - (rule held_same[where p = p], auto simp: awaited_def)
next
  case (drain p)
  with tightened_sel[OF tightened_begin_drain[of "pl_inner p"]] show ?case
    by - (rule held_same[where p = p], auto simp: awaited_def)
next
  case (closing drain_submits p started t)
  from begin_closing_eq[OF closing(1)] closing show ?case
    by - (rule held_same[where p = p], auto simp: same_pipe_def awaited_def)
next
  case (overload_begin p xs ys q)
  with tightened_sel[OF tightened_begin_drain[of "pl_inner q"]] show ?case
    by - (rule held_same[where p = p], auto simp: awaited_def)
next
  case (overload_drain p xs ys q timed_out ended t)
  with tightened_sel[OF tightened_drain_tickets[OF overload_drain(3)]] show ?case
    by (cases ended) (rule held_same[where p = p]; simp add: awaited_def)+
next
  case (cleanup_start p xs fallback ys q order task t)
  with chunk_step_start[OF cleanup_start(4)] show ?case
    by - (rule held_same[where p = p], auto simp: chunk_step_def frame_tickets_def awaited_def)
next
  case (cleanup_publish p xs fallback c rest ys q give_up task t sent given_up)
  show ?case
    by (rule publish_chunk_cases[OF cleanup_publish(3)]; rule held_same[where p = p];
        use cleanup_publish in \<open>auto simp: chunk_step_def frame_tickets_def awaited_def\<close>)
next
  case (cleanup_end p xs ys q order)
  show ?case
    by (rule cleanup_finish_cases[of "pl_inner q" order]; rule held_same[where p = p];
        use cleanup_end in \<open>auto simp: same_pipeD spool_ended_def frame_tickets_def awaited_def\<close>)
next
  case (retry p xs item ys q task t)
  then have "item_slots item = []" by (cases item) (auto simp: retries_terminal_def)
  then show ?case
    by - (rule terminal_retry_cases[OF retry(3)]; rule held_same[where p = p];
        use retry in \<open>auto simp: frame_tickets_def awaited_def\<close>)
next
  case (dispatch timed_out p f d discard_events c t appended)
  show ?case by (rule held_dispatch[OF dispatch(1,3)]) simp_all
next
  case (environment p t)
  then show ?case by - (rule held_same[where p = p], auto simp: besideD awaited_def)
qed (rule held_same; auto simp: awaited_def)+

lemma held_reachable:
  assumes "pipe_reachable params p"
  shows "held_inv p"
  using assms
proof (induction rule: pipe_reachable.induct)
  case start
  show ?case by (simp add: held_inv_def awaited_def pipe_new_def inner_new_def Let_def)
next
  case (step p q)
  show ?case by (rule held_inv_step[OF step(2,3) pipe_invD(3)[OF step(1)] term_retries[OF pipe_invD(4)[OF step(1)]]])
qed

section \<open>The refinement\<close>

interpretation pipeline: transition_system pipe_step "pipe_reachable params"
    "pipe_new (inner_new params) INCOMING_CHANNEL_CAPACITY"
  for params
proof unfold_locales
  show "pipe_reachable params (pipe_new (inner_new params) INCOMING_CHANNEL_CAPACITY)" by (rule pipe_reachable.start)
  show "pipe_reachable params q" if "pipe_reachable params p" "pipe_step p q" for p q
    using that by (rule pipe_reachable.step)
  show "P p" if "pipe_reachable params p" "P (pipe_new (inner_new params) INCOMING_CHANNEL_CAPACITY)"
    "\<And>p q. pipe_reachable params p \<Longrightarrow> P p \<Longrightarrow> pipe_step p q \<Longrightarrow> P q" for P p
    using that by (induction rule: pipe_reachable.induct) blast+
qed

interpretation stream: simulation world_step "world_reachable params read_buf"
    "world_new (connection_new params read_buf)" pipe_step "pipe_reachable params"
    "pipe_new (inner_new params) INCOMING_CHANNEL_CAPACITY" carries
  for params read_buf
proof unfold_locales
  show "carries (world_new (connection_new params read_buf)) (pipe_new (inner_new params) INCOMING_CHANNEL_CAPACITY)"
    by (rule carries_start)
  show "\<exists>q. pipe_step\<^sup>*\<^sup>* p q \<and> carries v q" if "carries w p" "world_step w v" for w p v
    using world_carried[OF that(2,1)] .
qed

section \<open>What is published\<close>

text \<open>The tasks of the event pipeline publish nothing, and so the end of a complete write is all that does.\<close>

lemma direct_oneshots:
  assumes "dispatch_direct_event timed_out discard e c s = (f, discard', c', t)" "f \<noteq> Fate_Waiting"
  shows "in_oneshots t = in_oneshots s"
  using assms by (cases rule: dispatch_direct_cases) (auto simp: degraded_def frame_tickets_def)

lemma dispatch_published:
  assumes "event_dispatcher timed_out d discard c s = Some (f, d', discard', c', t)"
  shows "published_in s t = {}"
  using assms
proof (cases rule: dispatcher_cases)
  case (skipped n rest)
  then show ?thesis by (auto simp: published_in_def)
next
  case (exit reason rest)
  then show ?thesis by (auto simp: published_in_def spool_receiver_drop_def Let_def split: if_splits)
next
  case (direct e es m)
  then show ?thesis using direct_oneshots[OF direct(4,3)] by simp
next
  case (ticket n e u)
  then show ?thesis using direct_oneshots[OF ticket(5,4)] by simp
qed simp_all

lemma event_published:
  assumes "event_step w v"
  shows "published_in (wd_inner w) (wd_inner v) = {}"
  using assms
proof (cases rule: event_step.cases)
  case (overload_begin xs ys s)
  then show ?thesis using tightened_sel(7)[OF tightened_begin_drain[of s]] by (simp add: without_spawned_def with_task_def)
next
  case (overload_drain xs ys s timed_out ended t)
  then show ?thesis
    using tightened_sel(7)[OF tightened_drain_tickets[OF overload_drain(4)]]
    by (cases ended) (simp_all add: without_spawned_def with_task_def finish_oneshots)
next
  case (cleanup_start xs fallback ys s order task t)
  then show ?thesis using chunk_step_start[OF cleanup_start(6)] by (simp add: chunk_step_def frame_tickets_def without_spawned_def with_task_def)
next
  case (cleanup_publish xs fallback c rest ys s give_up task t)
  have "in_oneshots t = in_oneshots s"
    by (rule publish_chunk_cases[OF cleanup_publish(4)]) (simp_all add: chunk_step_def frame_tickets_def)
  then show ?thesis using cleanup_publish by (simp add: without_spawned_def with_task_def)
next
  case (cleanup_end xs ys s order)
  have "in_oneshots (cleanup_finish order s) = in_oneshots s"
    by (rule cleanup_finish_cases[of s order]) (simp_all add: same_pipeD spool_ended_def frame_tickets_def)
  then show ?thesis using cleanup_end by (simp add: without_spawned_def)
next
  case (retry xs item ys s task t)
  have "in_oneshots t = in_oneshots s" using retry(4) by (rule terminal_retry_cases) simp_all
  then show ?thesis using retry by (simp add: without_spawned_def with_task_def split: option.split)
next
  case (dispatch timed_out f d discard_events c t)
  then show ?thesis using dispatch_published[OF dispatch(2)] by simp
qed (simp_all add: without_spawned_def)

lemma world_published:
  assumes "world_step w v" "carries w p"
  shows "published_in (wd_inner w) (wd_inner v) \<subseteq> acknowledged w v"
  using assms(1)
  by (cases rule: world_step.cases)
    (use assms(2) caller_carried writer_carried reader_carried timer_carried close_carried event_published in
      \<open>auto simp: carried_def\<close>)

text \<open>What becomes of the tickets in the batch.\<close>

lemma complete_oneshots:
  "in_oneshots (complete_outbound now ob s) =
     (case ob_event_after_write ob of
        None \<Rightarrow> in_oneshots s
      | Some (n, e) \<Rightarrow> (in_oneshots s)(n := if in_oneshots s n = Receiver_gone then Receiver_gone else Sent e))"
proof -
  have "in_oneshots (complete_heartbeat_attempt key now s) = in_oneshots s" for key
    by (simp add: complete_heartbeat_attempt_def split: option.split)
  then show ?thesis
    by (auto simp: complete_outbound_def Cmpp_Events.publish_def Let_def split: option.split)
qed

lemma completed_oneshots:
  assumes "x \<in> written_events obs" "x = (n, e)" "count (tickets_in obs) n \<le> 1"
  shows "in_oneshots (fold (complete_outbound now) obs s) n =
    (if in_oneshots s n = Receiver_gone then Receiver_gone else Sent e)"
proof -
  have away: "in_oneshots (fold (complete_outbound now) obs s) n = in_oneshots s n" if "n \<notin># tickets_in obs" for obs s
    using that
    by (induction obs arbitrary: s) (auto simp: complete_oneshots ob_tickets_def split: option.splits)
  show ?thesis using assms
  proof (induction obs arbitrary: s)
    case (Cons ob obs)
    show ?case
    proof (cases "ob_event_after_write ob = Some (n, e)")
      case True
      then have "count (ob_tickets ob) n = 1" by (simp add: ob_tickets_def)
      then have "n \<notin># tickets_in obs" using Cons.prems(3) by (simp add: not_in_iff)
      then show ?thesis using away[of obs] True by (simp add: complete_oneshots)
    next
      case False
      then have x: "x \<in> written_events obs" using Cons.prems(1,2) by (auto simp: written_events_def)
      then have "n \<in># tickets_in obs" using Cons.prems(2)
        by (induction obs) (auto simp: written_events_def ob_tickets_def)
      then have "0 < count (tickets_in obs) n" by simp
      then have "count (ob_tickets ob) n = 0" using Cons.prems(3) unfolding tickets_in_simps count_union by linarith
      then have "in_oneshots (complete_outbound now ob s) n = in_oneshots s n"
        by (auto simp: complete_oneshots ob_tickets_def split: option.splits if_splits)
      then show ?thesis using Cons.IH[OF x Cons.prems(2), of "complete_outbound now ob s"] Cons.prems(3) by simp
    qed
  qed (simp add: written_events_def)
qed

lemma dropped_oneshots:
  "in_oneshots (fold drop_outbound obs s) n =
     (if n \<in># tickets_in obs then if in_oneshots s n = Receiver_gone then Receiver_gone else Sender_gone
      else in_oneshots s n)"
proof (induction obs arbitrary: s)
  case (Cons ob obs)
  have "in_oneshots (drop_outbound ob s) n =
      (if n \<in># ob_tickets ob then if in_oneshots s n = Receiver_gone then Receiver_gone else Sender_gone else in_oneshots s n)"
    by (auto simp: drop_outbound_def ticket_drop_def ob_tickets_def Let_def split: option.split)
  then show ?case by (simp add: Cons.IH)
qed simp

lemma write_fate:
  assumes "after_write a batch outcome s = (continue, t)" "(n, e) \<in> written_events batch" "count (tickets_in batch) n \<le> 1"
  shows "in_oneshots t n =
    (if in_oneshots s n = Receiver_gone then Receiver_gone
     else case outcome of Write_Done now \<Rightarrow> Sent e | _ \<Rightarrow> Sender_gone)"
proof -
  have b: "batch \<noteq> []" using assms(2) by (auto simp: written_events_def)
  have n: "n \<in># tickets_in batch" using assms(2)
    by (induction batch) (auto simp: written_events_def ob_tickets_def)
  have x: "in_oneshots (writer_exit batch (finish r s)) n = (if in_oneshots s n = Receiver_gone then Receiver_gone else Sender_gone)"
    "in_oneshots (writer_exit batch s) n = (if in_oneshots s n = Receiver_gone then Receiver_gone else Sender_gone)" for r
    using n by (simp_all add: writer_exit_def dropped_oneshots finish_oneshots Let_def)
  have m: "in_oneshots (complete_marker marker u) = in_oneshots u" for marker u
    by (simp add: complete_marker_def Let_def split: option.split)
  have c: "in_oneshots (complete_submit_attempts ks now u) = in_oneshots u" for ks now u
  proof -
    have "aside u (fold (complete_attempt now) ks u)" by (rule aside_fold) simp
    then show ?thesis by (simp add: complete_submit_attempts_def aside_def besideD)
  qed
  show ?thesis
    using assms(1) b x completed_oneshots[OF assms(2) refl assms(3)]
    by (cases outcome) (auto simp: after_write_def complete_batch_def m c Let_def)
qed

section \<open>The clean-up takes the pending SUBMITs first\<close>

lemma without_clearing:
  "clearing (without_spawned xs ys s) \<Longrightarrow> in_tasks s = xs @ d # ys \<Longrightarrow> (\<And>b. d \<noteq> Cleanup b) \<Longrightarrow> clearing s"
  by (auto simp: clearing_def cleanup_due_def without_spawned_def)

lemma with_task_clearing: "clearing (with_task d s) \<Longrightarrow> clearing s \<or> cleared_task d"
  by (auto simp: clearing_def cleanup_due_def with_task_def)

lemma clear_started:
  assumes "fail_all_pending fallback order s = (task, t)" "enumerates order (in_pending_submits s)"
  shows "in_pending_submits t = Map.empty"
proof -
  obtain dropped u where u: "drain_pending order s = (dropped, u)" by force
  then have "in_pending_submits u = Map.empty"
    using drained_empty[of s order] assms(2) by (auto simp: drain_pending_def enumerates_def)
  moreover have "quiet u t" using assms(1) u by (auto simp: fail_all_pending_def next_chunk_def split: list.splits)
  ultimately show ?thesis by (simp add: quiet_def same_life_def)
qed

lemma direct_clearing:
  assumes "dispatch_direct_event timed_out discard e c s = (f, discard', c', t)" "f \<noteq> Fate_Waiting" "clearing t"
  shows "clearing s"
  using assms(1,2)
proof (cases rule: dispatch_direct_cases)
  case dropped
  then have D: "overload (count_dropped 1 s) t"
    "in_event_admission t = in_event_admission s \<or> in_event_admission t = Admission_Overflowed"
    by (auto simp: degraded_def)
  show ?thesis by (rule clearing_back[OF _ _ _ assms(3)]) (use D in \<open>auto simp: overload_def\<close>)
qed (use assms(3) in simp)

lemma clearing_same:
  "in_event_admission t = in_event_admission s \<Longrightarrow> in_tasks t = in_tasks s \<Longrightarrow> in_phase t = in_phase s \<Longrightarrow>
   clearing t = clearing s"
  by (simp add: clearing_def cleanup_due_def)

lemma dispatch_clearing:
  assumes "event_dispatcher timed_out d discard c s = Some (f, d', discard', c', t)" "clearing t"
  shows "clearing s"
  using assms(1)
proof (cases rule: dispatcher_cases)
  case (direct e es m)
  then show ?thesis using direct_clearing[OF direct(4,3)] assms(2) by (auto simp: clearing_def)
next
  case (ticket n e u)
  then show ?thesis using direct_clearing[OF ticket(5,4)] assms(2) clearing_same[of t u] by simp
qed (use assms(2) in \<open>auto simp: clearing_def cleanup_due_def\<close>)

lemma event_clears:
  assumes "event_step w v" "clearing (wd_inner v)"
  shows "clearing (wd_inner w) \<or> in_phase (wd_inner v) \<noteq> Phase_Open \<and> in_pending_submits (wd_inner v) = Map.empty"
  using assms(1)
proof (cases rule: event_step.cases)
  case (overload_begin xs ys s)
  then have "clearing (begin_event_drain s)" using assms(2) with_task_clearing[of Overload_Drain "begin_event_drain s"] by simp
  then have "clearing s" by (rule tightened_clearing[OF tightened_begin_drain])
  then have "clearing (wd_inner w)" unfolding overload_begin(3) by (rule without_clearing[OF _ overload_begin(2)]) simp
  then show ?thesis ..
next
  case (overload_drain xs ys s timed_out ended t)
  have "clearing t"
    using assms(2) overload_drain(1) finish_clearing[of _ t] with_task_clearing[of Overload_Drain t] by (simp split: if_splits)
  then have "clearing s" by (rule tightened_clearing[OF tightened_drain_tickets[OF overload_drain(4)]])
  then have "clearing (wd_inner w)" unfolding overload_drain(3) by (rule without_clearing[OF _ overload_drain(2)]) simp
  then show ?thesis ..
next
  case (cleanup_start xs fallback ys s order task t)
  have "in_phase t = Phase_Closed" using chunk_step_start[OF cleanup_start(6)] cleanup_start(4) by (simp add: chunk_step_def)
  then show ?thesis using clear_started[OF cleanup_start(6,5)] cleanup_start(1) by (simp add: with_task_def)
next
  case (retry xs item ys s task t)
  have t: "clearing t = clearing s"
    using retry(4) by (rule terminal_retry_cases) (simp_all add: clearing_def cleanup_due_def)
  have "\<And>k. task = Some k \<Longrightarrow> \<not> cleared_task k"
    using retry(4) by (auto elim!: terminal_retry_cases)
  then have "clearing s" using assms(2) retry(1) t with_task_clearing by (auto split: option.splits)
  then have "clearing (wd_inner w)" unfolding retry(3) by (rule without_clearing[OF _ retry(2)]) simp
  then show ?thesis ..
next
  case (dispatch timed_out f d discard_events c t)
  then show ?thesis using assms(2) dispatch_clearing by auto
next
  case (cleanup_publish xs fallback c rest ys s give_up task t)
  then show ?thesis by (simp add: clearing_def)
next
  case (cleanup_end xs ys s order)
  then show ?thesis by (simp add: clearing_def)
next
  case (fallback_cancelled xs c rest ys s)
  then show ?thesis by (simp add: clearing_def)
qed (use assms(2) in simp_all)

text \<open>Once every SUBMIT admitted is settled on a closing connection, this remains so.\<close>

definition settled :: "life \<Rightarrow> bool" where
  "settled l \<longleftrightarrow> in_phase (lf_inner l) \<noteq> Phase_Open \<and> set (lf_admitted l) \<subseteq> snd ` set (lf_done l)"

lemma settled_step: "life_step l m \<Longrightarrow> settled l \<Longrightarrow> settled m"
  using life_step_effect[of l m] by (fastforce simp: settled_def admits_def settles_def)

lemma settled_run: "life_step\<^sup>*\<^sup>* l m \<Longrightarrow> settled l \<Longrightarrow> settled m"
  by (induction rule: rtranclp_induct) (auto intro: settled_step)

lemma settled_pending:
  assumes "life_reachable params l" "0 < retry_count params"
  shows "settled l \<longleftrightarrow> in_phase (lf_inner l) \<noteq> Phase_Open \<and> (\<forall>k. \<not> unfinished (in_pending_submits (lf_inner l)) k)"
  using life_reachable_facts(1)[OF assms] by (fastforce simp: settled_def core_inv_def)

definition clear_inv :: "world \<Rightarrow> bool" where
  "clear_inv w \<longleftrightarrow>
     (clearing (wd_inner w) \<longrightarrow>
        in_phase (wd_inner w) \<noteq> Phase_Open \<and> (\<forall>k. \<not> unfinished (in_pending_submits (wd_inner w)) k))"

section \<open>Two runs of the tasks\<close>

text \<open>A gateway that sends a DELIVER right after the login: the reader has admitted it, for the witnesses.\<close>

definition sample_deliver :: deliver where
  "sample_deliver = \<lparr>dl_msg_id = [1, 2, 3, 4, 5, 6, 7, 8], dl_dest_id = [], dl_service_id = [], dl_tp_pid = 0,
     dl_tp_udhi = 0, dl_msg_fmt = 0, dl_src_terminal_id = [], dl_registered_delivery = 0, dl_msg_content = [104]\<rparr>"

definition sample_read_ahead :: bytes where
  "sample_read_ahead = frame_bytes (pdu_command_id (Pdu_Deliver sample_deliver)) 5 (pdu_wire (Pdu_Deliver sample_deliver))"

lemma sample_deliver_read:
  obtains ob t where
    "read_buffered 0 0 sample_read_ahead reader_new (inner_new params_default) = Some (Await_Deliver_Resp ob, [], reader_new, t)"
    "ob_tickets ob = {#in_next_oneshot (inner_new params_default)#}"
    "in_spool t = [Spool_Event (in_next_oneshot (inner_new params_default))]"
    "in_oneshots t (in_next_oneshot (inner_new params_default)) = Unsent" "in_control_queue t = []"
proof -
  let ?i = "inner_new params_default"
  let ?s = "?i\<lparr>in_delivers_received := in_delivers_received ?i + 1\<rparr>"
  have sel: "in_event_admission ?i = Admission_Open" "in_event_depth ?i = 0" "in_event_spool_capacity ?i = 256"
    "in_spool ?i = []" "in_spool_closed ?i = False" "in_response_timeout ?i = 60000000000" "in_phase ?i = Phase_Open"
    by (simp_all add: inner_new_def Let_def params_default_def div_ceil_def SUBMIT_DROPPED_BATCH_SIZE_def)
  obtain n t where R: "reserve_deferred_event ?s = (Ok n, t)"
    by (simp add: reserve_deferred_event_def make_event_ticket_def spool_offer_def spool_try_send_def
        depth_permit_new_n_def sel Let_def EVENT_SPOOL_EMERGENCY_CAPACITY_def)
  have t: "n = in_next_oneshot ?i" "in_oneshots t n = Unsent" using reserve_deferred_frame[OF R] by simp_all
  have q: "in_spool t = [Spool_Event n]" using reserve_deferred_offered[OF R] t(1) sel(4) by (simp add: offered_def)
  have "in_response_timeout t = in_response_timeout ?i"
    using R by (simp add: reserve_deferred_event_def make_event_ticket_def spool_offer_def spool_try_send_def
        depth_permit_new_n_def sel Let_def EVENT_SPOOL_EMERGENCY_CAPACITY_def) (auto simp: sel)
  then obtain ob where d: "read_deliver 0 0 5 sample_deliver ?i = (Await_Deliver_Resp ob, t)" "ob_tickets ob = {#n#}"
    by (simp add: read_deliver_eq R sel(6))
  have "pdu_wf (Pdu_Deliver sample_deliver)" by (simp add: sample_deliver_def deliver_wf_def octet_ok_def)
  from codec_roundtrip(2)[OF this, of 5 "[]"]
  have "codec_decode sample_read_ahead = (Ok (Some (frame_new 5 (Pdu_Deliver sample_deliver))), [])"
    by (simp add: sample_read_ahead_def)
  then have "read_buffered 0 0 sample_read_ahead reader_new ?i = Some (Await_Deliver_Resp ob, [], reader_new, t)"
    using d(1) by (simp add: read_buffered_def sel(7) read_frame_def frame_new_def reader_flush_def flush_submit_resps_def reader_new_def Let_def)
  moreover have "in_control_queue t = []"
    using quiet_reserve_deferred[of ?s] R same_queues_quiet[of ?s t] by (simp add: same_queues_def) (simp add: inner_new_def Let_def)
  ultimately show ?thesis using that d(2) q t by simp
qed

lemma sample_step_deliver:
  obtains v ob n where "world_step (world_new (connection_new params_default sample_read_ahead)) v"
    "world_tickets v = {#n#}" "n \<in> awaited (wd_dispatcher v) (wd_inner v)" "in_oneshots (wd_inner v) n = Unsent"
    "wd_next v = Await_Deliver_Resp ob"
proof -
  let ?w = "world_new (connection_new params_default sample_read_ahead)"
  obtain ob t where t: "read_buffered 0 0 sample_read_ahead reader_new (inner_new params_default) =
      Some (Await_Deliver_Resp ob, [], reader_new, t)" "ob_tickets ob = {#in_next_oneshot (inner_new params_default)#}"
    "in_spool t = [Spool_Event (in_next_oneshot (inner_new params_default))]"
    "in_oneshots t (in_next_oneshot (inner_new params_default)) = Unsent" "in_control_queue t = []"
    by (rule sample_deliver_read)
  let ?v = "(with_inner t ?w)\<lparr>wd_next := Await_Deliver_Resp ob, wd_buf := [], wd_reader := reader_new\<rparr>"
  have "reader_step ?w ?v"
    by (rule reader_step.buffered[where now = 0 and elapsed = 0]) (simp_all add: world_new_def connection_new_def t(1))
  then show ?thesis
    using that[OF world_step.reader] t by (simp add: awaited_def world_tickets_def queue_tickets_def world_new_def)
qed

lemma sample_world_deliver:
  obtains w n where "world_reachable params_default sample_read_ahead w" "world_tickets w = {#n#}"
    "n \<in> awaited (wd_dispatcher w) (wd_inner w)" "in_oneshots (wd_inner w) n = Unsent"
  using sample_step_deliver world_reachable.step[OF world_reachable.start] by metis

text \<open>
  The connection of the other samples is lost with its SUBMIT pending: the reader ends it, the clean-up
  drains the map, publishes the outcome and queues the terminal item.
\<close>

definition sample_lost :: inner where
  "sample_lost = finish (Some Error_Timeout) sample_committed"

lemma sample_fields:
  "in_phase sample_committed = Phase_Open" "in_tasks sample_committed = []" "in_spool sample_committed = []"
  "in_spool_closed sample_committed = False" "in_pending_submits sample_committed = [2 \<mapsto> sample_pending (Queued 1)]"
  "in_heartbeat_pending sample_committed = Map.empty"
  by (simp_all add: sample_committed_def sample_prepared_def sample_acquired_def inner_new_def Let_def)

lemma sample_lost_fields:
  "in_phase sample_lost = Phase_Closed" "in_tasks sample_lost = [Cleanup False]" "in_spool sample_lost = []"
  "in_spool_closed sample_lost = False" "in_pending_submits sample_lost = [2 \<mapsto> sample_pending (Queued 1)]"
  "in_heartbeat_pending sample_lost = Map.empty"
  by (simp_all add: sample_lost_def finish_eq sample_fields)

lemma sample_world_lost:
  "world_reachable params_default [] ((sample_world sample_lost)\<lparr>wd_next := Reader_Return\<rparr>)"
proof -
  let ?w = "sample_world sample_committed"
  let ?b = "?w\<lparr>wd_next := Reader_Break Error_Timeout, wd_buf := [], wd_reader := reader_new\<rparr>"
  have f: "reader_flush reader_new sample_committed = (reader_new, sample_committed)"
    by (simp add: reader_flush_def reader_new_def flush_submit_resps_def)
  have new: "wd_next ?w = Go_On" "wd_buf ?w = []" "wd_reader ?w = reader_new" "wd_inner ?w = sample_committed"
    by (simp_all add: sample_world_def world_new_def connection_new_def)
  have "read_buffered 0 0 [] reader_new sample_committed = None"
    by (simp add: read_buffered_def sample_fields codec_decode_def CMPP_HEADER_LENGTH_def)
  then have "reader_step ?w ((with_inner sample_committed ?w)\<lparr>wd_next := Reader_Break Error_Timeout, wd_buf := [], wd_reader := reader_new\<rparr>)"
    by (intro reader_step.read[where outcome = Read_Idle_Timeout])
      (simp_all add: new read_socket_def f)
  then have "world_reachable params_default [] ?b"
    using world_reachable.step[OF sample_world_committed world_step.reader] by (simp add: sample_world_def with_inner_def)
  moreover have "reader_step ?b ((with_inner (reader_end (Reader_Break Error_Timeout) (wd_inner ?b)) ?b)\<lparr>wd_next := Reader_Return\<rparr>)"
    by (rule reader_step.break) simp
  moreover have "(with_inner (reader_end (Reader_Break Error_Timeout) (wd_inner ?b)) ?b)\<lparr>wd_next := Reader_Return\<rparr> =
      (sample_world sample_lost)\<lparr>wd_next := Reader_Return\<rparr>"
    by (simp add: reader_end_def sample_lost_def sample_world_def world_new_def connection_new_def with_inner_def)
  ultimately show ?thesis using world_reachable.step[OF _ world_step.reader] by metis
qed

lemma sample_world_terminal:
  obtains w where "world_reachable params_default [] w" "in_event_admission (wd_inner w) = Admission_Terminal"
proof -
  let ?w = "(sample_world sample_lost)\<lparr>wd_next := Reader_Return\<rparr>"
  let ?s = "without_spawned [] [] sample_lost"
  have i: "wd_inner ?w = sample_lost" by (simp add: sample_world_def)
  have m: "enumerates [2] (in_pending_submits ?s)" by (simp add: enumerates_def without_spawned_def sample_lost_fields)
  obtain d t where F: "fail_all_pending False [2] ?s = (d, t)" by force
  have one: "chunks 128 [SubmitDropped 2] = [[SubmitDropped 2]]" by (simp add: chunks.simps)
  have d: "d = Cleanup_Publish False [SubmitDropped 2] []" "in_heartbeat_pending t = Map.empty"
    using F by (auto simp: fail_all_pending_def drain_pending_def next_chunk_def remove_pending_def drop_pending_def
        unfinished_def without_spawned_def sample_lost_fields sample_pending_def SUBMIT_DROPPED_BATCH_SIZE_def
        depth_permit_new_n_def Let_def one)
  have t: "in_tasks t = []" "in_spool t = []" "in_spool_closed t = False"
    using chunk_step_start[OF F] by (simp_all add: chunk_step_def without_spawned_def sample_lost_fields)
  let ?v = "with_inner (with_task d t) ?w"
  have "event_step ?w ?v"
    by (rule event_step.cleanup_start[where xs = "[]" and ys = "[]" and fallback = False, OF _ _ _ m F])
      (simp_all only: i, simp_all add: sample_lost_fields without_spawned_def)
  then have v: "world_reachable params_default [] ?v"
    by (rule world_reachable.step[OF sample_world_lost world_step.events])
  let ?t = "without_spawned [] [] (with_task d t)"
  obtain e u where P: "publish_chunk False False [SubmitDropped 2] [] ?t = (e, u)" by force
  have u: "e = Cleanup_Finish" "in_tasks u = []" "in_heartbeat_pending u = Map.empty"
    using P d t by (auto simp: publish_chunk_def spool_try_send_def next_chunk_def without_spawned_def with_task_def
        EVENT_SPOOL_EMERGENCY_CAPACITY_def split: if_splits)
  let ?u = "with_inner (with_task e u) ?v"
  have "event_step ?v ?u"
    by (rule event_step.cleanup_publish[where xs = "[]" and ys = "[]", OF _ _ P]) (simp_all add: with_task_def t d)
  then have r: "world_reachable params_default [] ?u"
    by (rule world_reachable.step[OF v world_step.events])
  let ?e = "without_spawned [] [] (with_task e u)"
  have "event_step ?u (with_inner (cleanup_finish [] ?e) ?u)"
    by (rule event_step.cleanup_end[where xs = "[]" and ys = "[]"])
      (simp_all add: with_task_def u enumerates_def without_spawned_def)
  then have "world_reachable params_default [] (with_inner (cleanup_finish [] ?e) ?u)"
    by (rule world_reachable.step[OF r world_step.events])
  moreover have "in_event_admission (cleanup_finish [] ?e) = Admission_Terminal"
    by (rule cleanup_finish_cases[of ?e "[]"]) (simp_all add: same_pipe_def spool_ended_def)
  ultimately show ?thesis using that by simp
qed

section \<open>Properties\<close>

text \<open>
  C5: the tasks refine the event pipeline: whatever the callers, the writer, the reader, the timers, the
  close, the spawned tasks, the dispatcher and the consumer do, there is a run of the pipeline with the
  same shared state, dispatcher and channel and with the tickets that the tasks hold, and every further
  step of a task is a run of it; so every promise of the pipeline holds of the whole connection.
\<close>

theorem tasks_refine_pipeline:
  assumes "world_reachable params read_buf w"
  shows "\<exists>p. pipe_reachable params p \<and> carries w p \<and>
    (\<forall>v. world_step w v \<longrightarrow> (\<exists>q. pipe_step\<^sup>*\<^sup>* p q \<and> pipe_reachable params q \<and> carries v q))"
proof -
  obtain p where p: "pipe_reachable params p" "carries w p" using stream.refines[OF assms] by blast
  then show ?thesis using stream.related_step[OF assms] pipeline.reachable_run by meson
qed

theorem tasks_refine_pipeline_witness:
  "\<exists>p n. pipe_reachable params_default p \<and> pl_tickets p = [n] \<and> in_oneshots (pl_inner p) n = Unsent"
proof -
  obtain w n where w: "world_reachable params_default sample_read_ahead w" "world_tickets w = {#n#}"
    "n \<in> awaited (wd_dispatcher w) (wd_inner w)" "in_oneshots (wd_inner w) n = Unsent" by (rule sample_world_deliver)
  then obtain p where "pipe_reachable params_default p" "carries w p" using tasks_refine_pipeline[OF w(1)] by blast
  then show ?thesis using w by (intro exI[of _ p] exI[of _ n]) (auto simp: carries_def)
qed

text \<open>
  C9: no deferred event waits for a ticket that nobody holds. The counter of tickets that a graceful close
  waits for is exact: it counts the DELIVER responses in the control queue, in the writer's batch and with
  the reader, each ticket held once. As long as nothing has come through the one-shot of a place that the
  dispatcher waits for or will come to, one of these messages carries its ticket.
\<close>

theorem awaited_tickets_held:
  assumes "world_reachable params read_buf w"
  shows "in_event_tickets (wd_inner w) = size (world_tickets w) \<and> count (world_tickets w) n \<le> 1 \<and>
    (n \<in> awaited (wd_dispatcher w) (wd_inner w) \<longrightarrow> in_oneshots (wd_inner w) n = Unsent \<longrightarrow> n \<in># world_tickets w)"
proof -
  obtain p where p: "pipe_reachable params p" "carries w p" using stream.refines[OF assms] by blast
  note D = carriesD[OF p(2)]
  have T: "in_event_tickets (pl_inner p) = length (pl_tickets p)" "distinct (pl_tickets p)"
    using pipe_invD(3)[OF p(1)] by (simp_all add: ticket_inv_def Let_def)
  have "n \<in># world_tickets w" if "n \<in> awaited (wd_dispatcher w) (wd_inner w)" "in_oneshots (wd_inner w) n = Unsent"
    using held_reachable[OF p(1)] that by (simp add: held_inv_def D(1,2) flip: D(5))
  then show ?thesis using T by (simp add: D(1) distinct_count_atmost_1 flip: D(5))
qed

theorem awaited_tickets_held_witness:
  "\<exists>w n. world_reachable params_default sample_read_ahead w \<and> in_event_tickets (wd_inner w) = 1 \<and>
     n \<in> awaited (wd_dispatcher w) (wd_inner w) \<and> n \<in># world_tickets w"
proof -
  obtain w n where w: "world_reachable params_default sample_read_ahead w" "world_tickets w = {#n#}"
    "n \<in> awaited (wd_dispatcher w) (wd_inner w)" "in_oneshots (wd_inner w) n = Unsent" by (rule sample_world_deliver)
  then show ?thesis using awaited_tickets_held[OF w(1), of n] by auto
qed

text \<open>The reader starts to wait with the response to a DELIVER only when it has reserved the place of its event.\<close>

lemma read_buffered_deliver:
  assumes "read_buffered now elapsed buf r s = Some (Await_Deliver_Resp ob, buf', r', t)"
  shows "\<exists>k d u. read_deliver now elapsed k d u = (Await_Deliver_Resp ob, t)"
proof -
  obtain x rest where x: "codec_decode buf = (x, rest)" by force
  obtain fr where "read_frame now elapsed fr r s = (Await_Deliver_Resp ob, r', t)"
    using assms by (auto simp: read_buffered_def x split: if_splits res.splits option.splits prod.splits)
  then show ?thesis
    by (cases "fr_pdu fr") (auto simp: read_frame_def read_terminate_def Let_def split: if_splits prod.splits)
qed

lemma deliver_awaited:
  assumes "world_step w v" "wd_next v = Await_Deliver_Resp ob" "wd_next w \<noteq> wd_next v"
  shows "\<exists>now elapsed k d u. read_deliver now elapsed k d u = (Await_Deliver_Resp ob, wd_inner v)"
proof -
  have "reader_step w v"
    using assms by (cases rule: world_step.cases)
      (auto elim!: caller_step.cases writer_step.cases timer_step.cases close_step.cases event_step.cases)
  then show ?thesis
  proof (cases rule: reader_step.cases)
    case (buffered now elapsed nx buf r t)
    then have "nx = Await_Deliver_Resp ob" "wd_inner v = t" using assms(2) by simp_all
    then show ?thesis using buffered(3) read_buffered_deliver by (intro exI[of _ now] exI[of _ elapsed]) metis
  next
    case (read now elapsed outcome eof nx buf r t)
    then show ?thesis
      using assms(2) by (auto simp: read_socket_def split: read_outcome.splits option.splits if_splits prod.splits)
  next
    case (deliver_resp ob' timed_out nx t)
    then show ?thesis using assms(2) by (auto simp: await_deliver_resp_def split: sent.splits prod.splits if_splits)
  next
    case (active_test_resp ob' nx t)
    then show ?thesis using assms(2) by (auto simp: await_active_test_resp_def split: sent.splits prod.splits if_splits)
  next
    case (terminate_resp ob' n timed_out nx t)
    then show ?thesis using assms(2)
      by (auto simp: await_terminate_resp_def after_terminate_resp_def split: sent.splits prod.splits if_splits)
  next
    case (terminate_written n lost timed_out nx t)
    then show ?thesis using assms(2) by (auto simp: await_terminate_written_def after_terminate_resp_def split: if_splits)
  qed (use assms(2) in simp_all)
qed

text \<open>
  C31: a DELIVER is acknowledged before its event. When the reader takes one in, the place of its event is
  at the end of the event stream and empty, and the response it waits to send (same sequence and message id,
  result 0) carries the ticket of the place. Whatever task takes a step, an event comes through a ticket
  only in the step that ends a complete write of a batch with the response that carries this ticket and
  event; and after a write of such a batch each ticket in it has its event when the write was complete, and
  no sender any more otherwise, unless its receiver has gone.
\<close>

theorem deliver_acknowledged_first:
  assumes "world_reachable params read_buf w" "world_step w v"
  shows "(\<forall>ob. wd_next v = Await_Deliver_Resp ob \<longrightarrow> wd_next w \<noteq> wd_next v \<longrightarrow>
      (\<exists>k d since n items. ob = deliver_response k d since n \<and>
         in_spool (wd_inner v) = items @ [Spool_Event n] \<and> in_oneshots (wd_inner v) n = Unsent)) \<and>
    (\<forall>n e. in_oneshots (wd_inner v) n = Sent e \<longrightarrow> in_oneshots (wd_inner w) n \<noteq> Sent e \<longrightarrow>
      (\<exists>a batch now k d since. wd_writer w = Writer_Writing a batch \<and>
         after_write a batch (Write_Done now) (wd_inner w) = (True, wd_inner v) \<and>
         deliver_response k d since n \<in> set batch \<and> e = Event_Deliver d)) \<and>
    (\<forall>a batch outcome continue t k d since n. wd_writer w = Writer_Writing a batch \<longrightarrow>
       deliver_response k d since n \<in> set batch \<longrightarrow> after_write a batch outcome (wd_inner w) = (continue, t) \<longrightarrow>
       in_oneshots t n =
         (if in_oneshots (wd_inner w) n = Receiver_gone then Receiver_gone
          else case outcome of Write_Done now \<Rightarrow> Sent (Event_Deliver d) | _ \<Rightarrow> Sender_gone))"
proof -
  obtain p where p: "pipe_reachable params p" "carries w p" using stream.refines[OF assms(1)] by blast
  have response: "ob_event_after_write (deliver_response k d since n) = Some (n, Event_Deliver d)" for k d since n
    by (simp add: deliver_response_def outbound_event_after_write_def)
  have hand: "list_all answers (writer_hand (wd_writer w))" by (rule tasks_okD(2)[OF carriesD(6)[OF p(2)]])
  have "distinct (pl_tickets p)" using pipe_invD(3)[OF p(1)] by (simp add: ticket_inv_def Let_def)
  then have once: "count (tickets_in (writer_hand (wd_writer w))) n \<le> 1" for n
    using carriesD(5)[OF p(2)] distinct_count_atmost_1[of "pl_tickets p"]
    by (metis (no_types, lifting) add.commute count_union le_add1 le_trans world_tickets_def nle_le zero_le)
  have "\<exists>a batch now k d since. wd_writer w = Writer_Writing a batch \<and>
      after_write a batch (Write_Done now) (wd_inner w) = (True, wd_inner v) \<and>
      deliver_response k d since n \<in> set batch \<and> e = Event_Deliver d"
    if "in_oneshots (wd_inner v) n = Sent e" "in_oneshots (wd_inner w) n \<noteq> Sent e" for n e
  proof -
    have "(n, e) \<in> acknowledged w v" using world_published[OF assms(2) p(2)] that by (auto simp: published_in_def)
    then obtain a batch now where a: "wd_writer w = Writer_Writing a batch" "(n, e) \<in> written_events batch"
      "after_write a batch (Write_Done now) (wd_inner w) = (True, wd_inner v)" by (auto simp: acknowledged_def)
    then obtain ob where ob: "ob \<in> set batch" "ob_event_after_write ob = Some (n, e)" by (auto simp: written_events_def)
    then have "answers ob" using hand a(1) by (simp add: list_all_iff)
    then obtain k d since m where "ob = deliver_response k d since m" using ob(2) by (auto simp: answers_def silent_def)
    then show ?thesis using a ob response by auto
  qed
  moreover have "in_oneshots t n =
      (if in_oneshots (wd_inner w) n = Receiver_gone then Receiver_gone
       else case outcome of Write_Done now \<Rightarrow> Sent (Event_Deliver d) | _ \<Rightarrow> Sender_gone)"
    if "wd_writer w = Writer_Writing a batch" "deliver_response k d since n \<in> set batch"
      "after_write a batch outcome (wd_inner w) = (continue, t)" for a batch outcome continue t k d since n
  proof (rule write_fate[OF that(3)])
    show "(n, Event_Deliver d) \<in> written_events batch" unfolding written_events_def using that(2) response by blast
    show "count (tickets_in batch) n \<le> 1" using once[of n] that(1) by simp
  qed
  moreover have "\<exists>k d since n items. ob = deliver_response k d since n \<and>
      in_spool (wd_inner v) = items @ [Spool_Event n] \<and> in_oneshots (wd_inner v) n = Unsent"
    if "wd_next v = Await_Deliver_Resp ob" "wd_next w \<noteq> wd_next v" for ob
    using deliver_awaited[OF assms(2) that] deliver_reserved by meson
  ultimately show ?thesis by blast
qed

theorem deliver_acknowledged_first_witness:
  "\<exists>v k d since n. world_step (world_new (connection_new params_default sample_read_ahead)) v \<and>
     wd_next v = Await_Deliver_Resp (deliver_response k d since n) \<and> in_oneshots (wd_inner v) n = Unsent"
proof -
  let ?w = "world_new (connection_new params_default sample_read_ahead)"
  obtain v ob n where v: "world_step ?w v" "world_tickets v = {#n#}" "n \<in> awaited (wd_dispatcher v) (wd_inner v)"
    "in_oneshots (wd_inner v) n = Unsent" "wd_next v = Await_Deliver_Resp ob" by (rule sample_step_deliver)
  have "wd_next ?w \<noteq> wd_next v" by (simp add: v(5) world_new_def)
  then show ?thesis using deliver_acknowledged_first[OF world_reachable.start v(1)] v(1,5) by blast
qed

lemma clear_reachable:
  assumes "world_reachable params read_buf w" "0 < retry_count params"
  shows "clear_inv w"
  using assms(1)
proof (induction rule: world_reachable.induct)
  case start
  show ?case by (simp add: clear_inv_def clearing_def world_new_def connection_new_def inner_new_def Let_def)
next
  case (step w v)
  obtain p where p: "pipe_reachable params p" "carries w p" using stream.refines[OF step(1)] by blast
  obtain l where l: "life_reachable params l" "implements w l" using tasks.refines[OF step(1)] by blast
  obtain m where m: "life_step\<^sup>*\<^sup>* l m" "implements v m" using tasks.related_step[OF step(1) l step(2)] by blast
  have i: "lf_inner l = wd_inner w" "lf_inner m = wd_inner v" using l(2) m(2) by (simp_all add: implements_def shares_def)
  have keep: "in_phase (wd_inner v) \<noteq> Phase_Open \<and> (\<forall>k. \<not> unfinished (in_pending_submits (wd_inner v)) k)"
    if "clearing (wd_inner w)"
  proof -
    have "settled l" using step(3) that settled_pending[OF l(1) assms(2)] by (simp add: clear_inv_def i)
    then have "settled m" by (rule settled_run[OF m(1)])
    then show ?thesis using settled_pending[OF life.reachable_run[OF m(1) l(1)] assms(2)] by (simp add: i)
  qed
  show ?case
    using keep world_clearing[OF step(2) p(2)] event_clears[of w v] by (auto simp: clear_inv_def unfinished_def)
qed

text \<open>The clean-up that is due waits for nothing: its first step takes the pending SUBMITs out.\<close>

lemma finite_enumerates: "finite (dom m) \<Longrightarrow> \<exists>order. enumerates order m"
  using finite_distinct_list[of "dom m"] by (auto simp: enumerates_def)

lemma cleanup_possible:
  assumes "finite (dom (in_pending_submits (wd_inner w)))" "in_phase (wd_inner w) = Phase_Closed" "cleanup_due (wd_inner w)"
  obtains v where "event_step w v" "in_pending_submits (wd_inner v) = Map.empty" "in_phase (wd_inner v) = Phase_Closed"
proof -
  obtain fallback xs ys where t: "in_tasks (wd_inner w) = xs @ Cleanup fallback # ys"
    using assms(3) by (auto simp: cleanup_due_def dest: split_list)
  let ?s = "without_spawned xs ys (wd_inner w)"
  obtain order where o: "enumerates order (in_pending_submits ?s)"
    using finite_enumerates[OF assms(1)] by (auto simp: without_spawned_def)
  obtain d u where u: "fail_all_pending fallback order ?s = (d, u)" by force
  have s: "event_step w (with_inner (with_task d u) w)"
    by (rule event_step.cleanup_start[OF t refl _ o u]) (simp add: without_spawned_def assms(2))
  have "in_pending_submits u = Map.empty" "in_phase u = Phase_Closed"
    using clear_started[OF u o] chunk_step_start[OF u] assms(2) by (simp_all add: chunk_step_def without_spawned_def)
  then show thesis using that[OF s] by (simp add: with_task_def)
qed

lemma settled_worlds:
  assumes "world_step\<^sup>*\<^sup>* v u" "world_reachable params read_buf v" "0 < retry_count params"
    and "life_reachable params m" "implements v m" "settled m"
  shows "\<not> unfinished (in_pending_submits (wd_inner u)) k"
proof -
  have "\<exists>n. world_reachable params read_buf u \<and> life_reachable params n \<and> implements u n \<and> settled n"
    using assms(1)
  proof (induction rule: rtranclp_induct)
    case (step x y)
    then obtain n where n: "world_reachable params read_buf x" "life_reachable params n" "implements x n" "settled n" by blast
    obtain r where r: "life_step\<^sup>*\<^sup>* n r" "implements y r" using tasks.related_step[OF n(1-3) step.hyps(2)] by blast
    then show ?case
      using world_reachable.step[OF n(1) step.hyps(2)] life.reachable_run[OF r(1) n(2)] settled_run[OF r(1) n(4)] by blast
  qed (use assms in blast)
  then obtain n where "life_reachable params n" "settled n" "lf_inner n = wd_inner u"
    by (auto simp: implements_def shares_def)
  then show ?thesis using settled_pending[OF _ assms(3)] by simp
qed

text \<open>
  C8: \<open>Disconnected\<close> comes after every outcome. When the terminal item of the event stream has been queued,
  and so when the dispatcher has sent \<open>Disconnected\<close> and exited, the connection is closed, no SUBMIT waits
  for an outcome any more, and every SUBMIT that \<open>submit\<close> ever admitted has exactly one terminal outcome.
\<close>

theorem disconnected_after_outcomes:
  assumes "world_reachable params read_buf w" "0 < retry_count params"
    and "in_event_admission (wd_inner w) = Admission_Terminal \<or> wd_dispatcher w = D_Exited"
  shows "in_phase (wd_inner w) = Phase_Closed \<and> (\<forall>k. \<not> unfinished (in_pending_submits (wd_inner w)) k) \<and>
    (\<exists>l. life_reachable params l \<and> implements w l \<and>
       set (lf_admitted l) = snd ` set (lf_done l) \<and> distinct (map snd (lf_done l)))"
proof -
  obtain p where p: "pipe_reachable params p" "carries w p" using stream.refines[OF assms(1)] by blast
  obtain l where l: "life_reachable params l" "implements w l" using tasks.refines[OF assms(1)] by blast
  have T: "in_event_admission (wd_inner w) = Admission_Terminal" "in_phase (wd_inner w) = Phase_Closed"
    using pipe_invD(4)[OF p(1)] assms(3) carriesD(1,2)[OF p(2)] by (auto simp: term_inv_def Let_def split: if_splits)
  then have U: "\<not> unfinished (in_pending_submits (wd_inner w)) k" for k
    using clear_reachable[OF assms(1,2)] by (simp add: clear_inv_def clearing_def)
  moreover have "lf_inner l = wd_inner w" using l(2) by (simp add: implements_def shares_def)
  ultimately have "set (lf_admitted l) = snd ` set (lf_done l)" "distinct (map snd (lf_done l))"
    using life_reachable_facts(1)[OF l(1) assms(2)] by (simp_all add: core_inv_def)
  then show ?thesis using T(2) U l by blast
qed

theorem disconnected_after_outcomes_witness:
  "\<exists>w l. world_reachable params_default [] w \<and> in_event_admission (wd_inner w) = Admission_Terminal \<and>
     in_phase (wd_inner w) = Phase_Closed \<and> life_reachable params_default l \<and> implements w l \<and>
     set (lf_admitted l) = snd ` set (lf_done l)"
proof -
  obtain w where w: "world_reachable params_default [] w" "in_event_admission (wd_inner w) = Admission_Terminal"
    by (rule sample_world_terminal)
  then show ?thesis using disconnected_after_outcomes[OF w(1) sample_retries] by blast
qed

text \<open>
  C24: the close settles everything. On a closed connection either the clean-up that the close has spawned
  is still to run, and it can run at once, with no other task needed: its first step empties the map of
  pending SUBMITs; or it has run. From then on, whatever the tasks do, no SUBMIT waits for an outcome; every
  sequence ever admitted has exactly one; and the window is free but for the permits in the hands of
  \<open>submit\<close> calls that are still to end and the entries still held by a write under way.
\<close>

theorem close_settles_all:
  assumes "world_reachable params read_buf w" "0 < retry_count params" "in_phase (wd_inner w) = Phase_Closed"
  shows "\<exists>v. (if cleanup_due (wd_inner w) then event_step w v \<and> in_pending_submits (wd_inner v) = Map.empty else v = w) \<and>
    (\<forall>u. world_step\<^sup>*\<^sup>* v u \<longrightarrow> (\<forall>k. \<not> unfinished (in_pending_submits (wd_inner u)) k)) \<and>
    (\<exists>l. life_reachable params l \<and> implements v l \<and>
       set (lf_admitted l) = snd ` set (lf_done l) \<and> distinct (map snd (lf_done l))) \<and>
    in_window_available (wd_inner v) + card (dom (in_pending_submits (wd_inner v))) + size (calls_ready (wd_calls v)) =
      window_size params"
proof -
  obtain l where l: "life_reachable params l" "implements w l" using tasks.refines[OF assms(1)] by blast
  have i: "lf_inner l = wd_inner w" using l(2) by (simp add: implements_def shares_def)
  have "finite (dom (in_pending_submits (wd_inner w)))"
    using life_reachable_facts(1)[OF l(1) assms(2)] by (simp add: core_inv_def pend_inv_def i)
  note clean = cleanup_possible[OF this assms(3)]
  have C: "clear_inv w" by (rule clear_reachable[OF assms(1,2)])
  obtain v where v: "world_step\<^sup>*\<^sup>* w v" "in_phase (wd_inner v) = Phase_Closed"
    "\<forall>k. \<not> unfinished (in_pending_submits (wd_inner v)) k"
    "if cleanup_due (wd_inner w) then event_step w v \<and> in_pending_submits (wd_inner v) = Map.empty else v = w"
  proof (cases "cleanup_due (wd_inner w)")
    case True
    from clean[OF True] obtain v where "event_step w v" "in_pending_submits (wd_inner v) = Map.empty"
      "in_phase (wd_inner v) = Phase_Closed" .
    then show ?thesis using that[of v] True world_step.events[of w v] by (simp add: unfinished_def r_into_rtranclp)
  next
    case False
    then have "clearing (wd_inner w)" using assms(3) by (simp add: clearing_def)
    then show ?thesis using that[of w] False C assms(3) by (simp add: clear_inv_def)
  qed
  have rv: "world_reachable params read_buf v" using tasks.concrete.reachable_run[OF v(1) assms(1)] .
  obtain m where m: "life_reachable params m" "implements v m" using tasks.refines[OF rv] by blast
  have j: "lf_inner m = wd_inner v" "lf_permits m = 0" "mset (lf_ready m) = calls_ready (wd_calls v)"
    using m(2) by (simp_all add: implements_def shares_def)
  have "length (lf_ready m) = size (calls_ready (wd_calls v))" by (simp flip: j(3))
  then have core: "set (lf_admitted m) = snd ` set (lf_done m)" "distinct (map snd (lf_done m))"
    "in_window_available (wd_inner v) + card (dom (in_pending_submits (wd_inner v))) + size (calls_ready (wd_calls v)) =
      window_size params"
    using life_reachable_facts(1,2)[OF m(1) assms(2)] v(3) by (simp_all add: core_inv_def j)
  have "settled m" using settled_pending[OF m(1) assms(2)] v(2,3) by (simp add: j(1))
  have "\<not> unfinished (in_pending_submits (wd_inner u)) k" if u: "world_step\<^sup>*\<^sup>* v u" for u k
    using settled_worlds[OF u rv assms(2) m \<open>settled m\<close>] .
  then show ?thesis using v(4) core m by (intro exI[of _ v]) blast
qed

theorem close_settles_all_witness:
  "\<exists>w v. world_reachable params_default [] w \<and> in_pending_submits (wd_inner w) 2 \<noteq> None \<and> event_step w v \<and>
     in_pending_submits (wd_inner v) = Map.empty \<and>
     in_window_available (wd_inner v) + size (calls_ready (wd_calls v)) = 16"
proof -
  let ?w = "(sample_world sample_lost)\<lparr>wd_next := Reader_Return\<rparr>"
  have i: "wd_inner ?w = sample_lost" by (simp add: sample_world_def)
  have "cleanup_due (wd_inner ?w)" by (simp only: i) (auto simp: cleanup_due_def sample_lost_fields)
  moreover have "in_pending_submits (wd_inner ?w) 2 \<noteq> None" by (simp only: i) (simp add: sample_lost_fields)
  moreover have "in_phase (wd_inner ?w) = Phase_Closed" by (simp only: i) (simp add: sample_lost_fields)
  moreover have "window_size params_default = 16" by (simp add: params_default_def)
  ultimately obtain v where "event_step ?w v" "in_pending_submits (wd_inner v) = Map.empty"
    "in_window_available (wd_inner v) + size (calls_ready (wd_calls v)) = 16" "in_pending_submits (wd_inner ?w) 2 \<noteq> None"
    using close_settles_all[OF sample_world_lost sample_retries] by auto
  then show ?thesis using sample_world_lost by blast
qed

end
