(* ===== verification/Spec2Isabelle.thy ===== *)
theory Spec2Isabelle
  imports Cmpp_Codec Cmpp_Auth Cmpp_Config Cmpp_Submit Cmpp_Sequence Cmpp_Udh Cmpp_Guarantees
    Cmpp_Submits Cmpp_Contract Cmpp_Heartbeat Cmpp_Close Cmpp_Stream
begin

text \<open>
  A verification library for \<open>cmppprotocol\<close>, an asynchronous client of the short-message protocol
  CMPP 2.0 written in Rust.

  \<^bold>\<open>The program.\<close> A connection logs in to a gateway, then four worker tasks share one state (\<open>Inner\<close> of
  \<open>src/connection.rs\<close>): the writer sends batches from a queue of SUBMITs and a queue of control messages,
  the reader dispatches what arrives, the heartbeat task sends ACTIVE_TEST, the timeout task repeats or
  gives up what is not answered. Callers submit messages through a sliding window; every outcome reaches
  them as an event through a bounded spool and a dispatcher. \<open>src/pdu.rs\<close>, \<open>src/codec.rs\<close>, \<open>src/encoding.rs\<close>
  and \<open>src/submit.rs\<close> hold the wire format and the segmentation of long messages, \<open>src/config.rs\<close>,
  \<open>src/types.rs\<close> and \<open>src/error.rs\<close> the configuration, the constants and the errors.

  \<^bold>\<open>Conventions.\<close> Results are the three-way type \<open>res\<close>: a value, an error, or a panic, so that the absence
  of panics is a theorem and not an assumption. Machine integers keep their width, \<open>usize\<close> and durations
  are natural numbers (durations in nanoseconds), strings are lists of Unicode scalar values. Every
  \<open>async\<close> task is cut where it waits: a function ends with what the task waits for, and the next one goes
  on with the state it finds then. Critical sections under a lock are single functions. MD5, the GBK
  coder, the hasher and the outcomes of sockets and of the library's framing are parameters; the clock
  and the expiry of time limits are arguments.

  \<^bold>\<open>Theories.\<close>
  \<^item> \<open>Cmpp_Prelude\<close>, \<open>Cmpp_Strings\<close>, \<open>Cmpp_Types\<close>: results, lists, words; UTF-8 strings; constants and errors.
  \<^item> \<open>Cmpp_Wire\<close>, \<open>Cmpp_Pdu\<close>, \<open>Cmpp_Frame\<close>, \<open>Cmpp_Codec\<close>: the cursor of the decoders, every body, frames and
    the stream codec. A locale states the contract of a body (encoder and decoder inverse to each other,
    exact length, no panic) and is interpreted for each body.
  \<^item> \<open>Cmpp_Auth\<close>, \<open>Cmpp_Config\<close>: login digests, status report and message id; validation.
  \<^item> \<open>Cmpp_Encoding\<close>, \<open>Cmpp_Submit\<close>: character sets, segmentation and the SUBMITs of a message.
  \<^item> \<open>Cmpp_Btree\<close>, \<open>Cmpp_Sequence\<close>: ordered maps of retired ranges behind a locale, the sequence registry as a
    step relation with its leases.
  \<^item> \<open>Cmpp_Udh\<close>: the pool of concatenation references as a step relation with its leases and a clock.
  \<^item> \<open>Cmpp_Inner\<close>: the shared state, its phases and messages, the counters.
  \<^item> \<open>Cmpp_Events\<close>, \<open>Cmpp_Pipeline\<close>, \<open>Cmpp_Delivery\<close>, \<open>Cmpp_Guarantees\<close>: admission of events, spool, tickets,
    closing, clean-up and dispatcher; all their interleavings as a step relation; the invariant that
    follows every event; what consumers may rely on.
  \<^item> \<open>Cmpp_Window\<close>: the critical sections of \<open>submit\<close>, of the claim and completion of attempts, of responses,
    time-outs and heartbeats.
  \<^item> \<open>Cmpp_Lifecycle\<close>, \<open>Cmpp_Invariant\<close>, \<open>Cmpp_Attempts\<close>, \<open>Cmpp_Submits\<close>: their interleavings as a step
    relation with ghost fields (permits and leases that tasks hold, sequences admitted, attempts claimed,
    outcomes); the invariant of the registry, window and map; that of the attempts; the guarantees.
  \<^item> \<open>Cmpp_Caller\<close>: a call of \<open>submit\<close> as a task that waits for its manual batch, and for the window and a
    queue slot with each segment; what it reports. \<open>Cmpp_Calls\<close>: its turns as runs of the life cycle.
  \<^item> \<open>Cmpp_Writer\<close>, \<open>Cmpp_Reader\<close>, \<open>Cmpp_Heartbeat\<close>: the tasks themselves.
  \<^item> \<open>Cmpp_Connection\<close>, \<open>Cmpp_Close\<close>: handles, workers and the login; the graceful close, the takeover and the
    reaping as a task of waits.
  \<^item> \<open>Cmpp_System\<close>, \<open>Cmpp_Contract\<close>: locales for transition systems and their simulation; the contract of a
    SUBMIT as an abstract machine, which the life cycle refines.
  \<^item> \<open>Cmpp_Tasks\<close>: the whole connection as one step relation over the functions of callers, writer, reader,
    timers, close, spawned tasks, dispatcher and consumer, with what each holds between two waits. It is a
    closed system: nothing but these functions changes the shared state. \<open>Cmpp_Quiet\<close>, \<open>Cmpp_Evolution\<close> and
    \<open>Cmpp_Runs\<close> show that their operations are runs of the life cycle, \<open>Cmpp_Refinement\<close> that the tasks refine
    it, and \<open>Cmpp_Composition\<close> what follows for the whole connection.
  \<^item> \<open>Cmpp_Feed\<close>, \<open>Cmpp_Stream\<close>: the same for the events. The operations of the other tasks are runs of the event
    pipeline that move tickets between hands and queues; the tasks refine the pipeline; and what follows
    from both refinements together.

  \<^bold>\<open>What is shown.\<close> The codec is a lossless, total and length-exact pair for whole streams, however cut.
  Segmentation is lossless and bounded. No sequence identifier or concatenation reference is issued
  while it may still be in use. Every admitted SUBMIT has one terminal outcome, is sent at most as often
  as the retry count allows, is never stuck while the connection is open, and is settled when it closes;
  the window is conserved. A call of \<open>submit\<close> reports exactly the segments it admitted, also when it fails
  half-way. The tasks refine this life cycle, and the life cycle an abstract contract; no
  identifier is in use twice among SUBMITs, heartbeats and TERMINATE. The tasks refine the event pipeline
  as well, in which events arrive in order, at most once, and all are accounted for; no deferred event
  waits for a ticket that nobody holds, an event of a DELIVER comes through its ticket only with the complete
  write of the response, and \<open>Disconnected\<close> is sent only when every admitted SUBMIT is settled. The stream
  ends with exactly one terminal item, which has the reason of the close. On a closed connection the
  clean-up that settles the SUBMITs is due or done, and waits for nobody. Batches keep the order and the
  limits. A login succeeds exactly when the gateway proves the shared secret. Closing ends.

  \<^bold>\<open>Bounds.\<close> The only fuel is that of \<open>drain\<close> in \<open>Cmpp_Codec\<close>, the loop that decodes a buffer: it gets one
  more than the length of the buffer, and every frame takes twelve bytes. \<open>reserve_next\<close> terminates by the
  number of identifiers left. A run of the close task ends after twelve expired waits, the number of its
  waits; the other loops of the tasks are step relations.

  \<^bold>\<open>Choices.\<close> The maps of the standard library are enumerated in an arbitrary order, an argument of the
  functions that depend on it. Locks are never poisoned, counters in memory wrap as in Rust. The step
  relations of the life cycle and of the pipeline let the rest of the connection act arbitrarily on the
  fields their theorems do not speak of (\<open>same_life\<close>, \<open>beside\<close>), so that the groups can be read side by
  side; the step relation of the tasks has no such step, and its refinements show that none is missing.
  The end of the writer, which closes both outbound queues, is a flag of the shared state
  (\<open>in_queues_closed\<close>); what callers and tasks do then is modelled, although they meet it only on a
  connection that is closed already.

  \<^bold>\<open>Granularity.\<close> The code of a task between two of its waits is one step, also where it takes several locks
  one after the other: the matching and the publishing of a batch of responses, a scan for time-outs, and
  \<open>finish\<close>, which reads its reason and changes the phase in one step. Every wait of the graceful close has a
  time-out of its own, where the program has one limit for the sending and the writing of the drain marker
  and one for the exchange of TERMINATE: the model has more runs than the program, which matters to none of
  the theorems on safety and only makes the bound of twelve expired waits weaker.

  The accounting of events leaves out runs in which the fallback clean-up of \<open>reap_background_tasks\<close> has
  begun: there, batches of the first clean-up may be accepted behind the terminal item and be lost.

  \<^bold>\<open>Not modelled.\<close> \<open>src/lib.rs\<close> (re-exports), the text of log lines with \<open>hex_bytes\<close> and
  \<open>log_submit_timeout_batch\<close>, back-off intervals and capacities of buffers, the fairness of the runtime,
  tests, examples and benchmarks.
\<close>

end
